(* ===== verification/Vstr_Prelude.thy ===== *)
theory Vstr_Prelude
  imports Main "HOL-Library.Word"
begin

text \<open>
  Shared vocabulary of the development: the byte and position types, the collections of
  rewrite rules the component proofs use, and the generic facts about lists that the
  components need (sums of lengths, insertion and deletion in the middle of a list,
  walking a list of chunks to a position).
\<close>

section \<open>Types and rule collections\<close>

type_synonym byte = "8 word"

text \<open>
  A position of a Vstr string holds either a byte or, inside a \<^verbatim>\<open>VSTR_TYPE_NODE_NON\<close>
  node, nothing at all: the abstract content is a list of optional bytes.
\<close>

type_synonym content = "byte option list"

named_theorems node_simps \<open>rewrite rules for nodes, their lengths and their data\<close>
named_theorems wf_intros \<open>introduction rules for the well-formedness predicates\<close>
named_theorems frame_simps \<open>what an operation leaves unchanged\<close>

text \<open>\<^verbatim>\<open>UINT_MAX\<close> on the modelled platform, the upper end passed to every spare-node range.\<close>

definition UINT_MAX :: nat where
  "UINT_MAX = 2 ^ 32 - 1"

definition SIZE_MOD :: int where
  "SIZE_MOD = 2 ^ 64"

text \<open>Unsigned subtraction of two \<^verbatim>\<open>size_t\<close> values, with the wrap-around of C.\<close>

definition size_sub :: "nat \<Rightarrow> nat \<Rightarrow> nat" where
  "size_sub a b = nat ((int a - int b) mod SIZE_MOD)"

lemma size_sub_le: "b \<le> a \<Longrightarrow> a < 2 ^ 64 \<Longrightarrow> size_sub a b = a - b"
  by (simp add: size_sub_def SIZE_MOD_def flip: of_nat_diff)

lemma size_sub_wrap:
  assumes "a < b" "b \<le> 2 ^ 64"
  shows "size_sub a b = 2 ^ 64 - (b - a)"
proof -
  have "(int a - int b) mod SIZE_MOD = (int a - int b + SIZE_MOD) mod SIZE_MOD"
    by simp
  also have "\<dots> = int a - int b + SIZE_MOD"
    using assms by (intro mod_pos_pos_trivial) (auto simp: SIZE_MOD_def)
  finally show ?thesis
    using assms by (simp add: size_sub_def SIZE_MOD_def nat_eq_iff)
qed

text \<open>The same for \<^verbatim>\<open>unsigned int\<close>.\<close>

definition uint_sub :: "nat \<Rightarrow> nat \<Rightarrow> nat" where
  "uint_sub a b = nat ((int a - int b) mod 2 ^ 32)"

lemma uint_sub_le: "b \<le> a \<Longrightarrow> a < 2 ^ 32 \<Longrightarrow> uint_sub a b = a - b"
  by (simp add: uint_sub_def flip: of_nat_diff)

section \<open>Lists\<close>

text \<open>Insertion before index \<open>p\<close> and deletion of \<open>n\<close> elements from index \<open>p\<close>.\<close>

definition ins_at :: "nat \<Rightarrow> 'a list \<Rightarrow> 'a list \<Rightarrow> 'a list" where
  "ins_at p xs ys = take p ys @ xs @ drop p ys"

definition del_at :: "nat \<Rightarrow> nat \<Rightarrow> 'a list \<Rightarrow> 'a list" where
  "del_at p n ys = take p ys @ drop (p + n) ys"

lemma length_ins_at [simp]: "length (ins_at p xs ys) = length xs + length ys"
  by (simp add: ins_at_def)

lemma length_del_at [simp]: "p + n \<le> length ys \<Longrightarrow> length (del_at p n ys) = length ys - n"
  by (simp add: del_at_def)

lemma del_at_ins_at [simp]: "p \<le> length ys \<Longrightarrow> del_at p (length xs) (ins_at p xs ys) = ys"
  by (simp add: del_at_def ins_at_def)

lemma ins_at_end [simp]: "ins_at (length ys) xs ys = ys @ xs"
  by (simp add: ins_at_def)

lemma ins_at_0 [simp]: "ins_at 0 xs ys = xs @ ys"
  by (simp add: ins_at_def)

lemma ins_at_Nil [simp]: "ins_at p [] ys = ys"
  by (simp add: ins_at_def)

lemma del_at_0 [simp]: "del_at p 0 ys = ys"
  by (simp add: del_at_def)

lemma ins_at_append_mid: "p = length as \<Longrightarrow> ins_at p xs (as @ bs) = as @ xs @ bs"
  by (simp add: ins_at_def)

lemma del_at_append_mid:
  "p = length as \<Longrightarrow> n = length xs \<Longrightarrow> del_at p n (as @ xs @ bs) = as @ bs"
  by (simp add: del_at_def)

lemma take_drop_split: "p + n \<le> length ys \<Longrightarrow>
    ys = take p ys @ take n (drop p ys) @ drop (p + n) ys"
  by (metis append_take_drop_id drop_drop add.commute)

lemma list_update_nth_split:
  "i < length xs \<Longrightarrow> xs[i := x] = take i xs @ x # drop (Suc i) xs"
  by (rule upd_conv_take_nth_drop)

lemma nth_split: "i < length xs \<Longrightarrow> xs = take i xs @ xs ! i # drop (Suc i) xs"
  by (rule id_take_nth_drop)

lemma sum_list_take_le: "sum_list (take k (xs :: nat list)) \<le> sum_list xs"
  by (metis append_take_drop_id le_add1 sum_list_append)

lemma sum_list_take_Suc:
  "k < length xs \<Longrightarrow> sum_list (take (Suc k) xs) = sum_list (take k xs) + (xs ! k :: nat)"
  by (simp add: take_Suc_conv_app_nth)

lemma sum_list_last: "xs \<noteq> [] \<Longrightarrow> sum_list xs = sum_list (butlast xs) + (last xs :: nat)"
  by (metis append_butlast_last_id sum_list.Cons sum_list.Nil sum_list_append add.right_neutral)

lemma butlast_take_length: "take (length xs - 1) xs = butlast xs"
  by (simp add: butlast_conv_take)

lemma drop_concat_lens:
  "length (concat (take k xss)) = sum_list (map length (take k xss))"
  by (simp add: length_concat)

end
