(* ===== verification/Vstr_Types.thy ===== *)
theory Vstr_Types
  imports Vstr_Prelude
begin

text \<open>
  The data of the library (include/vstr-def.h): nodes, references, configurations, the
  per-string caches and the string object \<^verbatim>\<open>Vstr_base\<close>, with the abstraction of a string
  to its content.

  Pointers to memory the library only reads are modelled by what can be read through
  them: a \<open>cptr\<close> is a block identity, the bytes of that block and an offset into it, so that
  pointer comparison is comparison of block and offset. A linked list of nodes is a list;
  every node carries the identity of its allocation, which is what a node pointer is
  compared by. Lengths, positions and counters are natural numbers; where the code relies
  on the wrap-around of \<^verbatim>\<open>size_t\<close> it is written out.
\<close>

section \<open>Memory\<close>

datatype cptr = Cptr (cp_blk: nat) (cp_mem: "byte list") (cp_off: nat)

definition cptr_add :: "cptr \<Rightarrow> nat \<Rightarrow> cptr" where
  "cptr_add p n = Cptr (cp_blk p) (cp_mem p) (cp_off p + n)"

definition cptr_eq :: "cptr \<Rightarrow> cptr \<Rightarrow> bool" where
  "cptr_eq p q \<longleftrightarrow> cp_blk p = cp_blk q \<and> cp_off p = cp_off q"

definition cptr_read :: "cptr \<Rightarrow> nat \<Rightarrow> byte list" where
  "cptr_read p n = take n (drop (cp_off p) (cp_mem p))"

definition cptr_valid :: "cptr \<Rightarrow> nat \<Rightarrow> bool" where
  "cptr_valid p n \<longleftrightarrow> cp_off p + n \<le> length (cp_mem p)"

text \<open>
  \<^verbatim>\<open>struct Vstr_ref\<close>: the identity of the reference and the memory its \<^verbatim>\<open>ptr\<close> points to. The
  counter \<^verbatim>\<open>ref->ref\<close> is mutable and shared by all holders, so it lives in the heap.
\<close>

datatype vstr_ref = Vstr_ref (ref_id: nat) (ref_ptr: "byte list")

text \<open>
  The allocator. \<open>mk_fail k\<close> says whether the \<open>k\<close>-th allocation fails, \<open>mk_cnt\<close> counts the
  allocations made; the identity of an allocation is its number. \<open>ref_cnt\<close> holds the counters
  of the references, \<open>ref_freed\<close> the references whose \<^verbatim>\<open>func\<close> callback has run.
\<close>

record vstr_heap =
  mk_fail :: "nat \<Rightarrow> bool"
  mk_cnt :: nat
  ref_cnt :: "nat \<Rightarrow> nat"
  ref_freed :: "nat list"

definition VSTR_MK :: "vstr_heap \<Rightarrow> nat option \<times> vstr_heap" where
  "VSTR_MK h =
     (if mk_fail h (mk_cnt h) then None else Some (mk_cnt h), h\<lparr>mk_cnt := Suc (mk_cnt h)\<rparr>)"

definition vstr_ref_add :: "vstr_ref \<Rightarrow> vstr_heap \<Rightarrow> vstr_heap" where
  "vstr_ref_add r h = h\<lparr>ref_cnt := (ref_cnt h)(ref_id r := ref_cnt h (ref_id r) + 1)\<rparr>"

definition vstr_ref_del :: "vstr_ref option \<Rightarrow> vstr_heap \<Rightarrow> vstr_heap" where
  "vstr_ref_del ro h =
     (case ro of None \<Rightarrow> h
      | Some r \<Rightarrow>
          let n = ref_cnt h (ref_id r) - 1; h' = h\<lparr>ref_cnt := (ref_cnt h)(ref_id r := n)\<rparr>
          in if n = 0 then h'\<lparr>ref_freed := ref_id r # ref_freed h'\<rparr> else h')"

section \<open>Nodes\<close>

datatype ntype = NODE_BUF | NODE_NON | NODE_PTR | NODE_REF

text \<open>
  \<^verbatim>\<open>struct Vstr_node\<close> and the four structures that extend it. A \<^verbatim>\<open>BUF\<close> node holds the first
  \<^verbatim>\<open>len\<close> bytes of its buffer, whose capacity is \<^verbatim>\<open>conf->buf_sz\<close>.
\<close>

datatype vstr_node =
    Node_buf (node_id: nat) "byte list"
  | Node_non (node_id: nat) nat
  | Node_ptr (node_id: nat) cptr nat
  | Node_ref (node_id: nat) vstr_ref nat nat

definition VSTR_MAX_NODE_BUF :: nat where
  "VSTR_MAX_NODE_BUF = 0xFFFF"

definition VSTR_MAX_NODE_ALL :: nat where
  "VSTR_MAX_NODE_ALL = 0xFFFFFFF"

primrec node_len :: "vstr_node \<Rightarrow> nat" where
  "node_len (Node_buf i b) = length b"
| "node_len (Node_non i n) = n"
| "node_len (Node_ptr i p n) = n"
| "node_len (Node_ref i r off n) = n"

primrec node_type :: "vstr_node \<Rightarrow> ntype" where
  "node_type (Node_buf i b) = NODE_BUF"
| "node_type (Node_non i n) = NODE_NON"
| "node_type (Node_ptr i p n) = NODE_PTR"
| "node_type (Node_ref i r off n) = NODE_REF"

text \<open>\<^verbatim>\<open>node->len = n\<close> with \<open>n\<close> at most the current length.\<close>

primrec node_set_len :: "nat \<Rightarrow> vstr_node \<Rightarrow> vstr_node" where
  "node_set_len k (Node_buf i b) = Node_buf i (take k b)"
| "node_set_len k (Node_non i n) = Node_non i k"
| "node_set_len k (Node_ptr i p n) = Node_ptr i p k"
| "node_set_len k (Node_ref i r off n) = Node_ref i r off k"

text \<open>
  The bytes readable through \<^verbatim>\<open>vstr_export__node_ptr(node)\<close> (include/vstr-inline.h): the
  buffer, the memory behind the pointer, the memory of the reference from the offset on;
  a \<^verbatim>\<open>NON\<close> node has no memory and the function returns \<^verbatim>\<open>NULL\<close>.
\<close>

primrec node_bytes :: "vstr_node \<Rightarrow> byte list option" where
  "node_bytes (Node_buf i b) = Some b"
| "node_bytes (Node_non i n) = None"
| "node_bytes (Node_ptr i p n) = Some (cptr_read p n)"
| "node_bytes (Node_ref i r off n) = Some (take n (drop off (ref_ptr r)))"

text \<open>
  The same pointer as a value: what the iovec array stores. An offset is added to it when
  the first node has consumed bytes (\<^verbatim>\<open>base->used\<close>).
\<close>

datatype nptr = NP_null | NP_buf nat nat | NP_mem cptr | NP_ref vstr_ref nat

primrec vstr_export__node_ptr :: "vstr_node \<Rightarrow> nptr" where
  "vstr_export__node_ptr (Node_buf i b) = NP_buf i 0"
| "vstr_export__node_ptr (Node_non i n) = NP_null"
| "vstr_export__node_ptr (Node_ptr i p n) = NP_mem p"
| "vstr_export__node_ptr (Node_ref i r off n) = NP_ref r off"

primrec nptr_add :: "nptr \<Rightarrow> nat \<Rightarrow> nptr" where
  "nptr_add NP_null k = NP_null"
| "nptr_add (NP_buf i o') k = NP_buf i (o' + k)"
| "nptr_add (NP_mem p) k = NP_mem (cptr_add p k)"
| "nptr_add (NP_ref r o') k = NP_ref r (o' + k)"

text \<open>The content of a node.\<close>

definition node_data :: "vstr_node \<Rightarrow> content" where
  "node_data n = (case node_bytes n of None \<Rightarrow> replicate (node_len n) None | Some b \<Rightarrow> map Some b)"

section \<open>Configurations, caches and strings\<close>

text \<open>
  The part of \<^verbatim>\<open>struct Vstr_conf\<close> that the string operations use: the four pools of spare
  nodes (a counter and a linked list each), the sizes, the flags, the reference counts.
\<close>

record vstr_conf =
  spare_buf_num :: nat
  spare_buf_beg :: "nat list"
  spare_non_num :: nat
  spare_non_beg :: "nat list"
  spare_ptr_num :: nat
  spare_ptr_beg :: "nat list"
  spare_ref_num :: nat
  spare_ref_beg :: "nat list"
  iov_min_alloc :: nat
  iov_min_offset :: nat
  buf_sz :: nat
  malloc_bad :: bool
  split_buf_del :: bool
  heap :: vstr_heap

text \<open>\<^verbatim>\<open>struct Vstr__cache_data_pos\<close>: a position, the number and the identity of its node.\<close>

record cache_data_pos =
  pd_pos :: nat
  pd_num :: nat
  pd_node :: "nat option"

text \<open>\<^verbatim>\<open>struct Vstr__cache_data_iovec\<close>: the arrays \<^verbatim>\<open>v\<close> and \<^verbatim>\<open>t\<close>, the offset and the size.\<close>

record cache_data_iovec =
  iov_v :: "(nptr \<times> nat) list"
  iov_t :: "ntype list"
  iov_off :: nat
  iov_sz :: nat

text \<open>\<^verbatim>\<open>struct Vstr__cache_data_cstr\<close>.\<close>

record cache_data_cstr =
  cd_pos :: nat
  cd_len :: nat
  cd_ref :: "vstr_ref option"
  cd_sz :: nat
  cd_off :: nat

text \<open>
  \<^verbatim>\<open>struct Vstr__cache\<close>: the number of slots and the three internal ones; \<open>None\<close> is a \<^verbatim>\<open>NULL\<close> slot. The slots of
  caches registered by the user hold opaque data and are not part of the model.
\<close>

record vstr_cache =
  cache_sz :: nat
  cache_pos :: "cache_data_pos option"
  cache_vec :: "cache_data_iovec option"
  cache_cstr :: "cache_data_cstr option"

text \<open>\<^verbatim>\<open>struct Vstr_base\<close>: \<^verbatim>\<open>beg\<close> and the \<^verbatim>\<open>next\<close> pointers are the list, \<^verbatim>\<open>end\<close> is its last node.\<close>

record vstr_base =
  b_len :: nat
  b_nodes :: "vstr_node list"
  b_num :: nat
  b_conf :: vstr_conf
  b_used :: nat
  iovec_upto_date :: bool
  cache_available :: bool
  cache_internal :: bool
  node_buf_used :: bool
  node_non_used :: bool
  node_ptr_used :: bool
  node_ref_used :: bool
  b_cache :: vstr_cache

text \<open>The content of a string: the data of its nodes without the bytes already consumed.\<close>

definition vstr_data :: "vstr_base \<Rightarrow> content" where
  "vstr_data base = drop (b_used base) (concat (map node_data (b_nodes base)))"

section \<open>Well-formedness\<close>

definition node_ok :: "nat \<Rightarrow> vstr_node \<Rightarrow> bool" where
  "node_ok bsz n \<longleftrightarrow> 0 < node_len n \<and>
     (case n of Node_buf i b \<Rightarrow> length b \<le> bsz
      | Node_non i k \<Rightarrow> k \<le> VSTR_MAX_NODE_ALL
      | Node_ptr i p k \<Rightarrow> k \<le> VSTR_MAX_NODE_ALL \<and> cptr_valid p k
      | Node_ref i r off k \<Rightarrow> k \<le> VSTR_MAX_NODE_ALL \<and> off + k \<le> length (ref_ptr r))"

text \<open>
  \<^verbatim>\<open>vstr__check_spare_nodes()\<close> (src/vstr.c): each counter is the length of its list. The type
  of a spare node is that of the pool it is in, so the type assertions have no counterpart.
\<close>

definition vstr__check_spare_nodes :: "vstr_conf \<Rightarrow> bool" where
  "vstr__check_spare_nodes c \<longleftrightarrow>
     length (spare_buf_beg c) = spare_buf_num c \<and> length (spare_non_beg c) = spare_non_num c \<and>
     length (spare_ptr_beg c) = spare_ptr_num c \<and> length (spare_ref_beg c) = spare_ref_num c"

text \<open>\<^verbatim>\<open>vstr__check_real_nodes()\<close> (src/vstr.c), without its checks of the caches.\<close>

definition vstr__check_real_nodes :: "vstr_base \<Rightarrow> bool" where
  "vstr__check_real_nodes base \<longleftrightarrow>
     (b_used base \<noteq> 0 \<longrightarrow> b_nodes base \<noteq> [] \<and> b_used base < node_len (hd (b_nodes base)) \<and>
        node_type (hd (b_nodes base)) = NODE_BUF) \<and>
     (\<forall>n \<in> set (b_nodes base). 0 < node_len n) \<and>
     (\<forall>n \<in> set (b_nodes base).
        (node_type n = NODE_BUF \<longrightarrow> node_buf_used base) \<and>
        (node_type n = NODE_NON \<longrightarrow> node_non_used base) \<and>
        (node_type n = NODE_PTR \<longrightarrow> node_ptr_used base) \<and>
        (node_type n = NODE_REF \<longrightarrow> node_ref_used base)) \<and>
     sum_list (map node_len (b_nodes base)) - b_used base = b_len base \<and>
     length (b_nodes base) = b_num base"

text \<open>
  The invariant of a string: the checks of the debug build, the bounds on every node that the
  memory accesses need, and a usable buffer size.
\<close>

definition wf_base :: "vstr_base \<Rightarrow> bool" where
  "wf_base base \<longleftrightarrow> vstr__check_real_nodes base \<and> vstr__check_spare_nodes (b_conf base) \<and>
     (\<forall>n \<in> set (b_nodes base). node_ok (buf_sz (b_conf base)) n) \<and> 0 < buf_sz (b_conf base)"

section \<open>Facts about nodes\<close>

lemma cptr_read_length: "cptr_valid p n \<Longrightarrow> length (cptr_read p n) = n"
  by (simp add: cptr_read_def cptr_valid_def)

lemma node_data_simps [simp]:
  "node_data (Node_buf i b) = map Some b"
  "node_data (Node_non i n) = replicate n None"
  "node_data (Node_ptr i p n) = map Some (cptr_read p n)"
  "node_data (Node_ref i r off n) = map Some (take n (drop off (ref_ptr r)))"
  by (simp_all add: node_data_def)

lemma node_ok_simps [node_simps]:
  "node_ok z (Node_buf i b) \<longleftrightarrow> b \<noteq> [] \<and> length b \<le> z"
  "node_ok z (Node_non i n) \<longleftrightarrow> 0 < n \<and> n \<le> VSTR_MAX_NODE_ALL"
  "node_ok z (Node_ptr i p n) \<longleftrightarrow> 0 < n \<and> n \<le> VSTR_MAX_NODE_ALL \<and> cptr_valid p n"
  "node_ok z (Node_ref i r off n) \<longleftrightarrow>
     0 < n \<and> n \<le> VSTR_MAX_NODE_ALL \<and> off + n \<le> length (ref_ptr r)"
  by (auto simp: node_ok_def)

lemma node_data_length: "node_ok z n \<Longrightarrow> length (node_data n) = node_len n"
  by (cases n) (auto simp: node_simps cptr_read_length)

lemma nodes_data_length:
  "\<forall>n \<in> set ns. node_ok z n \<Longrightarrow> length (concat (map node_data ns)) = sum_list (map node_len ns)"
  by (induction ns) (auto simp: node_data_length)

lemma node_set_len_id [simp]: "node_id (node_set_len k n) = node_id n"
  by (cases n) auto

lemma node_set_len_type [simp]: "node_type (node_set_len k n) = node_type n"
  by (cases n) auto

lemma node_set_len_len: "k \<le> node_len n \<Longrightarrow> node_len (node_set_len k n) = k"
  by (cases n) auto

lemma node_set_len_data:
  "k \<le> node_len n \<Longrightarrow> node_data (node_set_len k n) = take k (node_data n)"
  by (cases n) (auto simp: cptr_read_def take_map min_def)

lemma node_set_len_ok: "node_ok z n \<Longrightarrow> 0 < k \<Longrightarrow> k \<le> node_len n \<Longrightarrow> node_ok z (node_set_len k n)"
  by (cases n) (auto simp: node_simps cptr_valid_def)

lemma wf_base_nodes_ok: "wf_base b \<Longrightarrow> n \<in> set (b_nodes b) \<Longrightarrow> node_ok (buf_sz (b_conf b)) n"
  by (simp add: wf_base_def)

lemma wf_base_used_le: "wf_base b \<Longrightarrow> b_used b \<le> sum_list (map node_len (b_nodes b))"
  by (cases "b_nodes b") (auto simp: wf_base_def vstr__check_real_nodes_def)

lemma wf_base_sum: "wf_base b \<Longrightarrow> sum_list (map node_len (b_nodes b)) = b_len b + b_used b"
  using wf_base_used_le [of b] by (auto simp: wf_base_def vstr__check_real_nodes_def)

lemma vstr_data_length: "wf_base b \<Longrightarrow> length (vstr_data b) = b_len b"
proof -
  assume wf: "wf_base b"
  then have "length (concat (map node_data (b_nodes b))) = b_len b + b_used b"
    using nodes_data_length [of "b_nodes b" "buf_sz (b_conf b)"] wf_base_sum [OF wf]
    by (simp add: wf_base_def)
  then show ?thesis by (simp add: vstr_data_def)
qed

section \<open>The invariant in the form the proofs use\<close>

abbreviation nodes_data :: "vstr_node list \<Rightarrow> content" where
  "nodes_data ns \<equiv> concat (map node_data ns)"

abbreviation nodes_len :: "vstr_node list \<Rightarrow> nat" where
  "nodes_len ns \<equiv> sum_list (map node_len ns)"

definition flag_of :: "vstr_base \<Rightarrow> ntype \<Rightarrow> bool" where
  "flag_of b t = (case t of NODE_BUF \<Rightarrow> node_buf_used b | NODE_NON \<Rightarrow> node_non_used b
                  | NODE_PTR \<Rightarrow> node_ptr_used b | NODE_REF \<Rightarrow> node_ref_used b)"

lemma flag_of_frame [frame_simps, simp]:
  "flag_of (b\<lparr>b_nodes := x1\<rparr>) t = flag_of b t" "flag_of (b\<lparr>b_conf := x2\<rparr>) t = flag_of b t"
  "flag_of (b\<lparr>b_len := x3\<rparr>) t = flag_of b t" "flag_of (b\<lparr>b_num := x4\<rparr>) t = flag_of b t"
  "flag_of (b\<lparr>b_used := x5\<rparr>) t = flag_of b t" "flag_of (b\<lparr>b_cache := x6\<rparr>) t = flag_of b t"
  "flag_of (b\<lparr>iovec_upto_date := x7\<rparr>) t = flag_of b t"
  "flag_of (b\<lparr>cache_internal := x8\<rparr>) t = flag_of b t"
  by (simp_all add: flag_of_def split: ntype.split)

definition used_ok :: "nat \<Rightarrow> vstr_node list \<Rightarrow> bool" where
  "used_ok u ns \<longleftrightarrow> u = 0 \<or> (\<exists>i bs ns'. ns = Node_buf i bs # ns' \<and> u < length bs)"

lemma wf_base_iff:
  "wf_base b \<longleftrightarrow> used_ok (b_used b) (b_nodes b) \<and>
     (\<forall>n \<in> set (b_nodes b). node_ok (buf_sz (b_conf b)) n \<and> flag_of b (node_type n)) \<and>
     nodes_len (b_nodes b) = b_len b + b_used b \<and> length (b_nodes b) = b_num b \<and>
     vstr__check_spare_nodes (b_conf b) \<and> 0 < buf_sz (b_conf b)" (is "?L \<longleftrightarrow> ?R")
proof
  assume L: ?L
  have "used_ok (b_used b) (b_nodes b)"
  proof (cases "b_used b = 0")
    case False
    then obtain n ns where n: "b_nodes b = n # ns" "b_used b < node_len n" "node_type n = NODE_BUF"
      using L by (cases "b_nodes b") (auto simp: wf_base_def vstr__check_real_nodes_def)
    then show ?thesis by (cases n) (auto simp: used_ok_def)
  qed (simp add: used_ok_def)
  moreover have "flag_of b (node_type n)" if "n \<in> set (b_nodes b)" for n
    using L that by (auto simp: wf_base_def vstr__check_real_nodes_def flag_of_def split: ntype.split)
  ultimately show ?R
    using L wf_base_sum [OF L] by (simp add: wf_base_def vstr__check_real_nodes_def)
next
  assume R: ?R
  have "0 < node_len n" if "n \<in> set (b_nodes b)" for n
    using R that by (auto simp: node_ok_def)
  moreover have "(node_type n = NODE_BUF \<longrightarrow> node_buf_used b) \<and> (node_type n = NODE_NON \<longrightarrow> node_non_used b)
      \<and> (node_type n = NODE_PTR \<longrightarrow> node_ptr_used b) \<and> (node_type n = NODE_REF \<longrightarrow> node_ref_used b)"
    if "n \<in> set (b_nodes b)" for n
    using R that by (auto simp: flag_of_def)
  ultimately show ?L
    using R by (auto simp: wf_base_def vstr__check_real_nodes_def used_ok_def)
qed

lemma used_ok_0 [simp]: "used_ok 0 ns"
  by (simp add: used_ok_def)

lemma used_ok_tl: "used_ok u (n # ns) \<Longrightarrow> used_ok u (n # ms)"
  by (auto simp: used_ok_def)

lemma used_ok_le: "used_ok u (n # ns) \<Longrightarrow> 0 < node_len n \<Longrightarrow> u < node_len n"
  by (auto simp: used_ok_def)

lemma used_ok_head_len:
  "used_ok u (n # ns) \<Longrightarrow> u < k \<Longrightarrow> k \<le> node_len n \<Longrightarrow> used_ok u (node_set_len k n # ms)"
  by (auto simp: used_ok_def)

end
