(* ===== verification/Vstr_Spare.thy ===== *)
theory Vstr_Spare
  imports Vstr_Types "HOL-Library.Multiset"
begin

text \<open>
  The pools of spare nodes of a configuration (src/vstr.c, src/vstr_cntl.c): allocating and
  freeing spare nodes, the control options that set the size of a pool or keep it in a range,
  and giving the nodes of a string back to their pools. Every operation that needs nodes first
  reserves them here, so this is where running out of memory shows.
\<close>

section \<open>The pools\<close>

text \<open>The four branches of each \<^verbatim>\<open>switch (type)\<close>, selected by the node type.\<close>

primrec spare_num :: "ntype \<Rightarrow> vstr_conf \<Rightarrow> nat" where
  "spare_num NODE_BUF c = spare_buf_num c"
| "spare_num NODE_NON c = spare_non_num c"
| "spare_num NODE_PTR c = spare_ptr_num c"
| "spare_num NODE_REF c = spare_ref_num c"

primrec spare_beg :: "ntype \<Rightarrow> vstr_conf \<Rightarrow> nat list" where
  "spare_beg NODE_BUF c = spare_buf_beg c"
| "spare_beg NODE_NON c = spare_non_beg c"
| "spare_beg NODE_PTR c = spare_ptr_beg c"
| "spare_beg NODE_REF c = spare_ref_beg c"

primrec spare_upd :: "ntype \<Rightarrow> nat \<Rightarrow> nat list \<Rightarrow> vstr_conf \<Rightarrow> vstr_conf" where
  "spare_upd NODE_BUF k ids c = c\<lparr>spare_buf_num := k, spare_buf_beg := ids\<rparr>"
| "spare_upd NODE_NON k ids c = c\<lparr>spare_non_num := k, spare_non_beg := ids\<rparr>"
| "spare_upd NODE_PTR k ids c = c\<lparr>spare_ptr_num := k, spare_ptr_beg := ids\<rparr>"
| "spare_upd NODE_REF k ids c = c\<lparr>spare_ref_num := k, spare_ref_beg := ids\<rparr>"

section \<open>Allocating and freeing spare nodes\<close>

definition vstr__make_spare_node :: "vstr_conf \<Rightarrow> ntype \<Rightarrow> bool \<times> vstr_conf" where
  "vstr__make_spare_node c t =
     (case VSTR_MK (heap c) of
        (None, h) \<Rightarrow> (False, c\<lparr>heap := h, malloc_bad := True\<rparr>)
      | (Some i, h) \<Rightarrow>
          let c' = c\<lparr>heap := h\<rparr> in (True, spare_upd t (spare_num t c' + 1) (i # spare_beg t c') c'))"

primrec vstr_make_spare_nodes :: "nat \<Rightarrow> vstr_conf \<Rightarrow> ntype \<Rightarrow> nat \<times> vstr_conf" where
  "vstr_make_spare_nodes 0 c t = (0, c)"
| "vstr_make_spare_nodes (Suc k) c t =
     (case vstr__make_spare_node c t of
        (False, c') \<Rightarrow> (0, c')
      | (True, c') \<Rightarrow> (case vstr_make_spare_nodes k c' t of (n, c'') \<Rightarrow> (Suc n, c'')))"

lemma make_spare_nodes_numeral [simp]:
  "vstr_make_spare_nodes (numeral k) c t =
     (case vstr__make_spare_node c t of
        (False, c') \<Rightarrow> (0, c')
      | (True, c') \<Rightarrow> (case vstr_make_spare_nodes (pred_numeral k) c' t of (n, c'') \<Rightarrow> (Suc n, c'')))"
  by (simp add: numeral_eq_Suc)

definition vstr__free_spare_node :: "vstr_conf \<Rightarrow> ntype \<Rightarrow> bool \<times> vstr_conf" where
  "vstr__free_spare_node c t =
     (case spare_beg t c of
        [] \<Rightarrow> (False, c)
      | i # ids \<Rightarrow> (True, spare_upd t (spare_num t c - 1) ids c))"

primrec vstr_free_spare_nodes :: "nat \<Rightarrow> vstr_conf \<Rightarrow> ntype \<Rightarrow> nat \<times> vstr_conf" where
  "vstr_free_spare_nodes 0 c t = (0, c)"
| "vstr_free_spare_nodes (Suc k) c t =
     (case vstr__free_spare_node c t of
        (False, c') \<Rightarrow> (0, c')
      | (True, c') \<Rightarrow> (case vstr_free_spare_nodes k c' t of (n, c'') \<Rightarrow> (Suc n, c'')))"

text \<open>\<^verbatim>\<open>vstr_cntl_conf(conf, VSTR_CNTL_CONF_SET_NUM_SPARE_*, val)\<close>.\<close>

definition cntl_set_num_spare :: "vstr_conf \<Rightarrow> ntype \<Rightarrow> nat \<Rightarrow> bool \<times> vstr_conf" where
  "cntl_set_num_spare c t val =
     (let num = spare_num t c in
      if val = num then (True, c)
      else if val > num then
        (case vstr_make_spare_nodes (val - num) c t of (n, c') \<Rightarrow> (n = val - num, c'))
      else (True, snd (vstr_free_spare_nodes (num - val) c t)))"

text \<open>\<^verbatim>\<open>vstr_cntl_conf(conf, VSTR_CNTL_CONF_SET_NUM_RANGE_SPARE_*, val_min, val_max)\<close>.\<close>

definition cntl_set_num_range_spare ::
    "vstr_conf \<Rightarrow> ntype \<Rightarrow> nat \<Rightarrow> nat \<Rightarrow> bool \<times> vstr_conf" where
  "cntl_set_num_range_spare c t val_min val_max =
     (let num = spare_num t c in
      if val_min > num then cntl_set_num_spare c t val_min
      else if val_max < num then cntl_set_num_spare c t val_max
      else (True, c))"

text \<open>
  Taking the first node of a pool: \<^verbatim>\<open>--conf->spare_X_num; node = conf->spare_X_beg;
  conf->spare_X_beg = node->next\<close>. With an empty pool the code would follow a null pointer;
  every caller reserves a node first.
\<close>

definition spare_pop :: "ntype \<Rightarrow> vstr_conf \<Rightarrow> nat \<times> vstr_conf" where
  "spare_pop t c = (hd (spare_beg t c), spare_upd t (spare_num t c - 1) (tl (spare_beg t c)) c)"

text \<open>
  \<^verbatim>\<open>vstr__relink_nodes()\<close> (include/vstr-nx-inline.h): a run of \<open>num\<close> nodes of one type goes to
  the front of the pool of that type.
\<close>

definition vstr__relink_nodes :: "vstr_conf \<Rightarrow> vstr_node list \<Rightarrow> nat \<Rightarrow> vstr_conf" where
  "vstr__relink_nodes c run num =
     (case run of [] \<Rightarrow> c
      | n # _ \<Rightarrow> let t = node_type n in
          spare_upd t (spare_num t c + num) (map node_id run @ spare_beg t c) c)"

section \<open>What the pool operations guarantee\<close>

lemma spare_upd_sel [simp]:
  "spare_num u (spare_upd t k ids c) = (if u = t then k else spare_num u c)"
  "spare_beg u (spare_upd t k ids c) = (if u = t then ids else spare_beg u c)"
  by (cases t; cases u; simp)+

lemma spare_upd_frame [frame_simps, simp]:
  "buf_sz (spare_upd t k ids c) = buf_sz c" "heap (spare_upd t k ids c) = heap c"
  "iov_min_alloc (spare_upd t k ids c) = iov_min_alloc c"
  "iov_min_offset (spare_upd t k ids c) = iov_min_offset c"
  "malloc_bad (spare_upd t k ids c) = malloc_bad c"
  "split_buf_del (spare_upd t k ids c) = split_buf_del c"
  by (cases t; simp)+

lemma spare_field_frame [simp]:
  "spare_num t (c\<lparr>heap := h\<rparr>) = spare_num t c" "spare_beg t (c\<lparr>heap := h\<rparr>) = spare_beg t c"
  "spare_num t (c\<lparr>malloc_bad := m\<rparr>) = spare_num t c"
  "spare_beg t (c\<lparr>malloc_bad := m\<rparr>) = spare_beg t c"
  by (cases t; simp)+

lemma check_spare_iff:
  "vstr__check_spare_nodes c \<longleftrightarrow> (\<forall>t. spare_num t c = length (spare_beg t c))"
proof -
  have "(\<forall>t. P t) \<longleftrightarrow> P NODE_BUF \<and> P NODE_NON \<and> P NODE_PTR \<and> P NODE_REF" for P
    by (metis ntype.exhaust)
  from this [of "\<lambda>t. spare_num t c = length (spare_beg t c)"] show ?thesis
    by (auto simp: vstr__check_spare_nodes_def)
qed

lemma check_spare_upd:
  "vstr__check_spare_nodes c \<Longrightarrow> length ids = k \<Longrightarrow> vstr__check_spare_nodes (spare_upd t k ids c)"
  by (simp add: check_spare_iff)

text \<open>What a pool operation never touches: everything but the pools, the heap and the flag.\<close>

definition conf_same :: "vstr_conf \<Rightarrow> vstr_conf \<Rightarrow> bool" where
  "conf_same c c' \<longleftrightarrow> buf_sz c' = buf_sz c \<and> iov_min_alloc c' = iov_min_alloc c \<and>
     iov_min_offset c' = iov_min_offset c \<and> split_buf_del c' = split_buf_del c"

lemma conf_same_refl [simp]: "conf_same c c"
  by (simp add: conf_same_def)

lemma conf_same_trans: "conf_same a b \<Longrightarrow> conf_same b c \<Longrightarrow> conf_same a c"
  by (simp add: conf_same_def)

lemma conf_same_upds [simp]:
  "conf_same c (spare_upd t k ids c') \<longleftrightarrow> conf_same c c'"
  "conf_same c (c'\<lparr>heap := h\<rparr>) \<longleftrightarrow> conf_same c c'"
  "conf_same c (c'\<lparr>malloc_bad := m\<rparr>) \<longleftrightarrow> conf_same c c'"
  by (simp_all add: conf_same_def)

lemma VSTR_MK_cases:
  obtains (fail) "VSTR_MK h = (None, h\<lparr>mk_cnt := Suc (mk_cnt h)\<rparr>)" "mk_fail h (mk_cnt h)"
    | (ok) "VSTR_MK h = (Some (mk_cnt h), h\<lparr>mk_cnt := Suc (mk_cnt h)\<rparr>)" "\<not> mk_fail h (mk_cnt h)"
  by (cases "mk_fail h (mk_cnt h)") (auto simp: VSTR_MK_def)

text \<open>
  The refinement of a pool operation to its effect: which pool, how many nodes were put at its
  front, which failures it reports.
\<close>

lemma make_spare_node_cases:
  assumes "vstr__make_spare_node c t = (ok, c')"
  obtains "ok" "c' = spare_upd t (spare_num t c + 1) (mk_cnt (heap c) # spare_beg t c)
      (c\<lparr>heap := (heap c)\<lparr>mk_cnt := Suc (mk_cnt (heap c))\<rparr>\<rparr>)" "\<not> mk_fail (heap c) (mk_cnt (heap c))"
    | "\<not> ok" "c' = c\<lparr>heap := (heap c)\<lparr>mk_cnt := Suc (mk_cnt (heap c))\<rparr>, malloc_bad := True\<rparr>"
      "mk_fail (heap c) (mk_cnt (heap c))"
  using assms
  by (cases "heap c" rule: VSTR_MK_cases) (auto simp: vstr__make_spare_node_def Let_def)

lemma make_spare_node_check:
  "vstr__make_spare_node c t = (ok, c') \<Longrightarrow> vstr__check_spare_nodes c \<Longrightarrow>
     vstr__check_spare_nodes c' \<and> conf_same c c' \<and>
     ref_cnt (heap c') = ref_cnt (heap c) \<and> (\<not> ok \<longrightarrow> malloc_bad c')"
  by (erule make_spare_node_cases) (auto simp: check_spare_upd check_spare_iff)

lemma make_spare_node_pool:
  assumes "vstr__make_spare_node c t = (True, c')"
  shows "spare_beg t c' = mk_cnt (heap c) # spare_beg t c"
    "spare_num t c' = Suc (spare_num t c)" "mk_cnt (heap c') = Suc (mk_cnt (heap c))"
    "u \<noteq> t \<Longrightarrow> spare_beg u c' = spare_beg u c"
  using assms by (auto elim!: make_spare_node_cases)

lemma make_spare_nodes_check:
  "vstr_make_spare_nodes k c t = (n, c') \<Longrightarrow> vstr__check_spare_nodes c \<Longrightarrow>
     vstr__check_spare_nodes c' \<and> conf_same c c' \<and>
     ref_cnt (heap c') = ref_cnt (heap c) \<and> n \<le> k \<and> (n < k \<longrightarrow> malloc_bad c') \<and>
     spare_num t c' = spare_num t c + n"
proof (induction k arbitrary: c n c')
  case 0
  then show ?case by simp
next
  case (Suc k)
  obtain ok c1 where 1: "vstr__make_spare_node c t = (ok, c1)" by fastforce
  note chk = make_spare_node_check [OF 1 Suc.prems(2)]
  show ?case
  proof (cases ok)
    case False
    then have "c' = c1" "n = 0" using Suc.prems 1 by auto
    moreover have "spare_num t c1 = spare_num t c"
      using 1 False by (auto elim!: make_spare_node_cases)
    ultimately show ?thesis using chk False by simp
  next
    case True
    obtain m c2 where 2: "vstr_make_spare_nodes k c1 t = (m, c2)" by fastforce
    have "c' = c2" "n = Suc m" using Suc.prems(1) 1 2 True by auto
    moreover have "spare_num t c1 = Suc (spare_num t c)"
      using make_spare_node_pool(2) 1 True by simp
    ultimately show ?thesis
      using Suc.IH [OF 2] chk conf_same_trans [of c c1 c2] by simp
  qed
qed

lemma free_spare_node_check:
  "vstr__free_spare_node c t = (ok, c') \<Longrightarrow> vstr__check_spare_nodes c \<Longrightarrow>
     vstr__check_spare_nodes c' \<and> conf_same c c' \<and> heap c' = heap c \<and>
     (ok \<longleftrightarrow> spare_num t c \<noteq> 0) \<and> spare_num t c' = spare_num t c - 1"
  by (cases "spare_beg t c") (auto simp: vstr__free_spare_node_def check_spare_iff)

lemma free_spare_nodes_check:
  "vstr_free_spare_nodes k c t = (n, c') \<Longrightarrow> vstr__check_spare_nodes c \<Longrightarrow>
     vstr__check_spare_nodes c' \<and> conf_same c c' \<and> heap c' = heap c \<and>
     n = min k (spare_num t c) \<and> spare_num t c' = spare_num t c - n"
proof (induction k arbitrary: c n c')
  case 0
  then show ?case by simp
next
  case (Suc k)
  obtain ok c1 where 1: "vstr__free_spare_node c t = (ok, c1)" by fastforce
  note chk = free_spare_node_check [OF 1 Suc.prems(2)]
  show ?case
  proof (cases ok)
    case False
    then have "c' = c1" "n = 0" using Suc.prems 1 by auto
    then show ?thesis using chk False by simp
  next
    case True
    obtain m c2 where 2: "vstr_free_spare_nodes k c1 t = (m, c2)" by fastforce
    have "c' = c2" "n = Suc m" using Suc.prems(1) 1 2 True by auto
    then show ?thesis
      using Suc.IH [OF 2] chk True conf_same_trans [of c c1 c2]
      by (cases "spare_num t c") auto
  qed
qed

lemma set_num_spare_check:
  assumes "cntl_set_num_spare c t v = (ok, c')" "vstr__check_spare_nodes c"
  shows "vstr__check_spare_nodes c' \<and> conf_same c c' \<and> ref_cnt (heap c') = ref_cnt (heap c) \<and>
     (ok \<longrightarrow> spare_num t c' = v) \<and> (\<not> ok \<longrightarrow> malloc_bad c')"
proof -
  consider "v = spare_num t c" | "v > spare_num t c" | "v < spare_num t c" by linarith
  then show ?thesis
  proof cases
    case 1
    then show ?thesis using assms by (simp add: cntl_set_num_spare_def)
  next
    case 2
    obtain n c1 where mk: "vstr_make_spare_nodes (v - spare_num t c) c t = (n, c1)" by fastforce
    then have "ok = (n = v - spare_num t c)" "c' = c1"
      using assms(1) 2 by (auto simp: cntl_set_num_spare_def)
    with make_spare_nodes_check [OF mk assms(2)] 2 show ?thesis by auto
  next
    case 3
    obtain n c1 where fr: "vstr_free_spare_nodes (spare_num t c - v) c t = (n, c1)" by fastforce
    then have "ok" "c' = c1"
      using assms(1) 3 by (auto simp: cntl_set_num_spare_def)
    with free_spare_nodes_check [OF fr assms(2)] 3 show ?thesis by auto
  qed
qed

text \<open>The contract every caller relies on: success leaves at least the minimum in the pool.\<close>

lemma set_num_range_spare_check:
  assumes "cntl_set_num_range_spare c t lo hi = (ok, c')" "vstr__check_spare_nodes c" "lo \<le> hi"
  shows "vstr__check_spare_nodes c' \<and> conf_same c c' \<and> ref_cnt (heap c') = ref_cnt (heap c) \<and>
     (ok \<longrightarrow> lo \<le> spare_num t c' \<and> spare_num t c' \<le> hi \<and> lo \<le> length (spare_beg t c')) \<and>
     (\<not> ok \<longrightarrow> malloc_bad c')"
proof -
  consider "lo > spare_num t c" "cntl_set_num_spare c t lo = (ok, c')"
    | "hi < spare_num t c" "cntl_set_num_spare c t hi = (ok, c')"
    | "lo \<le> spare_num t c" "spare_num t c \<le> hi" "ok" "c' = c"
    using assms(1) by (auto simp: cntl_set_num_range_spare_def Let_def split: if_splits)
  then show ?thesis
  proof cases
    case 1
    then show ?thesis using set_num_spare_check [OF 1(2) assms(2)] assms(3)
      by (auto simp: check_spare_iff)
  next
    case 2
    then show ?thesis using set_num_spare_check [OF 2(2) assms(2)] assms(3)
      by (auto simp: check_spare_iff)
  next
    case 3
    then show ?thesis using assms by (auto simp: check_spare_iff)
  qed
qed

lemma relink_nodes_check:
  "vstr__check_spare_nodes c \<Longrightarrow> num = length run \<Longrightarrow>
     vstr__check_spare_nodes (vstr__relink_nodes c run num) \<and> conf_same c (vstr__relink_nodes c run num)
     \<and> heap (vstr__relink_nodes c run num) = heap c"
  by (cases run) (auto simp: vstr__relink_nodes_def Let_def check_spare_iff)

lemma spare_pop_check:
  "vstr__check_spare_nodes c \<Longrightarrow> spare_num t c \<noteq> 0 \<Longrightarrow> spare_pop t c = (i, c') \<Longrightarrow>
     vstr__check_spare_nodes c' \<and> conf_same c c' \<and> heap c' = heap c \<and> i \<in> set (spare_beg t c)"
  by (cases "spare_beg t c") (auto simp: spare_pop_def check_spare_iff)


section \<open>Conservation of nodes\<close>

text \<open>
  The identities of the nodes of a configuration and of a string with its configuration. A
  pool operation creates nodes only by allocating them, under the next allocation numbers, and
  otherwise moves or frees them: no node is ever in two places.
\<close>

definition pool_ids :: "vstr_conf \<Rightarrow> nat multiset" where
  "pool_ids c = mset (spare_buf_beg c) + mset (spare_non_beg c) + mset (spare_ptr_beg c) +
     mset (spare_ref_beg c)"

definition ids_of :: "vstr_conf \<Rightarrow> vstr_node list \<Rightarrow> nat multiset" where
  "ids_of c ns = mset (map node_id ns) + pool_ids c"

definition ids_step :: "vstr_conf \<Rightarrow> vstr_node list \<Rightarrow> vstr_conf \<Rightarrow> vstr_node list \<Rightarrow> bool" where
  "ids_step c ns c' ns' \<longleftrightarrow> mk_cnt (heap c) \<le> mk_cnt (heap c') \<and>
     ids_of c' ns' \<subseteq># ids_of c ns + mset_set {mk_cnt (heap c)..<mk_cnt (heap c')}"

text \<open>Every node is in one place, and the allocator has handed out its identity.\<close>

definition ids_ok :: "vstr_conf \<Rightarrow> vstr_node list \<Rightarrow> bool" where
  "ids_ok c ns \<longleftrightarrow> (\<forall>i \<in># ids_of c ns. i < mk_cnt (heap c) \<and> count (ids_of c ns) i = 1)"

lemma ids_step_refl [simp]: "ids_step c ns c ns"
  by (simp add: ids_step_def)

lemma mset_upt_split: "(a :: nat) \<le> b \<Longrightarrow> b \<le> c \<Longrightarrow> mset_set {a..<c} = mset_set {a..<b} + mset_set {b..<c}"
  unfolding mset_upt [symmetric] mset_append [symmetric]
  using upt_add_eq_append [of a b "c - b"] by simp

lemma ids_step_trans:
  assumes "ids_step c ns c1 ns1" "ids_step c1 ns1 c2 ns2"
  shows "ids_step c ns c2 ns2"
proof -
  let ?a = "mk_cnt (heap c)" and ?b = "mk_cnt (heap c1)" and ?d = "mk_cnt (heap c2)"
  have "ids_of c2 ns2 \<subseteq># ids_of c1 ns1 + mset_set {?b..<?d}" using assms(2) by (simp add: ids_step_def)
  also have "\<dots> \<subseteq># (ids_of c ns + mset_set {?a..<?b}) + mset_set {?b..<?d}"
    using assms(1) by (simp add: ids_step_def)
  also have "\<dots> = ids_of c ns + mset_set {?a..<?d}"
    using assms mset_upt_split [of ?a ?b ?d] by (simp add: ids_step_def)
  finally show ?thesis using assms by (simp add: ids_step_def)
qed

lemma ids_ok_step:
  assumes "ids_ok c ns" "ids_step c ns c' ns'"
  shows "ids_ok c' ns'"
  unfolding ids_ok_def
proof (intro ballI conjI)
  fix i assume i: "i \<in># ids_of c' ns'"
  have le: "count (ids_of c' ns') i \<le> count (ids_of c ns) i + count (mset_set {mk_cnt (heap c)..<mk_cnt (heap c')}) i"
    using assms(2) by (metis count_union ids_step_def mset_subset_eq_count)
  have old: "count (ids_of c ns) i \<le> 1" "count (ids_of c ns) i \<noteq> 0 \<Longrightarrow> i < mk_cnt (heap c)"
    using assms(1) by (cases "i \<in># ids_of c ns"; simp add: ids_ok_def not_in_iff)+
  have pos: "count (ids_of c' ns') i \<noteq> 0" using i by (simp add: not_in_iff)
  have ge: "mk_cnt (heap c) \<le> mk_cnt (heap c')" using assms(2) by (simp add: ids_step_def)
  show "i < mk_cnt (heap c')"
  proof (cases "count (ids_of c ns) i = 0")
    case True
    then have "count (mset_set {mk_cnt (heap c)..<mk_cnt (heap c')}) i \<noteq> 0" using le pos by linarith
    then show ?thesis by (simp add: count_mset_set' split: if_splits)
  next
    case False
    then show ?thesis using old(2) ge by simp
  qed
  show "count (ids_of c' ns') i = 1"
  proof -
    have "count (ids_of c' ns') i \<le> 1"
      using le old by (cases "count (ids_of c ns) i = 0") (auto simp: count_mset_set' split: if_splits)
    then show ?thesis using pos by linarith
  qed
qed

lemma ids_ok_distinct: "ids_ok c ns \<Longrightarrow> distinct (map node_id ns)"
proof -
  assume ok: "ids_ok c ns"
  have "count (mset (map node_id ns)) i \<le> 1" for i
  proof (cases "i \<in># ids_of c ns")
    case True
    then have "count (ids_of c ns) i = 1" using ok by (simp add: ids_ok_def)
    then show ?thesis by (simp add: ids_of_def)
  next
    case False
    then have "count (ids_of c ns) i = 0" by (simp add: not_in_iff)
    then show ?thesis by (simp only: ids_of_def count_union)
  qed
  then show ?thesis
    by (metis count_mset_0_iff distinct_count_atmost_1 le_0_eq le_SucE One_nat_def set_mset_mset)
qed

lemma pool_ids_upd:
  "pool_ids (spare_upd t k ids c) + mset (spare_beg t c) = pool_ids c + mset ids"
  by (cases t) (simp_all add: pool_ids_def)

lemma pool_ids_frame [simp]:
  "pool_ids (c\<lparr>heap := h\<rparr>) = pool_ids c" "pool_ids (c\<lparr>malloc_bad := m\<rparr>) = pool_ids c"
  by (simp_all add: pool_ids_def)

text \<open>Moving nodes between the string and a pool.\<close>

lemma ids_step_move:
  assumes "mset (map node_id ns') + mset ids = mset (map node_id ns) + mset (spare_beg t c)"
  shows "ids_step c ns (spare_upd t k ids c) ns'"
proof -
  have "ids_of (spare_upd t k ids c) ns' + mset (spare_beg t c) = ids_of c ns + mset (spare_beg t c)"
    using pool_ids_upd [of t k ids c] assms unfolding ids_of_def
    by (metis (no_types, lifting) add.assoc add.commute)
  then show ?thesis by (simp add: ids_step_def)
qed

lemma ids_step_make: "vstr__make_spare_node c t = (ok, c') \<Longrightarrow> ids_step c ns c' ns"
proof (erule make_spare_node_cases)
  let ?c1 = "c\<lparr>heap := (heap c)\<lparr>mk_cnt := Suc (mk_cnt (heap c))\<rparr>\<rparr>" and ?i = "mk_cnt (heap c)"
  assume "c' = spare_upd t (spare_num t c + 1) (?i # spare_beg t c) ?c1"
  then have "pool_ids c' + mset (spare_beg t c) = (pool_ids c + {#?i#}) + mset (spare_beg t c)"
    using pool_ids_upd [of t "spare_num t c + 1" "?i # spare_beg t c" ?c1] by simp
  then have "pool_ids c' = pool_ids c + {#?i#}" by (rule add_right_imp_eq)
  then show "ids_step c ns c' ns" using \<open>c' = _\<close> by (simp add: ids_step_def ids_of_def)
next
  assume "c' = c\<lparr>heap := (heap c)\<lparr>mk_cnt := Suc (mk_cnt (heap c))\<rparr>, malloc_bad := True\<rparr>"
  then show "ids_step c ns c' ns" by (simp add: ids_step_def ids_of_def)
qed

lemma ids_step_makes: "vstr_make_spare_nodes k c t = (n, c') \<Longrightarrow> ids_step c ns c' ns"
proof (induction k arbitrary: c n c')
  case (Suc k)
  obtain ok c1 where 1: "vstr__make_spare_node c t = (ok, c1)" by fastforce
  obtain m c2 where 2: "vstr_make_spare_nodes k c1 t = (m, c2)" by fastforce
  have "c' = c1 \<or> c' = c2" using Suc.prems 1 2 by (cases ok) auto
  then show ?case
    using ids_step_make [OF 1, of ns] Suc.IH [OF 2] ids_step_trans [of c ns c1 ns c2 ns] by blast
qed simp

lemma ids_step_free: "vstr__free_spare_node c t = (ok, c') \<Longrightarrow> ids_step c ns c' ns"
proof (cases "spare_beg t c")
  case (Cons i ids)
  assume "vstr__free_spare_node c t = (ok, c')"
  then have "c' = spare_upd t (spare_num t c - 1) ids c" using Cons by (simp add: vstr__free_spare_node_def)
  then have "pool_ids c' + {#i#} + mset ids = pool_ids c + mset ids"
    using pool_ids_upd [of t "spare_num t c - 1" ids c] Cons by simp
  then have "pool_ids c' + {#i#} = pool_ids c" by (rule add_right_imp_eq)
  then show ?thesis using \<open>c' = _\<close> by (simp add: ids_step_def ids_of_def) (metis mset_subset_eq_add_left add_mset_add_single)
qed (simp add: vstr__free_spare_node_def)

lemma ids_step_frees: "vstr_free_spare_nodes k c t = (n, c') \<Longrightarrow> ids_step c ns c' ns"
proof (induction k arbitrary: c n c')
  case (Suc k)
  obtain ok c1 where 1: "vstr__free_spare_node c t = (ok, c1)" by fastforce
  obtain m c2 where 2: "vstr_free_spare_nodes k c1 t = (m, c2)" by fastforce
  have "c' = c1 \<or> c' = c2" using Suc.prems 1 2 by (cases ok) auto
  then show ?case
    using ids_step_free [OF 1, of ns] Suc.IH [OF 2] ids_step_trans [of c ns c1 ns c2 ns] by blast
qed simp

lemma ids_step_set_num: "cntl_set_num_spare c t v = (ok, c') \<Longrightarrow> ids_step c ns c' ns"
  by (auto simp: cntl_set_num_spare_def Let_def split: if_splits prod.splits
      intro: ids_step_makes ids_step_frees)
    (metis ids_step_frees surjective_pairing)

lemma ids_step_range: "cntl_set_num_range_spare c t lo hi = (ok, c') \<Longrightarrow> ids_step c ns c' ns"
  by (auto simp: cntl_set_num_range_spare_def Let_def split: if_splits intro: ids_step_set_num)

lemma ids_step_relink:
  assumes "\<forall>n \<in> set run. node_type n = node_type (hd run)"
  shows "ids_step c (as @ run @ bs) (vstr__relink_nodes c run num) (as @ bs)"
proof (cases run)
  case (Cons n ns)
  then show ?thesis
    by (auto simp: vstr__relink_nodes_def Let_def intro!: ids_step_move)
qed (simp add: vstr__relink_nodes_def)

end
