(* ===== verification/Vstr_Cache.thy ===== *)
theory Vstr_Cache
  imports Vstr_Spare
begin

text \<open>
  The caches of a string (src/vstr_cache.c and the cache code of src/vstr_add.c, src/vstr_del.c,
  src/vstr.c, include/vstr-nx-inline.h): the position cache, the iovec array and the cached C
  string, the callbacks that keep them in step with the string, and the routines that maintain
  the iovec array by hand. The slots of caches registered by the application are not modelled.
\<close>

section \<open>Slots and callbacks\<close>

datatype cache_op = CACHE_ADD | CACHE_DEL | CACHE_SUB | CACHE_FREE

definition vstr_cache_get_pos :: "vstr_base \<Rightarrow> cache_data_pos option" where
  "vstr_cache_get_pos base = (if cache_available base then cache_pos (b_cache base) else None)"

definition vstr_cache_get_cstr :: "vstr_base \<Rightarrow> cache_data_cstr option" where
  "vstr_cache_get_cstr base = (if cache_available base then cache_cstr (b_cache base) else None)"

definition vstr_sc_posdiff :: "nat \<Rightarrow> nat \<Rightarrow> nat" where
  "vstr_sc_posdiff beg_pos end_pos = (end_pos - beg_pos) + 1"

definition vstr_sc_poslast :: "nat \<Rightarrow> nat \<Rightarrow> nat" where
  "vstr_sc_poslast beg_pos diff_pos = beg_pos + (diff_pos - 1)"

definition vstr_cache__pos :: "vstr_base \<Rightarrow> nat \<Rightarrow> nat \<Rightarrow> nat \<Rightarrow> vstr_base" where
  "vstr_cache__pos base node pos num =
     (if \<not> cache_available base then base
      else base\<lparr>b_cache := (b_cache base)\<lparr>cache_pos := map_option
              (\<lambda>d. d\<lparr>pd_node := Some node, pd_pos := pos, pd_num := num\<rparr>)
              (cache_pos (b_cache base))\<rparr>\<rparr>)"

definition vstr__cache_pos_cb :: "nat \<Rightarrow> cache_op \<Rightarrow> cache_data_pos \<Rightarrow> cache_data_pos option" where
  "vstr__cache_pos_cb pos op d =
     (if op = CACHE_FREE then None
      else if pd_node d = None then Some d
      else if op = CACHE_ADD \<and> pos \<ge> pd_pos d then Some d
      else if op = CACHE_DEL \<and> pos > pd_pos d then Some d
      else if op = CACHE_SUB then Some d
      else Some (d\<lparr>pd_node := None\<rparr>))"

definition vstr__cache_iovec_cb ::
    "cache_op \<Rightarrow> cache_data_iovec \<Rightarrow> cache_data_iovec option" where
  "vstr__cache_iovec_cb op d = (if op = CACHE_FREE then None else Some d)"

definition vstr__cache_cstr_cb ::
    "nat \<Rightarrow> nat \<Rightarrow> cache_op \<Rightarrow> cache_data_cstr \<Rightarrow> vstr_heap \<Rightarrow> cache_data_cstr option \<times> vstr_heap"
  where
  "vstr__cache_cstr_cb pos len op d h =
     (let end_pos = vstr_sc_poslast pos len; data_end_pos = vstr_sc_poslast (cd_pos d) (cd_len d) in
      if op = CACHE_FREE then (None, vstr_ref_del (cd_ref d) h)
      else if cd_ref d = None \<or> cd_len d = 0 then (Some d, h)
      else if data_end_pos < pos then (Some d, h)
      else if op = CACHE_ADD \<and> data_end_pos = pos then (Some d, h)
      else if op = CACHE_ADD \<and> cd_pos d > pos then (Some (d\<lparr>cd_pos := cd_pos d + len\<rparr>), h)
      else if op \<noteq> CACHE_ADD \<and> cd_pos d > end_pos then
        (Some (if op = CACHE_DEL then d\<lparr>cd_pos := cd_pos d - len\<rparr> else d), h)
      else if op = CACHE_DEL \<and> data_end_pos > end_pos then
        (Some (d\<lparr>cd_len := cd_len d - vstr_sc_posdiff (cd_pos d) end_pos,
                 cd_off := cd_off d + vstr_sc_posdiff (cd_pos d) end_pos, cd_pos := pos\<rparr>), h)
      else (Some (d\<lparr>cd_len := 0\<rparr>), h))"

text \<open>
  \<^verbatim>\<open>vstr__cache_cbs()\<close> for the operations that change a string: every slot that holds data is
  given to its callback.
\<close>

definition vstr__cache_cbs :: "vstr_base \<Rightarrow> nat \<Rightarrow> nat \<Rightarrow> cache_op \<Rightarrow> vstr_base" where
  "vstr__cache_cbs base pos len op =
     (let ch = b_cache base;
          p = (case cache_pos ch of None \<Rightarrow> None | Some d \<Rightarrow> vstr__cache_pos_cb pos op d);
          v = (case cache_vec ch of None \<Rightarrow> None | Some d \<Rightarrow> vstr__cache_iovec_cb op d);
          (s, h) = (case cache_cstr ch of None \<Rightarrow> (None, heap (b_conf base))
                    | Some d \<Rightarrow> vstr__cache_cstr_cb pos len op d (heap (b_conf base)))
      in base\<lparr>b_cache := ch\<lparr>cache_pos := p, cache_vec := v, cache_cstr := s\<rparr>,
              b_conf := (b_conf base)\<lparr>heap := h\<rparr>,
              cache_internal := (cache_internal base \<or> s = None)\<rparr>)"

definition vstr__cache_add :: "vstr_base \<Rightarrow> nat \<Rightarrow> nat \<Rightarrow> vstr_base" where
  "vstr__cache_add base pos len =
     (if \<not> cache_available base then base else vstr__cache_cbs base pos len CACHE_ADD)"

definition vstr__cache_del :: "vstr_base \<Rightarrow> nat \<Rightarrow> nat \<Rightarrow> vstr_base" where
  "vstr__cache_del base pos len =
     (if \<not> cache_available base then base else vstr__cache_cbs base pos len CACHE_DEL)"

definition vstr_cache_cb_sub :: "vstr_base \<Rightarrow> nat \<Rightarrow> nat \<Rightarrow> vstr_base" where
  "vstr_cache_cb_sub base pos len =
     (if \<not> cache_available base then base else vstr__cache_cbs base pos len CACHE_SUB)"

section \<open>The iovec array\<close>

text \<open>\<open>vec_map f base\<close> is a change of \<^verbatim>\<open>VSTR__CACHE(base)->vec\<close>.\<close>

definition vec_map :: "(cache_data_iovec \<Rightarrow> cache_data_iovec) \<Rightarrow> vstr_base \<Rightarrow> vstr_base" where
  "vec_map f base = base\<lparr>b_cache := (b_cache base)\<lparr>cache_vec := map_option f (cache_vec (b_cache base))\<rparr>\<rparr>"

definition vec_set :: "nat \<Rightarrow> nptr \<Rightarrow> nat \<Rightarrow> ntype \<Rightarrow> cache_data_iovec \<Rightarrow> cache_data_iovec" where
  "vec_set k p l t d = d\<lparr>iov_v := (iov_v d)[k := (p, l)], iov_t := (iov_t d)[k := t]\<rparr>"

definition vstr__cache_iovec_add_end :: "vstr_base \<Rightarrow> vstr_node \<Rightarrow> nat \<Rightarrow> vstr_base" where
  "vstr__cache_iovec_add_end base node len =
     vec_map (\<lambda>d. vec_set (iov_off d + b_num base - 1) (vstr_export__node_ptr node) len
                    (node_type node) d) base"

definition vstr__cache_iovec_add_beg :: "vstr_base \<Rightarrow> vstr_node \<Rightarrow> nat \<Rightarrow> vstr_base" where
  "vstr__cache_iovec_add_beg base node len =
     vec_map (\<lambda>d. vec_set (iov_off d - 1) (vstr_export__node_ptr node) len (node_type node)
                    (d\<lparr>iov_off := iov_off d - 1\<rparr>)) base"

definition vstr__cache_iovec_add_node_end :: "vstr_base \<Rightarrow> nat \<Rightarrow> nat \<Rightarrow> vstr_base" where
  "vstr__cache_iovec_add_node_end base num len =
     (if \<not> iovec_upto_date base then base
      else vec_map (\<lambda>d. let k = num + iov_off d - 1 in
             d\<lparr>iov_v := (iov_v d)[k := (fst (iov_v d ! k), snd (iov_v d ! k) + len)]\<rparr>) base)"

definition vstr__cache_iovec_maybe_add ::
    "vstr_base \<Rightarrow> vstr_node \<Rightarrow> bool \<Rightarrow> nat \<Rightarrow> vstr_base" where
  "vstr__cache_iovec_maybe_add base node at_end len =
     (if \<not> iovec_upto_date base then base
      else case cache_vec (b_cache base) of
        None \<Rightarrow> base
      | Some d \<Rightarrow>
          if at_end \<and> b_num base \<le> uint_sub (iov_sz d) (iov_off d)
          then vstr__cache_iovec_add_end base node len
          else if \<not> at_end \<and> iov_off d \<noteq> 0 then vstr__cache_iovec_add_beg base node len
          else base\<lparr>iovec_upto_date := False\<rparr>)"

definition vstr__cache_iovec_reset_node :: "vstr_base \<Rightarrow> vstr_node \<Rightarrow> nat \<Rightarrow> vstr_base" where
  "vstr__cache_iovec_reset_node base node num =
     (if \<not> iovec_upto_date base then base
      else vec_map (\<lambda>d.
        if num = 1
        then vec_set (iov_off d) (nptr_add (vstr_export__node_ptr node) (b_used base))
               (node_len node - b_used base) (node_type node) d
        else vec_set (iov_off d + num - 1) (vstr_export__node_ptr node) (node_len node)
               (node_type node) d) base)"

definition vstr__cache_iovec_reset :: "vstr_base \<Rightarrow> vstr_base" where
  "vstr__cache_iovec_reset base =
     (case cache_vec (b_cache base) of
        None \<Rightarrow> base
      | Some d \<Rightarrow>
          if \<not> cache_available base \<or> iov_sz d = 0 then base
          else vec_map (\<lambda>d. d\<lparr>iov_off := (if iov_sz d > iov_min_offset (b_conf base)
                                          then iov_min_offset (b_conf base) else 0)\<rparr>)
                 (base\<lparr>iovec_upto_date := True\<rparr>))"

definition vstr__cache_iovec_del_node_end :: "vstr_base \<Rightarrow> nat \<Rightarrow> nat \<Rightarrow> vstr_base" where
  "vstr__cache_iovec_del_node_end base num len =
     (if \<not> iovec_upto_date base then base
      else vec_map (\<lambda>d. let k = num + iov_off d - 1 in
             d\<lparr>iov_v := (iov_v d)[k := (fst (iov_v d ! k), snd (iov_v d ! k) - len)]\<rparr>) base)"

definition vstr__cache_iovec_del_node_beg ::
    "vstr_base \<Rightarrow> vstr_node \<Rightarrow> nat \<Rightarrow> nat \<Rightarrow> vstr_base" where
  "vstr__cache_iovec_del_node_beg base node num len =
     (if \<not> iovec_upto_date base then base
      else vec_map (\<lambda>d. let k = num + iov_off d - 1 in
             d\<lparr>iov_v := (iov_v d)[k :=
                 ((if node_type node \<noteq> NODE_NON then nptr_add (fst (iov_v d ! k)) len
                   else fst (iov_v d ! k)), snd (iov_v d ! k) - len)]\<rparr>) base)"

definition vstr__cache_iovec_del_beg :: "vstr_base \<Rightarrow> nat \<Rightarrow> vstr_base" where
  "vstr__cache_iovec_del_beg base num =
     (if \<not> iovec_upto_date base then base
      else vec_map (\<lambda>d. d\<lparr>iov_off := iov_off d + num\<rparr>) base)"

definition vstr__cache_iovec_memmove :: "vstr_base \<Rightarrow> vstr_base" where
  "vstr__cache_iovec_memmove base =
     vec_map (\<lambda>d. let off = iov_min_offset (b_conf base); k = b_num base in
       d\<lparr>iov_v := take off (iov_v d) @ take k (drop (iov_off d) (iov_v d)) @ drop (off + k) (iov_v d),
         iov_t := take off (iov_t d) @ take k (drop (iov_off d) (iov_t d)) @ drop (off + k) (iov_t d),
         iov_off := off\<rparr>) base"

text \<open>The memory a successful \<^verbatim>\<open>realloc\<close> returns: the old elements, then unspecified ones.\<close>

definition realloc_list :: "nat \<Rightarrow> 'a \<Rightarrow> 'a list \<Rightarrow> 'a list" where
  "realloc_list n x xs = take n xs @ replicate (n - length xs) x"

definition set_heap :: "vstr_heap \<Rightarrow> vstr_base \<Rightarrow> vstr_base" where
  "set_heap h base = base\<lparr>b_conf := (b_conf base)\<lparr>heap := h\<rparr>\<rparr>"

definition set_malloc_bad :: "vstr_base \<Rightarrow> vstr_base" where
  "set_malloc_bad base = base\<lparr>b_conf := (b_conf base)\<lparr>malloc_bad := True\<rparr>\<rparr>"

definition base_mk :: "vstr_base \<Rightarrow> bool \<times> vstr_base" where
  "base_mk base = (case VSTR_MK (heap (b_conf base)) of (r, h) \<Rightarrow> (r \<noteq> None, set_heap h base))"

text \<open>
  The first allocation of the array in \<^verbatim>\<open>vstr__cache_iovec_alloc()\<close>: the structure, the slot
  (\<^verbatim>\<open>vstr_cache_set()\<close> enlarges the slot array when it is too small), the two arrays; each
  failure undoes what came before it.
\<close>

definition cache_iovec_first_alloc :: "vstr_base \<Rightarrow> nat \<Rightarrow> bool \<times> vstr_base" where
  "cache_iovec_first_alloc base alloc_sz =
     (case base_mk base of
        (False, b1) \<Rightarrow> (False, set_malloc_bad b1)
      | (True, b1) \<Rightarrow>
       (case (if cache_sz (b_cache b1) < 2 then base_mk b1 else (True, b1)) of
          (False, b2) \<Rightarrow> (False, set_malloc_bad b2)
        | (True, b2) \<Rightarrow>
         let b2' = b2\<lparr>b_cache := (b_cache b2)\<lparr>cache_sz := max 2 (cache_sz (b_cache b2))\<rparr>\<rparr> in
         (case base_mk b2' of
            (False, b3) \<Rightarrow> (False, set_malloc_bad b3)
          | (True, b3) \<Rightarrow>
           (case base_mk b3 of
              (False, b4) \<Rightarrow> (False, set_malloc_bad b4)
            | (True, b4) \<Rightarrow>
               (True, b4\<lparr>b_cache := (b_cache b4)\<lparr>cache_vec :=
                  Some \<lparr>iov_v = replicate alloc_sz (NP_null, 0), iov_t = replicate alloc_sz NODE_BUF,
                        iov_off = 0, iov_sz = alloc_sz\<rparr>\<rparr>\<rparr>)))))"

text \<open>The rest of it: the offset of the first entry, and a larger array when the entries do not fit.\<close>

definition cache_iovec_enlarge :: "vstr_base \<Rightarrow> nat \<Rightarrow> bool \<times> vstr_base" where
  "cache_iovec_enlarge base sz =
     (case cache_vec (b_cache base) of
        None \<Rightarrow> (False, base)
      | Some d \<Rightarrow>
         let min_off = iov_min_offset (b_conf base);
             b2 = (if \<not> iovec_upto_date base
                   then vec_map (\<lambda>d. d\<lparr>iov_off := min_off\<rparr>) base
                   else if iov_off d > min_off \<and> sz > uint_sub (iov_sz d) (iov_off d)
                   then vstr__cache_iovec_memmove base else base);
             off2 = (case cache_vec (b_cache b2) of None \<Rightarrow> 0 | Some d2 \<Rightarrow> iov_off d2)
         in if sz > uint_sub (iov_sz d) off2 then
              let nsz = sz + min_off in
              (case base_mk b2 of
                 (False, b3) \<Rightarrow> (False, set_malloc_bad b3)
               | (True, b3) \<Rightarrow>
                 let b3' = vec_map (\<lambda>d. d\<lparr>iov_v := realloc_list nsz (NP_null, 0) (iov_v d)\<rparr>) b3 in
                 (case base_mk b3' of
                    (False, b4) \<Rightarrow> (False, set_malloc_bad b4)
                  | (True, b4) \<Rightarrow>
                     (True, vec_map (\<lambda>d. d\<lparr>iov_t := realloc_list nsz NODE_BUF (iov_t d),
                                           iov_sz := nsz\<rparr>) b4)))
            else (True, b2))"

definition vstr__cache_iovec_alloc :: "vstr_base \<Rightarrow> nat \<Rightarrow> bool \<times> vstr_base" where
  "vstr__cache_iovec_alloc base sz =
     (if \<not> cache_available base then (False, base)
      else case (if cache_vec (b_cache base) = None
                 then cache_iovec_first_alloc base
                        (sz + iov_min_alloc (b_conf base) + iov_min_offset (b_conf base))
                 else (True, base)) of
        (False, b1) \<Rightarrow> (False, b1)
      | (True, b1) \<Rightarrow> cache_iovec_enlarge b1 sz)"

text \<open>The entries of the array for the nodes of a string.\<close>

definition iov_entries :: "vstr_base \<Rightarrow> (nptr \<times> nat) list" where
  "iov_entries base =
     (case b_nodes base of
        [] \<Rightarrow> []
      | n # ns \<Rightarrow> (nptr_add (vstr_export__node_ptr n) (b_used base), node_len n - b_used base)
                  # map (\<lambda>n. (vstr_export__node_ptr n, node_len n)) ns)"

definition vec_write :: "nat \<Rightarrow> 'a list \<Rightarrow> 'a list \<Rightarrow> 'a list" where
  "vec_write k xs ys = take k ys @ xs @ drop (k + length xs) ys"

definition vstr__cache_iovec_valid :: "vstr_base \<Rightarrow> bool \<times> vstr_base" where
  "vstr__cache_iovec_valid base =
     (if iovec_upto_date base then (True, base)
      else if b_nodes base = [] then
        (True, case cache_vec (b_cache base) of
                 None \<Rightarrow> base
               | Some d \<Rightarrow> if cache_available base \<and> iov_sz d \<noteq> 0
                           then base\<lparr>iovec_upto_date := True\<rparr> else base)
      else case vstr__cache_iovec_alloc base (b_num base) of
        (False, b1) \<Rightarrow> (False, b1)
      | (True, b1) \<Rightarrow>
          (True, (vec_map (\<lambda>d. d\<lparr>
              iov_v := vec_write (iov_min_offset (b_conf b1)) (iov_entries b1) (iov_v d),
              iov_t := vec_write (iov_min_offset (b_conf b1)) (map node_type (b_nodes b1)) (iov_t d)\<rparr>)
              b1)\<lparr>iovec_upto_date := True\<rparr>))"

end
