(* ===== verification/Vstr_Base.thy ===== *)
theory Vstr_Base
  imports Vstr_Cache
begin

text \<open>
  Finding and splitting nodes: \<^verbatim>\<open>vstr_base__pos()\<close> with its position cache
  (include/vstr-inline.h), \<^verbatim>\<open>vstr__base_ptr_pos()\<close> and \<^verbatim>\<open>vstr__base_split_node()\<close> (src/vstr.c),
  \<^verbatim>\<open>vstr__base_zero_used()\<close> (include/vstr-nx-inline.h). The main facts: the cached lookup
  returns the node that the plain walk from the first node finds, and splitting a node leaves
  the content of the string as it was.
\<close>

section \<open>Finding a position\<close>

text \<open>
  A node pointer is its index in the list. The loop \<^verbatim>\<open>while (*pos > scan->len)\<close> walks the
  list from \<^verbatim>\<open>scan\<close>; it returns the index, the position inside the node and the node number.
\<close>

fun pos_walk :: "vstr_node list \<Rightarrow> nat \<Rightarrow> nat \<Rightarrow> nat \<Rightarrow> nat \<times> nat \<times> nat" where
  "pos_walk [] idx pos num = (idx, pos, num)"
| "pos_walk (n # ns) idx pos num =
     (if pos > node_len n then pos_walk ns (Suc idx) (pos - node_len n) (Suc num)
      else (idx, pos, num))"

definition node_index :: "nat \<Rightarrow> vstr_node list \<Rightarrow> nat" where
  "node_index i ns = length (takeWhile (\<lambda>n. node_id n \<noteq> i) ns)"

text \<open>
  Where the walk starts: at the node of the position cache if that is not behind the position,
  otherwise at the first node.
\<close>

definition pos_start :: "vstr_base \<Rightarrow> nat \<Rightarrow> nat \<times> nat \<times> nat" where
  "pos_start base orig_pos =
     (let first = (0, orig_pos + b_used base, 1) in
      case vstr_cache_get_pos base of
        None \<Rightarrow> first
      | Some d \<Rightarrow> (case pd_node d of
            None \<Rightarrow> first
          | Some i \<Rightarrow> if pd_pos d \<le> orig_pos
                      then (node_index i (b_nodes base), (orig_pos - pd_pos d) + 1, pd_num d)
                      else first))"

definition vstr_base__pos :: "vstr_base \<Rightarrow> nat \<Rightarrow> bool \<Rightarrow> (nat \<times> nat \<times> nat) \<times> vstr_base" where
  "vstr_base__pos base orig_pos cache =
     (let ns = b_nodes base; pos = orig_pos + b_used base in
      if ns = [] then ((0, pos, 1), base)
      else if pos \<le> node_len (hd ns) then ((0, pos, 1), base)
      else if orig_pos > b_len base - node_len (last ns) then
        ((length ns - 1, orig_pos - (b_len base - node_len (last ns)), b_num base), base)
      else
        let (idx0, pos0, num0) = pos_start base orig_pos;
            (idx, p, num) = pos_walk (drop idx0 ns) idx0 pos0 num0
        in ((idx, p, num),
            if cache then vstr_cache__pos base (node_id (ns ! idx)) ((orig_pos - p) + 1) num
            else base))"

text \<open>\<^verbatim>\<open>vstr__base_ptr_pos()\<close>: the plain walk from the first node.\<close>

definition vstr__base_ptr_pos :: "vstr_base \<Rightarrow> nat \<Rightarrow> nat \<times> nat \<times> nat" where
  "vstr__base_ptr_pos base pos = pos_walk (b_nodes base) 0 (pos + b_used base) 1"

section \<open>Splitting a node\<close>

primrec node_tail :: "nat \<Rightarrow> nat \<Rightarrow> vstr_node \<Rightarrow> vstr_node" where
  "node_tail i k (Node_buf j b) = Node_buf i (drop k b)"
| "node_tail i k (Node_non j n) = Node_non i (n - k)"
| "node_tail i k (Node_ptr j p n) = Node_ptr i (cptr_add p k) (n - k)"
| "node_tail i k (Node_ref j r off n) = Node_ref i r (off + k) (n - k)"

primrec node_add_ref :: "vstr_node \<Rightarrow> vstr_conf \<Rightarrow> vstr_conf" where
  "node_add_ref (Node_buf j b) c = c"
| "node_add_ref (Node_non j n) c = c"
| "node_add_ref (Node_ptr j p n) c = c"
| "node_add_ref (Node_ref j r off n) c = c\<lparr>heap := vstr_ref_add r (heap c)\<rparr>"

definition vstr__base_split_node :: "vstr_base \<Rightarrow> nat \<Rightarrow> nat \<Rightarrow> bool \<times> vstr_base" where
  "vstr__base_split_node base idx pos =
     (let node = b_nodes base ! idx; t = node_type node in
      case cntl_set_num_range_spare (b_conf base) t 1 UINT_MAX of
        (False, c) \<Rightarrow> (False, base\<lparr>b_conf := c\<rparr>)
      | (True, c) \<Rightarrow>
         (case spare_pop t c of (i, c') \<Rightarrow>
           (True, base\<lparr>b_conf := node_add_ref node c', b_num := b_num base + 1,
              iovec_upto_date := False,
              b_nodes := take idx (b_nodes base) @ [node_set_len pos node, node_tail i pos node]
                         @ drop (Suc idx) (b_nodes base)\<rparr>)))"

text \<open>\<^verbatim>\<open>vstr__base_zero_used()\<close>: move the rest of the first buffer to its start.\<close>

definition vstr__base_zero_used :: "vstr_base \<Rightarrow> vstr_base" where
  "vstr__base_zero_used base =
     (if b_used base = 0 then base
      else case b_nodes base of
        Node_buf i b # ns \<Rightarrow> base\<lparr>b_nodes := Node_buf i (drop (b_used base) b) # ns, b_used := 0\<rparr>
      | _ \<Rightarrow> base)"

section \<open>The position cache\<close>

text \<open>
  The invariant of the cache: when it names a node, that node is in the list, the number is its
  place and the position is that of its first byte.
\<close>

definition pos_entry_ok :: "vstr_node list \<Rightarrow> nat \<Rightarrow> cache_data_pos \<Rightarrow> nat \<Rightarrow> bool" where
  "pos_entry_ok ns used d i \<longleftrightarrow>
     (let k = node_index i ns in
      0 < k \<and> k < length ns \<and> pd_num d = Suc k \<and>
      pd_pos d + used = Suc (sum_list (map node_len (take k ns))))"

definition pos_cache_ok :: "vstr_base \<Rightarrow> bool" where
  "pos_cache_ok base \<longleftrightarrow>
     (case vstr_cache_get_pos base of
        None \<Rightarrow> True
      | Some d \<Rightarrow> (case pd_node d of
            None \<Rightarrow> True
          | Some i \<Rightarrow> pos_entry_ok (b_nodes base) (b_used base) d i))"

text \<open>
  While an operation that changes the string from position \<open>pos\<close> on is under way, only the
  entries for nodes that start at or before \<open>pos\<close> are reliable; the callbacks drop the others.
\<close>

definition pos_cache_upto :: "vstr_base \<Rightarrow> nat \<Rightarrow> bool" where
  "pos_cache_upto base pos \<longleftrightarrow>
     (case vstr_cache_get_pos base of
        None \<Rightarrow> True
      | Some d \<Rightarrow> (case pd_node d of
            None \<Rightarrow> True
          | Some i \<Rightarrow> pos < pd_pos d \<or> pos_entry_ok (b_nodes base) (b_used base) d i))"

definition ids_distinct :: "vstr_base \<Rightarrow> bool" where
  "ids_distinct base \<longleftrightarrow> distinct (map node_id (b_nodes base))"

lemma node_index_nth:
  assumes "distinct (map node_id ns)" "k < length ns"
  shows "node_index (node_id (ns ! k)) ns = k"
  using assms
proof (induction ns arbitrary: k)
  case Nil
  then show ?case by simp
next
  case (Cons n ns)
  show ?case
  proof (cases k)
    case 0
    then show ?thesis by (simp add: node_index_def)
  next
    case (Suc j)
    then have "node_id n \<noteq> node_id (ns ! j)"
      using Cons.prems by (metis distinct.simps(2) in_set_conv_nth length_Cons length_map
          list.simps(9) nat_add_left_cancel_less nth_map plus_1_eq_Suc)
    then show ?thesis
      using Cons Suc by (simp add: node_index_def)
  qed
qed

text \<open>What the walk computes: the first node at which the running total reaches the position.\<close>

lemma pos_walk_spec:
  assumes "pos_walk ns idx pos num = (idx', p, num')" "1 \<le> pos" "pos \<le> sum_list (map node_len ns)"
  shows "\<exists>k < length ns. idx' = idx + k \<and> num' = num + k \<and> 1 \<le> p \<and> p \<le> node_len (ns ! k) \<and>
    pos = sum_list (map node_len (take k ns)) + p"
  using assms
proof (induction ns arbitrary: idx pos num)
  case Nil
  then show ?case by simp
next
  case (Cons n ns)
  show ?case
  proof (cases "pos > node_len n")
    case True
    with Cons obtain k where k: "k < length ns" "idx' = Suc idx + k" "num' = Suc num + k" "1 \<le> p"
      "p \<le> node_len (ns ! k)" "pos - node_len n = sum_list (map node_len (take k ns)) + p"
      by (auto dest!: Cons.IH)
    then show ?thesis using True by (intro exI [of _ "Suc k"]) auto
  next
    case False
    with Cons.prems show ?thesis by (intro exI [of _ 0]) auto
  qed
qed

text \<open>
  \<open>at_pos base pos idx p\<close>: byte \<open>p\<close> (counted from 1) of node \<open>idx\<close> is position \<open>pos\<close> of the string.
\<close>

definition at_pos :: "vstr_base \<Rightarrow> nat \<Rightarrow> nat \<Rightarrow> nat \<Rightarrow> bool" where
  "at_pos base pos idx p \<longleftrightarrow> idx < length (b_nodes base) \<and> 1 \<le> p \<and>
     p \<le> node_len (b_nodes base ! idx) \<and>
     pos + b_used base = sum_list (map node_len (take idx (b_nodes base))) + p"

lemma sum_take_mono:
  "i \<le> j \<Longrightarrow> sum_list (map node_len (take i ns)) \<le> sum_list (map node_len (take j ns))"
  by (metis le_add1 le_iff_add map_append sum_list_append take_add)

lemma at_pos_unique:
  assumes "at_pos base pos i p" "at_pos base pos j q"
  shows "i = j \<and> p = q"
proof -
  have step: False if "i < j" "at_pos base pos i p" "at_pos base pos j q" for i j p q
  proof -
    have "sum_list (map node_len (take (Suc i) (b_nodes base)))
        \<le> sum_list (map node_len (take j (b_nodes base)))"
      using that(1) by (intro sum_take_mono) simp
    moreover have "sum_list (map node_len (take (Suc i) (b_nodes base))) =
        sum_list (map node_len (take i (b_nodes base))) + node_len (b_nodes base ! i)"
      using that(2) by (simp add: at_pos_def take_Suc_conv_app_nth)
    ultimately show False using that(2,3) by (simp add: at_pos_def)
  qed
  then have "i = j" using assms step [of i j p q] step [of j i q p] by (meson nat_neq_iff)
  then show ?thesis using assms by (simp add: at_pos_def)
qed

lemma ptr_pos_at_pos:
  assumes "wf_base base" "1 \<le> pos" "pos \<le> b_len base"
    and "vstr__base_ptr_pos base pos = (idx, p, num)"
  shows "at_pos base pos idx p \<and> num = Suc idx"
  using pos_walk_spec [of "b_nodes base" 0 "pos + b_used base" 1 idx p num] assms wf_base_sum [of base]
  by (auto simp: vstr__base_ptr_pos_def at_pos_def)

section \<open>The lookup is the walk\<close>

lemma sum_butlast:
  "ns \<noteq> [] \<Longrightarrow> sum_list (map node_len ns) =
     sum_list (map node_len (take (length ns - 1) ns)) + node_len (last ns)"
  using sum_list_last [of "map node_len ns"]
  by (simp add: map_butlast last_map butlast_conv_take take_map)

lemma used_lt_first:
  assumes "wf_base base" "0 < idx" "b_nodes base \<noteq> []"
  shows "b_used base < sum_list (map node_len (take idx (b_nodes base)))"
proof -
  obtain n ns where n: "b_nodes base = n # ns" using assms(3) by (cases "b_nodes base") auto
  then have "b_used base < node_len n"
    using assms(1) by (cases "b_used base = 0") (auto simp: wf_base_def vstr__check_real_nodes_def)
  then show ?thesis using n assms(2) by (cases idx) auto
qed

lemma last_at_pos:
  assumes "wf_base base" "b_nodes base \<noteq> []" "\<not> pos + b_used base \<le> node_len (hd (b_nodes base))"
    and "pos > b_len base - node_len (last (b_nodes base))" "pos \<le> b_len base"
  shows "at_pos base pos (length (b_nodes base) - 1)
           (pos - (b_len base - node_len (last (b_nodes base))))"
proof -
  let ?ns = "b_nodes base" and ?l = "node_len (last (b_nodes base))"
  let ?s = "sum_list (map node_len (take (length ?ns - 1) ?ns))"
  have sum: "?s + ?l = b_len base + b_used base"
    using wf_base_sum [OF assms(1)] sum_butlast [OF assms(2)] by simp
  have "length ?ns - 1 > 0"
  proof (rule ccontr)
    assume "\<not> length ?ns - 1 > 0"
    then have "?ns = [hd ?ns]" using assms(2) by (cases ?ns) auto
    then obtain n where "?ns = [n]" by blast
    then have "?l = node_len (hd ?ns)" "?s = 0" by simp_all
    then show False using assms(3,5) sum by simp
  qed
  then have "b_used base < ?s" using assms(1,2) by (intro used_lt_first)
  then have "1 \<le> pos - (b_len base - ?l)" "pos - (b_len base - ?l) \<le> ?l"
    "pos + b_used base = ?s + (pos - (b_len base - ?l))"
    using sum assms(4,5) by linarith+
  moreover have "node_len (?ns ! (length ?ns - 1)) = ?l" using assms(2) by (simp add: last_conv_nth)
  ultimately show ?thesis
    using assms(2) by (simp add: at_pos_def)
qed

lemma pos_walk_drop:
  assumes "wf_base base" "k < length (b_nodes base)" "1 \<le> q" "pos \<le> b_len base"
    and "pos + b_used base = sum_list (map node_len (take k (b_nodes base))) + q"
    and "pos_walk (drop k (b_nodes base)) k q (Suc k) = (idx, p, num)"
  shows "at_pos base pos idx p \<and> num = Suc idx \<and> k \<le> idx"
proof -
  let ?ns = "b_nodes base"
  have split: "sum_list (map node_len ?ns)
      = sum_list (map node_len (take k ?ns)) + sum_list (map node_len (drop k ?ns))"
    by (metis append_take_drop_id map_append sum_list_append)
  then have "q \<le> sum_list (map node_len (drop k ?ns))"
    using assms wf_base_sum [OF assms(1)] by simp
  then obtain j where j: "j < length (drop k ?ns)" "idx = k + j" "num = Suc k + j" "1 \<le> p"
    "p \<le> node_len (drop k ?ns ! j)" "q = sum_list (map node_len (take j (drop k ?ns))) + p"
    using pos_walk_spec [OF assms(6,3)] by blast
  then show ?thesis
    using assms(5) by (auto simp: at_pos_def take_add)
qed

definition same_but_cache :: "vstr_base \<Rightarrow> vstr_base \<Rightarrow> bool" where
  "same_but_cache a b \<longleftrightarrow> (\<exists>p. b = a\<lparr>b_cache := (b_cache a)\<lparr>cache_pos := p\<rparr>\<rparr>)"

lemma same_but_cache_refl [simp]: "same_but_cache a a"
  unfolding same_but_cache_def by (rule exI [of _ "cache_pos (b_cache a)"]) simp

lemma same_but_cache_frame:
  assumes "same_but_cache a b"
  shows "b_nodes b = b_nodes a" "b_len b = b_len a" "b_used b = b_used a" "b_conf b = b_conf a"
    "b_num b = b_num a" "iovec_upto_date b = iovec_upto_date a" "vstr_data b = vstr_data a"
    "wf_base b = wf_base a" "cache_vec (b_cache b) = cache_vec (b_cache a)"
    "cache_available b = cache_available a" "cache_internal b = cache_internal a"
    "node_non_used b = node_non_used a" "node_buf_used b = node_buf_used a"
    "node_ptr_used b = node_ptr_used a" "node_ref_used b = node_ref_used a"
    "cache_cstr (b_cache b) = cache_cstr (b_cache a)"
  using assms
  by (auto simp: same_but_cache_def vstr_data_def wf_base_def vstr__check_real_nodes_def)

lemma cache__pos_same: "same_but_cache base (vstr_cache__pos base i q num)"
  by (cases "cache_available base")
    (auto simp: vstr_cache__pos_def same_but_cache_def intro: exI [of _ "cache_pos (b_cache base)"])

lemma cache__pos_ok:
  assumes "wf_base base" "ids_distinct base" "at_pos base pos idx p" "0 < idx" "num = Suc idx"
  shows "pos_cache_ok (vstr_cache__pos base (node_id (b_nodes base ! idx)) ((pos - p) + 1) num) \<or>
    vstr_cache_get_pos base = None"
proof -
  have idx: "idx < length (b_nodes base)" using assms(3) by (simp add: at_pos_def)
  have "p < pos"
    using used_lt_first [OF assms(1,4)] assms(3) idx by (fastforce simp: at_pos_def)
  then show ?thesis
    using assms idx
    by (auto simp: pos_cache_ok_def pos_entry_ok_def vstr_cache_get_pos_def vstr_cache__pos_def at_pos_def
        node_index_nth ids_distinct_def Let_def split: if_splits option.splits)
qed

lemma cache__pos_None: "vstr_cache_get_pos base = None \<Longrightarrow> pos_cache_ok (vstr_cache__pos base i q num)"
  by (auto simp: pos_cache_ok_def vstr_cache_get_pos_def vstr_cache__pos_def)

lemma pos_start_ok:
  assumes "pos_cache_ok base" "b_nodes base \<noteq> []" "1 \<le> pos"
    and "pos_start base pos = (k, q, m)"
  shows "k < length (b_nodes base) \<and> 1 \<le> q \<and> m = Suc k \<and>
    pos + b_used base = sum_list (map node_len (take k (b_nodes base))) + q"
  using assms
  by (auto simp: pos_start_def pos_cache_ok_def pos_entry_ok_def Let_def split: option.splits if_splits)

text \<open>The contract of the lookup.\<close>

lemma base__pos_at_pos:
  assumes wf: "wf_base base" and ids: "ids_distinct base" and pc: "pos_cache_ok base"
    and pos: "1 \<le> pos" "pos \<le> b_len base"
    and res: "vstr_base__pos base pos cache = ((idx, p, num), base')"
  shows "at_pos base pos idx p \<and> num = Suc idx \<and> same_but_cache base base' \<and> pos_cache_ok base'"
proof -
  let ?ns = "b_nodes base"
  have ne: "?ns \<noteq> []" using wf pos by (auto simp: wf_base_def vstr__check_real_nodes_def)
  consider (first) "pos + b_used base \<le> node_len (hd ?ns)"
    | (last) "\<not> pos + b_used base \<le> node_len (hd ?ns)" "pos > b_len base - node_len (last ?ns)"
    | (walk) "\<not> pos + b_used base \<le> node_len (hd ?ns)" "\<not> pos > b_len base - node_len (last ?ns)"
    by blast
  then show ?thesis
  proof cases
    case first
    then show ?thesis
      using res ne pos pc by (auto simp: vstr_base__pos_def Let_def at_pos_def hd_conv_nth)
  next
    case last
    have "b_num base = length ?ns"
      using wf by (simp add: wf_base_def vstr__check_real_nodes_def)
    then show ?thesis
      using res ne pc last last_at_pos [OF wf ne last pos(2)]
      by (auto simp: vstr_base__pos_def Let_def)
  next
    case walk
    obtain k q m where st: "pos_start base pos = (k, q, m)" by (metis surj_pair)
    note ok = pos_start_ok [OF pc ne pos(1) st]
    have w: "pos_walk (drop k ?ns) k q (Suc k) = (idx, p, num)"
      and b': "base' = (if cache then vstr_cache__pos base (node_id (?ns ! idx)) ((pos - p) + 1) num
                 else base)"
      using res ne walk st ok by (auto simp: vstr_base__pos_def Let_def split: prod.splits)
    have at: "at_pos base pos idx p \<and> num = Suc idx \<and> k \<le> idx"
      using ok by (intro pos_walk_drop [OF wf _ _ pos(2) _ w]) auto
    then have "0 < idx"
      using walk(1) ne by (cases idx) (auto simp: at_pos_def hd_conv_nth)
    then show ?thesis
      using at b' pc cache__pos_same cache__pos_None
        cache__pos_ok [OF wf ids _ \<open>0 < idx\<close>, of pos p num] by auto
  qed
qed

text \<open>
  The optimised lookup and the plain walk of \<^verbatim>\<open>vstr__base_ptr_pos()\<close> agree on the node, the
  position in it and the node number.
\<close>

lemma base__pos_eq_ptr_pos:
  assumes "wf_base base" "ids_distinct base" "pos_cache_ok base" "1 \<le> pos" "pos \<le> b_len base"
  shows "fst (vstr_base__pos base pos cache) = vstr__base_ptr_pos base pos"
proof -
  obtain idx p num base' where 1: "vstr_base__pos base pos cache = ((idx, p, num), base')"
    by (metis surj_pair)
  obtain idx2 p2 num2 where 2: "vstr__base_ptr_pos base pos = (idx2, p2, num2)" by (metis surj_pair)
  show ?thesis
    using base__pos_at_pos [OF assms 1] ptr_pos_at_pos [OF assms(1,4,5) 2] at_pos_unique 1 2
    by fastforce
qed

section \<open>Position and content\<close>

lemma nodes_split_nth:
  "i < length ns \<Longrightarrow> nodes_data ns =
     nodes_data (take i ns) @ node_data (ns ! i) @ nodes_data (drop (Suc i) ns)"
  by (metis concat.simps(2) concat_append id_take_nth_drop list.simps(9) map_append)

lemma nodes_len_take: "\<forall>n \<in> set ns. node_ok z n \<Longrightarrow> length (nodes_data (take i ns)) = nodes_len (take i ns)"
  by (rule nodes_data_length) (auto dest: in_set_takeD)

text \<open>The content before and after a position, in terms of the node that holds it.\<close>

lemma at_pos_take_drop:
  assumes "wf_base base" "at_pos base pos idx p"
  shows "take pos (vstr_data base) = drop (b_used base)
          (nodes_data (take idx (b_nodes base)) @ take p (node_data (b_nodes base ! idx)))"
    and "drop pos (vstr_data base) =
          drop p (node_data (b_nodes base ! idx)) @ nodes_data (drop (Suc idx) (b_nodes base))"
proof -
  let ?ns = "b_nodes base" and ?n = "b_nodes base ! idx"
  have idx: "idx < length ?ns" and p: "p \<le> length (node_data ?n)"
    and pos: "pos + b_used base = nodes_len (take idx ?ns) + p"
    using assms node_data_length [OF wf_base_nodes_ok [OF assms(1)], of "?n"] by (auto simp: at_pos_def)
  have len: "length (nodes_data (take idx ?ns)) = nodes_len (take idx ?ns)"
    using assms(1) by (intro nodes_len_take [where z = "buf_sz (b_conf base)"]) (simp add: wf_base_iff)
  have *: "vstr_data base = drop (b_used base)
      (nodes_data (take idx ?ns) @ node_data ?n @ nodes_data (drop (Suc idx) ?ns))"
    using nodes_split_nth [OF idx] by (simp add: vstr_data_def)
  show "take pos (vstr_data base) =
      drop (b_used base) (nodes_data (take idx ?ns) @ take p (node_data ?n))"
    unfolding * take_drop pos using p len by simp
  show "drop pos (vstr_data base) = drop p (node_data ?n) @ nodes_data (drop (Suc idx) ?ns)"
    unfolding * drop_drop pos using p len by simp
qed

section \<open>Splitting keeps the content\<close>

lemma node_tail_facts:
  assumes "node_ok z n" "0 < k" "k < node_len n"
  shows "node_ok z (node_tail i k n)" "node_type (node_tail i k n) = node_type n"
    "node_id (node_tail i k n) = i" "node_len (node_tail i k n) = node_len n - k"
    "node_data (node_tail i k n) = drop k (node_data n)"
  using assms
  by (cases n; auto simp: node_simps cptr_add_def cptr_valid_def cptr_read_def drop_map take_drop
      add.commute)+

lemma node_add_ref_frame [simp]:
  "conf_same c (node_add_ref n c') \<longleftrightarrow> conf_same c c'"
  "vstr__check_spare_nodes (node_add_ref n c) \<longleftrightarrow> vstr__check_spare_nodes c"
  "malloc_bad (node_add_ref n c) = malloc_bad c"
  "buf_sz (node_add_ref n c) = buf_sz c" "split_buf_del (node_add_ref n c) = split_buf_del c"
  by (cases n; simp add: check_spare_iff)+

lemma UINT_MAX_pos [simp]: "1 \<le> UINT_MAX" "Suc 0 \<le> UINT_MAX"
  by (simp_all add: UINT_MAX_def)

lemma conf_same_wf:
  "wf_base b \<Longrightarrow> conf_same (b_conf b) c \<Longrightarrow> vstr__check_spare_nodes c \<Longrightarrow> wf_base (b\<lparr>b_conf := c\<rparr>)"
  by (simp add: wf_base_iff conf_same_def)

lemma node_add_ref_pools [simp]:
  "pool_ids (node_add_ref n c) = pool_ids c" "mk_cnt (heap (node_add_ref n c)) = mk_cnt (heap c)"
  "spare_beg t (node_add_ref n c) = spare_beg t c" "spare_num t (node_add_ref n c) = spare_num t c"
  by (cases n; simp add: vstr_ref_add_def)+

lemma ids_step_add_ref [simp]:
  "ids_step c ns (node_add_ref n c') ns' \<longleftrightarrow> ids_step c ns c' ns'"
  by (simp add: ids_step_def ids_of_def)

lemma node_tail_id [simp]: "node_id (node_tail i k n) = i"
  by (cases n) auto

lemma split_ids_step:
  assumes "idx < length ns" "spare_pop t c = (i, c')" "spare_beg t c \<noteq> []"
  shows "ids_step c ns c' (take idx ns @ [node_set_len p (ns ! idx), node_tail i p (ns ! idx)]
    @ drop (Suc idx) ns)"
proof -
  obtain ids where "spare_beg t c = i # ids" "c' = spare_upd t (spare_num t c - 1) ids c"
    using assms(2,3) by (cases "spare_beg t c") (auto simp: spare_pop_def)
  moreover have "mset (map node_id ns) = mset (map node_id (take idx ns)) + {#node_id (ns ! idx)#}
      + mset (map node_id (drop (Suc idx) ns))"
    using arg_cong [OF id_take_nth_drop [OF assms(1)], of "\<lambda>l. mset (map node_id l)"]
    by simp
  ultimately show ?thesis by (auto intro: ids_step_move)
qed

lemma split_node_cases:
  assumes wf: "wf_base base" and idx: "idx < length (b_nodes base)"
    and res: "vstr__base_split_node base idx pos = (ok, base')"
  obtains (fail) c where "\<not> ok" "base' = base\<lparr>b_conf := c\<rparr>" "malloc_bad c"
      "conf_same (b_conf base) c" "vstr__check_spare_nodes c"
      "ids_step (b_conf base) (b_nodes base) c (b_nodes base)"
    | (split) i c where "ok" "base' = base\<lparr>b_conf := c, b_num := b_num base + 1,
        iovec_upto_date := False, b_nodes := take idx (b_nodes base) @
          [node_set_len pos (b_nodes base ! idx), node_tail i pos (b_nodes base ! idx)] @
          drop (Suc idx) (b_nodes base)\<rparr>"
      "conf_same (b_conf base) c" "vstr__check_spare_nodes c"
      "ids_step (b_conf base) (b_nodes base) c (b_nodes base')"
proof -
  let ?t = "node_type (b_nodes base ! idx)"
  obtain ok1 c where 1: "cntl_set_num_range_spare (b_conf base) ?t 1 UINT_MAX = (ok1, c)" by fastforce
  have chk: "vstr__check_spare_nodes (b_conf base)" using wf by (simp add: wf_base_iff)
  note c = set_num_range_spare_check [OF 1 chk UINT_MAX_pos(1)] and st = ids_step_range [OF 1]
  obtain i c' where 2: "spare_pop ?t c = (i, c')" by fastforce
  show thesis
  proof (cases ok1)
    case False
    then show thesis using res 1 c st by (intro fail) (auto simp: vstr__base_split_node_def Let_def)
  next
    case True
    then have ne: "spare_beg ?t c \<noteq> []" using c by auto
    have "vstr__check_spare_nodes c'" "conf_same c c'"
      using spare_pop_check [OF _ _ 2] c True by auto
    moreover have b': "base' = base\<lparr>b_conf := node_add_ref (b_nodes base ! idx) c',
        b_num := b_num base + 1, iovec_upto_date := False, b_nodes := take idx (b_nodes base) @
          [node_set_len pos (b_nodes base ! idx), node_tail i pos (b_nodes base ! idx)] @
          drop (Suc idx) (b_nodes base)\<rparr>" "ok"
      using res 1 2 True by (auto simp: vstr__base_split_node_def Let_def)
    moreover have "ids_step (b_conf base) (b_nodes base) (node_add_ref (b_nodes base ! idx) c')
        (b_nodes base')"
      using ids_step_trans [OF st split_ids_step [OF idx 2 ne, of pos]] b' by simp
    ultimately show thesis
      using c conf_same_trans [of "b_conf base" c c']
      by (intro split [of i "node_add_ref (b_nodes base ! idx) c'"]) auto
  qed
qed

text \<open>Replacing one node by two that hold the same data.\<close>

lemma used_ok_split:
  assumes "used_ok u ns" "idx < length ns" "idx = 0 \<longrightarrow> u < k" "k \<le> node_len (ns ! idx)"
  shows "used_ok u (take idx ns @ node_set_len k (ns ! idx) # ms)"
  using assms used_ok_head_len [of u "hd ns" "tl ns" k]
  by (cases idx; cases ns) (auto simp: used_ok_def)

lemma split_node_ok:
  assumes wf: "wf_base base" and at: "at_pos base pos idx p" "p < node_len (b_nodes base ! idx)"
    and pos: "1 \<le> pos" and res: "vstr__base_split_node base idx p = (ok, base')"
  shows "wf_base base' \<and> vstr_data base' = vstr_data base \<and> b_len base' = b_len base \<and>
    conf_same (b_conf base) (b_conf base') \<and>
    ids_step (b_conf base) (b_nodes base) (b_conf base') (b_nodes base')"
proof (rule split_node_cases [OF wf _ res])
  show "idx < length (b_nodes base)" using at by (simp add: at_pos_def)
next
  fix c assume "\<not> ok" "base' = base\<lparr>b_conf := c\<rparr>" "conf_same (b_conf base) c"
    "vstr__check_spare_nodes c" "ids_step (b_conf base) (b_nodes base) c (b_nodes base)"
  then show ?thesis using conf_same_wf [OF wf] by (simp add: vstr_data_def)
next
  fix i c
  assume split: "ok" "base' = base\<lparr>b_conf := c, b_num := b_num base + 1, iovec_upto_date := False,
      b_nodes := take idx (b_nodes base) @
        [node_set_len p (b_nodes base ! idx), node_tail i p (b_nodes base ! idx)] @
        drop (Suc idx) (b_nodes base)\<rparr>"
    "conf_same (b_conf base) c" "vstr__check_spare_nodes c"
    "ids_step (b_conf base) (b_nodes base) c (b_nodes base')"
  let ?ns = "b_nodes base" and ?n = "b_nodes base ! idx"
  let ?new = "take idx ?ns @ [node_set_len p ?n, node_tail i p ?n] @ drop (Suc idx) ?ns"
  have idx: "idx < length ?ns" and p: "0 < p" and okn: "node_ok (buf_sz (b_conf base)) ?n"
    using at wf_base_nodes_ok [OF wf] by (auto simp: at_pos_def)
  note tl = node_tail_facts [OF okn p at(2), of i]
  have "nodes_data ?new = nodes_data ?ns"
    using nodes_split_nth [OF idx] at(2) tl by (simp add: node_set_len_data)
  moreover have "nodes_len ?new = nodes_len ?ns"
    using at(2) tl by (subst (4) id_take_nth_drop [OF idx]) (simp add: node_set_len_len)
  moreover have "idx = 0 \<longrightarrow> b_used base < p" using at(1) pos by (auto simp: at_pos_def)
  then have "used_ok (b_used base) ?new"
    using wf idx at used_ok_split [of "b_used base" ?ns idx p] by (simp add: wf_base_iff)
  moreover have "node_ok (buf_sz (b_conf base)) n \<and> flag_of base (node_type n)" if "n \<in> set ?new" for n
    using that wf tl node_set_len_ok [OF okn p] at(2) nth_mem [OF idx]
    by (auto simp: wf_base_iff dest: in_set_takeD in_set_dropD)
  ultimately show ?thesis
    using split wf idx by (simp add: wf_base_iff vstr_data_def conf_same_def)
qed

lemma zero_used_ok:
  assumes "wf_base base"
  shows "wf_base (vstr__base_zero_used base)" "vstr_data (vstr__base_zero_used base) = vstr_data base"
    "b_used (vstr__base_zero_used base) = 0" "b_len (vstr__base_zero_used base) = b_len base"
    "b_conf (vstr__base_zero_used base) = b_conf base"
  using assms
  by (auto simp: vstr__base_zero_used_def wf_base_iff used_ok_def node_simps vstr_data_def drop_map
      split: list.splits vstr_node.splits)

section \<open>Keeping the position cache\<close>

lemma node_index_prefix:
  assumes "map node_id as = map node_id as'" "node_index i (as @ bs) < length as"
  shows "node_index i (as' @ bs') = node_index i (as @ bs)"
  using assms
proof (induction as arbitrary: as')
  case (Cons a as)
  then obtain a' as2 where "as' = a' # as2" by (cases as') auto
  then show ?case using Cons by (auto simp: node_index_def split: if_splits)
qed simp

text \<open>
  An entry stays right when the nodes up to its own keep their identities and the nodes before
  its own keep their lengths.
\<close>

lemma pos_entry_prefix:
  assumes "pos_entry_ok (as @ bs) u d i" "map node_id as = map node_id as'"
    and "map node_len (butlast as) = map node_len (butlast as')"
    and "pd_pos d \<le> pos" "pos + u \<le> nodes_len as"
  shows "pos_entry_ok (as' @ bs') u d i"
proof -
  let ?k = "node_index i (as @ bs)"
  have k: "0 < ?k" "pd_num d = Suc ?k" "pd_pos d + u = Suc (nodes_len (take ?k (as @ bs)))"
    using assms(1) by (auto simp: pos_entry_ok_def Let_def)
  have "nodes_len (take ?k (as @ bs)) < nodes_len as" using k assms(4,5) by linarith
  then have lt: "?k < length as" by (cases "?k < length as") auto
  have len: "length as' = length as" using assms(2) by (metis length_map)
  have "take ?k (map node_len as) = take ?k (map node_len (butlast as))"
    using lt by (auto simp: take_map butlast_conv_take min_def)
  also have "\<dots> = take ?k (map node_len as')"
    using lt len unfolding assms(3) by (auto simp: take_map butlast_conv_take min_def)
  finally have "map node_len (take ?k as') = map node_len (take ?k as)" by (simp add: take_map)
  then show ?thesis
    using k lt len node_index_prefix [OF assms(2) lt, of bs'] by (simp add: pos_entry_ok_def)
qed

lemma pos_cache_upto_ok: "pos_cache_ok base \<Longrightarrow> pos_cache_upto base pos"
  by (auto simp: pos_cache_ok_def pos_cache_upto_def split: option.splits)

lemma pos_cache_upto_prefix:
  assumes "pos_cache_upto base pos" "b_nodes base = as @ bs" "b_nodes base' = as' @ bs'"
    and "vstr_cache_get_pos base' = vstr_cache_get_pos base" "b_used base' = b_used base"
    and "map node_id as = map node_id as'"
    and "map node_len (butlast as) = map node_len (butlast as')"
    and "pos + b_used base \<le> nodes_len as"
  shows "pos_cache_upto base' pos"
  using assms(1,2,3,4,5) pos_entry_prefix [OF _ assms(6,7) _ assms(8)]
  by (fastforce simp: pos_cache_upto_def split: option.splits)

lemma pos_cache_upto_0:
  assumes "wf_base base" "pos_cache_upto base 0" "vstr_cache_get_pos base' = vstr_cache_get_pos base"
  shows "pos_cache_upto base' 0"
proof -
  have "0 < pd_pos d" if "pos_entry_ok (b_nodes base) (b_used base) d i" for d i
    using that used_lt_first [OF assms(1), of "node_index i (b_nodes base)"]
    by (cases "b_nodes base = []") (auto simp: pos_entry_ok_def Let_def)
  then show ?thesis
    using assms(2,3) by (auto simp: pos_cache_upto_def split: option.splits)
qed

text \<open>What the callbacks leave alone, and that they complete an addition.\<close>

lemma vstr_ref_del_mk_cnt [simp]: "mk_cnt (vstr_ref_del r h) = mk_cnt h"
  by (simp add: vstr_ref_del_def Let_def split: option.split)

lemma cstr_cb_mk_cnt: "mk_cnt (snd (vstr__cache_cstr_cb pos len op d h)) = mk_cnt h"
  by (auto simp: vstr__cache_cstr_cb_def Let_def)

lemma cache_cbs_conf:
  "\<exists>h. b_conf (vstr__cache_cbs base pos len op) = (b_conf base)\<lparr>heap := h\<rparr> \<and>
     mk_cnt h = mk_cnt (heap (b_conf base))"
proof (cases "cache_cstr (b_cache base)")
  case (Some d)
  then show ?thesis
    using cstr_cb_mk_cnt [of pos len op d "heap (b_conf base)"]
    by (auto simp: vstr__cache_cbs_def Let_def split: prod.split)
qed (auto simp: vstr__cache_cbs_def Let_def intro: exI [of _ "heap (b_conf base)"])

lemma cache_cbs_frame [simp]:
  "b_nodes (vstr__cache_cbs base pos len op) = b_nodes base"
  "b_len (vstr__cache_cbs base pos len op) = b_len base"
  "b_num (vstr__cache_cbs base pos len op) = b_num base"
  "b_used (vstr__cache_cbs base pos len op) = b_used base"
  "iovec_upto_date (vstr__cache_cbs base pos len op) = iovec_upto_date base"
  "cache_available (vstr__cache_cbs base pos len op) = cache_available base"
  "flag_of (vstr__cache_cbs base pos len op) t = flag_of base t"
  "vstr_data (vstr__cache_cbs base pos len op) = vstr_data base"
  by (simp_all add: vstr__cache_cbs_def Let_def vstr_data_def flag_of_def split: prod.splits ntype.split)

lemma cache_cbs_wf [simp]: "wf_base (vstr__cache_cbs base pos len op) \<longleftrightarrow> wf_base base"
proof -
  obtain h where "b_conf (vstr__cache_cbs base pos len op) = (b_conf base)\<lparr>heap := h\<rparr>"
    using cache_cbs_conf by blast
  then show ?thesis by (simp add: wf_base_iff check_spare_iff)
qed

lemma cache_cbs_conf_same [simp]:
  "conf_same c (b_conf (vstr__cache_cbs base pos len op)) \<longleftrightarrow> conf_same c (b_conf base)"
  using cache_cbs_conf [of base pos len op] by auto

lemma cache_cbs_ids [simp]:
  "ids_step c ns (b_conf (vstr__cache_cbs base pos len op)) ns' \<longleftrightarrow> ids_step c ns (b_conf base) ns'"
  using cache_cbs_conf [of base pos len op] by (auto simp: ids_step_def ids_of_def)

lemma cache_cbs_vec [simp]:
  "op \<noteq> CACHE_FREE \<Longrightarrow> cache_vec (b_cache (vstr__cache_cbs base pos len op)) = cache_vec (b_cache base)"
  by (simp add: vstr__cache_cbs_def vstr__cache_iovec_cb_def Let_def split: prod.splits option.splits)

lemma cache_cbs_pos:
  "vstr_cache_get_pos (vstr__cache_cbs base pos len op) =
     (case vstr_cache_get_pos base of None \<Rightarrow> None | Some d \<Rightarrow> vstr__cache_pos_cb pos op d)"
  by (simp add: vstr__cache_cbs_def vstr_cache_get_pos_def Let_def split: prod.splits option.splits)

lemma cache_add_frame [simp]:
  "b_nodes (vstr__cache_add base pos len) = b_nodes base"
  "b_len (vstr__cache_add base pos len) = b_len base"
  "b_num (vstr__cache_add base pos len) = b_num base"
  "b_used (vstr__cache_add base pos len) = b_used base"
  "iovec_upto_date (vstr__cache_add base pos len) = iovec_upto_date base"
  "cache_vec (b_cache (vstr__cache_add base pos len)) = cache_vec (b_cache base)"
  "vstr_data (vstr__cache_add base pos len) = vstr_data base"
  "wf_base (vstr__cache_add base pos len) = wf_base base"
  "conf_same c (b_conf (vstr__cache_add base pos len)) = conf_same c (b_conf base)"
  "ids_step c ns (b_conf (vstr__cache_add base pos len)) ns' = ids_step c ns (b_conf base) ns'"
  by (simp_all add: vstr__cache_add_def)

lemma cache_add_pos_ok:
  assumes "pos_cache_upto base pos"
  shows "pos_cache_ok (vstr__cache_add base pos len)"
proof (cases "cache_available base")
  case True
  then show ?thesis
    using assms by (auto simp: vstr__cache_add_def pos_cache_ok_def pos_cache_upto_def cache_cbs_pos
        vstr__cache_pos_cb_def split: option.splits if_splits)
qed (simp add: vstr__cache_add_def pos_cache_ok_def vstr_cache_get_pos_def)

section \<open>The invariant between operations\<close>

text \<open>The invariant of a string between two operations.\<close>

definition vstr_inv :: "vstr_base \<Rightarrow> bool" where
  "vstr_inv base \<longleftrightarrow> wf_base base \<and> ids_ok (b_conf base) (b_nodes base) \<and> pos_cache_ok base"

section \<open>Concrete strings\<close>

text \<open>
  Strings on which the theorems of the development are applied: a configuration with
  buffers of four bytes, empty pools and an allocator that never fails, and a string made of
  given nodes.
\<close>

definition ex_heap :: vstr_heap where
  "ex_heap = \<lparr>mk_fail = (\<lambda>_. False), mk_cnt = 100, ref_cnt = (\<lambda>_. 1), ref_freed = []\<rparr>"

definition ex_conf :: vstr_conf where
  "ex_conf = \<lparr>spare_buf_num = 0, spare_buf_beg = [], spare_non_num = 0, spare_non_beg = [],
     spare_ptr_num = 0, spare_ptr_beg = [], spare_ref_num = 0, spare_ref_beg = [],
     iov_min_alloc = 0, iov_min_offset = 0, buf_sz = 4, malloc_bad = False, split_buf_del = False,
     heap = ex_heap\<rparr>"

definition ex_base :: "vstr_node list \<Rightarrow> vstr_base" where
  "ex_base ns = \<lparr>b_len = nodes_len ns, b_nodes = ns, b_num = length ns, b_conf = ex_conf, b_used = 0,
     iovec_upto_date = False, cache_available = True, cache_internal = True,
     node_buf_used = True, node_non_used = True, node_ptr_used = True, node_ref_used = True,
     b_cache = \<lparr>cache_sz = 1, cache_pos = Some \<lparr>pd_pos = 0, pd_num = 0, pd_node = None\<rparr>,
                cache_vec = None, cache_cstr = None\<rparr>\<rparr>"

text \<open>The string \<open>abcdef\<close> in two buffers.\<close>

definition ex_abc :: vstr_base where
  "ex_abc = ex_base [Node_buf 1 [97, 98, 99, 100], Node_buf 2 [101, 102]]"

lemma ex_base_inv:
  assumes "\<forall>n \<in> set ns. node_ok 4 n \<and> node_id n < 100" "distinct (map node_id ns)"
  shows "vstr_inv (ex_base ns)"
proof -
  have "wf_base (ex_base ns)"
    using assms(1) by (simp add: wf_base_iff ex_base_def ex_conf_def vstr__check_spare_nodes_def flag_of_def
        split: ntype.split)
  moreover have "ids_ok (b_conf (ex_base ns)) (b_nodes (ex_base ns))"
  proof -
    have "count (mset (map node_id ns)) i = 1" if "i \<in> node_id ` set ns" for i
      using that assms(2) by (metis distinct_count_atmost_1 list.set_map set_mset_mset)
    then show ?thesis
      using assms(1) by (auto simp: ids_ok_def ids_of_def pool_ids_def ex_base_def ex_conf_def ex_heap_def)
  qed
  moreover have "pos_cache_ok (ex_base ns)"
    by (simp add: pos_cache_ok_def vstr_cache_get_pos_def ex_base_def)
  ultimately show ?thesis by (simp add: vstr_inv_def)
qed

lemma ex_base_sel [simp]:
  "b_len (ex_base ns) = nodes_len ns" "b_nodes (ex_base ns) = ns" "b_used (ex_base ns) = 0"
  "b_conf (ex_base ns) = ex_conf" "vstr_data (ex_base ns) = nodes_data ns"
  by (simp_all add: ex_base_def vstr_data_def)

lemma ex_abc_inv [simp]: "vstr_inv ex_abc"
  unfolding ex_abc_def by (rule ex_base_inv) (auto simp: node_simps)

lemma ex_abc_sel [simp]:
  "b_len ex_abc = 6" "vstr_data ex_abc = [Some 97, Some 98, Some 99, Some 100, Some 101, Some 102]"
  "b_conf ex_abc = ex_conf" "b_used ex_abc = 0"
  "b_nodes ex_abc = [Node_buf 1 [97, 98, 99, 100], Node_buf 2 [101, 102]]"
  by (simp_all add: ex_abc_def)

section \<open>Properties\<close>

text \<open>
  C5. Position lookup. On a string that satisfies the invariant, \<^verbatim>\<open>vstr_base__pos()\<close> with its shortcuts
  for the first and the last node and its position cache returns the same node, the same place in it
  and the same node number as the plain walk of \<^verbatim>\<open>vstr__base_ptr_pos()\<close>, and the string it leaves behind
  differs only in the position cache and satisfies the invariant again.
\<close>

theorem position_lookup_is_walk:
  assumes "vstr_inv base" "1 \<le> pos" "pos \<le> b_len base"
  shows "fst (vstr_base__pos base pos cache) = vstr__base_ptr_pos base pos \<and>
    vstr_inv (snd (vstr_base__pos base pos cache)) \<and>
    vstr_data (snd (vstr_base__pos base pos cache)) = vstr_data base"
proof -
  have i: "wf_base base" "ids_distinct base" "pos_cache_ok base" "ids_ok (b_conf base) (b_nodes base)"
    using assms(1) ids_ok_distinct by (auto simp: vstr_inv_def ids_distinct_def)
  obtain idx p num b' where r: "vstr_base__pos base pos cache = ((idx, p, num), b')" by (metis surj_pair)
  have s: "same_but_cache base b'" "pos_cache_ok b'" using base__pos_at_pos [OF i(1-3) assms(2,3) r] by auto
  show ?thesis
    using same_but_cache_frame [OF s(1)] s(2) i r base__pos_eq_ptr_pos [OF i(1-3) assms(2,3), of cache]
    by (simp add: vstr_inv_def)
qed

theorem position_lookup_is_walk_witness:
  "fst (vstr_base__pos ex_abc 5 True) = vstr__base_ptr_pos ex_abc 5 \<and> vstr__base_ptr_pos ex_abc 5 = (1, 1, 2)"
  using position_lookup_is_walk [of ex_abc 5 True] by (simp add: vstr__base_ptr_pos_def)

end
