(* ===== verification/Vstr_Add.thy ===== *)
theory Vstr_Add
  imports Vstr_Base
begin

text \<open>
  Adding data to a string (src/vstr_add.c, include/vstr-inline.h). The five functions
  \<^verbatim>\<open>vstr_add_buf()\<close>, \<^verbatim>\<open>vstr_add_rep_chr()\<close>, \<^verbatim>\<open>vstr_add_ptr()\<close>, \<^verbatim>\<open>vstr_add_non()\<close> and \<^verbatim>\<open>vstr_add_ref()\<close>
  are written in the source with the macros \<^verbatim>\<open>VSTR__ADD_BEG\<close>, \<^verbatim>\<open>VSTR__ADD_MID\<close> and \<^verbatim>\<open>VSTR__ADD_END\<close>;
  the model has the macros as functions over a datatype of sources, which holds what differs
  between the five. The main result is that each of them inserts exactly its data at its
  position, keeps the invariant, and on failure leaves the content alone.
\<close>

section \<open>What is added\<close>

datatype add_src =
    Src_buf "byte list"
  | Src_rep byte nat
  | Src_ptr cptr nat
  | Src_non nat
  | Src_ref vstr_ref nat nat

primrec src_len :: "add_src \<Rightarrow> nat" where
  "src_len (Src_buf b) = length b"
| "src_len (Src_rep c n) = n"
| "src_len (Src_ptr p n) = n"
| "src_len (Src_non n) = n"
| "src_len (Src_ref r off n) = n"

primrec src_type :: "add_src \<Rightarrow> ntype" where
  "src_type (Src_buf b) = NODE_BUF"
| "src_type (Src_rep c n) = NODE_BUF"
| "src_type (Src_ptr p n) = NODE_PTR"
| "src_type (Src_non n) = NODE_NON"
| "src_type (Src_ref r off n) = NODE_REF"

primrec src_data :: "add_src \<Rightarrow> content" where
  "src_data (Src_buf b) = map Some b"
| "src_data (Src_rep c n) = replicate n (Some c)"
| "src_data (Src_ptr p n) = map Some (cptr_read p n)"
| "src_data (Src_non n) = replicate n None"
| "src_data (Src_ref r off n) = map Some (take n (drop off (ref_ptr r)))"

text \<open>The \<^verbatim>\<open>max\<close> argument of the macros.\<close>

definition src_max :: "vstr_conf \<Rightarrow> add_src \<Rightarrow> nat" where
  "src_max c s = (if src_type s = NODE_BUF then buf_sz c else VSTR_MAX_NODE_ALL)"

text \<open>The node the body of the loop fills from a spare node: its first \<open>k\<close> bytes of data.\<close>

primrec src_node :: "nat \<Rightarrow> nat \<Rightarrow> add_src \<Rightarrow> vstr_node" where
  "src_node i k (Src_buf b) = Node_buf i (take k b)"
| "src_node i k (Src_rep c n) = Node_buf i (replicate k c)"
| "src_node i k (Src_ptr p n) = Node_ptr i p k"
| "src_node i k (Src_non n) = Node_non i k"
| "src_node i k (Src_ref r off n) = Node_ref i r off k"

text \<open>
  The source after a node was filled: \<^verbatim>\<open>buffer += tmp\<close>, \<^verbatim>\<open>ptr += tmp\<close>, and for references
  \<^verbatim>\<open>off += len\<close>, where \<^verbatim>\<open>len\<close> is still the whole rest.
\<close>

primrec src_next :: "nat \<Rightarrow> add_src \<Rightarrow> add_src" where
  "src_next k (Src_buf b) = Src_buf (drop k b)"
| "src_next k (Src_rep c n) = Src_rep c (n - k)"
| "src_next k (Src_ptr p n) = Src_ptr (cptr_add p k) (n - k)"
| "src_next k (Src_non n) = Src_non (n - k)"
| "src_next k (Src_ref r off n) = Src_ref r (off + n) (n - k)"

text \<open>
  The condition under which the node before the position is extended in place, the extended
  node, and the source after that: here \<^verbatim>\<open>vstr_add_ptr()\<close> and \<^verbatim>\<open>vstr_add_ref()\<close> reduce the
  length and leave the pointer and the offset as they were.
\<close>

primrec src_fits :: "vstr_conf \<Rightarrow> vstr_node \<Rightarrow> add_src \<Rightarrow> bool" where
  "src_fits c node (Src_buf b) \<longleftrightarrow> node_type node = NODE_BUF \<and> node_len node < buf_sz c"
| "src_fits c node (Src_rep x n) \<longleftrightarrow> node_type node = NODE_BUF \<and> node_len node < buf_sz c"
| "src_fits c node (Src_ptr p n) \<longleftrightarrow>
     (case node of Node_ptr i q k \<Rightarrow> cptr_eq (cptr_add q k) p \<and> k < VSTR_MAX_NODE_ALL | _ \<Rightarrow> False)"
| "src_fits c node (Src_non n) \<longleftrightarrow> node_type node = NODE_NON \<and> node_len node < VSTR_MAX_NODE_ALL"
| "src_fits c node (Src_ref r off n) \<longleftrightarrow>
     (case node of Node_ref i s o' k \<Rightarrow>
        ref_id s = ref_id r \<and> o' + k = off \<and> k < VSTR_MAX_NODE_ALL | _ \<Rightarrow> False)"

primrec node_grow :: "nat \<Rightarrow> add_src \<Rightarrow> vstr_node \<Rightarrow> vstr_node" where
  "node_grow k s (Node_buf i b) =
     Node_buf i (b @ (case s of Src_buf d \<Rightarrow> take k d | Src_rep c n \<Rightarrow> replicate k c | _ \<Rightarrow> []))"
| "node_grow k s (Node_non i n) = Node_non i (n + k)"
| "node_grow k s (Node_ptr i p n) = Node_ptr i p (n + k)"
| "node_grow k s (Node_ref i r off n) = Node_ref i r off (n + k)"

primrec src_merged :: "nat \<Rightarrow> add_src \<Rightarrow> add_src" where
  "src_merged k (Src_buf b) = Src_buf (drop k b)"
| "src_merged k (Src_rep c n) = Src_rep c (n - k)"
| "src_merged k (Src_ptr p n) = Src_ptr p (n - k)"
| "src_merged k (Src_non n) = Src_non (n - k)"
| "src_merged k (Src_ref r off n) = Src_ref r off (n - k)"

section \<open>The macros\<close>

definition vstr__add_setup_pos :: "vstr_base \<Rightarrow> nat \<Rightarrow> (nat \<times> nat) option \<times> vstr_base" where
  "vstr__add_setup_pos base pos =
     (case vstr_base__pos base pos True of ((idx, p, num), b1) \<Rightarrow>
        if p \<noteq> node_len (b_nodes b1 ! idx) then
          (case vstr__base_split_node b1 idx p of
             (False, b2) \<Rightarrow> (None, b2)
           | (True, b2) \<Rightarrow> (Some (idx, num), b2))
        else (Some (idx, num), b1))"

text \<open>The number of nodes to reserve, an \<^verbatim>\<open>unsigned int\<close>.\<close>

definition alloc_num :: "nat \<Rightarrow> nat \<Rightarrow> nat" where
  "alloc_num len mx = (len div mx + (if len mod mx \<noteq> 0 then 1 else 0)) mod 2 ^ 32"

text \<open>
  \<^verbatim>\<open>VSTR__ADD_BEG\<close>: find (and split) the node before the position, reserve spare nodes unless
  the data goes into the free space of that node. The result says whether to go on.
\<close>

definition VSTR__ADD_BEG ::
    "vstr_base \<Rightarrow> nat \<Rightarrow> add_src \<Rightarrow> bool \<times> (nat \<times> nat) option \<times> vstr_base" where
  "VSTR__ADD_BEG base pos s =
     (case (if pos \<noteq> 0 \<and> b_len base \<noteq> 0 then vstr__add_setup_pos base pos else (None, base)) of
        (scan, b1) \<Rightarrow>
          if pos \<noteq> 0 \<and> b_len base \<noteq> 0 \<and> scan = None then (False, None, b1)
          else if src_type s = NODE_BUF \<and>
            (case scan of None \<Rightarrow> False
             | Some (idx, num) \<Rightarrow>
                let node = b_nodes b1 ! idx in
                node_type node = NODE_BUF \<and> src_len s \<le> buf_sz (b_conf b1) - node_len node)
          then (True, scan, b1)
          else (case cntl_set_num_range_spare (b_conf b1) (src_type s)
                       (alloc_num (src_len s) (src_max (b_conf b1) s)) UINT_MAX of
                  (ok, c) \<Rightarrow> (ok, scan, b1\<lparr>b_conf := c\<rparr>)))"

text \<open>
  The block between \<^verbatim>\<open>VSTR__ADD_BEG\<close> and \<^verbatim>\<open>VSTR__ADD_MID\<close>: extend the node before the position.
\<close>

definition vstr__add_fill ::
    "vstr_base \<Rightarrow> (nat \<times> nat) option \<Rightarrow> add_src \<Rightarrow> add_src \<times> vstr_base" where
  "vstr__add_fill base scan s =
     (case scan of
        None \<Rightarrow> (s, base)
      | Some (idx, num) \<Rightarrow>
          let node = b_nodes base ! idx in
          if src_fits (b_conf base) node s then
            let tmp = min (src_max (b_conf base) s - node_len node) (src_len s);
                b1 = base\<lparr>b_nodes := (b_nodes base)[idx := node_grow tmp s node]\<rparr>;
                b2 = vstr__cache_iovec_add_node_end b1 num tmp
            in (src_merged tmp s, b2\<lparr>b_len := b_len b2 + tmp\<rparr>)
          else (s, base))"

definition set_flag :: "ntype \<Rightarrow> vstr_base \<Rightarrow> vstr_base" where
  "set_flag t base =
     (case t of NODE_BUF \<Rightarrow> base\<lparr>node_buf_used := True\<rparr> | NODE_NON \<Rightarrow> base\<lparr>node_non_used := True\<rparr>
      | NODE_PTR \<Rightarrow> base\<lparr>node_ptr_used := True\<rparr> | NODE_REF \<Rightarrow> base\<lparr>node_ref_used := True\<rparr>)"

text \<open>
  The loop that \<^verbatim>\<open>VSTR__ADD_MID\<close> opens and \<^verbatim>\<open>VSTR__ADD_END\<close> closes: it fills one spare node after
  the other. It returns the new nodes, the spare nodes left and the string.
\<close>

primrec vstr__add_loop ::
    "nat list \<Rightarrow> add_src \<Rightarrow> bool \<Rightarrow> vstr_base \<Rightarrow> vstr_node list \<times> nat list \<times> vstr_base" where
  "vstr__add_loop [] s at_end base = ([], [], base)"
| "vstr__add_loop (i # ids) s at_end base =
     (if src_len s = 0 then ([], i # ids, base)
      else
        let tmp = min (src_max (b_conf base) s) (src_len s);
            b1 = (set_flag (src_type s) base)\<lparr>b_num := b_num base + 1\<rparr>;
            node = src_node i tmp s;
            b2 = b1\<lparr>b_conf := node_add_ref node (b_conf b1)\<rparr>;
            b3 = vstr__cache_iovec_maybe_add b2 node at_end tmp
        in (case vstr__add_loop ids (src_next tmp s) at_end b3 of
              (ns, rest, b4) \<Rightarrow> (node # ns, rest, b4)))"

definition VSTR__ADD_MID_END ::
    "vstr_base \<Rightarrow> (nat \<times> nat) option \<Rightarrow> nat \<Rightarrow> nat \<Rightarrow> add_src \<Rightarrow> vstr_base" where
  "VSTR__ADD_MID_END base scan orig_pos orig_len s =
     (let (b1, at, at_end) =
            (case scan of
               Some (idx, num) \<Rightarrow>
                 ((if idx \<noteq> length (b_nodes base) - 1 then base\<lparr>iovec_upto_date := False\<rparr> else base),
                  Suc idx, True)
             | None \<Rightarrow> if b_len base \<noteq> 0 then (vstr__base_zero_used base, 0, False)
                       else (base, 0, True));
          t = src_type s;
          b2 = b1\<lparr>b_len := b_len b1 + src_len s\<rparr>;
          (new, rest, b3) = vstr__add_loop (spare_beg t (b_conf b2)) s at_end b2;
          b4 = b3\<lparr>b_conf := spare_upd t (spare_num t (b_conf b3) - length new) rest (b_conf b3),
                  b_nodes := ins_at at new (b_nodes b3)\<rparr>
      in vstr__cache_add b4 orig_pos orig_len)"

definition vstr__add :: "vstr_base \<Rightarrow> nat \<Rightarrow> add_src \<Rightarrow> bool \<times> vstr_base" where
  "vstr__add base pos s =
     (case VSTR__ADD_BEG base pos s of
        (False, scan, b1) \<Rightarrow> (False, b1)
      | (True, scan, b1) \<Rightarrow>
         (case vstr__add_fill b1 scan s of (s', b2) \<Rightarrow>
            if src_len s' = 0 then (True, vstr__cache_add b2 pos (src_len s))
            else (True, VSTR__ADD_MID_END b2 scan pos (src_len s) s')))"

section \<open>The functions\<close>

definition vstr_extern_inline_add_buf :: "vstr_base \<Rightarrow> nat \<Rightarrow> byte list \<Rightarrow> bool \<times> vstr_base" where
  "vstr_extern_inline_add_buf base pos buffer =
     (if buffer = [] \<or> pos > b_len base then (False, base) else vstr__add base pos (Src_buf buffer))"

definition vstr_extern_inline_add_rep_chr ::
    "vstr_base \<Rightarrow> nat \<Rightarrow> byte \<Rightarrow> nat \<Rightarrow> bool \<times> vstr_base" where
  "vstr_extern_inline_add_rep_chr base pos chr len =
     (if len = 0 \<or> pos > b_len base then (False, base) else vstr__add base pos (Src_rep chr len))"

definition vstr_add_ptr :: "vstr_base \<Rightarrow> nat \<Rightarrow> cptr \<Rightarrow> nat \<Rightarrow> bool \<times> vstr_base" where
  "vstr_add_ptr base pos ptr len =
     (if pos > b_len base then (False, base) else if len = 0 then (True, base)
      else vstr__add base pos (Src_ptr ptr len))"

definition vstr_add_non :: "vstr_base \<Rightarrow> nat \<Rightarrow> nat \<Rightarrow> bool \<times> vstr_base" where
  "vstr_add_non base pos len =
     (if pos > b_len base then (False, base) else if len = 0 then (True, base)
      else vstr__add base pos (Src_non len))"

definition vstr_add_ref :: "vstr_base \<Rightarrow> nat \<Rightarrow> vstr_ref \<Rightarrow> nat \<Rightarrow> nat \<Rightarrow> bool \<times> vstr_base" where
  "vstr_add_ref base pos ref off len =
     (if pos > b_len base then (False, base) else if len = 0 then (True, base)
      else vstr__add base pos (Src_ref ref off len))"

text \<open>
  The inline fast path of \<^verbatim>\<open>vstr_add_buf()\<close> and \<^verbatim>\<open>vstr_add_rep_chr()\<close>: append to the free space of
  the last node, without looking up the position and without the callbacks.
\<close>

definition add_fast_ok :: "vstr_base \<Rightarrow> nat \<Rightarrow> nat \<Rightarrow> bool" where
  "add_fast_ok base pos len \<longleftrightarrow> b_len base \<noteq> 0 \<and> pos = b_len base \<and>
     node_type (last (b_nodes base)) = NODE_BUF \<and>
     len \<le> buf_sz (b_conf base) - node_len (last (b_nodes base)) \<and>
     (\<not> cache_available base \<or> cache_internal base)"

definition add_fast :: "vstr_base \<Rightarrow> add_src \<Rightarrow> vstr_base" where
  "add_fast base s =
     (let len = src_len s;
          b1 = base\<lparr>b_nodes := (b_nodes base)[length (b_nodes base) - 1 :=
                      node_grow len s (last (b_nodes base))],
                    b_len := b_len base + len\<rparr>
      in if iovec_upto_date b1
         then vec_map (\<lambda>d. let k = b_num b1 + iov_off d - 1 in
                d\<lparr>iov_v := (iov_v d)[k := (fst (iov_v d ! k), snd (iov_v d ! k) + len)]\<rparr>) b1
         else b1)"

definition vstr_add_buf :: "vstr_base \<Rightarrow> nat \<Rightarrow> byte list \<Rightarrow> bool \<times> vstr_base" where
  "vstr_add_buf base pos buffer =
     (if pos > b_len base then (False, base)
      else if buffer = [] then (True, base)
      else if add_fast_ok base pos (length buffer) then (True, add_fast base (Src_buf buffer))
      else vstr_extern_inline_add_buf base pos buffer)"

definition vstr_add_rep_chr :: "vstr_base \<Rightarrow> nat \<Rightarrow> byte \<Rightarrow> nat \<Rightarrow> bool \<times> vstr_base" where
  "vstr_add_rep_chr base pos chr len =
     (if pos > b_len base then (False, base)
      else if len = 0 then (True, base)
      else if add_fast_ok base pos len then (True, add_fast base (Src_rep chr len))
      else vstr_extern_inline_add_rep_chr base pos chr len)"

section \<open>Sources\<close>

text \<open>
  The memory a source names exists. The lengths of pointer and reference sources are bounded by
  what one node can hold: beyond that the code does not advance the offset correctly.
\<close>

definition src_valid :: "add_src \<Rightarrow> bool" where
  "src_valid s \<longleftrightarrow>
     (case s of Src_ptr p n \<Rightarrow> cptr_valid p n \<and> n \<le> VSTR_MAX_NODE_ALL
      | Src_ref r off n \<Rightarrow> off + n \<le> length (ref_ptr r) \<and> n \<le> VSTR_MAX_NODE_ALL
      | _ \<Rightarrow> True)"

text \<open>
  A source that may be added to a string: memory reached through the same block or the same
  reference is the same memory, and a node that is extended in place has room.
\<close>

definition src_coh :: "add_src \<Rightarrow> vstr_node \<Rightarrow> bool" where
  "src_coh s n \<longleftrightarrow>
     (case n of
        Node_ptr i q k \<Rightarrow> (case s of Src_ptr p m \<Rightarrow> cp_blk q = cp_blk p \<longrightarrow> cp_mem q = cp_mem p | _ \<Rightarrow> True)
      | Node_ref i r off k \<Rightarrow>
          (case s of Src_ref r' o' m \<Rightarrow> ref_id r = ref_id r' \<longrightarrow> ref_ptr r = ref_ptr r' | _ \<Rightarrow> True)
      | _ \<Rightarrow> True)"

definition src_ok :: "vstr_base \<Rightarrow> add_src \<Rightarrow> bool" where
  "src_ok base s \<longleftrightarrow> src_valid s \<and> src_len s \<le> UINT_MAX \<and>
     (src_type s \<in> {NODE_PTR, NODE_REF} \<longrightarrow>
        b_len base + b_used base + src_len s \<le> VSTR_MAX_NODE_ALL) \<and>
     (\<forall>n \<in> set (b_nodes base). src_coh s n)"

lemma src_data_length: "src_valid s \<Longrightarrow> length (src_data s) = src_len s"
  by (cases s) (auto simp: src_valid_def cptr_read_length)

lemma src_node_facts:
  assumes "src_valid s" "0 < k" "k \<le> src_max c s" "k \<le> src_len s"
  shows "node_ok (buf_sz c) (src_node i k s)" "node_data (src_node i k s) = take k (src_data s)"
    "node_len (src_node i k s) = k" "node_type (src_node i k s) = src_type s"
    "node_id (src_node i k s) = i"
  using assms
  by (cases s; auto simp: src_valid_def src_max_def node_simps cptr_valid_def cptr_read_def
      take_map min_def)+

lemma src_next_facts:
  assumes "src_valid s" "k = min (src_max c s) (src_len s)"
  shows "src_valid (src_next k s)" "src_data (src_next k s) = drop k (src_data s)"
    "src_len (src_next k s) = src_len s - k" "src_type (src_next k s) = src_type s"
    "src_max c (src_next k s) = src_max c s"
  using assms
  by (cases s; auto simp: src_valid_def src_max_def cptr_valid_def cptr_read_def cptr_add_def
      drop_map drop_take add.commute)+

lemma src_max_pos: "0 < buf_sz c \<Longrightarrow> 0 < src_max c s"
  by (simp add: src_max_def VSTR_MAX_NODE_ALL_def)

lemma alloc_num_enough:
  assumes "len \<le> UINT_MAX" "0 < mx"
  shows "len \<le> alloc_num len mx * mx" "alloc_num len mx \<le> UINT_MAX"
proof -
  let ?n = "len div mx + (if len mod mx \<noteq> 0 then 1 else 0)"
  have "?n \<le> len"
  proof (cases "mx = 1")
    case False
    then have "len mod mx \<noteq> 0 \<Longrightarrow> len div mx < len"
      using assms(2) by (cases "len = 0") (auto intro: div_less_dividend)
    then show ?thesis by (auto simp: Suc_le_eq)
  qed simp
  then have eq: "alloc_num len mx = ?n" using assms(1) by (simp add: alloc_num_def UINT_MAX_def)
  have "a = q + r \<Longrightarrow> r < mx \<Longrightarrow> a \<le> q + (if r \<noteq> 0 then mx else 0)" for a q r :: nat by simp
  then have "len \<le> len div mx * mx + (if len mod mx \<noteq> 0 then mx else 0)"
    using assms(2) by (metis div_mult_mod_eq mod_less_divisor)
  also have "\<dots> = ?n * mx" by (simp add: distrib_right)
  finally show "len \<le> alloc_num len mx * mx" unfolding eq .
  show "alloc_num len mx \<le> UINT_MAX" using \<open>?n \<le> len\<close> eq assms(1) by simp
qed

section \<open>The loop\<close>

lemma vec_map_frame [simp]:
  "b_nodes (vec_map f b) = b_nodes b" "b_len (vec_map f b) = b_len b" "b_num (vec_map f b) = b_num b"
  "b_used (vec_map f b) = b_used b" "b_conf (vec_map f b) = b_conf b" "flag_of (vec_map f b) t = flag_of b t"
  "vstr_cache_get_pos (vec_map f b) = vstr_cache_get_pos b"
  "iovec_upto_date (vec_map f b) = iovec_upto_date b"
  "cache_vec (b_cache (vec_map f b)) = map_option f (cache_vec (b_cache b))"
  by (simp_all add: vec_map_def vstr_cache_get_pos_def)

lemma maybe_add_frame [simp]:
  "b_nodes (vstr__cache_iovec_maybe_add b n e l) = b_nodes b"
  "b_len (vstr__cache_iovec_maybe_add b n e l) = b_len b"
  "b_num (vstr__cache_iovec_maybe_add b n e l) = b_num b"
  "b_used (vstr__cache_iovec_maybe_add b n e l) = b_used b"
  "b_conf (vstr__cache_iovec_maybe_add b n e l) = b_conf b"
  "flag_of (vstr__cache_iovec_maybe_add b n e l) t = flag_of b t"
  "vstr_cache_get_pos (vstr__cache_iovec_maybe_add b n e l) = vstr_cache_get_pos b"
  by (simp_all add: vstr__cache_iovec_maybe_add_def vstr__cache_iovec_add_end_def
      vstr__cache_iovec_add_beg_def vstr_cache_get_pos_def split: option.split)
    (simp_all add: vec_map_def)

lemma set_flag_frame [simp]:
  "b_nodes (set_flag t b) = b_nodes b" "b_len (set_flag t b) = b_len b" "b_num (set_flag t b) = b_num b"
  "b_used (set_flag t b) = b_used b" "b_conf (set_flag t b) = b_conf b"
  "flag_of (set_flag t b) u \<longleftrightarrow> u = t \<or> flag_of b u"
  "vstr_cache_get_pos (set_flag t b) = vstr_cache_get_pos b"
  "iovec_upto_date (set_flag t b) = iovec_upto_date b" "b_cache (set_flag t b) = b_cache b"
  by (cases t; simp add: set_flag_def flag_of_def vstr_cache_get_pos_def split: ntype.split)+

lemma get_pos_frame [simp]:
  "vstr_cache_get_pos (b\<lparr>b_nodes := x1\<rparr>) = vstr_cache_get_pos b"
  "vstr_cache_get_pos (b\<lparr>b_num := x2\<rparr>) = vstr_cache_get_pos b"
  "vstr_cache_get_pos (b\<lparr>b_len := x3\<rparr>) = vstr_cache_get_pos b"
  "vstr_cache_get_pos (b\<lparr>b_conf := x4\<rparr>) = vstr_cache_get_pos b"
  "vstr_cache_get_pos (b\<lparr>iovec_upto_date := x5\<rparr>) = vstr_cache_get_pos b"
  "vstr_cache_get_pos (b\<lparr>b_used := x6\<rparr>) = vstr_cache_get_pos b"
  by (simp_all add: vstr_cache_get_pos_def)

definition loop_frame :: "vstr_base \<Rightarrow> vstr_base \<Rightarrow> bool" where
  "loop_frame b b' \<longleftrightarrow> b_nodes b' = b_nodes b \<and> b_len b' = b_len b \<and> b_used b' = b_used b \<and>
     vstr_cache_get_pos b' = vstr_cache_get_pos b \<and> conf_same (b_conf b) (b_conf b') \<and>
     (\<forall>t. spare_beg t (b_conf b') = spare_beg t (b_conf b) \<and>
          spare_num t (b_conf b') = spare_num t (b_conf b)) \<and>
     mk_cnt (heap (b_conf b')) = mk_cnt (heap (b_conf b)) \<and>
     pool_ids (b_conf b') = pool_ids (b_conf b) \<and> malloc_bad (b_conf b') = malloc_bad (b_conf b)"

text \<open>
  The loop turns the source into nodes of its type, in order, using the spare nodes from the
  front of the pool; with enough of them nothing of the source is left.
\<close>

lemma add_loop_spec:
  assumes "vstr__add_loop ids s e base = (new, rest, base')" "src_valid s" "0 < buf_sz (b_conf base)"
    and "src_len s \<le> length ids * src_max (b_conf base) s"
  shows "nodes_data new = src_data s" "nodes_len new = src_len s" "ids = map node_id new @ rest"
    "\<forall>n \<in> set new. node_ok (buf_sz (b_conf base)) n \<and> node_type n = src_type s"
    "b_num base' = b_num base + length new" "loop_frame base base'"
    "\<forall>t. flag_of base' t \<longleftrightarrow> flag_of base t \<or> (new \<noteq> [] \<and> t = src_type s)"
proof -
  have "nodes_data new = src_data s \<and> nodes_len new = src_len s \<and> ids = map node_id new @ rest \<and>
    (\<forall>n \<in> set new. node_ok (buf_sz (b_conf base)) n \<and> node_type n = src_type s) \<and>
    b_num base' = b_num base + length new \<and> loop_frame base base' \<and>
    (\<forall>t. flag_of base' t \<longleftrightarrow> flag_of base t \<or> (new \<noteq> [] \<and> t = src_type s))"
    using assms
  proof (induction ids arbitrary: s base new)
    case Nil
    then have "src_len s = 0" by simp
    then have "src_data s = []" using Nil src_data_length by fastforce
    with Nil \<open>src_len s = 0\<close> show ?case by (simp add: loop_frame_def)
  next
    case (Cons i ids)
    show ?case
    proof (cases "src_len s = 0")
      case True
      then have "src_data s = []" using Cons.prems src_data_length by fastforce
      with Cons True show ?thesis by (simp add: loop_frame_def)
    next
      case False
      define k where "k = min (src_max (b_conf base) s) (src_len s)"
      define node where "node = src_node i k s"
      define b1 where "b1 = (set_flag (src_type s) base)\<lparr>b_num := b_num base + 1\<rparr>"
      define b2 where "b2 = b1\<lparr>b_conf := node_add_ref node (b_conf b1)\<rparr>"
      define b3 where "b3 = vstr__cache_iovec_maybe_add b2 node e k"
      obtain ns rest1 b4 where l: "vstr__add_loop ids (src_next k s) e b3 = (ns, rest1, b4)"
        by (metis surj_pair)
      have res: "new = node # ns" "rest = rest1" "base' = b4"
        using Cons.prems(1) False l unfolding k_def node_def b1_def b2_def b3_def by (auto simp: Let_def)
      have k: "0 < k" "k \<le> src_max (b_conf base) s" "k \<le> src_len s"
        using False src_max_pos [of "b_conf base" s] Cons.prems(3) by (auto simp: k_def)
      note nf = src_node_facts [OF Cons.prems(2) k, of i, folded node_def]
      note sf = src_next_facts [OF Cons.prems(2) k_def]
      have fr: "loop_frame base b3" "b_num b3 = b_num base + 1" "buf_sz (b_conf b3) = buf_sz (b_conf base)"
        "flag_of b3 t \<longleftrightarrow> flag_of base t \<or> t = src_type s" for t
        by (auto simp: b3_def b2_def b1_def loop_frame_def)
      have mx: "src_max (b_conf b3) (src_next k s) = src_max (b_conf base) s"
        using fr(3) sf by (simp add: src_max_def)
      have "src_len (src_next k s) \<le> length ids * src_max (b_conf b3) (src_next k s)"
        using Cons.prems(4) sf(3) unfolding mx by (auto simp: k_def)
      note IH = Cons.IH [OF l [folded res(2,3)] sf(1) _ this]
      have "nodes_data ns = drop k (src_data s) \<and> nodes_len ns = src_len s - k \<and> ids = map node_id ns @ rest \<and>
         (\<forall>n \<in> set ns. node_ok (buf_sz (b_conf base)) n \<and> node_type n = src_type s) \<and>
         b_num base' = b_num base + 1 + length ns \<and> loop_frame b3 base' \<and>
         (\<forall>t. flag_of base' t \<longleftrightarrow> flag_of base t \<or> t = src_type s)"
        using IH Cons.prems(3) fr sf by auto
      moreover have "loop_frame base base'" if "loop_frame b3 base'"
        using that fr(1) by (simp add: loop_frame_def conf_same_def)
      ultimately show ?thesis
        using res nf k by simp
    qed
  qed
  then show "nodes_data new = src_data s" "nodes_len new = src_len s" "ids = map node_id new @ rest"
    "\<forall>n \<in> set new. node_ok (buf_sz (b_conf base)) n \<and> node_type n = src_type s"
    "b_num base' = b_num base + length new" "loop_frame base base'"
    "\<forall>t. flag_of base' t \<longleftrightarrow> flag_of base t \<or> (new \<noteq> [] \<and> t = src_type s)"
    by blast+
qed

section \<open>Extending a node\<close>

text \<open>Where the data goes: behind node \<open>idx\<close>, which ends at the position, or to the front.\<close>

definition add_at :: "vstr_base \<Rightarrow> nat \<Rightarrow> (nat \<times> nat) option \<Rightarrow> bool" where
  "add_at base pos scan \<longleftrightarrow>
     (case scan of None \<Rightarrow> pos = 0
      | Some (idx, num) \<Rightarrow> num = Suc idx \<and> idx < length (b_nodes base) \<and> 0 < pos \<and>
          nodes_len (take (Suc idx) (b_nodes base)) = pos + b_used base)"

lemma vstr_data_split:
  assumes "wf_base base" "b_nodes base = as @ bs" "nodes_len as = pos + b_used base"
  shows "vstr_data base = drop (b_used base) (nodes_data as) @ nodes_data bs"
    "length (drop (b_used base) (nodes_data as)) = pos"
proof -
  have "length (nodes_data as) = pos + b_used base"
    using assms nodes_data_length [of as "buf_sz (b_conf base)"] by (simp add: wf_base_iff)
  then show "vstr_data base = drop (b_used base) (nodes_data as) @ nodes_data bs"
    "length (drop (b_used base) (nodes_data as)) = pos"
    using assms(2) by (simp_all add: vstr_data_def)
qed

lemma wf_base_empty: "wf_base base \<Longrightarrow> b_len base = 0 \<Longrightarrow> b_nodes base = [] \<and> b_used base = 0"
proof -
  assume wf: "wf_base base" and "b_len base = 0"
  then have sum: "nodes_len (b_nodes base) = b_used base" by (simp add: wf_base_iff)
  have "b_nodes base = []"
  proof (cases "b_nodes base")
    case (Cons n ns)
    then have "b_used base < node_len n"
      using used_ok_le [of "b_used base" n ns] wf by (auto simp: wf_base_iff node_ok_def)
    then show ?thesis using sum Cons by simp
  qed
  then show ?thesis using sum by simp
qed

lemma node_len_le: "n \<in> set ns \<Longrightarrow> node_len n \<le> nodes_len ns"
  by (induction ns) auto

lemma take_add_drop: "take (n + k) (drop off m) = take n (drop off m) @ take k (drop (off + n) m)"
  by (simp add: take_add add.commute [of off n])

lemma node_grow_facts:
  assumes wf: "wf_base base" and n: "node \<in> set (b_nodes base)" and ok: "src_ok base s"
    and fits: "src_fits (b_conf base) node s"
    and k: "k = min (src_max (b_conf base) s - node_len node) (src_len s)"
  shows "node_ok (buf_sz (b_conf base)) (node_grow k s node)"
    "node_data (node_grow k s node) = node_data node @ take k (src_data s)"
    "node_len (node_grow k s node) = node_len node + k"
    "node_type (node_grow k s node) = node_type node" "node_type node = src_type s"
    "node_id (node_grow k s node) = node_id node"
    "src_valid (src_merged k s)" "src_data (src_merged k s) = drop k (src_data s)"
    "src_len (src_merged k s) = src_len s - k" "src_type (src_merged k s) = src_type s"
proof -
  have nok: "node_ok (buf_sz (b_conf base)) node" using wf n by (rule wf_base_nodes_ok)
  have room: "src_type s \<in> {NODE_PTR, NODE_REF} \<Longrightarrow> k = src_len s"
    using ok node_len_le [OF n] wf k by (auto simp: src_ok_def src_max_def wf_base_iff)
  have coh: "src_coh s node" using ok n by (simp add: src_ok_def)
  have v: "src_valid s" using ok by (simp add: src_ok_def)
  show "node_type (node_grow k s node) = node_type node" "node_id (node_grow k s node) = node_id node"
    "src_type (src_merged k s) = src_type s"
    by (cases node; cases s; simp)+
  show "node_type node = src_type s" using fits by (cases s; cases node) auto
  show "node_len (node_grow k s node) = node_len node + k"
    using fits k by (cases s; cases node) auto
  show "src_len (src_merged k s) = src_len s - k" by (cases s) auto
  show "src_valid (src_merged k s)"
    using v room by (cases s) (auto simp: src_valid_def cptr_valid_def)
  show "src_data (src_merged k s) = drop k (src_data s)"
    using v room by (cases s) (auto simp: drop_map src_valid_def cptr_read_def cptr_valid_def)
  show "node_data (node_grow k s node) = node_data node @ take k (src_data s)"
    using fits coh k v room
    by (cases s; cases node)
      (auto simp: src_coh_def take_map cptr_read_def cptr_eq_def cptr_add_def take_add_drop src_valid_def
        cptr_valid_def replicate_add)
  show "node_ok (buf_sz (b_conf base)) (node_grow k s node)"
    using fits coh k v room nok
    by (cases s; cases node)
      (auto simp: src_coh_def node_simps cptr_eq_def cptr_add_def src_valid_def cptr_valid_def src_max_def min_def
        split: if_splits)
qed

text \<open>
  Changing a string at the end of a prefix of its nodes: the prefix may change its last node
  by growing it, and new nodes may follow it.
\<close>

lemma insert_nodes_ok:
  assumes wf: "wf_base base" and ns: "b_nodes base = as @ bs" and pos: "nodes_len as = pos + b_used base"
    and new: "\<forall>n \<in> set new. node_ok (buf_sz (b_conf base)) n \<and> flag_of base' (node_type n)"
    and flags: "\<And>t. flag_of base t \<Longrightarrow> flag_of base' t"
    and ns': "b_nodes base' = as @ new @ bs" and used: "b_used base' = b_used base"
    and len: "b_len base' = b_len base + nodes_len new" "b_num base' = b_num base + length new"
    and conf: "conf_same (b_conf base) (b_conf base')" "vstr__check_spare_nodes (b_conf base')"
  shows "wf_base base'" "vstr_data base' = ins_at pos (nodes_data new) (vstr_data base)"
proof -
  have "used_ok (b_used base) (as @ new @ bs)"
  proof (cases as)
    case Nil
    then show ?thesis using pos by simp
  next
    case (Cons n as')
    then show ?thesis using wf ns used_ok_tl [of "b_used base" n "as' @ bs" "as' @ new @ bs"] by (simp add: wf_base_iff)
  qed
  then show wf': "wf_base base'"
    using wf new flags ns ns' used len conf by (auto simp: wf_base_iff conf_same_def)
  show "vstr_data base' = ins_at pos (nodes_data new) (vstr_data base)"
    using vstr_data_split [OF wf ns pos] vstr_data_split [OF wf' ns', of pos] pos used
    by (simp add: ins_at_append_mid)
qed

lemma grow_node_ok:
  assumes wf: "wf_base base" and ns: "b_nodes base = as @ n # bs"
    and pos: "nodes_len (as @ [n]) = pos + b_used base"
    and n': "node_ok (buf_sz (b_conf base)) n'" "node_data n' = node_data n @ d"
      "node_len n' = node_len n + length d" "node_type n' = node_type n"
    and ns': "b_nodes base' = as @ n' # bs" and used: "b_used base' = b_used base"
    and len: "b_len base' = b_len base + length d" "b_num base' = b_num base"
    and conf: "b_conf base' = b_conf base" and flags: "\<And>t. flag_of base' t = flag_of base t"
  shows "wf_base base'" "vstr_data base' = ins_at pos d (vstr_data base)"
proof -
  have "used_ok (b_used base) (as @ n' # bs)"
  proof (cases as)
    case Nil
    then show ?thesis using wf ns n' by (cases n; cases n') (auto simp: wf_base_iff used_ok_def node_simps)
  next
    case (Cons m as')
    then show ?thesis using wf ns used_ok_tl [of "b_used base" m "as' @ n # bs" "as' @ n' # bs"]
      by (simp add: wf_base_iff)
  qed
  then show wf': "wf_base base'"
    using wf ns ns' used len conf n' flags by (auto simp: wf_base_iff)
  let ?x = "drop (b_used base) (nodes_data (as @ [n]))"
  have x: "vstr_data base = ?x @ nodes_data bs" "length ?x = pos"
    using vstr_data_split [OF wf _ pos, of bs] ns by simp_all
  have "length (nodes_data (as @ [n])) = pos + b_used base"
    using wf ns pos nodes_data_length [of "as @ [n]" "buf_sz (b_conf base)"] by (simp add: wf_base_iff)
  then have "drop (b_used base) (nodes_data (as @ [n'])) = ?x @ d" using n'(2) by simp
  then have "vstr_data base' = ?x @ d @ nodes_data bs"
    using vstr_data_split(1) [OF wf', of "as @ [n']" bs "pos + length d"] ns' used pos n'(3) by simp
  then show "vstr_data base' = ins_at pos d (vstr_data base)"
    unfolding x(1) using x(2) by (simp only: ins_at_append_mid)
qed

lemma add_node_end_frame [simp]:
  "b_nodes (vstr__cache_iovec_add_node_end b k l) = b_nodes b"
  "b_len (vstr__cache_iovec_add_node_end b k l) = b_len b"
  "b_num (vstr__cache_iovec_add_node_end b k l) = b_num b"
  "b_used (vstr__cache_iovec_add_node_end b k l) = b_used b"
  "b_conf (vstr__cache_iovec_add_node_end b k l) = b_conf b"
  "flag_of (vstr__cache_iovec_add_node_end b k l) t = flag_of b t"
  "vstr_cache_get_pos (vstr__cache_iovec_add_node_end b k l) = vstr_cache_get_pos b"
  by (simp_all add: vstr__cache_iovec_add_node_end_def)

lemma add_fill_spec:
  assumes wf: "wf_base base" and at: "add_at base pos scan" and ok: "src_ok base s"
    and pc: "pos_cache_upto base pos" and res: "vstr__add_fill base scan s = (s', base')"
  obtains k where "k \<le> src_len s" "src_valid s'" "src_data s' = drop k (src_data s)"
    "src_len s' = src_len s - k" "src_type s' = src_type s" "wf_base base'"
    "vstr_data base' = ins_at pos (take k (src_data s)) (vstr_data base)" "add_at base' (pos + k) scan"
    "pos_cache_upto base' pos" "b_conf base' = b_conf base" "b_len base' = b_len base + k"
    "map node_id (b_nodes base') = map node_id (b_nodes base)"
    "\<forall>idx num. scan = Some (idx, num) \<longrightarrow> node_type (b_nodes base ! idx) = NODE_BUF \<longrightarrow>
       src_type s = NODE_BUF \<longrightarrow> k = min (buf_sz (b_conf base) - node_len (b_nodes base ! idx)) (src_len s)"
proof (cases "\<exists>idx num. scan = Some (idx, num) \<and> src_fits (b_conf base) (b_nodes base ! idx) s")
  case False
  then have "s' = s" "base' = base"
    using res by (auto simp: vstr__add_fill_def Let_def split: option.splits)
  moreover have "node_len (b_nodes base ! idx) = buf_sz (b_conf base)"
    if "scan = Some (idx, num)" "node_type (b_nodes base ! idx) = NODE_BUF" "src_type s = NODE_BUF" for idx num
  proof -
    have "\<not> node_len (b_nodes base ! idx) < buf_sz (b_conf base)" using False that by (cases s) auto
    moreover have "node_ok (buf_sz (b_conf base)) (b_nodes base ! idx)"
      using wf at that by (intro wf_base_nodes_ok) (auto simp: add_at_def)
    ultimately show ?thesis using that(2) by (cases "b_nodes base ! idx") (auto simp: node_simps)
  qed
  ultimately show thesis
    using ok wf at pc by (intro that [of 0]) (auto simp: src_ok_def)
next
  case True
  then obtain idx num where scan: "scan = Some (idx, num)"
    and fits: "src_fits (b_conf base) (b_nodes base ! idx) s" by blast
  let ?n = "b_nodes base ! idx" and ?ns = "b_nodes base"
  define k where "k = min (src_max (b_conf base) s - node_len ?n) (src_len s)"
  have idx: "idx < length ?ns" "num = Suc idx" "0 < pos" and
    sum: "nodes_len (take (Suc idx) ?ns) = pos + b_used base"
    using at scan by (auto simp: add_at_def)
  have in_ns: "?n \<in> set ?ns" using idx by simp
  note g = node_grow_facts [OF wf in_ns ok fits k_def]
  have s': "s' = src_merged k s" and b': "base' = (vstr__cache_iovec_add_node_end
      (base\<lparr>b_nodes := ?ns[idx := node_grow k s ?n]\<rparr>) num k)\<lparr>b_len := b_len base + k\<rparr>"
    using res scan fits by (auto simp: vstr__add_fill_def k_def Let_def)
  have ns: "?ns = take idx ?ns @ ?n # drop (Suc idx) ?ns" using idx by (simp add: id_take_nth_drop [symmetric])
  have ns': "b_nodes base' = take idx ?ns @ node_grow k s ?n # drop (Suc idx) ?ns"
    using b' idx by (simp add: upd_conv_take_nth_drop)
  have d: "length (take k (src_data s)) = k"
    using ok src_data_length [of s] by (simp add: src_ok_def k_def)
  have sum': "nodes_len (take idx ?ns @ [?n]) = pos + b_used base"
    using sum idx by (simp add: take_Suc_conv_app_nth)
  note gr = grow_node_ok [OF wf ns sum' g(1,2) _ g(4) ns']
  have wf': "wf_base base' \<and> vstr_data base' = ins_at pos (take k (src_data s)) (vstr_data base)"
    using gr d g(3) b' by simp
  have at': "add_at base' (pos + k) scan"
    using scan idx sum' g(3) ns' b' by (simp add: add_at_def take_Suc_conv_app_nth nth_append)
  have pc': "pos_cache_upto base' pos"
    using sum' g b' idx ns
    by (intro pos_cache_upto_prefix [OF pc, of "take idx ?ns @ [?n]" "drop (Suc idx) ?ns" base'
          "take idx ?ns @ [node_grow k s ?n]" "drop (Suc idx) ?ns"])
      (use ns' in simp_all)
  have "b_conf base' = b_conf base" "b_len base' = b_len base + k" using b' by simp_all
  moreover have "map node_id (b_nodes base') = map node_id ?ns" 
    using ns' g(6) arg_cong [OF ns, of "map node_id"] by simp
  moreover have "\<forall>idx num. scan = Some (idx, num) \<longrightarrow> node_type (?ns ! idx) = NODE_BUF \<longrightarrow>
       src_type s = NODE_BUF \<longrightarrow> k = min (buf_sz (b_conf base) - node_len (?ns ! idx)) (src_len s)"
    using scan by (auto simp: k_def src_max_def)
  moreover have "k \<le> src_len s" by (simp add: k_def)
  ultimately show thesis
    using that [OF _ g(7) [folded s'] g(8) [folded s'] g(9) [folded s'] g(10) [folded s']] wf' at' pc' by blast
qed

section \<open>Reserving nodes\<close>

lemma src_coh_split [simp]:
  "src_coh s (node_set_len k n) = src_coh s n" "src_coh s (node_tail i k n) = src_coh s n"
  by (cases n; simp add: src_coh_def cptr_add_def split: add_src.split)+

text \<open>What holds of the string while it is being prepared for an addition at \<open>pos\<close>.\<close>

lemma conf_frame [simp]:
  "src_ok (b\<lparr>b_conf := c\<rparr>) s = src_ok b s"
  "pos_cache_upto (b\<lparr>b_conf := c\<rparr>) pos = pos_cache_upto b pos"
  "vstr_data (b\<lparr>b_conf := c\<rparr>) = vstr_data b"
  by (simp_all add: src_ok_def pos_cache_upto_def vstr_data_def split: option.split)

definition add_ready :: "vstr_base \<Rightarrow> nat \<Rightarrow> add_src \<Rightarrow> vstr_base \<Rightarrow> bool" where
  "add_ready base pos s b1 \<longleftrightarrow> wf_base b1 \<and> vstr_data b1 = vstr_data base \<and> b_len b1 = b_len base \<and>
     conf_same (b_conf base) (b_conf b1) \<and> src_ok b1 s \<and> pos_cache_upto b1 pos \<and>
     ids_step (b_conf base) (b_nodes base) (b_conf b1) (b_nodes b1)"

lemma add_setup_pos_spec:
  assumes inv: "vstr_inv base" and pos: "1 \<le> pos" "pos \<le> b_len base" and ok: "src_ok base s"
    and res: "vstr__add_setup_pos base pos = (scan, b')"
  shows "add_ready base pos s b' \<and> (scan = None \<longrightarrow> malloc_bad (b_conf b')) \<and>
    (scan \<noteq> None \<longrightarrow> add_at b' pos scan)"
proof -
  have wf: "wf_base base" and ids: "ids_distinct base" and pc: "pos_cache_ok base"
    using inv ids_ok_distinct by (auto simp: vstr_inv_def ids_distinct_def)
  obtain idx p num b1 where 1: "vstr_base__pos base pos True = ((idx, p, num), b1)" by (metis surj_pair)
  have at: "at_pos base pos idx p" and num: "num = Suc idx" and same: "same_but_cache base b1"
    and pc1: "pos_cache_ok b1"
    using base__pos_at_pos [OF wf ids pc pos 1] by auto
  note fr = same_but_cache_frame [OF same]
  have at1: "at_pos b1 pos idx p" using at fr by (simp add: at_pos_def)
  have idx: "idx < length (b_nodes b1)" using at1 by (simp add: at_pos_def)
  have ok1: "src_ok b1 s" using ok fr by (simp add: src_ok_def)
  have sum: "nodes_len (take idx (b_nodes b1)) + p = pos + b_used b1"
    using at1 by (simp add: at_pos_def)
  show ?thesis
  proof (cases "p = node_len (b_nodes b1 ! idx)")
    case True
    then have "scan = Some (idx, num)" "b' = b1" using res 1 by (auto simp: vstr__add_setup_pos_def)
    then show ?thesis
      using fr wf ok1 pos_cache_upto_ok [OF pc1] num idx sum pos True
      by (simp add: add_ready_def add_at_def take_Suc_conv_app_nth)
  next
    case False
    then have p: "p < node_len (b_nodes b1 ! idx)" using at1 by (simp add: at_pos_def)
    obtain ok2 b2 where 2: "vstr__base_split_node b1 idx p = (ok2, b2)" by (metis surj_pair)
    have b': "b' = b2" "scan = (if ok2 then Some (idx, num) else None)"
      using res 1 2 False by (auto simp: vstr__add_setup_pos_def split: bool.splits)
    have wf1: "wf_base b1" using wf fr by simp
    note sp = split_node_ok [OF wf1 at1 p pos(1) 2]
    have ready: "add_ready base pos s b2" if "src_ok b2 s" "pos_cache_upto b2 pos"
      using that sp fr by (simp add: add_ready_def)
    show ?thesis
    proof (rule split_node_cases [OF wf1 idx 2])
      fix c assume c: "\<not> ok2" "b2 = b1\<lparr>b_conf := c\<rparr>" "malloc_bad c"
      then have "src_ok b2 s" "pos_cache_upto b2 pos"
        using ok1 pos_cache_upto_ok [OF pc1] by simp_all
      then show ?thesis using c b' ready by simp
    next
      fix i c
      assume c: "ok2" "b2 = b1\<lparr>b_conf := c, b_num := b_num b1 + 1, iovec_upto_date := False,
        b_nodes := take idx (b_nodes b1) @ [node_set_len p (b_nodes b1 ! idx),
          node_tail i p (b_nodes b1 ! idx)] @ drop (Suc idx) (b_nodes b1)\<rparr>"
      have "src_ok b2 s"
        using ok1 c idx by (auto simp: src_ok_def dest: in_set_takeD in_set_dropD)
      moreover have "pos_cache_upto b2 pos"
        using c idx p sum id_take_nth_drop [OF idx]
        by (intro pos_cache_upto_prefix [OF pos_cache_upto_ok [OF pc1],
            of "take idx (b_nodes b1) @ [b_nodes b1 ! idx]" "drop (Suc idx) (b_nodes b1)" b2
               "take idx (b_nodes b1) @ [node_set_len p (b_nodes b1 ! idx)]"]) simp_all
      moreover have "add_at b2 pos scan"
        using c b' idx num pos p sum by (simp add: add_at_def take_Suc_conv_app_nth nth_append node_set_len_len)
      ultimately show ?thesis using b' c(1) ready by simp
    qed
  qed
qed

text \<open>After \<^verbatim>\<open>VSTR__ADD_BEG\<close> the place is known and either the data fits behind the last byte before
  it, or the pool holds enough nodes for all of it.\<close>

definition reserved :: "vstr_base \<Rightarrow> (nat \<times> nat) option \<Rightarrow> add_src \<Rightarrow> bool" where
  "reserved b scan s \<longleftrightarrow>
     src_len s \<le> length (spare_beg (src_type s) (b_conf b)) * src_max (b_conf b) s \<or>
     (\<exists>idx num. scan = Some (idx, num) \<and> src_type s = NODE_BUF \<and>
        node_type (b_nodes b ! idx) = NODE_BUF \<and>
        src_len s \<le> buf_sz (b_conf b) - node_len (b_nodes b ! idx))"

lemma add_beg_spec:
  assumes inv: "vstr_inv base" and pos: "pos \<le> b_len base" and ok: "src_ok base s"
    and res: "VSTR__ADD_BEG base pos s = (r, scan, b')"
  shows "add_ready base pos s b' \<and> (\<not> r \<longrightarrow> malloc_bad (b_conf b')) \<and>
    (r \<longrightarrow> add_at b' pos scan \<and> reserved b' scan s)"
proof -
  let ?S = "if pos \<noteq> 0 \<and> b_len base \<noteq> 0 then vstr__add_setup_pos base pos else (None, base)"
  obtain sc b1 where S: "?S = (sc, b1)" by (metis surj_pair)
  have fst: "add_ready base pos s b1 \<and> (pos \<noteq> 0 \<longrightarrow> sc = None \<longrightarrow> malloc_bad (b_conf b1)) \<and>
    (pos \<noteq> 0 \<longrightarrow> sc \<noteq> None \<longrightarrow> add_at b1 pos sc) \<and> (pos = 0 \<longrightarrow> sc = None)"
  proof (cases "pos = 0")
    case True
    then show ?thesis
      using S inv ok pos_cache_upto_ok [of base pos] by (auto simp: add_ready_def vstr_inv_def)
  next
    case False
    then show ?thesis using S add_setup_pos_spec [OF inv _ pos ok, of sc b1] pos by auto
  qed
  let ?need = "alloc_num (src_len s) (src_max (b_conf b1) s)"
  obtain ok2 c where C: "cntl_set_num_range_spare (b_conf b1) (src_type s) ?need UINT_MAX = (ok2, c)"
    by fastforce
  have b1: "wf_base b1" "src_ok b1 s" using fst by (auto simp: add_ready_def)
  have need: "src_len s \<le> ?need * src_max (b_conf b1) s" "?need \<le> UINT_MAX"
    using alloc_num_enough [OF _ src_max_pos, of "src_len s" "b_conf b1" s] b1
    by (auto simp: src_ok_def wf_base_iff)
  have chk: "vstr__check_spare_nodes (b_conf b1)" using b1 by (simp add: wf_base_iff)
  note rc = set_num_range_spare_check [OF C chk need(2)]
  have ready: "add_ready base pos s (b1\<lparr>b_conf := c\<rparr>)"
    using fst rc conf_same_trans [of "b_conf base" "b_conf b1" c] ids_step_range [OF C, of "b_nodes b1"]
      ids_step_trans [of "b_conf base" "b_nodes base" "b_conf b1" "b_nodes b1" c "b_nodes b1"] conf_same_wf [OF b1(1)]
    by (simp add: add_ready_def)
  let ?fits = "src_type s = NODE_BUF \<and> (case sc of None \<Rightarrow> False | Some (idx, num) \<Rightarrow>
      let node = b_nodes b1 ! idx in
      node_type node = NODE_BUF \<and> src_len s \<le> buf_sz (b_conf b1) - node_len node)"
  have res2: "(if pos \<noteq> 0 \<and> b_len base \<noteq> 0 \<and> sc = None then (False, None, b1)
      else if ?fits then (True, sc, b1) else (ok2, sc, b1\<lparr>b_conf := c\<rparr>)) = (r, scan, b')"
    using res unfolding VSTR__ADD_BEG_def S prod.case C .
  have fits: "?fits \<Longrightarrow> reserved b1 sc s \<and> sc \<noteq> None"
    by (auto simp: reserved_def Let_def split: option.splits)
  consider (none) "\<not> r" "scan = None" "b' = b1" "pos \<noteq> 0" "sc = None"
    | (fits) "r" "scan = sc" "b' = b1" "reserved b1 sc s" "pos \<noteq> 0" "sc \<noteq> None"
    | (alloc) "r = ok2" "scan = sc" "b' = b1\<lparr>b_conf := c\<rparr>" "pos = 0 \<or> sc \<noteq> None"
  proof (cases "pos \<noteq> 0 \<and> b_len base \<noteq> 0 \<and> sc = None")
    case True
    then show thesis using res2 none by auto
  next
    case False
    then have sc: "pos = 0 \<or> sc \<noteq> None" using pos by auto
    show thesis
    proof (cases ?fits)
      case True
      then show thesis using res2 False \<open>?fits \<Longrightarrow> _\<close> fst that(2) by auto
    next
      case False
      then show thesis using res2 \<open>\<not> (pos \<noteq> 0 \<and> _)\<close> sc that(3) by auto
    qed
  qed
  then show ?thesis
  proof cases
    case none
    then show ?thesis using fst by simp
  next
    case fits
    then show ?thesis using fst by simp
  next
    case alloc
    have "add_at (b1\<lparr>b_conf := c\<rparr>) pos sc"
      using alloc fst by (cases "pos = 0") (auto simp: add_at_def split: option.splits)
    moreover have "reserved b' scan s" if r
    proof -
      have "src_max c s = src_max (b_conf b1) s" "?need \<le> length (spare_beg (src_type s) c)"
        using that alloc rc by (auto simp: src_max_def conf_same_def)
      then show ?thesis using alloc le_trans [OF need(1) mult_le_mono1] by (auto simp: reserved_def)
    qed
    ultimately show ?thesis using alloc rc ready by auto
  qed
qed

section \<open>Linking the new nodes\<close>

lemma loop_frame_ids: "loop_frame b b' \<Longrightarrow> ids_step (b_conf b) ns (b_conf b') ns"
  by (simp add: ids_step_def ids_of_def loop_frame_def)

lemma add_link_spec:
  assumes wf: "wf_base b1" and ns: "b_nodes b1 = as @ bs" and pos: "nodes_len as = p + b_used b1"
    and s: "src_valid s" "0 < src_len s" "t = src_type s"
    and enough: "src_len s \<le> length (spare_beg t (b_conf b1)) * src_max (b_conf b1) s"
    and loop: "vstr__add_loop (spare_beg t (b_conf b1)) s e (b1\<lparr>b_len := b_len b1 + src_len s\<rparr>) =
        (new, rest, b3)"
    and b4: "b4 = b3\<lparr>b_conf := spare_upd t (spare_num t (b_conf b3) - length new) rest (b_conf b3),
        b_nodes := as @ new @ bs\<rparr>"
  shows "wf_base b4" "vstr_data b4 = ins_at p (src_data s) (vstr_data b1)"
    "conf_same (b_conf b1) (b_conf b4)" "ids_step (b_conf b1) (b_nodes b1) (b_conf b4) (b_nodes b4)"
    "vstr_cache_get_pos b4 = vstr_cache_get_pos b1" "b_used b4 = b_used b1"
    "b_len b4 = b_len b1 + src_len s"
proof -
  let ?b2 = "b1\<lparr>b_len := b_len b1 + src_len s\<rparr>"
  have bsz: "0 < buf_sz (b_conf ?b2)" using wf by (simp add: wf_base_iff)
  note L = add_loop_spec [OF loop s(1) bsz]
  have fr: "loop_frame ?b2 b3" using L(6) enough by simp
  have ids: "spare_beg t (b_conf b3) = map node_id new @ rest"
    using L(3) fr enough by (simp add: loop_frame_def)
  have chk: "vstr__check_spare_nodes (b_conf b3)"
    using wf fr by (simp add: wf_base_iff check_spare_iff loop_frame_def)
  have num: "spare_num t (b_conf b3) = length new + length rest"
    using chk ids by (simp add: check_spare_iff)
  have chk4: "vstr__check_spare_nodes (b_conf b4)" using chk num b4 by (simp add: check_spare_upd)
  show cs: "conf_same (b_conf b1) (b_conf b4)" using fr b4 by (simp add: loop_frame_def)
  have new: "nodes_data new = src_data s" "nodes_len new = src_len s"
    "\<forall>n \<in> set new. node_ok (buf_sz (b_conf b1)) n \<and> flag_of b4 (node_type n)"
    "b_num b3 = b_num b1 + length new"
    using L enough b4 by auto
  note ins = insert_nodes_ok [OF wf ns pos new(3) _ _ _ _ _ cs chk4, unfolded new(1,2)]
  show "wf_base b4" "vstr_data b4 = ins_at p (src_data s) (vstr_data b1)"
    using ins L(7) fr new(4) b4 enough by (auto simp: loop_frame_def)
  have "ids_step (b_conf b3) (b_nodes b1) (b_conf b4) (b_nodes b4)"
    using ids ns b4 by (auto intro!: ids_step_move)
  then show "ids_step (b_conf b1) (b_nodes b1) (b_conf b4) (b_nodes b4)"
    using loop_frame_ids [OF fr, of "b_nodes b1"]
    by (auto intro: ids_step_trans [of "b_conf b1" "b_nodes b1" "b_conf b3" "b_nodes b1"])
  show "vstr_cache_get_pos b4 = vstr_cache_get_pos b1" "b_used b4 = b_used b1"
    "b_len b4 = b_len b1 + src_len s"
    using fr b4 by (simp_all add: loop_frame_def)
qed

lemma add_mid_end_spec:
  assumes wf: "wf_base base" and at: "add_at base (pos + k) scan" and pc: "pos_cache_upto base pos"
    and s: "src_valid s" "0 < src_len s"
    and enough: "src_len s \<le> length (spare_beg (src_type s) (b_conf base)) * src_max (b_conf base) s"
    and res: "VSTR__ADD_MID_END base scan pos olen s = base'"
  shows "wf_base base' \<and> vstr_data base' = ins_at (pos + k) (src_data s) (vstr_data base) \<and>
    b_len base' = b_len base + src_len s \<and> pos_cache_ok base' \<and> conf_same (b_conf base) (b_conf base') \<and>
    ids_step (b_conf base) (b_nodes base) (b_conf base') (b_nodes base')"
proof -
  let ?t = "src_type s"
  define b1 where "b1 = (case scan of
      Some (idx, num) \<Rightarrow> if idx \<noteq> length (b_nodes base) - 1 then base\<lparr>iovec_upto_date := False\<rparr> else base
    | None \<Rightarrow> if b_len base \<noteq> 0 then vstr__base_zero_used base else base)"
  define n where "n = (case scan of Some (idx, num) \<Rightarrow> Suc idx | None \<Rightarrow> 0)"
  define e where "e = (case scan of Some (idx, num) \<Rightarrow> True | None \<Rightarrow> b_len base = 0)"
  obtain new rest b3 where loop: "vstr__add_loop (spare_beg ?t (b_conf b1)) s e
      (b1\<lparr>b_len := b_len b1 + src_len s\<rparr>) = (new, rest, b3)" by (metis surj_pair)
  define b4 where "b4 = b3\<lparr>b_conf := spare_upd ?t (spare_num ?t (b_conf b3) - length new) rest (b_conf b3),
      b_nodes := take n (b_nodes b1) @ new @ drop n (b_nodes b1)\<rparr>"
  have b1: "wf_base b1" "vstr_data b1 = vstr_data base" "b_len b1 = b_len base" "b_conf b1 = b_conf base"
      "map node_id (b_nodes b1) = map node_id (b_nodes base)" "vstr_cache_get_pos b1 = vstr_cache_get_pos base"
    using wf zero_used_ok [OF wf] by (auto simp: b1_def wf_base_iff vstr_data_def vstr__base_zero_used_def
        split: option.splits list.splits vstr_node.splits)
  have sum: "nodes_len (take n (b_nodes b1)) = pos + k + b_used b1"
    using at zero_used_ok(3) [OF wf] wf_base_empty [OF wf]
    by (auto simp: add_at_def b1_def n_def split: option.splits)
  have "b_nodes b3 = b_nodes b1"
    using add_loop_spec(6) [OF loop s(1)] enough b1 by (simp add: loop_frame_def wf_base_iff)
  then have res4: "base' = vstr__cache_add b4 pos olen"
    using res loop at by (auto simp: VSTR__ADD_MID_END_def b4_def b1_def n_def e_def ins_at_def Let_def
        split: option.splits prod.splits)
  note L = add_link_spec [OF b1(1) append_take_drop_id [of n, symmetric] sum s refl _ loop, of b4]
  have l: "wf_base b4" "vstr_data b4 = ins_at (pos + k) (src_data s) (vstr_data base)"
    "conf_same (b_conf base) (b_conf b4)" "ids_step (b_conf base) (b_nodes b1) (b_conf b4) (b_nodes b4)"
    "vstr_cache_get_pos b4 = vstr_cache_get_pos b1" "b_used b4 = b_used b1" "b_len b4 = b_len base + src_len s"
    using L enough b1 b4_def by auto
  have "pos_cache_upto b4 pos"
  proof (cases scan)
    case None
    then have "pos = 0" using at by (simp add: add_at_def)
    then show ?thesis using pos_cache_upto_0 [OF wf, of b4] pc l b1 by simp
  next
    case (Some a)
    then have "b_nodes b1 = b_nodes base" "b_used b1 = b_used base" by (auto simp: b1_def split: prod.splits)
    then show ?thesis
      using sum l b1 by (intro pos_cache_upto_prefix [OF pc, of "take n (b_nodes base)" "drop n (b_nodes base)" b4
          "take n (b_nodes base)" "new @ drop n (b_nodes base)"]) (auto simp: b4_def)
  qed
  then have "pos_cache_ok base'" unfolding res4 by (rule cache_add_pos_ok)
  moreover have "ids_step (b_conf base) (b_nodes base) (b_conf b4) (b_nodes b4)"
    using l(4) b1(5) by (simp add: ids_step_def ids_of_def)
  ultimately show ?thesis using l res4 by simp
qed

section \<open>The functions insert their data\<close>

lemma ins_at_ins_at:
  "p + k \<le> length ys + k \<Longrightarrow> k \<le> length xs \<Longrightarrow>
   ins_at (p + k) (drop k xs) (ins_at p (take k xs) ys) = ins_at p xs ys"
  by (simp add: ins_at_def min_def)

lemma add_spec:
  assumes inv: "vstr_inv base" and pos: "pos \<le> b_len base" and ok: "src_ok base s"
    and res: "vstr__add base pos s = (r, base')"
  shows "conf_same (b_conf base) (b_conf base')"
    "r \<Longrightarrow> vstr_inv base' \<and> vstr_data base' = ins_at pos (src_data s) (vstr_data base)"
    "\<not> r \<Longrightarrow> wf_base base' \<and> ids_ok (b_conf base') (b_nodes base') \<and>
       vstr_data base' = vstr_data base \<and> malloc_bad (b_conf base')"
proof -
  obtain r1 scan b1 where 1: "VSTR__ADD_BEG base pos s = (r1, scan, b1)" by (metis surj_pair)
  have ids: "ids_ok (b_conf base) (b_nodes base)" and wf: "wf_base base"
    using inv by (simp_all add: vstr_inv_def)
  note B = add_beg_spec [OF inv pos ok 1]
  have b1: "wf_base b1" "vstr_data b1 = vstr_data base" "conf_same (b_conf base) (b_conf b1)" "src_ok b1 s"
    "pos_cache_upto b1 pos" "ids_step (b_conf base) (b_nodes base) (b_conf b1) (b_nodes b1)" "b_len b1 = b_len base"
    using B by (simp_all add: add_ready_def)
  have main: "r \<and> wf_base base' \<and> vstr_data base' = ins_at pos (src_data s) (vstr_data base) \<and>
      pos_cache_ok base' \<and> conf_same (b_conf b1) (b_conf base') \<and>
      ids_step (b_conf b1) (b_nodes b1) (b_conf base') (b_nodes base')" if r1
  proof -
    have at: "add_at b1 pos scan" and rv: "reserved b1 scan s" using B that by simp_all
    obtain s' b2 where 2: "vstr__add_fill b1 scan s = (s', b2)" by (metis surj_pair)
    obtain k where k: "k \<le> src_len s" "src_valid s'" "src_data s' = drop k (src_data s)"
      "src_len s' = src_len s - k" "src_type s' = src_type s" "wf_base b2"
      "vstr_data b2 = ins_at pos (take k (src_data s)) (vstr_data b1)" "add_at b2 (pos + k) scan"
      "pos_cache_upto b2 pos" "b_conf b2 = b_conf b1" "b_len b2 = b_len b1 + k"
      "map node_id (b_nodes b2) = map node_id (b_nodes b1)"
      "\<forall>idx num. scan = Some (idx, num) \<longrightarrow> node_type (b_nodes b1 ! idx) = NODE_BUF \<longrightarrow>
         src_type s = NODE_BUF \<longrightarrow> k = min (buf_sz (b_conf b1) - node_len (b_nodes b1 ! idx)) (src_len s)"
      using add_fill_spec [OF b1(1) at b1(4,5) 2] by blast
    have len: "length (src_data s) = src_len s" using ok by (simp add: src_ok_def src_data_length)
    have ids2: "ids_step (b_conf b1) (b_nodes b1) (b_conf b2) (b_nodes b2)"
      using k(10,12) by (simp add: ids_step_def ids_of_def)
    show ?thesis
    proof (cases "src_len s' = 0")
      case True
      then have "base' = vstr__cache_add b2 pos (src_len s)" "r" "take k (src_data s) = src_data s"
        using res 1 2 that k(1,4) len by (auto simp: vstr__add_def)
      then show ?thesis using k ids2 cache_add_pos_ok [OF k(9)] b1 by simp
    next
      case False
      then have r: "VSTR__ADD_MID_END b2 scan pos (src_len s) s' = base'" "r"
        using res 1 2 that by (auto simp: vstr__add_def)
      have "src_len s' \<le> length (spare_beg (src_type s') (b_conf b2)) * src_max (b_conf b2) s'"
        using rv False k(4,5,10,13) unfolding reserved_def by (auto simp: src_max_def)
      then have M: "wf_base base' \<and> vstr_data base' = ins_at (pos + k) (src_data s') (vstr_data b2) \<and>
          b_len base' = b_len b2 + src_len s' \<and> pos_cache_ok base' \<and> conf_same (b_conf b2) (b_conf base') \<and>
          ids_step (b_conf b2) (b_nodes b2) (b_conf base') (b_nodes base')"
        using add_mid_end_spec [OF k(6,8,9,2) _ _ r(1)] False by simp
      moreover have "ins_at (pos + k) (src_data s') (vstr_data b2) = ins_at pos (src_data s) (vstr_data base)"
        using k(1,3,7) b1(2) len pos vstr_data_length [OF wf] by (simp add: ins_at_ins_at)
      ultimately show ?thesis using r(2) k(10) ids_step_trans [OF ids2] by simp
    qed
  qed
  have fail: "\<not> r \<and> base' = b1" if "\<not> r1" using that res 1 by (simp add: vstr__add_def)
  show "conf_same (b_conf base) (b_conf base')"
    using main fail b1(3) conf_same_trans by (cases r1) blast+
  show "vstr_inv base' \<and> vstr_data base' = ins_at pos (src_data s) (vstr_data base)" if r
    using main fail that ids_ok_step [OF ids ids_step_trans [OF b1(6)]] by (cases r1) (auto simp: vstr_inv_def)
  show "wf_base base' \<and> ids_ok (b_conf base') (b_nodes base') \<and> vstr_data base' = vstr_data base \<and>
      malloc_bad (b_conf base')" if "\<not> r"
    using main fail that b1 B ids_ok_step [OF ids b1(6)] by (cases r1) auto
qed

section \<open>The fast path\<close>

definition cstr_in_range :: "vstr_base \<Rightarrow> bool" where
  "cstr_in_range base \<longleftrightarrow>
     (case vstr_cache_get_cstr base of None \<Rightarrow> True
      | Some d \<Rightarrow> cd_ref d = None \<or> cd_len d = 0 \<or> vstr_sc_poslast (cd_pos d) (cd_len d) \<le> b_len base)"

lemma base__pos_end:
  assumes wf: "wf_base base" and ne: "b_len base \<noteq> 0"
  shows "vstr_base__pos base (b_len base) c =
    ((length (b_nodes base) - 1, node_len (last (b_nodes base)), length (b_nodes base)), base)"
proof -
  have ns: "b_nodes base \<noteq> []" using wf ne by (auto simp: wf_base_iff used_ok_def)
  have sum: "nodes_len (b_nodes base) = b_len base + b_used base"
    and num: "b_num base = length (b_nodes base)" using wf by (simp_all add: wf_base_iff)
  show ?thesis
  proof (cases "tl (b_nodes base) = []")
    case True
    then obtain n where "b_nodes base = [n]" using ns by (cases "b_nodes base") auto
    then show ?thesis using sum by (simp add: vstr_base__pos_def)
  next
    case False
    then obtain n ns where n: "b_nodes base = n # ns" "ns \<noteq> []" using ns by (cases "b_nodes base") auto
    have "last ns \<in> set (b_nodes base)" using n by simp
    then have l: "0 < node_len (last ns)" using wf by (auto simp: wf_base_iff node_ok_def)
    have "node_len (last ns) \<le> nodes_len ns" using n(2) node_len_le by simp
    moreover have "b_used base < node_len n"
      using used_ok_le [of "b_used base" n ns] wf n by (auto simp: wf_base_iff node_ok_def)
    ultimately have "node_len n < b_len base + b_used base" "node_len (last ns) < b_len base"
      using sum n l by auto
    then show ?thesis using n l num by (simp add: vstr_base__pos_def Let_def)
  qed
qed

lemma pos_entry_le_len:
  assumes "wf_base base" "pos_entry_ok (b_nodes base) (b_used base) d i"
  shows "pd_pos d \<le> b_len base"
proof -
  let ?ns = "b_nodes base" and ?k = "node_index i (b_nodes base)"
  have k: "?k < length ?ns" "pd_pos d + b_used base = Suc (nodes_len (take ?k ?ns))"
    using assms(2) by (simp_all add: pos_entry_ok_def Let_def)
  have "0 < node_len (?ns ! ?k)" using assms(1) k(1) by (auto simp: wf_base_iff node_ok_def)
  then have "nodes_len (take ?k ?ns) < nodes_len (take (Suc ?k) ?ns)"
    using k(1) by (simp add: take_Suc_conv_app_nth)
  also have "\<dots> \<le> nodes_len ?ns" using sum_take_mono [of "Suc ?k" "length ?ns" ?ns] k(1) by simp
  finally show ?thesis using k(2) wf_base_sum [OF assms(1)] by simp
qed

lemma cache_add_at_end:
  assumes "wf_base base" "pos_cache_ok base" "cstr_in_range base" "\<not> cache_available base \<or> cache_internal base"
    and "cache_available b = cache_available base" "b_cache b = (b_cache base)\<lparr>cache_vec := v\<rparr>"
    and "cache_internal b = cache_internal base"
  shows "vstr__cache_add b (b_len base) len = b"
proof (cases "cache_available base")
  case True
  have "(case cache_pos (b_cache base) of None \<Rightarrow> None
      | Some d \<Rightarrow> vstr__cache_pos_cb (b_len base) CACHE_ADD d) = cache_pos (b_cache base)"
    using assms(1,2) True pos_entry_le_len
    by (auto simp: pos_cache_ok_def vstr_cache_get_pos_def vstr__cache_pos_cb_def split: option.splits)
  moreover have "(case cache_cstr (b_cache base) of None \<Rightarrow> (None, h)
      | Some d \<Rightarrow> vstr__cache_cstr_cb (b_len base) len CACHE_ADD d h) = (cache_cstr (b_cache base), h)" for h
    using assms(3) True
    by (auto simp: cstr_in_range_def vstr_cache_get_cstr_def vstr__cache_cstr_cb_def Let_def split: option.splits)
  moreover have "b\<lparr>b_cache := (b_cache base)\<lparr>cache_vec := v\<rparr>, b_conf := b_conf b, cache_internal := True\<rparr> = b"
    using assms(4,5,6,7) True by (cases b) simp
  moreover have "(case v of None \<Rightarrow> None | Some d \<Rightarrow> vstr__cache_iovec_cb CACHE_ADD d) = v"
    by (simp add: vstr__cache_iovec_cb_def split: option.split)
  ultimately show ?thesis
    using assms True by (simp add: vstr__cache_add_def vstr__cache_cbs_def)
qed (use assms in \<open>simp add: vstr__cache_add_def\<close>)

lemma add_fast_eq_slow:
  assumes inv: "vstr_inv base" and ok: "add_fast_ok base pos (src_len s)" and t: "src_type s = NODE_BUF"
    and len: "0 < src_len s" and cs: "cstr_in_range base"
  shows "vstr__add base pos s = (True, add_fast base s)"
proof -
  let ?i = "length (b_nodes base) - 1" and ?n = "last (b_nodes base)"
  have wf: "wf_base base" and pc: "pos_cache_ok base" using inv by (simp_all add: vstr_inv_def)
  have f: "b_len base \<noteq> 0" "pos = b_len base" "node_type ?n = NODE_BUF"
    "src_len s \<le> buf_sz (b_conf base) - node_len ?n" "\<not> cache_available base \<or> cache_internal base"
    using ok by (simp_all add: add_fast_ok_def)
  have ns: "b_nodes base \<noteq> []" using wf f(1) by (auto simp: wf_base_iff used_ok_def)
  then have n: "b_nodes base ! ?i = ?n" "b_num base = length (b_nodes base)"
    using wf by (simp_all add: last_conv_nth wf_base_iff)
  have sp: "vstr__add_setup_pos base pos = (Some (?i, length (b_nodes base)), base)"
    using base__pos_end [OF wf f(1)] f(2) n by (simp add: vstr__add_setup_pos_def)
  have "pos \<noteq> 0 \<and> b_len base \<noteq> 0" using f by simp
  then have beg: "VSTR__ADD_BEG base pos s = (True, Some (?i, length (b_nodes base)), base)"
    using f(3,4) t unfolding VSTR__ADD_BEG_def sp by (simp only: if_True if_False prod.case option.case option.distinct simp_thms n(1) Let_def)
  have "node_len ?n < buf_sz (b_conf base)" using f(4) len by linarith
  then have fits: "src_fits (b_conf base) ?n s" using f(3) t by (cases s) auto
  have mn: "min (src_max (b_conf base) s - node_len ?n) (src_len s) = src_len s"
    using f(4) t by (simp add: src_max_def)
  have "vstr__add_fill base (Some (?i, length (b_nodes base))) s =
      (src_merged (src_len s) s, add_fast base s)"
    using fits mn n ns by (cases "iovec_upto_date base")
      (simp_all add: vstr__add_fill_def add_fast_def vstr__cache_iovec_add_node_end_def vec_map_def Let_def)
  moreover have "src_len (src_merged (src_len s) s) = 0" by (cases s) auto
  moreover have "vstr__cache_add (add_fast base s) pos (src_len s) = add_fast base s"
    unfolding f(2)
    by (rule cache_add_at_end [OF wf pc cs f(5), where v = "cache_vec (b_cache (add_fast base s))"])
      (simp_all add: add_fast_def Let_def vec_map_def)
  ultimately show ?thesis using beg by (simp add: vstr__add_def)
qed

section \<open>Success without allocation failures\<close>

definition mk_never_fails :: "vstr_conf \<Rightarrow> bool" where
  "mk_never_fails c \<longleftrightarrow> (\<forall>k. \<not> mk_fail (heap c) k)"

lemma make_spare_nodes_succeeds:
  "mk_never_fails c \<Longrightarrow> vstr_make_spare_nodes k c t = (n, c') \<Longrightarrow> n = k \<and> mk_never_fails c'"
proof (induction k arbitrary: c n c')
  case (Suc k)
  obtain ok c1 where 1: "vstr__make_spare_node c t = (ok, c1)" by fastforce
  then have "ok" "mk_never_fails c1"
    using Suc.prems(1) by (auto simp: mk_never_fails_def elim!: make_spare_node_cases)
  moreover obtain m c2 where "vstr_make_spare_nodes k c1 t = (m, c2)" by fastforce
  ultimately show ?case using Suc 1 by auto
qed simp

lemma free_spare_nodes_heap: "heap (snd (vstr_free_spare_nodes k c t)) = heap c"
proof (induction k arbitrary: c)
  case (Suc k)
  obtain ok c1 where 1: "vstr__free_spare_node c t = (ok, c1)" by fastforce
  then have "heap c1 = heap c" by (auto simp: vstr__free_spare_node_def split: list.splits)
  then show ?case using Suc [of c1] 1 by (cases ok) (auto split: prod.splits)
qed simp

lemma set_num_spare_succeeds:
  "mk_never_fails c \<Longrightarrow> cntl_set_num_spare c t v = (ok, c') \<Longrightarrow> ok \<and> mk_never_fails c'"
  using make_spare_nodes_succeeds [of c "v - spare_num t c" t] free_spare_nodes_heap [of "spare_num t c - v" c t]
  by (auto simp: cntl_set_num_spare_def Let_def mk_never_fails_def split: if_splits prod.splits)

lemma range_spare_succeeds:
  "mk_never_fails c \<Longrightarrow> cntl_set_num_range_spare c t lo hi = (ok, c') \<Longrightarrow> ok \<and> mk_never_fails c'"
  by (auto simp: cntl_set_num_range_spare_def Let_def split: if_splits dest: set_num_spare_succeeds)

lemma split_node_succeeds:
  assumes "mk_never_fails (b_conf base)" "vstr__base_split_node base idx p = (ok, base')"
  shows "ok \<and> mk_never_fails (b_conf base')"
proof -
  let ?n = "b_nodes base ! idx"
  obtain ok1 c where 1: "cntl_set_num_range_spare (b_conf base) (node_type ?n) 1 UINT_MAX = (ok1, c)" by fastforce
  then have "ok1" "mk_never_fails c" using range_spare_succeeds assms(1) by blast+
  then have "mk_never_fails (node_add_ref ?n (snd (spare_pop (node_type ?n) c)))"
    by (cases ?n) (simp_all add: mk_never_fails_def spare_pop_def vstr_ref_add_def)
  then show ?thesis using assms(2) 1 \<open>ok1\<close> by (auto simp: vstr__base_split_node_def Let_def split: prod.splits)
qed

lemma add_setup_pos_succeeds:
  assumes "mk_never_fails (b_conf base)" "vstr__add_setup_pos base pos = (scan, b')"
  shows "scan \<noteq> None \<and> mk_never_fails (b_conf b')"
proof -
  obtain idx p num b1 where 1: "vstr_base__pos base pos True = ((idx, p, num), b1)" by (metis surj_pair)
  have "b_conf b1 = b_conf base"
    using 1 by (auto simp: vstr_base__pos_def vstr_cache__pos_def Let_def split: if_splits prod.splits)
  then have "mk_never_fails (b_conf b1)" using assms(1) by simp
  moreover obtain ok b2 where 2: "vstr__base_split_node b1 idx p = (ok, b2)" by (metis surj_pair)
  ultimately have "ok" "mk_never_fails (b_conf b2)" using split_node_succeeds by blast+
  with 1 2 assms \<open>mk_never_fails (b_conf b1)\<close> show ?thesis
    by (auto simp: vstr__add_setup_pos_def split: if_splits)
qed

lemma add_succeeds:
  assumes "mk_never_fails (b_conf base)"
  shows "fst (vstr__add base pos s)"
proof -
  let ?S = "if pos \<noteq> 0 \<and> b_len base \<noteq> 0 then vstr__add_setup_pos base pos else (None, base)"
  obtain sc b1 where S: "?S = (sc, b1)" by (metis surj_pair)
  then have "mk_never_fails (b_conf b1)" "pos \<noteq> 0 \<and> b_len base \<noteq> 0 \<longrightarrow> sc \<noteq> None"
    using assms add_setup_pos_succeeds [OF assms, of pos sc b1] by (auto split: if_splits)
  then have "fst (VSTR__ADD_BEG base pos s)"
    unfolding VSTR__ADD_BEG_def S by (auto dest: range_spare_succeeds split: prod.splits)
  then show ?thesis by (auto simp: vstr__add_def split: prod.splits bool.splits)
qed

section \<open>The functions of the interface\<close>

lemma add_fast_spec:
  assumes inv: "vstr_inv base" and ok: "add_fast_ok base pos (src_len s)" and t: "src_type s = NODE_BUF"
    and len: "0 < src_len s"
  shows "vstr_inv (add_fast base s)" "vstr_data (add_fast base s) = ins_at pos (src_data s) (vstr_data base)"
proof -
  let ?ns = "b_nodes base" and ?n = "last (b_nodes base)" and ?b = "add_fast base s"
  let ?n' = "node_grow (src_len s) s ?n"
  have wf: "wf_base base" and pc: "pos_cache_ok base" and ids: "ids_ok (b_conf base) ?ns"
    using inv by (simp_all add: vstr_inv_def)
  have f: "b_len base \<noteq> 0" "pos = b_len base" "node_type ?n = NODE_BUF"
    "src_len s \<le> buf_sz (b_conf base) - node_len ?n"
    using ok by (simp_all add: add_fast_ok_def)
  have ne: "?ns \<noteq> []" using wf f(1) by (auto simp: wf_base_iff used_ok_def)
  then have ns: "?ns = butlast ?ns @ ?n # []" by simp
  have b: "b_nodes ?b = butlast ?ns @ ?n' # []" "b_used ?b = b_used base" "b_conf ?b = b_conf base"
    "b_num ?b = b_num base" "b_len ?b = b_len base + src_len s" "flag_of ?b u = flag_of base u"
    "vstr_cache_get_pos ?b = vstr_cache_get_pos base" for u
    using ne list_update_length [of "butlast ?ns" ?n "[]"] by (auto simp: add_fast_def Let_def)
  have n: "node_ok (buf_sz (b_conf base)) ?n" using wf ne by (intro wf_base_nodes_ok) simp_all
  have v: "src_valid s" "length (src_data s) = src_len s"
    using t by (cases s; simp add: src_valid_def)+
  have n': "node_ok (buf_sz (b_conf base)) ?n'" "node_data ?n' = node_data ?n @ src_data s"
    "node_len ?n' = node_len ?n + length (src_data s)" "node_type ?n' = node_type ?n" "node_id ?n' = node_id ?n"
    using f(3,4) n t len by (cases s; cases ?n; auto simp: node_simps)+
  have pos: "nodes_len (butlast ?ns @ [?n]) = pos + b_used base"
    using f(2) wf ne by (simp add: wf_base_iff flip: map_append)
  note g = grow_node_ok [OF wf ns pos n'(1-4) b(1,2)]
  have wf': "wf_base ?b" and dat: "vstr_data ?b = ins_at pos (src_data s) (vstr_data base)"
    using g b v by simp_all
  have "pos_entry_ok (b_nodes ?b) (b_used ?b) d i" if e: "pos_entry_ok ?ns (b_used base) d i" for d i
  proof -
    have "pos_entry_ok ((butlast ?ns @ [?n]) @ []) (b_used base) d i" using e ne by simp
    then have "pos_entry_ok ((butlast ?ns @ [?n']) @ []) (b_used base) d i"
      using n'(5) pos f(2) pos_entry_le_len [OF wf e] by (elim pos_entry_prefix) simp_all
    then show ?thesis using b(1,2) by simp
  qed
  then have "pos_cache_ok ?b" using pc b(7) by (auto simp: pos_cache_ok_def split: option.splits)
  moreover have "map node_id (b_nodes ?b) = map node_id ?ns"
    using b(1) n'(5) ns by (metis list.simps(9) map_append)
  then have "ids_ok (b_conf ?b) (b_nodes ?b)" using ids b(3) by (simp add: ids_ok_def ids_of_def)
  ultimately show "vstr_inv ?b" "vstr_data ?b = ins_at pos (src_data s) (vstr_data base)"
    using wf' dat by (simp_all add: vstr_inv_def)
qed

text \<open>What an addition promises of its result.\<close>

definition add_result :: "vstr_base \<Rightarrow> nat \<Rightarrow> content \<Rightarrow> bool \<times> vstr_base \<Rightarrow> bool" where
  "add_result base pos dat res =
     (case res of (r, base') \<Rightarrow>
        if r then vstr_inv base' \<and> vstr_data base' = ins_at pos dat (vstr_data base)
        else wf_base base' \<and> ids_ok (b_conf base') (b_nodes base') \<and>
             vstr_data base' = vstr_data base \<and> malloc_bad (b_conf base'))"

lemma add_result_add:
  assumes "vstr_inv base" "pos \<le> b_len base" "src_ok base s"
  shows "add_result base pos (src_data s) (vstr__add base pos s)"
  using add_spec [OF assms] by (cases "vstr__add base pos s") (auto simp: add_result_def)

lemma add_result_none: "vstr_inv base \<Longrightarrow> add_result base pos [] (True, base)"
  by (simp add: add_result_def)

lemma src_ok_copied [simp]:
  "src_ok base (Src_buf buf) \<longleftrightarrow> length buf \<le> UINT_MAX" "src_ok base (Src_rep chr len) \<longleftrightarrow> len \<le> UINT_MAX"
  "src_ok base (Src_non len) \<longleftrightarrow> len \<le> UINT_MAX"
proof -
  have "src_coh (Src_buf buf) n" "src_coh (Src_rep chr len) n" "src_coh (Src_non len) n" for n
    by (cases n; simp add: src_coh_def)+
  then show "src_ok base (Src_buf buf) \<longleftrightarrow> length buf \<le> UINT_MAX"
    "src_ok base (Src_rep chr len) \<longleftrightarrow> len \<le> UINT_MAX" "src_ok base (Src_non len) \<longleftrightarrow> len \<le> UINT_MAX"
    by (simp_all add: src_ok_def src_valid_def)
qed

lemma add_buf_result:
  assumes "vstr_inv base" "pos \<le> b_len base" "length buf \<le> UINT_MAX"
  shows "add_result base pos (map Some buf) (vstr_add_buf base pos buf)"
  using assms add_result_add [OF assms(1,2), of "Src_buf buf"] add_result_none [OF assms(1)]
      add_fast_spec [OF assms(1), of pos "Src_buf buf"]
  by (auto simp: vstr_add_buf_def vstr_extern_inline_add_buf_def add_result_def)

lemma add_rep_chr_result:
  assumes "vstr_inv base" "pos \<le> b_len base" "len \<le> UINT_MAX"
  shows "add_result base pos (replicate len (Some chr)) (vstr_add_rep_chr base pos chr len)"
  using assms add_result_add [OF assms(1,2), of "Src_rep chr len"] add_result_none [OF assms(1)]
      add_fast_spec [OF assms(1), of pos "Src_rep chr len"]
  by (auto simp: vstr_add_rep_chr_def vstr_extern_inline_add_rep_chr_def add_result_def)

lemma add_non_result:
  assumes "vstr_inv base" "pos \<le> b_len base" "len \<le> UINT_MAX"
  shows "add_result base pos (replicate len None) (vstr_add_non base pos len)"
  using assms add_result_add [OF assms(1,2), of "Src_non len"] add_result_none [OF assms(1)]
  by (auto simp: vstr_add_non_def)

lemma add_ptr_result:
  assumes "vstr_inv base" "pos \<le> b_len base" "src_ok base (Src_ptr p len)"
  shows "add_result base pos (map Some (cptr_read p len)) (vstr_add_ptr base pos p len)"
  using assms add_result_add [OF assms] add_result_none [OF assms(1)]
  by (auto simp: vstr_add_ptr_def cptr_read_def)

lemma add_ref_result:
  assumes "vstr_inv base" "pos \<le> b_len base" "src_ok base (Src_ref r off len)"
  shows "add_result base pos (map Some (take len (drop off (ref_ptr r)))) (vstr_add_ref base pos r off len)"
  using assms add_result_add [OF assms] add_result_none [OF assms(1)]
  by (auto simp: vstr_add_ref_def)

lemma ex_conf_mk [simp]: "mk_never_fails ex_conf"
  by (simp add: mk_never_fails_def ex_conf_def ex_heap_def)

lemma UINT_MAX_large: "n \<le> 1000 \<Longrightarrow> n \<le> UINT_MAX"
  by (simp add: UINT_MAX_def)

lemma add_buf_succeeds:
  "mk_never_fails (b_conf base) \<Longrightarrow> pos \<le> b_len base \<Longrightarrow> fst (vstr_add_buf base pos buf)"
  by (simp add: vstr_add_buf_def vstr_extern_inline_add_buf_def add_succeeds)

section \<open>Properties\<close>



text \<open>
  Adding a pointer. \<^verbatim>\<open>vstr_add_ptr()\<close> inserts the memory behind its pointer without copying it,
  extending the node before the position when that node ends where the memory begins; the same guarantees as for
  buffers hold, for memory that stays within what one node can hold.
\<close>

lemma vstr_add_ptr_correct:
  assumes "vstr_inv base" "pos \<le> b_len base" "src_ok base (Src_ptr p len)"
  shows "case vstr_add_ptr base pos p len of (r, base') \<Rightarrow>
    if r then vstr_inv base' \<and> vstr_data base' = ins_at pos (map Some (cptr_read p len)) (vstr_data base)
    else wf_base base' \<and> ids_ok (b_conf base') (b_nodes base') \<and> vstr_data base' = vstr_data base \<and>
         malloc_bad (b_conf base')"
  using add_ptr_result [OF assms] by (simp add: add_result_def)

definition ex_ptr :: vstr_base where
  "ex_ptr = ex_base [Node_ptr 1 (Cptr 7 [65, 66, 67, 68] 0) 2]"

lemma vstr_add_ptr_correct_witness:
  "vstr_data (snd (vstr_add_ptr ex_ptr 2 (Cptr 7 [65, 66, 67, 68] 2) 2)) = [Some 65, Some 66, Some 67, Some 68]"
proof -
  let ?p = "Cptr 7 [65, 66, 67, 68] 2 :: cptr"
  have "vstr_inv ex_ptr"
    unfolding ex_ptr_def by (rule ex_base_inv) (auto simp: node_simps cptr_valid_def VSTR_MAX_NODE_ALL_def)
  moreover have "src_ok ex_ptr (Src_ptr ?p 2)"
    by (simp add: src_ok_def src_valid_def ex_ptr_def cptr_valid_def VSTR_MAX_NODE_ALL_def UINT_MAX_def src_coh_def)
  moreover have "fst (vstr_add_ptr ex_ptr 2 ?p 2)"
    using add_succeeds [of ex_ptr 2 "Src_ptr ?p 2"] by (simp add: vstr_add_ptr_def ex_ptr_def)
  ultimately show ?thesis
    using vstr_add_ptr_correct [of ex_ptr 2 ?p 2]
    by (simp add: ex_ptr_def ins_at_def cptr_read_def split: prod.splits)
qed

text \<open>
  Adding a reference. \<^verbatim>\<open>vstr_add_ref()\<close> inserts \<open>len\<close> bytes of the memory of the reference from the offset on,
  with the same guarantees.
\<close>

lemma vstr_add_ref_correct:
  assumes "vstr_inv base" "pos \<le> b_len base" "src_ok base (Src_ref r off len)"
  shows "case vstr_add_ref base pos r off len of (ok, base') \<Rightarrow>
    if ok then vstr_inv base' \<and>
         vstr_data base' = ins_at pos (map Some (take len (drop off (ref_ptr r)))) (vstr_data base)
    else wf_base base' \<and> ids_ok (b_conf base') (b_nodes base') \<and> vstr_data base' = vstr_data base \<and>
         malloc_bad (b_conf base')"
  using add_ref_result [OF assms] by (simp add: add_result_def)

lemma vstr_add_ref_correct_witness:
  "vstr_data (snd (vstr_add_ref ex_abc 1 (Vstr_ref 3 [65, 66, 67]) 1 2)) =
     [Some 97, Some 66, Some 67, Some 98, Some 99, Some 100, Some 101, Some 102]"
proof -
  let ?r = "Vstr_ref 3 [65, 66, 67] :: vstr_ref"
  have "src_ok ex_abc (Src_ref ?r 1 2)"
    by (simp add: src_ok_def src_valid_def VSTR_MAX_NODE_ALL_def UINT_MAX_def src_coh_def)
  moreover have "fst (vstr_add_ref ex_abc 1 ?r 1 2)"
    using add_succeeds [of ex_abc 1 "Src_ref ?r 1 2"] by (simp add: vstr_add_ref_def)
  ultimately show ?thesis
    using vstr_add_ref_correct [of ex_abc 1 ?r 1 2] by (simp add: ins_at_def split: prod.splits)
qed

text \<open>
  C20. The inline fast path. When \<^verbatim>\<open>vstr_add_buf()\<close> appends in place without calling the callbacks, it
  leaves exactly the state that \<^verbatim>\<open>vstr_extern_inline_add_buf()\<close> would have left.
\<close>

theorem add_buf_fast_is_slow:
  assumes "vstr_inv base" "add_fast_ok base pos (length buf)" "buf \<noteq> []" "cstr_in_range base"
  shows "vstr_add_buf base pos buf = vstr_extern_inline_add_buf base pos buf"
  using add_fast_eq_slow [of base pos "Src_buf buf"] assms
  by (simp add: vstr_add_buf_def vstr_extern_inline_add_buf_def add_fast_ok_def)

theorem add_buf_fast_is_slow_witness:
  "add_fast_ok ex_abc 6 2 \<and> vstr_add_buf ex_abc 6 [1, 2] = vstr_extern_inline_add_buf ex_abc 6 [1, 2]"
proof -
  have "add_fast_ok ex_abc 6 2" by (simp add: add_fast_ok_def ex_conf_def) (simp add: ex_abc_def ex_base_def)
  moreover have "cstr_in_range ex_abc"
    by (simp add: cstr_in_range_def vstr_cache_get_cstr_def ex_abc_def ex_base_def)
  ultimately show ?thesis using add_buf_fast_is_slow [of ex_abc 6 "[1, 2]"] by (simp add: numeral_2_eq_2)
qed



end
