(* ===== verification/Vstr_Iovec.thy ===== *)
theory Vstr_Iovec
  imports Vstr_Add
begin

text \<open>
  The iovec array of a string (\<^verbatim>\<open>vstr__cache_iovec_valid()\<close> in src/vstr.c and the maintenance code
  in src/vstr_add.c and src/vstr_cache.c): when \<^verbatim>\<open>iovec_upto_date\<close> is set, the array holds one
  entry per node, in order, with the pointer and the length of the data in the node. Filling the array
  establishes this, and adding data behind the first byte keeps it; adding in front of a non-empty
  string does not always.
\<close>

section \<open>The invariant\<close>

definition vec_holds :: "vstr_base \<Rightarrow> (nptr \<times> nat) list \<Rightarrow> ntype list \<Rightarrow> bool" where
  "vec_holds base es ts \<longleftrightarrow> iovec_upto_date base \<longrightarrow>
     (\<exists>d. cache_vec (b_cache base) = Some d \<and> iov_off d + length es \<le> iov_sz d \<and> iov_sz d < 2 ^ 32 \<and>
        length (iov_v d) = iov_sz d \<and> length (iov_t d) = iov_sz d \<and>
        take (length es) (drop (iov_off d) (iov_v d)) = es \<and>
        length ts = length es \<and> take (length es) (drop (iov_off d) (iov_t d)) = ts)"

definition iovec_ok :: "vstr_base \<Rightarrow> bool" where
  "iovec_ok base \<longleftrightarrow> vec_holds base (iov_entries base) (map node_type (b_nodes base))"

definition node_entry :: "vstr_node \<Rightarrow> nptr \<times> nat" where
  "node_entry n = (vstr_export__node_ptr n, node_len n)"

lemma iov_entries_0: "b_used base = 0 \<Longrightarrow> iov_entries base = map node_entry (b_nodes base)"
proof -
  have "nptr_add p 0 = p" for p by (cases p) (simp_all add: cptr_add_def)
  then show "b_used base = 0 \<Longrightarrow> iov_entries base = map node_entry (b_nodes base)"
    by (simp add: iov_entries_def node_entry_def split: list.split)
qed

lemma iov_entries_length [simp]: "length (iov_entries base) = length (b_nodes base)"
  by (simp add: iov_entries_def split: list.split)

lemma iov_entries_append:
  "b_nodes base \<noteq> [] \<Longrightarrow> b_nodes b' = b_nodes base @ new \<Longrightarrow> b_used b' = b_used base \<Longrightarrow>
     iov_entries b' = iov_entries base @ map node_entry new"
  by (auto simp: iov_entries_def node_entry_def split: list.split)

lemma take_update_end:
  "off + k < length v \<Longrightarrow> take (Suc k) (drop off (v[off + k := x])) = take k (drop off v) @ [x]"
  by (simp add: drop_update_swap take_Suc_conv_app_nth take_update_swap list_update_append)

section \<open>Adding at the end\<close>

lemma maybe_add_end_holds:
  assumes "vec_holds base es ts" "b_num base = Suc (length es)"
  shows "vec_holds (vstr__cache_iovec_maybe_add base n True l)
    (es @ [(vstr_export__node_ptr n, l)]) (ts @ [node_type n])"
proof (cases "iovec_upto_date base")
  case True
  with assms(1) obtain d where d: "cache_vec (b_cache base) = Some d" "iov_off d + length es \<le> iov_sz d"
    "iov_sz d < 2 ^ 32" "length (iov_v d) = iov_sz d" "length (iov_t d) = iov_sz d"
    "take (length es) (drop (iov_off d) (iov_v d)) = es" "length ts = length es"
    "take (length es) (drop (iov_off d) (iov_t d)) = ts"
    by (auto simp: vec_holds_def)
  have sub: "uint_sub (iov_sz d) (iov_off d) = iov_sz d - iov_off d"
    using d(2,3) by (intro uint_sub_le) simp_all
  show ?thesis
  proof (cases "b_num base \<le> iov_sz d - iov_off d")
    case le: True
    then have k: "iov_off d + length es < iov_sz d" using assms(2) by simp
    then have "take (Suc (length es)) (drop (iov_off d)
        ((iov_v d)[iov_off d + length es := (vstr_export__node_ptr n, l)])) = es @ [(vstr_export__node_ptr n, l)]"
      "take (Suc (length es)) (drop (iov_off d) ((iov_t d)[iov_off d + length es := node_type n])) =
        ts @ [node_type n]"
      using d take_update_end [of "iov_off d" "length es" "iov_v d"] take_update_end [of "iov_off d" "length es" "iov_t d"]
      by simp_all
    then show ?thesis
      using True le sub d k assms(2)
      by (simp add: vec_holds_def vstr__cache_iovec_maybe_add_def vstr__cache_iovec_add_end_def vec_set_def)
  next
    case False
    then show ?thesis using True sub d by (simp add: vec_holds_def vstr__cache_iovec_maybe_add_def)
  qed
qed (simp add: vec_holds_def vstr__cache_iovec_maybe_add_def)

lemma vec_holds_frame [simp]:
  "vec_holds (b\<lparr>b_conf := c\<rparr>) es ts = vec_holds b es ts" "vec_holds (b\<lparr>b_nodes := x\<rparr>) es ts = vec_holds b es ts"
  "vec_holds (b\<lparr>b_len := l\<rparr>) es ts = vec_holds b es ts" "vec_holds (b\<lparr>b_num := k\<rparr>) es ts = vec_holds b es ts"
  "vec_holds (set_flag t b) es ts = vec_holds b es ts"
  by (simp_all add: vec_holds_def)

lemma add_loop_holds:
  assumes "vstr__add_loop ids s True base = (new, rest, base')" "vec_holds base es ts"
    and "b_num base = length es" "src_valid s" "0 < buf_sz (b_conf base)"
  shows "vec_holds base' (es @ map node_entry new) (ts @ map node_type new)"
  using assms
proof (induction ids arbitrary: s base new es ts)
  case (Cons i ids)
  show ?case
  proof (cases "src_len s = 0")
    case False
    define k where "k = min (src_max (b_conf base) s) (src_len s)"
    define node where "node = src_node i k s"
    define b1 where "b1 = (set_flag (src_type s) base)\<lparr>b_num := b_num base + 1\<rparr>"
    define b2 where "b2 = b1\<lparr>b_conf := node_add_ref node (b_conf b1)\<rparr>"
    define b3 where "b3 = vstr__cache_iovec_maybe_add b2 node True k"
    obtain ns rest1 b4 where l: "vstr__add_loop ids (src_next k s) True b3 = (ns, rest1, b4)"
      by (metis surj_pair)
    have res: "new = node # ns" "rest = rest1" "base' = b4"
      using Cons.prems(1) False l unfolding k_def node_def b1_def b2_def b3_def by (auto simp: Let_def)
    have k: "0 < k" "k \<le> src_max (b_conf base) s" "k \<le> src_len s"
      using False src_max_pos [of "b_conf base" s] Cons.prems(5) by (auto simp: k_def)
    have e: "node_entry node = (vstr_export__node_ptr node, k)"
      using src_node_facts(3) [OF Cons.prems(4) k, of i] by (simp add: node_entry_def node_def)
    have "vec_holds b2 es ts" "b_num b2 = Suc (length es)"
      using Cons.prems(2,3) by (simp_all add: b2_def b1_def)
    then have h3: "vec_holds b3 (es @ [node_entry node]) (ts @ [node_type node])"
      unfolding b3_def e by (rule maybe_add_end_holds)
    have "b_num b3 = length (es @ [node_entry node])" "0 < buf_sz (b_conf b3)"
      using Cons.prems(3,5) by (simp_all add: b3_def b2_def b1_def)
    then show ?thesis
      using Cons.IH [OF l [folded res(2,3)] h3 _ src_next_facts(1) [OF Cons.prems(4) k_def]] res(1) by simp
  qed (use Cons in simp)
qed simp


lemma maybe_add_upto_date:
  "iovec_upto_date (vstr__cache_iovec_maybe_add b n e l) \<Longrightarrow> iovec_upto_date b"
  by (auto simp: vstr__cache_iovec_maybe_add_def split: if_splits)

lemma loop_upto_date:
  "vstr__add_loop ids s e base = (new, rest, base') \<Longrightarrow> iovec_upto_date base' \<Longrightarrow> iovec_upto_date base"
proof (induction ids arbitrary: s base new)
  case (Cons i ids)
  then show ?case
    by (auto simp: Let_def split: if_splits prod.splits dest!: Cons.IH maybe_add_upto_date)
qed simp

section \<open>Extending a node\<close>

lemma iov_entries_cong: "b_nodes a = b_nodes b \<Longrightarrow> b_used a = b_used b \<Longrightarrow> iov_entries a = iov_entries b"
  by (simp add: iov_entries_def split: list.split)

lemma iov_entries_grow:
  assumes "idx < length (b_nodes b)" "node_len n' = node_len (b_nodes b ! idx) + k"
    and "vstr_export__node_ptr n' = vstr_export__node_ptr (b_nodes b ! idx)"
    and "idx = 0 \<longrightarrow> b_used b \<le> node_len (b_nodes b ! idx)"
  shows "iov_entries (b\<lparr>b_nodes := (b_nodes b)[idx := n']\<rparr>) =
    (iov_entries b)[idx := (fst (iov_entries b ! idx), snd (iov_entries b ! idx) + k)]"
proof (cases "b_nodes b")
  case (Cons m ms)
  then show ?thesis using assms by (cases idx) (auto simp: iov_entries_def map_update)
qed (use assms in simp)

lemma take_drop_update:
  "take n (drop off (v[off + i := x])) = (take n (drop off v))[i := x]"
  by (cases "i < n") (auto simp: drop_update_swap take_update_swap)

lemma node_grow_ptr: "vstr_export__node_ptr (node_grow k s n) = vstr_export__node_ptr n"
  by (cases n) auto

lemma vec_holds_grow:
  assumes "vec_holds b es ts" "idx < length es"
  shows "vec_holds (vstr__cache_iovec_add_node_end b (Suc idx) k)
    (es[idx := (fst (es ! idx), snd (es ! idx) + k)]) ts"
proof (cases "iovec_upto_date b")
  case True
  with assms(1) obtain d where d: "cache_vec (b_cache b) = Some d" "iov_off d + length es \<le> iov_sz d"
    "iov_sz d < 2 ^ 32" "length (iov_v d) = iov_sz d" "length (iov_t d) = iov_sz d"
    "take (length es) (drop (iov_off d) (iov_v d)) = es" "length ts = length es"
    "take (length es) (drop (iov_off d) (iov_t d)) = ts"
    by (auto simp: vec_holds_def)
  have "iov_v d ! (iov_off d + idx) = take (length es) (drop (iov_off d) (iov_v d)) ! idx"
    using assms(2) d(2,4) by simp
  then have "iov_v d ! (iov_off d + idx) = es ! idx" using d(6) by simp
  then show ?thesis
    using True d take_drop_update [of "length es" "iov_off d" "iov_v d" idx]
    by (simp add: vec_holds_def vstr__cache_iovec_add_node_end_def Let_def add.commute)
qed (simp add: vec_holds_def vstr__cache_iovec_add_node_end_def)

lemma add_fill_iovec:
  assumes wf: "wf_base base" and at: "add_at base pos scan" and ok: "src_ok base s"
    and iov: "iovec_ok base" and res: "vstr__add_fill base scan s = (s', base')"
  shows "iovec_ok base'"
proof (cases "\<exists>idx num. scan = Some (idx, num) \<and> src_fits (b_conf base) (b_nodes base ! idx) s")
  case False
  then have "base' = base" using res by (auto simp: vstr__add_fill_def Let_def split: option.splits)
  then show ?thesis using iov by simp
next
  case True
  then obtain idx num where scan: "scan = Some (idx, num)"
    and fits: "src_fits (b_conf base) (b_nodes base ! idx) s" by blast
  let ?n = "b_nodes base ! idx" and ?ns = "b_nodes base"
  define k where "k = min (src_max (b_conf base) s - node_len ?n) (src_len s)"
  have idx: "idx < length ?ns" "num = Suc idx" using at scan by (auto simp: add_at_def)
  let ?b1 = "base\<lparr>b_nodes := ?ns[idx := node_grow k s ?n]\<rparr>"
  have b': "base' = (vstr__cache_iovec_add_node_end ?b1 num k)\<lparr>b_len := b_len base + k\<rparr>"
    using res scan fits by (auto simp: vstr__add_fill_def k_def Let_def)
  note g = node_grow_facts [OF wf nth_mem [OF idx(1)] ok fits k_def]
  have "idx = 0 \<longrightarrow> b_used base \<le> node_len ?n"
    using wf idx(1) by (cases ?ns) (auto simp: wf_base_iff used_ok_def)
  then have e: "iov_entries ?b1 = (iov_entries base)[idx := (fst (iov_entries base ! idx), snd (iov_entries base ! idx) + k)]"
    using iov_entries_grow [OF idx(1) g(3) node_grow_ptr] by blast
  have t: "map node_type (b_nodes ?b1) = map node_type ?ns"
    using g(4) idx(1) by (simp add: map_update list_update_same_conv)
  have "vec_holds (vstr__cache_iovec_add_node_end ?b1 num k) (iov_entries ?b1) (map node_type (b_nodes ?b1))"
    unfolding e t idx(2) using iov idx(1) by (intro vec_holds_grow) (simp_all add: iovec_ok_def)
  then show ?thesis
    using b' iov_entries_cong [of base' ?b1] by (simp add: iovec_ok_def)
qed

section \<open>Additions behind the first byte keep the array\<close>

lemma iovec_ok_frame [simp]:
  "iovec_ok (b\<lparr>b_conf := c\<rparr>) = iovec_ok b" "iovec_ok (b\<lparr>b_len := l\<rparr>) = iovec_ok b"
  "iovec_ok (vstr__cache_add b pos len) = iovec_ok b"
  using iov_entries_cong [of "vstr__cache_add b pos len" b] iov_entries_cong [of "b\<lparr>b_conf := c\<rparr>" b]
    iov_entries_cong [of "b\<lparr>b_len := l\<rparr>" b]
  by (simp_all add: iovec_ok_def vec_holds_def)

lemma iovec_ok_off [simp]: "\<not> iovec_upto_date b \<Longrightarrow> iovec_ok b"
  by (simp add: iovec_ok_def vec_holds_def)

lemma add_setup_pos_iovec:
  assumes "vstr_inv base" "iovec_ok base" "1 \<le> pos" "pos \<le> b_len base"
    and "vstr__add_setup_pos base pos = (scan, b')"
  shows "iovec_ok b'"
proof -
  obtain idx p num b1 where 1: "vstr_base__pos base pos True = ((idx, p, num), b1)" by (metis surj_pair)
  have "same_but_cache base b1"
    using base__pos_at_pos [OF _ _ _ assms(3,4) 1] assms(1) ids_ok_distinct
    by (auto simp: vstr_inv_def ids_distinct_def)
  note fr = same_but_cache_frame [OF this]
  have iov1: "iovec_ok b1" using assms(2) fr iov_entries_cong [of b1 base] by (simp add: iovec_ok_def vec_holds_def)
  obtain ok b2 where 2: "vstr__base_split_node b1 idx p = (ok, b2)" by (metis surj_pair)
  have "iovec_ok b2"
    using 2 iov1 by (auto simp: vstr__base_split_node_def Let_def split: prod.splits bool.splits)
  then show ?thesis
    using assms(5) 1 2 iov1 by (auto simp: vstr__add_setup_pos_def split: if_splits bool.splits)
qed

lemma add_mid_end_iovec:
  assumes wf: "wf_base base" and at: "add_at base p scan" and iov: "iovec_ok base"
    and s: "src_valid s" and front: "scan = None \<longrightarrow> b_len base = 0"
    and enough: "src_len s \<le> length (spare_beg (src_type s) (b_conf base)) * src_max (b_conf base) s"
  shows "iovec_ok (VSTR__ADD_MID_END base scan pos olen s)"
proof -
  let ?t = "src_type s"
  define b1 where "b1 = (case scan of
      Some (idx, num) \<Rightarrow> if idx \<noteq> length (b_nodes base) - 1 then base\<lparr>iovec_upto_date := False\<rparr> else base
    | None \<Rightarrow> base)"
  define n where "n = (case scan of Some (idx, num) \<Rightarrow> Suc idx | None \<Rightarrow> 0)"
  let ?b2 = "b1\<lparr>b_len := b_len b1 + src_len s\<rparr>"
  obtain new rest b3 where loop: "vstr__add_loop (spare_beg ?t (b_conf base)) s True ?b2 = (new, rest, b3)"
    by (metis surj_pair)
  have b1: "b_nodes b1 = b_nodes base" "b_used b1 = b_used base" "b_num b1 = length (b_nodes base)"
    "b_conf b1 = b_conf base"
    using wf by (auto simp: b1_def wf_base_iff split: option.splits)
  let ?b4 = "b3\<lparr>b_conf := spare_upd ?t (spare_num ?t (b_conf b3) - length new) rest (b_conf b3),
      b_nodes := ins_at n new (b_nodes b3)\<rparr>"
  have res: "VSTR__ADD_MID_END base scan pos olen s = vstr__cache_add ?b4 pos olen"
    using loop front b1(4) by (auto simp: VSTR__ADD_MID_END_def b1_def n_def Let_def
        split: option.splits prod.splits)
  have bsz: "0 < buf_sz (b_conf ?b2)" using wf b1 by (simp add: wf_base_iff)
  note L = add_loop_spec [OF loop s bsz]
  have fr: "b_nodes b3 = b_nodes base" "b_used b3 = b_used base"
    using L(6) enough b1 by (simp_all add: loop_frame_def src_max_def)
  have hold: "vec_holds b1 (iov_entries base) (map node_type (b_nodes base))"
    using iov by (auto simp: b1_def iovec_ok_def vec_holds_def split: option.splits prod.splits)
  have h3: "vec_holds b3 (iov_entries base @ map node_entry new) (map node_type (b_nodes base) @ map node_type new)"
    using add_loop_holds [OF loop _ _ s bsz, of "iov_entries base"] hold b1 by simp
  show ?thesis
  proof (cases "iovec_upto_date b3")
    case True
    have "iovec_upto_date b1"
      using True loop_upto_date [OF loop] by simp
    then have n: "n = length (b_nodes base)"
      using at front wf_base_empty [OF wf]
      by (auto simp: b1_def n_def add_at_def split: option.splits if_splits)
    then have ns: "b_nodes ?b4 = b_nodes base @ new" using fr by simp
    have "iov_entries ?b4 = iov_entries base @ map node_entry new"
    proof (cases "b_nodes base = []")
      case True
      then have "b_used base = 0" using wf by (auto simp: wf_base_iff used_ok_def)
      then show ?thesis using True ns fr iov_entries_0 [of ?b4] iov_entries_0 [of base] by simp
    next
      case False
      then show ?thesis using iov_entries_append [OF False ns] fr by simp
    qed
    then have "iovec_ok ?b4" using h3 ns by (simp add: iovec_ok_def)
    then show ?thesis unfolding res iovec_ok_frame .
  qed (simp add: res)
qed

lemma add_iovec:
  assumes inv: "vstr_inv base" and pos: "pos \<le> b_len base" and ok: "src_ok base s" and iov: "iovec_ok base"
    and front: "pos = 0 \<longrightarrow> b_len base = 0" and res: "vstr__add base pos s = (r, base')"
  shows "iovec_ok base'"
proof -
  obtain r1 scan b1 where 1: "VSTR__ADD_BEG base pos s = (r1, scan, b1)" by (metis surj_pair)
  have B: "add_ready base pos s b1" "r1 \<Longrightarrow> add_at b1 pos scan \<and> reserved b1 scan s"
    using add_beg_spec [OF inv pos ok 1] by auto
  have b1: "wf_base b1" "src_ok b1 s" "pos_cache_upto b1 pos" "b_len b1 = b_len base"
    using B(1) by (simp_all add: add_ready_def)
  let ?S = "if pos \<noteq> 0 \<and> b_len base \<noteq> 0 then vstr__add_setup_pos base pos else (None, base)"
  obtain sc b0 where S: "?S = (sc, b0)" by (metis surj_pair)
  have "iovec_ok b0"
    using S iov add_setup_pos_iovec [OF inv iov _ pos] by (auto split: if_splits simp: Suc_le_eq)
  then have iov1: "iovec_ok b1"
    using 1 unfolding VSTR__ADD_BEG_def S by (auto split: if_splits prod.splits)
  show ?thesis
  proof (cases r1)
    case True
    obtain s' b2 where 2: "vstr__add_fill b1 scan s = (s', b2)" by (metis surj_pair)
    have at: "add_at b1 pos scan" and rv: "reserved b1 scan s" using B(2) True by simp_all
    have iov2: "iovec_ok b2" by (rule add_fill_iovec [OF b1(1) at b1(2) iov1 2])
    obtain k where k: "src_valid s'" "src_len s' = src_len s - k" "src_type s' = src_type s" "wf_base b2"
      "add_at b2 (pos + k) scan" "b_conf b2 = b_conf b1" "b_len b2 = b_len b1 + k"
      "\<forall>idx num. scan = Some (idx, num) \<longrightarrow> node_type (b_nodes b1 ! idx) = NODE_BUF \<longrightarrow>
         src_type s = NODE_BUF \<longrightarrow> k = min (buf_sz (b_conf b1) - node_len (b_nodes b1 ! idx)) (src_len s)"
      using add_fill_spec [OF b1(1) at b1(2,3) 2] by metis
    show ?thesis
    proof (cases "src_len s' = 0")
      case True
      then show ?thesis using res 1 2 \<open>r1\<close> iov2 by (auto simp: vstr__add_def)
    next
      case False
      have "src_len s' \<le> length (spare_beg (src_type s') (b_conf b2)) * src_max (b_conf b2) s'"
        using rv False k(2,3,6,8) unfolding reserved_def by (auto simp: src_max_def)
      moreover have "scan = None \<longrightarrow> b_len b2 = 0"
        using k(5,7) front b1(4) by (auto simp: add_at_def)
      ultimately have "iovec_ok (VSTR__ADD_MID_END b2 scan pos (src_len s) s')"
        using add_mid_end_iovec [OF k(4,5) iov2 k(1)] by blast
      then show ?thesis using res 1 2 \<open>r1\<close> False by (auto simp: vstr__add_def)
    qed
  qed (use res 1 iov1 in \<open>simp add: vstr__add_def\<close>)
qed

section \<open>Filling the array\<close>

text \<open>
  The array, when it exists, has its recorded size and room for the configured offset. (If the offset of the
  configuration is raised beyond the size of an existing array, \<^verbatim>\<open>vec->sz - vec->off\<close> wraps around and the
  array is not enlarged.)
\<close>

definition vec_sane :: "vstr_base \<Rightarrow> bool" where
  "vec_sane base \<longleftrightarrow>
     (case cache_vec (b_cache base) of None \<Rightarrow> True
      | Some d \<Rightarrow> length (iov_v d) = iov_sz d \<and> length (iov_t d) = iov_sz d \<and> iov_sz d < 2 ^ 32 \<and>
          iov_min_offset (b_conf base) \<le> iov_sz d)"

text \<open>What allocating the array does not touch.\<close>

definition alloc_frame :: "vstr_base \<Rightarrow> vstr_base \<Rightarrow> bool" where
  "alloc_frame b b' \<longleftrightarrow> b_nodes b' = b_nodes b \<and> b_used b' = b_used b \<and> b_len b' = b_len b \<and>
     b_num b' = b_num b \<and> conf_same (b_conf b) (b_conf b') \<and> iovec_upto_date b' = iovec_upto_date b"

lemma alloc_frame_trans: "alloc_frame a b \<Longrightarrow> alloc_frame b c \<Longrightarrow> alloc_frame a c"
  by (simp add: alloc_frame_def conf_same_def)

lemma alloc_frame_simps [simp]:
  "alloc_frame a a" "alloc_frame a (b\<lparr>b_cache := ch\<rparr>) = alloc_frame a b"
  "alloc_frame a (vec_map f b) = alloc_frame a b" "alloc_frame a (set_malloc_bad b) = alloc_frame a b"
  by (simp_all add: alloc_frame_def set_malloc_bad_def)

lemma base_mk_frame:
  "base_mk b = (r, b') \<Longrightarrow> alloc_frame b b' \<and> b_cache b' = b_cache b"
  by (auto simp: base_mk_def set_heap_def alloc_frame_def split: prod.splits)

lemma first_alloc_spec:
  assumes "cache_iovec_first_alloc base n = (True, b')"
  shows "alloc_frame base b' \<and> cache_vec (b_cache b') = Some \<lparr>iov_v = replicate n (NP_null, 0),
    iov_t = replicate n NODE_BUF, iov_off = 0, iov_sz = n\<rparr>"
proof -
  obtain r1 b1 where 1: "base_mk base = (r1, b1)" by fastforce
  obtain r2 b2 where 2: "(if cache_sz (b_cache b1) < 2 then base_mk b1 else (True, b1)) = (r2, b2)" by fastforce
  define b2' where "b2' = b2\<lparr>b_cache := (b_cache b2)\<lparr>cache_sz := max 2 (cache_sz (b_cache b2))\<rparr>\<rparr>"
  obtain r3 b3 where 3: "base_mk b2' = (r3, b3)" by fastforce
  obtain r4 b4 where 4: "base_mk b3 = (r4, b4)" by fastforce
  have "alloc_frame b1 b2" using 2 base_mk_frame by (auto split: if_splits)
  then have "alloc_frame base b2" using base_mk_frame [OF 1] alloc_frame_trans by blast
  then have "alloc_frame base b4"
    using base_mk_frame [OF 3] base_mk_frame [OF 4] alloc_frame_trans [of base b2' b3] alloc_frame_trans [of base b3 b4]
    by (simp add: b2'_def)
  moreover have "b' = b4\<lparr>b_cache := (b_cache b4)\<lparr>cache_vec := Some \<lparr>iov_v = replicate n (NP_null, 0),
      iov_t = replicate n NODE_BUF, iov_off = 0, iov_sz = n\<rparr>\<rparr>\<rparr>"
    using assms 1 2 3 4 unfolding cache_iovec_first_alloc_def
    by (simp add: b2'_def [symmetric] Let_def split: bool.splits)
  ultimately show ?thesis by simp
qed

lemma realloc_list_length [simp]: "length (realloc_list n x xs) = n"
  by (simp add: realloc_list_def)

lemma enlarge_spec:
  assumes res: "cache_iovec_enlarge b1 n = (True, b')" and up: "\<not> iovec_upto_date b1"
    and d: "cache_vec (b_cache b1) = Some d" "length (iov_v d) = iov_sz d" "length (iov_t d) = iov_sz d"
      "iov_sz d < 2 ^ 32" "iov_min_offset (b_conf b1) \<le> iov_sz d"
    and bnd: "n + iov_min_offset (b_conf b1) < 2 ^ 32"
  shows "alloc_frame b1 b' \<and> (\<exists>d. cache_vec (b_cache b') = Some d \<and>
    iov_off d = iov_min_offset (b_conf b1) \<and> iov_off d + n \<le> iov_sz d \<and>
    length (iov_v d) = iov_sz d \<and> length (iov_t d) = iov_sz d \<and> iov_sz d < 2 ^ 32)"
proof -
  let ?off = "iov_min_offset (b_conf b1)" and ?nsz = "n + iov_min_offset (b_conf b1)"
  define b2 where "b2 = vec_map (\<lambda>d. d\<lparr>iov_off := ?off\<rparr>) b1"
  have b2: "alloc_frame b1 b2" "cache_vec (b_cache b2) = Some (d\<lparr>iov_off := ?off\<rparr>)"
    using d by (simp_all add: b2_def)
  have sub: "uint_sub (iov_sz d) ?off = iov_sz d - ?off" using d by (intro uint_sub_le)
  obtain r3 b3 where 3: "base_mk b2 = (r3, b3)" by fastforce
  define b3' where "b3' = vec_map (\<lambda>d. d\<lparr>iov_v := realloc_list ?nsz (NP_null, 0) (iov_v d)\<rparr>) b3"
  obtain r4 b4 where 4: "base_mk b3' = (r4, b4)" by fastforce
  have res': "(if n > iov_sz d - ?off then
       (case (r3, b3) of (False, b3) \<Rightarrow> (False, set_malloc_bad b3)
        | (True, b3) \<Rightarrow> (case (r4, b4) of (False, b4) \<Rightarrow> (False, set_malloc_bad b4)
           | (True, b4) \<Rightarrow> (True, vec_map (\<lambda>d. d\<lparr>iov_t := realloc_list ?nsz NODE_BUF (iov_t d),
                                           iov_sz := ?nsz\<rparr>) b4)))
     else (True, b2)) = (True, b')"
    using res up d(1) 3 [unfolded b2_def] 4 [unfolded b3'_def] sub
    unfolding cache_iovec_enlarge_def b2_def
    by (cases r3; cases r4) (simp_all add: Let_def split: if_splits)
  show ?thesis
  proof (cases "n > iov_sz d - ?off")
    case False
    then show ?thesis using res' b2 d by auto
  next
    case True
    then have "b' = vec_map (\<lambda>d. d\<lparr>iov_t := realloc_list ?nsz NODE_BUF (iov_t d), iov_sz := ?nsz\<rparr>) b4"
      using res' by (auto split: bool.splits)
    moreover have "alloc_frame b1 b4"
      using base_mk_frame [OF 3] base_mk_frame [OF 4] b2(1) alloc_frame_trans [of b1 b2 b3]
        alloc_frame_trans [of b1 b3' b4] by (simp add: b3'_def)
    moreover have "cache_vec (b_cache b4) = Some (d\<lparr>iov_off := ?off,
        iov_v := realloc_list ?nsz (NP_null, 0) (iov_v d)\<rparr>)"
      using base_mk_frame [OF 3] base_mk_frame [OF 4] b2(2) by (simp add: b3'_def)
    ultimately show ?thesis using bnd by simp
  qed
qed

lemma iovec_alloc_spec:
  assumes res: "vstr__cache_iovec_alloc base n = (True, b')" and sane: "vec_sane base"
    and off: "\<not> iovec_upto_date base"
    and bnd: "n + iov_min_alloc (b_conf base) + iov_min_offset (b_conf base) < 2 ^ 32"
  shows "alloc_frame base b' \<and> (\<exists>d. cache_vec (b_cache b') = Some d \<and>
    iov_off d = iov_min_offset (b_conf base) \<and> iov_off d + n \<le> iov_sz d \<and>
    length (iov_v d) = iov_sz d \<and> length (iov_t d) = iov_sz d \<and> iov_sz d < 2 ^ 32)"
proof -
  let ?a = "n + iov_min_alloc (b_conf base) + iov_min_offset (b_conf base)"
  define F where "F = (if cache_vec (b_cache base) = None then cache_iovec_first_alloc base ?a else (True, base))"
  obtain b1 where F: "F = (True, b1)" and en: "cache_iovec_enlarge b1 n = (True, b')"
    using res unfolding vstr__cache_iovec_alloc_def F_def [symmetric]
    by (cases F) (auto split: if_splits bool.splits)
  then obtain d where b1: "alloc_frame base b1" "cache_vec (b_cache b1) = Some d"
    "length (iov_v d) = iov_sz d" "length (iov_t d) = iov_sz d" "iov_sz d < 2 ^ 32"
    "iov_min_offset (b_conf base) \<le> iov_sz d"
    using sane bnd first_alloc_spec [of base ?a b1]
    by (auto simp: F_def vec_sane_def split: if_splits option.splits)
  moreover have "iov_min_offset (b_conf b1) = iov_min_offset (b_conf base)" "\<not> iovec_upto_date b1"
    using b1(1) off by (simp_all add: alloc_frame_def conf_same_def)
  ultimately show ?thesis using enlarge_spec [OF en _ b1(2-5)] bnd alloc_frame_trans [of base b1 b'] by simp
qed

lemma vec_write_holds:
  assumes "off + length es \<le> length v"
  shows "take (length es) (drop off (vec_write off es v)) = es" "length (vec_write off es v) = length v"
  using assms by (simp_all add: vec_write_def)

text \<open>
  A successful \<^verbatim>\<open>vstr__cache_iovec_valid()\<close> leaves an array that lists the nodes of the string, and nothing
  else of the string changes.
\<close>

lemma iovec_valid_spec:
  assumes wf: "wf_base base" and sane: "vec_sane base" and ne: "b_nodes base \<noteq> []"
    and bnd: "b_num base + iov_min_alloc (b_conf base) + iov_min_offset (b_conf base) < 2 ^ 32"
    and iov: "iovec_ok base" and res: "vstr__cache_iovec_valid base = (True, b')"
  shows "iovec_upto_date b'" "iovec_ok b'" "b_nodes b' = b_nodes base" "vstr_data b' = vstr_data base"
proof -
  have num: "b_num base = length (b_nodes base)" using wf by (simp add: wf_base_iff)
  have "iovec_upto_date b' \<and> iovec_ok b' \<and> b_nodes b' = b_nodes base \<and> vstr_data b' = vstr_data base"
  proof (cases "iovec_upto_date base")
    case True
    then show ?thesis using res iov by (simp add: vstr__cache_iovec_valid_def)
  next
    case False
    obtain r b1 where 1: "vstr__cache_iovec_alloc base (b_num base) = (r, b1)" by fastforce
    then have r using res False ne by (cases r) (auto simp: vstr__cache_iovec_valid_def)
    let ?off = "iov_min_offset (b_conf b1)"
    have b': "b' = (vec_map (\<lambda>d. d\<lparr>iov_v := vec_write ?off (iov_entries b1) (iov_v d),
        iov_t := vec_write ?off (map node_type (b_nodes b1)) (iov_t d)\<rparr>) b1)\<lparr>iovec_upto_date := True\<rparr>"
      using res False ne 1 \<open>r\<close> by (simp add: vstr__cache_iovec_valid_def)
    obtain d where d: "alloc_frame base b1" "cache_vec (b_cache b1) = Some d" "iov_off d = iov_min_offset (b_conf base)"
      "iov_off d + b_num base \<le> iov_sz d" "length (iov_v d) = iov_sz d" "length (iov_t d) = iov_sz d" "iov_sz d < 2 ^ 32"
      using iovec_alloc_spec [OF _ sane False bnd, of b1] 1 \<open>r\<close> by auto
    have off: "?off = iov_off d" "b_nodes b1 = b_nodes base" "b_used b1 = b_used base"
      using d(1,3) by (simp_all add: alloc_frame_def conf_same_def)
    have e: "iov_entries b' = iov_entries b1" using b' by (intro iov_entries_cong) simp_all
    have "iovec_ok b'"
      using d off num vec_write_holds [of "iov_off d" "iov_entries b1" "iov_v d"]
        vec_write_holds [of "iov_off d" "map node_type (b_nodes b1)" "iov_t d"]
      unfolding iovec_ok_def vec_holds_def e by (simp add: b')
    then show ?thesis using b' off by (simp add: vstr_data_def)
  qed
  then show "iovec_upto_date b'" "iovec_ok b'" "b_nodes b' = b_nodes base" "vstr_data b' = vstr_data base"
    by simp_all
qed

section \<open>Properties\<close>


lemma ex_abc_iovec: "vstr__cache_iovec_valid ex_abc = (True, snd (vstr__cache_iovec_valid ex_abc))"
  by (simp add: vstr__cache_iovec_valid_def vstr__cache_iovec_alloc_def cache_iovec_first_alloc_def
      cache_iovec_enlarge_def base_mk_def set_heap_def VSTR_MK_def vec_map_def uint_sub_def Let_def
      ex_abc_def ex_base_def ex_conf_def ex_heap_def)



text \<open>The string \<open>abcdef\<close> with an array that has two free entries in front.\<close>

definition ex_vec :: vstr_base where
  "ex_vec = ex_abc\<lparr>iovec_upto_date := True,
     b_cache := (b_cache ex_abc)\<lparr>cache_vec := Some \<lparr>
       iov_v = [(NP_null, 0), (NP_null, 0), (NP_buf 1 0, 4), (NP_buf 2 0, 2)],
       iov_t = [NODE_BUF, NODE_BUF, NODE_BUF, NODE_BUF], iov_off = 2, iov_sz = 4\<rparr>\<rparr>\<rparr>"

lemma ex_vec_inv: "vstr_inv ex_vec"
proof -
  have "pos_cache_ok ex_vec" by (simp add: pos_cache_ok_def vstr_cache_get_pos_def ex_vec_def ex_abc_def ex_base_def)
  then show ?thesis using ex_abc_inv by (simp add: vstr_inv_def ex_vec_def wf_base_iff)
qed

lemma ex_vec_iovec: "iovec_ok ex_vec"
  by (simp add: iovec_ok_def vec_holds_def iov_entries_def ex_vec_def)


lemmas eval_add = vstr_add_buf_def add_fast_ok_def vstr_extern_inline_add_buf_def vstr__add_def VSTR__ADD_BEG_def
  alloc_num_def src_max_def cntl_set_num_range_spare_def cntl_set_num_spare_def vstr__make_spare_node_def
  VSTR_MK_def vstr__add_fill_def VSTR__ADD_MID_END_def vstr__base_zero_used_def set_flag_def
  vstr__cache_iovec_maybe_add_def vstr__cache_iovec_add_beg_def vstr__cache_iovec_add_end_def vec_map_def
  vec_set_def vstr__cache_add_def vstr__cache_cbs_def vstr__cache_pos_cb_def vstr__cache_iovec_cb_def Let_def
  uint_sub_def ins_at_def

lemmas eval_ex = ex_abc_def ex_base_def ex_conf_def ex_heap_def

text \<open>
  Prepending two nodes breaks the array. With free entries in front, \<^verbatim>\<open>vstr__cache_iovec_add_beg()\<close>
  puts each new node before the ones already entered, so that adding five bytes in front of the string
  enters the node with the fifth byte before the node with the first four, while \<^verbatim>\<open>iovec_upto_date\<close> stays set.
\<close>

lemma prepend_reverses_iovec:
  "iovec_ok ex_vec \<and> iovec_upto_date (snd (vstr_add_buf ex_vec 0 [1, 2, 3, 4, 5])) \<and>
   \<not> iovec_ok (snd (vstr_add_buf ex_vec 0 [1, 2, 3, 4, 5]))"
  by (simp add: ex_vec_iovec)
    (simp add: iovec_ok_def vec_holds_def iov_entries_def eval_add eval_ex ex_vec_def)

text \<open>The string \<open>cdef\<close> whose first two bytes were consumed, with a free entry in front of its array.\<close>

definition ex_used :: vstr_base where
  "ex_used = ex_vec\<lparr>b_used := 2, b_len := 4,
     b_cache := (b_cache ex_abc)\<lparr>cache_vec := Some \<lparr>
       iov_v = [(NP_null, 0), (NP_null, 0), (NP_buf 1 2, 2), (NP_buf 2 0, 2)],
       iov_t = [NODE_BUF, NODE_BUF, NODE_BUF, NODE_BUF], iov_off = 2, iov_sz = 4\<rparr>\<rparr>\<rparr>"

text \<open>
  Prepending to a string with consumed bytes breaks the array too. \<^verbatim>\<open>vstr__base_zero_used()\<close> moves
  the bytes of the first buffer to its start, and the entry of that node keeps pointing behind the consumed bytes.
\<close>

lemma prepend_leaves_stale_iovec:
  "vstr_inv ex_used \<and> iovec_ok ex_used \<and> iovec_upto_date (snd (vstr_add_buf ex_used 0 [1])) \<and>
   \<not> iovec_ok (snd (vstr_add_buf ex_used 0 [1]))"
proof -
  have "pos_cache_ok ex_used"
    by (simp add: pos_cache_ok_def vstr_cache_get_pos_def ex_used_def ex_vec_def ex_abc_def ex_base_def)
  then have "vstr_inv ex_used"
    using ex_abc_inv by (simp add: vstr_inv_def ex_used_def ex_vec_def wf_base_iff used_ok_def)
  moreover have "iovec_ok ex_used" by (simp add: iovec_ok_def vec_holds_def iov_entries_def ex_used_def ex_vec_def)
  ultimately show ?thesis
    by (simp add: iovec_ok_def vec_holds_def iov_entries_def eval_add eval_ex ex_used_def ex_vec_def)
qed

end
