(* ===== verification/Vstr_Del.thy ===== *)
theory Vstr_Del
  imports Vstr_Iovec
begin

text \<open>
  Deleting data from a string (src/vstr_del.c and the inline \<^verbatim>\<open>vstr_del()\<close> of
  include/vstr-inline.h): the whole string, a prefix, and the general case that removes bytes
  from the node that holds the position, whole nodes behind it and bytes from the node that
  follows. Runs of nodes of one type go back to their pool together. The main result is that
  exactly the given range disappears and the invariant is kept.
\<close>

section \<open>Releasing nodes\<close>

definition vstr__del_node :: "vstr_node \<Rightarrow> vstr_conf \<Rightarrow> vstr_conf" where
  "vstr__del_node node c =
     (case node of Node_ref i r off n \<Rightarrow> c\<lparr>heap := vstr_ref_del (Some r) (heap c)\<rparr> | _ \<Rightarrow> c)"

text \<open>
  \<^verbatim>\<open>vstr__del_beg_cleanup()\<close>: the nodes of \<open>run\<close>, which are at the front of the string, go to
  their pool and the string starts at \<open>scan\<close>.
\<close>

definition vstr__del_beg_cleanup ::
    "vstr_base \<Rightarrow> vstr_node list \<Rightarrow> vstr_node list \<Rightarrow> bool \<Rightarrow> vstr_base" where
  "vstr__del_beg_cleanup base run scan base_update =
     (if run = [] then base
      else let b1 = base\<lparr>b_conf := vstr__relink_nodes (b_conf base) run (length run), b_nodes := scan\<rparr>
           in if base_update
              then vstr__cache_iovec_del_beg (b1\<lparr>b_num := b_num b1 - length run\<rparr>) (length run)
              else b1)"

section \<open>Deleting everything\<close>

text \<open>The loop of \<^verbatim>\<open>vstr__del_all()\<close>; \<open>run\<close> holds the nodes of the current type seen so far.\<close>

fun del_all_loop :: "vstr_base \<Rightarrow> ntype \<Rightarrow> vstr_node list \<Rightarrow> vstr_node list \<Rightarrow> vstr_base" where
  "del_all_loop base t run [] = vstr__del_beg_cleanup base run [] False"
| "del_all_loop base t run (n # ns) =
     (let (b1, run1) = (if node_type n \<noteq> t then (vstr__del_beg_cleanup base run (n # ns) False, [])
                        else (base, run))
      in del_all_loop (b1\<lparr>b_conf := vstr__del_node n (b_conf b1)\<rparr>) (node_type n) (run1 @ [n]) ns)"

definition vstr__del_all :: "vstr_base \<Rightarrow> vstr_base" where
  "vstr__del_all base =
     (let orig_len = b_len base;
          b1 = del_all_loop (base\<lparr>b_len := 0\<rparr>) (node_type (hd (b_nodes base))) [] (b_nodes base);
          b2 = b1\<lparr>b_used := 0, b_num := 0, node_buf_used := False, node_non_used := False,
                  node_ptr_used := False, node_ref_used := False\<rparr>;
          b3 = vstr__cache_iovec_reset b2
      in vstr__cache_del b3 1 orig_len)"

section \<open>Deleting from the beginning\<close>

text \<open>The node without its first \<open>len\<close> bytes.\<close>

definition node_cut_beg :: "nat \<Rightarrow> vstr_node \<Rightarrow> vstr_node" where
  "node_cut_beg len n = node_tail (node_id n) len n"

text \<open>
  The loop of \<^verbatim>\<open>vstr__del_beg()\<close>. It returns the string, the run not yet given back, the nodes
  from \<^verbatim>\<open>*scan\<close> on (with the last one cut) and the bytes cut from that one.
\<close>

fun del_beg_loop ::
    "vstr_base \<Rightarrow> ntype \<Rightarrow> vstr_node list \<Rightarrow> vstr_node list \<Rightarrow> nat \<Rightarrow>
     vstr_base \<times> vstr_node list \<times> vstr_node list \<times> nat" where
  "del_beg_loop base t run [] len = (base, run, [], len)"
| "del_beg_loop base t run (n # ns) len =
     (if len = 0 then (base, run, n # ns, len)
      else let (b1, run1) = (if node_type n \<noteq> t then (vstr__del_beg_cleanup base run (n # ns) True, [])
                             else (base, run))
           in if len < node_len n then
                (if node_type n = NODE_BUF then (b1\<lparr>b_used := len\<rparr>, run1, n # ns, len)
                 else (b1, run1, node_cut_beg len n # ns, len))
              else del_beg_loop (b1\<lparr>b_conf := vstr__del_node n (b_conf b1)\<rparr>) (node_type n)
                     (run1 @ [n]) ns (len - node_len n))"

definition vstr__del_beg :: "vstr_base \<Rightarrow> nat \<Rightarrow> vstr_base" where
  "vstr__del_beg base len =
     (let orig_len = len; scan = b_nodes base; b0 = base\<lparr>b_len := b_len base - len\<rparr> in
      if b_used base \<noteq> 0 \<and> len < node_len (hd scan) - b_used base then
        vstr__cache_del (vstr__cache_iovec_del_node_beg (b0\<lparr>b_used := b_used base + len\<rparr>) (hd scan) 1 len)
          1 orig_len
      else
        let (b1, run, scan1, len1) =
              (if b_used base \<noteq> 0
               then (b0\<lparr>b_used := 0\<rparr>, [hd scan], tl scan, len - (node_len (hd scan) - b_used base))
               else (b0, [], scan, len));
            (b2, run2, scan2, len2) = del_beg_loop b1 (node_type (hd scan)) run scan1 len1;
            b3 = (vstr__del_beg_cleanup b2 run2 scan2 True)\<lparr>b_nodes := scan2\<rparr>;
            b4 = (if len2 \<noteq> 0 then vstr__cache_iovec_del_node_beg b3 (hd scan2) 1 len2 else b3)
        in vstr__cache_del b4 1 orig_len)"

section \<open>Deleting from the middle\<close>

text \<open>
  The loop over the nodes that are deleted whole: \<open>run\<close> are the nodes of the current type, from
  \<^verbatim>\<open>beg\<close> on; the result is the configuration, the nodes that stay, the bytes left to delete and the
  number of nodes deleted.
\<close>

fun del_mid_loop ::
    "vstr_conf \<Rightarrow> vstr_node list \<Rightarrow> vstr_node list \<Rightarrow> nat \<Rightarrow> nat \<Rightarrow>
     vstr_conf \<times> vstr_node list \<times> nat \<times> nat" where
  "del_mid_loop c run [] len del_nodes =
     (vstr__relink_nodes c run (length run), [], len, del_nodes + length run)"
| "del_mid_loop c run (n # ns) len del_nodes =
     (if len \<ge> node_len n then
        let c1 = vstr__del_node n c in
        if node_type n \<noteq> node_type (hd run)
        then del_mid_loop (vstr__relink_nodes c1 run (length run)) [n] ns (len - node_len n)
               (del_nodes + length run)
        else del_mid_loop c1 (run @ [n]) ns (len - node_len n) del_nodes
      else (vstr__relink_nodes c run (length run), n # ns, len, del_nodes + length run))"

text \<open>The two \<^verbatim>\<open>memmove()\<close>s that close the gap in the iovec array.\<close>

definition vec_close_gap :: "nat \<Rightarrow> nat \<Rightarrow> vstr_base \<Rightarrow> vstr_base" where
  "vec_close_gap saved_num del_nodes base =
     (if \<not> iovec_upto_date base then base
      else vec_map (\<lambda>d. let rebeg = saved_num + del_nodes; k = b_num base - rebeg;
              mv = (\<lambda>off. iov_off d + off)
         in d\<lparr>iov_v := vec_write (mv saved_num) (take k (drop (mv rebeg) (iov_v d))) (iov_v d),
              iov_t := vec_write (mv saved_num) (take k (drop (mv rebeg) (iov_t d))) (iov_t d)\<rparr>) base)"

text \<open>The label \<^verbatim>\<open>fix_last_node\<close>: cut \<open>len\<close> bytes from the node behind the gap.\<close>

definition del_fix_last :: "vstr_base \<Rightarrow> nat \<Rightarrow> nat \<Rightarrow> nat \<Rightarrow> vstr_base" where
  "del_fix_last base idx saved_num len =
     (let node = node_cut_beg len (b_nodes base ! Suc idx);
          b1 = base\<lparr>b_nodes := (b_nodes base)[Suc idx := node]\<rparr>
      in vstr__cache_iovec_reset_node b1 node (saved_num + 1))"

text \<open>Everything behind the node that holds the last byte that stays.\<close>

definition del_behind :: "vstr_base \<Rightarrow> nat \<Rightarrow> nat \<Rightarrow> nat \<Rightarrow> vstr_base" where
  "del_behind base idx saved_num len =
     (let rest = drop (Suc idx) (b_nodes base) in
      if len = 0 then base
      else if len < node_len (hd rest) then del_fix_last base idx saved_num len
      else
        let n = hd rest;
            (c, rest', len', del_nodes) =
              del_mid_loop (vstr__del_node n (b_conf base)) [n] (tl rest) (len - node_len n) 0;
            b1 = vec_close_gap saved_num del_nodes (base\<lparr>b_conf := c\<rparr>);
            b2 = b1\<lparr>b_num := b_num b1 - del_nodes, b_nodes := take (Suc idx) (b_nodes b1) @ rest'\<rparr>
        in if rest' \<noteq> [] \<and> len' \<noteq> 0 then del_fix_last b2 idx saved_num len' else b2)"

text \<open>
  Bytes from the middle of one node: a \<^verbatim>\<open>BUF\<close> node is closed up in place unless the configuration
  asks for a split, pointers and references are always split.
\<close>

definition del_in_node :: "vstr_base \<Rightarrow> nat \<Rightarrow> nat \<Rightarrow> nat \<Rightarrow> nat \<Rightarrow> bool \<times> vstr_base" where
  "del_in_node base idx num pos len =
     (let node = b_nodes base ! idx;
          finish = (\<lambda>b nd. vstr__cache_iovec_del_node_end (b\<lparr>b_nodes := (b_nodes b)[idx := nd]\<rparr>) num len) in
      case node of
        Node_non i k \<Rightarrow> (True, finish base (Node_non i (k - len)))
      | _ \<Rightarrow>
        (case node of
           Node_buf i b \<Rightarrow>
             if \<not> split_buf_del (b_conf base)
             then (True, finish base (Node_buf i (take pos b @ drop (pos + len) b)))
             else (case vstr__base_split_node base idx (pos + len) of
                     (False, b1) \<Rightarrow> (False, b1\<lparr>b_len := b_len b1 + len\<rparr>)
                   | (True, b1) \<Rightarrow> (True, finish b1 (node_set_len pos (b_nodes b1 ! idx))))
         | _ \<Rightarrow> (case vstr__base_split_node base idx (pos + len) of
                     (False, b1) \<Rightarrow> (False, b1\<lparr>b_len := b_len b1 + len\<rparr>)
                   | (True, b1) \<Rightarrow> (True, finish b1 (node_set_len pos (b_nodes b1 ! idx))))))"

definition vstr_extern_inline_del :: "vstr_base \<Rightarrow> nat \<Rightarrow> nat \<Rightarrow> bool \<times> vstr_base" where
  "vstr_extern_inline_del base orig_pos orig_len =
     (if \<not> (orig_pos \<noteq> 0 \<and> orig_pos \<le> b_len base \<and> vstr_sc_poslast orig_pos orig_len \<le> b_len base)
      then (False, base)
      else if orig_pos \<le> 1 then
        (True, if orig_len \<ge> b_len base then vstr__del_all base else vstr__del_beg base orig_len)
      else
        let pos = orig_pos - 1;
            len = (if pos + orig_len \<ge> b_len base then b_len base - pos else orig_len)
        in (case vstr_base__pos base pos False of ((idx, p, num), b0) \<Rightarrow>
          let b1 = b0\<lparr>b_len := b_len b0 - len\<rparr>;
              node = b_nodes b1 ! idx;
              tmp = node_len node - p
          in if p \<noteq> node_len node \<and> len < tmp then
               (case del_in_node b1 idx num p len of
                  (False, b2) \<Rightarrow> (False, b2)
                | (True, b2) \<Rightarrow> (True, vstr__cache_del b2 orig_pos orig_len))
             else
               let (b2, len2) =
                     (if p \<noteq> node_len node
                      then ((vstr__cache_iovec_del_node_end b1 num tmp)
                              \<lparr>b_nodes := (b_nodes b1)[idx := node_set_len p node]\<rparr>, len - tmp)
                      else (b1, len))
               in (True, vstr__cache_del (del_behind b2 idx num len2) orig_pos orig_len)))"

section \<open>The inline function\<close>

text \<open>The fast paths update the cached C string and forget the cached position by hand.\<close>

definition cstr_map :: "(cache_data_cstr \<Rightarrow> cache_data_cstr) \<Rightarrow> vstr_base \<Rightarrow> vstr_base" where
  "cstr_map f base =
     (if \<not> cache_available base then base
      else base\<lparr>b_cache := (b_cache base)\<lparr>cache_cstr := map_option
             (\<lambda>d. if cd_ref d \<noteq> None \<and> cd_len d \<noteq> 0 then f d else d) (cache_cstr (b_cache base))\<rparr>\<rparr>)"

definition pos_forget :: "vstr_base \<Rightarrow> vstr_base" where
  "pos_forget base =
     (if \<not> cache_available base then base
      else base\<lparr>b_cache := (b_cache base)\<lparr>cache_pos := map_option (\<lambda>d. d\<lparr>pd_node := None\<rparr>)
             (cache_pos (b_cache base))\<rparr>\<rparr>)"

definition del_fast_beg :: "vstr_base \<Rightarrow> nat \<Rightarrow> vstr_base" where
  "del_fast_beg base len =
     (let node = hd (b_nodes base);
          b1 = base\<lparr>b_len := b_len base - len\<rparr>;
          b2 = (if node_type node = NODE_BUF then b1\<lparr>b_used := b_used b1 + len\<rparr>
                else b1\<lparr>b_nodes := node_cut_beg len node # tl (b_nodes b1)\<rparr>);
          b3 = cstr_map (\<lambda>d.
            let data_end_pos = vstr_sc_poslast (cd_pos d) (cd_len d); end_pos = vstr_sc_poslast 1 len in
            if cd_pos d > end_pos then d\<lparr>cd_pos := cd_pos d - len\<rparr>
            else if data_end_pos \<le> end_pos then d\<lparr>cd_len := 0\<rparr>
            else d\<lparr>cd_len := cd_len d - vstr_sc_posdiff (cd_pos d) end_pos,
                   cd_off := cd_off d + vstr_sc_posdiff (cd_pos d) end_pos, cd_pos := 1\<rparr>) b2;
          b4 = vstr__cache_iovec_del_node_beg b3 node 1 len
      in pos_forget b4)"

definition del_fast_end :: "vstr_base \<Rightarrow> nat \<Rightarrow> nat \<Rightarrow> vstr_base" where
  "del_fast_end base pos len =
     (let node = last (b_nodes base);
          b1 = base\<lparr>b_len := b_len base - len,
                    b_nodes := butlast (b_nodes base) @ [node_set_len (node_len node - len) node]\<rparr>;
          b2 = cstr_map (\<lambda>d. if vstr_sc_poslast (cd_pos d) (cd_len d) \<ge> pos then d\<lparr>cd_len := 0\<rparr> else d) b1;
          b3 = vstr__cache_iovec_del_node_end b2 (b_num base) len
      in pos_forget b3)"

text \<open>
  The length of the last node: with a single node the code adds \<^verbatim>\<open>base->used\<close> to it, so that the
  subtractions below wrap around when bytes of that node are consumed.
\<close>

definition del_end_len :: "vstr_base \<Rightarrow> nat" where
  "del_end_len base = node_len (last (b_nodes base)) +
     (if length (b_nodes base) = 1 then b_used base else 0)"

definition vstr_del :: "vstr_base \<Rightarrow> nat \<Rightarrow> nat \<Rightarrow> bool \<times> vstr_base" where
  "vstr_del base pos len =
     (if pos > b_len base \<and> len \<noteq> 0 then (False, base)
      else if len = 0 then (True, base)
      else if (\<not> cache_available base \<or> cache_internal base) \<and> b_nodes base \<noteq> [] \<and>
              pos = 1 \<and> len + b_used base < node_len (hd (b_nodes base))
      then (True, del_fast_beg base len)
      else if (\<not> cache_available base \<or> cache_internal base) \<and> b_nodes base \<noteq> [] \<and>
              pos > size_sub (b_len base) (del_end_len base - 1) \<and>
              len = vstr_sc_posdiff pos (b_len base)
      then (True, del_fast_end base pos len)
      else vstr_extern_inline_del base pos len)"

definition vstr_sc_reduce :: "vstr_base \<Rightarrow> nat \<Rightarrow> nat \<Rightarrow> nat \<Rightarrow> bool \<times> vstr_base" where
  "vstr_sc_reduce base pos len reduce =
     (if \<not> (len \<ge> reduce) then (False, base) else if len = 0 then (True, base)
      else vstr_del base (pos + (len - reduce)) reduce)"

section \<open>Releasing nodes keeps the pools\<close>

lemma vstr_ref_del_frame [simp]: "mk_fail (vstr_ref_del r h) = mk_fail h"
  by (simp add: vstr_ref_del_def Let_def split: option.split)

lemma del_node_frame [simp]:
  "conf_same c (vstr__del_node n c') \<longleftrightarrow> conf_same c c'"
  "vstr__check_spare_nodes (vstr__del_node n c) \<longleftrightarrow> vstr__check_spare_nodes c"
  "pool_ids (vstr__del_node n c) = pool_ids c" "mk_cnt (heap (vstr__del_node n c)) = mk_cnt (heap c)"
  by (cases n; simp add: vstr__del_node_def check_spare_iff)+

lemma del_node_ids [simp]: "ids_step c ns (vstr__del_node n c') ns' \<longleftrightarrow> ids_step c ns c' ns'"
  by (simp add: ids_step_def ids_of_def)

lemma relink_ids_front:
  assumes "\<forall>n \<in> set run. node_type n = t" "ids_step c0 ns0 c (as @ run @ ns)"
  shows "ids_step c0 ns0 (vstr__relink_nodes c run (length run)) (as @ ns)"
  using ids_step_trans [OF assms(2) ids_step_relink] assms(1) by (cases run) auto

lemma cleanup_frame [simp]:
  "b_len (vstr__del_beg_cleanup b run sc u) = b_len b" "b_used (vstr__del_beg_cleanup b run sc u) = b_used b"
  "flag_of (vstr__del_beg_cleanup b run sc u) t = flag_of b t"
  "vstr_cache_get_pos (vstr__del_beg_cleanup b run sc u) = vstr_cache_get_pos b"
  "b_conf (vstr__del_beg_cleanup b run sc u) = vstr__relink_nodes (b_conf b) run (length run)"
  "b_num (vstr__del_beg_cleanup b run sc True) = b_num b - length run"
  by (simp_all add: vstr__del_beg_cleanup_def vstr__cache_iovec_del_beg_def Let_def vstr__relink_nodes_def)

section \<open>The whole string\<close>

lemma del_all_loop_spec:
  assumes "\<forall>n \<in> set run. node_type n = t" "vstr__check_spare_nodes (b_conf base)"
    and "ids_step c0 ns0 (b_conf base) (run @ ns)" "conf_same c0 (b_conf base)"
    and "ns = [] \<longrightarrow> run = [] \<longrightarrow> b_nodes base = []"
  defines "b' \<equiv> del_all_loop base t run ns"
  shows "b_nodes b' = [] \<and> vstr__check_spare_nodes (b_conf b') \<and> conf_same c0 (b_conf b') \<and>
    ids_step c0 ns0 (b_conf b') [] \<and> b_len b' = b_len base \<and> vstr_cache_get_pos b' = vstr_cache_get_pos base"
  using assms(1-5) unfolding b'_def
proof (induction base t run ns rule: del_all_loop.induct)
  case (1 base t run)
  then show ?case
    using relink_nodes_check [of "b_conf base" "length run" run] relink_ids_front [of run t c0 ns0 "b_conf base" "[]" "[]"]
      conf_same_trans [of c0 "b_conf base"]
    by (auto simp: vstr__del_beg_cleanup_def Let_def)
next
  case (2 base t run n ns)
  define X where "X = (if node_type n \<noteq> t then (vstr__del_beg_cleanup base run (n # ns) False, []) else (base, run))"
  obtain b1 run1 where X: "X = (b1, run1)" by fastforce
  have b1: "\<forall>m \<in> set (run1 @ [n]). node_type m = node_type n" "vstr__check_spare_nodes (b_conf b1)"
    "ids_step c0 ns0 (b_conf b1) ((run1 @ [n]) @ ns)" "conf_same c0 (b_conf b1)" "b_len b1 = b_len base"
    "vstr_cache_get_pos b1 = vstr_cache_get_pos base"
    using X 2(2-5) relink_nodes_check [of "b_conf base" "length run" run]
      relink_ids_front [of run t c0 ns0 "b_conf base" "[]" "n # ns"] conf_same_trans [of c0 "b_conf base"]
    by (auto simp: X_def split: if_splits)
  then show ?case using 2(1) [OF X [unfolded X_def, symmetric] refl] X by (simp add: X_def)
qed

lemma iovec_reset_frame [simp]:
  "b_nodes (vstr__cache_iovec_reset b) = b_nodes b" "b_len (vstr__cache_iovec_reset b) = b_len b"
  "b_num (vstr__cache_iovec_reset b) = b_num b" "b_used (vstr__cache_iovec_reset b) = b_used b"
  "b_conf (vstr__cache_iovec_reset b) = b_conf b"
  "vstr_cache_get_pos (vstr__cache_iovec_reset b) = vstr_cache_get_pos b"
  by (simp_all add: vstr__cache_iovec_reset_def split: option.split)

lemma cache_del_frame [simp]:
  "b_nodes (vstr__cache_del base pos len) = b_nodes base"
  "b_len (vstr__cache_del base pos len) = b_len base"
  "b_num (vstr__cache_del base pos len) = b_num base"
  "b_used (vstr__cache_del base pos len) = b_used base"
  "iovec_upto_date (vstr__cache_del base pos len) = iovec_upto_date base"
  "cache_vec (b_cache (vstr__cache_del base pos len)) = cache_vec (b_cache base)"
  "vstr_data (vstr__cache_del base pos len) = vstr_data base"
  "wf_base (vstr__cache_del base pos len) = wf_base base"
  "conf_same c (b_conf (vstr__cache_del base pos len)) = conf_same c (b_conf base)"
  "ids_step c ns (b_conf (vstr__cache_del base pos len)) ns' = ids_step c ns (b_conf base) ns'"
  by (simp_all add: vstr__cache_del_def)

lemma cache_del_pos_ok:
  assumes "pos_cache_upto base pos"
  shows "pos_cache_ok (vstr__cache_del base (Suc pos) len)"
proof (cases "cache_available base")
  case True
  then show ?thesis
    using assms by (auto simp: vstr__cache_del_def pos_cache_ok_def pos_cache_upto_def cache_cbs_pos
        vstr__cache_pos_cb_def split: option.splits if_splits)
qed (simp add: vstr__cache_del_def pos_cache_ok_def vstr_cache_get_pos_def)

lemma del_all_spec:
  assumes inv: "vstr_inv base" and ne: "b_len base \<noteq> 0"
  shows "vstr_inv (vstr__del_all base) \<and> vstr_data (vstr__del_all base) = [] \<and>
    conf_same (b_conf base) (b_conf (vstr__del_all base))"
proof -
  have wf: "wf_base base" and ids: "ids_ok (b_conf base) (b_nodes base)" and pc: "pos_cache_ok base"
    using inv by (simp_all add: vstr_inv_def)
  have ns: "b_nodes base \<noteq> []" using wf ne by (auto simp: wf_base_iff used_ok_def)
  define b1 where "b1 = del_all_loop (base\<lparr>b_len := 0\<rparr>) (node_type (hd (b_nodes base))) [] (b_nodes base)"
  define b3 where "b3 = vstr__cache_iovec_reset (b1\<lparr>b_used := 0, b_num := 0, node_buf_used := False,
      node_non_used := False, node_ptr_used := False, node_ref_used := False\<rparr>)"
  have b1: "b_nodes b1 = []" "vstr__check_spare_nodes (b_conf b1)" "conf_same (b_conf base) (b_conf b1)"
    "ids_step (b_conf base) (b_nodes base) (b_conf b1) []" "b_len b1 = 0" "vstr_cache_get_pos b1 = vstr_cache_get_pos base"
    using del_all_loop_spec [of "[]" _ "base\<lparr>b_len := 0\<rparr>" "b_conf base" "b_nodes base" "b_nodes base"] wf ns
    by (auto simp: b1_def wf_base_iff)
  have "wf_base b3" using b1 wf by (simp add: b3_def wf_base_iff conf_same_def)
  moreover have "vstr_cache_get_pos b3 = vstr_cache_get_pos base"
    unfolding b1(6) [symmetric] by (simp add: b3_def) (simp add: vstr_cache_get_pos_def)
  then have "pos_cache_upto b3 0" using pos_cache_upto_0 [OF wf pos_cache_upto_ok [OF pc]] by blast
  moreover have "ids_step (b_conf base) (b_nodes base) (b_conf b3) []" using b1(4) by (simp add: b3_def)
  moreover have "vstr__del_all base = vstr__cache_del b3 1 (b_len base)"
    by (simp add: vstr__del_all_def b1_def b3_def Let_def)
  moreover have "vstr_data b3 = []" "b_nodes b3 = []" "conf_same (b_conf base) (b_conf b3)"
    using b1 by (simp_all add: b3_def vstr_data_def)
  ultimately show ?thesis
    using cache_del_pos_ok [of b3 0] ids_ok_step [OF ids, of "b_conf (vstr__del_all base)" "[]"]
    by (simp add: vstr_inv_def)
qed

section \<open>A prefix\<close>

lemma node_cut_beg_facts:
  assumes "node_ok z n" "0 < k" "k < node_len n"
  shows "node_ok z (node_cut_beg k n)" "node_type (node_cut_beg k n) = node_type n"
    "node_id (node_cut_beg k n) = node_id n" "node_len (node_cut_beg k n) = node_len n - k"
    "node_data (node_cut_beg k n) = drop k (node_data n)"
  using node_tail_facts [OF assms] by (simp_all add: node_cut_beg_def)

lemma drop_nodes_data:
  "node_ok z n \<Longrightarrow> node_len n \<le> k \<Longrightarrow> drop k (nodes_data (n # ns)) = drop (k - node_len n) (nodes_data ns)"
  using node_data_length [of z n] by simp

text \<open>
  The state of the loop: the nodes of the string are \<open>run @ ns\<close>; \<open>run\<close> is deleted but not yet given
  back, and \<open>len\<close> bytes of \<open>ns\<close> are still to be deleted. The result describes the nodes that stay.
\<close>

definition cut_state :: "vstr_base \<Rightarrow> vstr_conf \<Rightarrow> vstr_node list \<Rightarrow> ntype \<Rightarrow> vstr_node list \<Rightarrow> vstr_node list \<Rightarrow> bool" where
  "cut_state b c0 ns0 t run ns \<longleftrightarrow> (\<forall>n \<in> set run. node_type n = t) \<and> b_num b = length (run @ ns) \<and>
     vstr__check_spare_nodes (b_conf b) \<and> conf_same c0 (b_conf b) \<and>
     ids_step c0 ns0 (b_conf b) (run @ ns) \<and>
     (\<forall>n \<in> set ns. node_ok (buf_sz c0) n \<and> flag_of b (node_type n))"

lemma cut_state_cleanup:
  assumes "cut_state b c0 ns0 t run ns"
  shows "cut_state (vstr__del_beg_cleanup b run sc True) c0 ns0 u [] ns"
  using assms relink_nodes_check [of "b_conf b" "length run" run] conf_same_trans [of c0 "b_conf b"]
    relink_ids_front [of run t c0 ns0 "b_conf b" "[]" ns]
  by (auto simp: cut_state_def)

lemma del_beg_loop_spec:
  assumes "del_beg_loop base t run ns len = (b', run', ns', len')"
    and "cut_state base c0 ns0 t run ns" "b_used base = 0" "len < nodes_len ns"
  shows "\<exists>t'. cut_state b' c0 ns0 t' run' ns'" "used_ok (b_used b') ns'" "ns' \<noteq> []"
    "drop (b_used b') (nodes_data ns') = drop len (nodes_data ns)"
    "nodes_len ns' + len = nodes_len ns + b_used b'"
    "b_len b' = b_len base" "vstr_cache_get_pos b' = vstr_cache_get_pos base"
proof -
  have "(\<exists>t'. cut_state b' c0 ns0 t' run' ns') \<and> used_ok (b_used b') ns' \<and> ns' \<noteq> [] \<and>
    drop (b_used b') (nodes_data ns') = drop len (nodes_data ns) \<and>
    nodes_len ns' + len = nodes_len ns + b_used b' \<and> b_len b' = b_len base \<and>
    vstr_cache_get_pos b' = vstr_cache_get_pos base"
    using assms
  proof (induction base t run ns len rule: del_beg_loop.induct)
    case (2 base t run n ns len)
    show ?case
    proof (cases "len = 0")
      case True
      then show ?thesis using 2 by auto
    next
      case False
      define X where "X = (if node_type n \<noteq> t then (vstr__del_beg_cleanup base run (n # ns) True, []) else (base, run))"
      obtain b1 run1 where X: "X = (b1, run1)" by fastforce
      have b1: "cut_state b1 c0 ns0 (node_type n) run1 (n # ns)" "b_used b1 = 0" "b_len b1 = b_len base"
        "vstr_cache_get_pos b1 = vstr_cache_get_pos base"
        using X 2(3,4) cut_state_cleanup [OF 2(3), of "n # ns"] by (auto simp: X_def split: if_splits)
      have nok: "node_ok (buf_sz c0) n" using 2(3) by (simp add: cut_state_def)
      have res: "(if len < node_len n then
            (if node_type n = NODE_BUF then (b1\<lparr>b_used := len\<rparr>, run1, n # ns, len)
             else (b1, run1, node_cut_beg len n # ns, len))
          else del_beg_loop (b1\<lparr>b_conf := vstr__del_node n (b_conf b1)\<rparr>) (node_type n)
                 (run1 @ [n]) ns (len - node_len n)) = (b', run', ns', len')"
        using 2(2) False X by (simp add: X_def split: prod.splits if_splits)
      consider (buf) "len < node_len n" "node_type n = NODE_BUF" | (cut) "len < node_len n" "node_type n \<noteq> NODE_BUF"
        | (whole) "\<not> len < node_len n" by blast
      then show ?thesis
      proof cases
        case buf
        then obtain i bs where "n = Node_buf i bs" by (cases n) auto
        then show ?thesis using buf res b1 by (auto simp: used_ok_def cut_state_def)
      next
        case cut
        note f = node_cut_beg_facts [OF nok _ cut(1)]
        have "cut_state b1 c0 ns0 (node_type n) run1 (node_cut_beg len n # ns)"
          using b1(1) f False by (auto simp: cut_state_def ids_step_def ids_of_def)
        moreover have "len \<le> length (node_data n)" using cut(1) node_data_length [OF nok] by simp
        ultimately show ?thesis using cut res b1 f False by auto
      next
        case whole
        have IHres: "del_beg_loop (b1\<lparr>b_conf := vstr__del_node n (b_conf b1)\<rparr>) (node_type n) (run1 @ [n]) ns
            (len - node_len n) = (b', run', ns', len')"
          using res whole by simp
        have st: "cut_state (b1\<lparr>b_conf := vstr__del_node n (b_conf b1)\<rparr>) c0 ns0 (node_type n) (run1 @ [n]) ns"
          using b1(1) by (auto simp: cut_state_def)
        have "len - node_len n < nodes_len ns" using 2(5) whole by simp
        note IH = 2(1) [OF False X [unfolded X_def, symmetric] refl whole IHres st _ this]
        show ?thesis using IH b1 whole drop_nodes_data [OF nok, of len ns] by auto
      qed
    qed
  qed simp
  then show "\<exists>t'. cut_state b' c0 ns0 t' run' ns'" "used_ok (b_used b') ns'" "ns' \<noteq> []"
    "drop (b_used b') (nodes_data ns') = drop len (nodes_data ns)"
    "nodes_len ns' + len = nodes_len ns + b_used b'"
    "b_len b' = b_len base" "vstr_cache_get_pos b' = vstr_cache_get_pos base"
    by simp_all
qed

lemma del_node_beg_frame [simp]:
  "b_nodes (vstr__cache_iovec_del_node_beg b n k l) = b_nodes b"
  "b_len (vstr__cache_iovec_del_node_beg b n k l) = b_len b"
  "b_num (vstr__cache_iovec_del_node_beg b n k l) = b_num b"
  "b_used (vstr__cache_iovec_del_node_beg b n k l) = b_used b"
  "b_conf (vstr__cache_iovec_del_node_beg b n k l) = b_conf b"
  "flag_of (vstr__cache_iovec_del_node_beg b n k l) t = flag_of b t"
  "vstr_cache_get_pos (vstr__cache_iovec_del_node_beg b n k l) = vstr_cache_get_pos b"
  by (simp_all add: vstr__cache_iovec_del_node_beg_def)

text \<open>What a deletion leaves: a well-formed string with the given content, on the way to its callbacks.\<close>

definition del_done :: "vstr_base \<Rightarrow> content \<Rightarrow> nat \<Rightarrow> vstr_base \<Rightarrow> bool" where
  "del_done base dat pos b \<longleftrightarrow> wf_base b \<and> vstr_data b = dat \<and> pos_cache_upto b pos \<and>
     conf_same (b_conf base) (b_conf b) \<and> ids_step (b_conf base) (b_nodes base) (b_conf b) (b_nodes b)"

definition del_post :: "vstr_base \<Rightarrow> content \<Rightarrow> vstr_base \<Rightarrow> bool" where
  "del_post base dat b \<longleftrightarrow> vstr_inv b \<and> vstr_data b = dat \<and> conf_same (b_conf base) (b_conf b)"

lemma del_done_post:
  "vstr_inv base \<Longrightarrow> del_done base dat pos b \<Longrightarrow> del_post base dat (vstr__cache_del b (Suc pos) len)"
  using cache_del_pos_ok [of b pos] ids_ok_step [of "b_conf base" "b_nodes base"
      "b_conf (vstr__cache_del b (Suc pos) len)" "b_nodes (vstr__cache_del b (Suc pos) len)"]
  by (simp add: del_done_def del_post_def vstr_inv_def)

lemma del_beg_used:
  assumes inv: "vstr_inv base" and len: "b_used base \<noteq> 0" "len < node_len (hd (b_nodes base)) - b_used base"
  shows "del_post base (drop len (vstr_data base)) (vstr__del_beg base len)"
proof -
  have wf: "wf_base base" and pc: "pos_cache_ok base" using inv by (simp_all add: vstr_inv_def)
  obtain i bs ns where ns: "b_nodes base = Node_buf i bs # ns" "b_used base < length bs"
    using wf len(1) by (auto simp: wf_base_iff used_ok_def)
  define b where "b = vstr__cache_iovec_del_node_beg (base\<lparr>b_len := b_len base - len, b_used := b_used base + len\<rparr>)
      (hd (b_nodes base)) 1 len"
  have sum: "length bs + nodes_len ns = b_len base + b_used base" using wf ns by (simp add: wf_base_iff)
  have "wf_base b" using wf ns len sum by (auto simp: b_def wf_base_iff used_ok_def)
  moreover have "vstr_data b = drop len (vstr_data base)"
    by (simp add: b_def vstr_data_def add.commute)
  moreover have "pos_cache_upto b 0"
    using pos_cache_upto_0 [OF wf pos_cache_upto_ok [OF pc], of b] by (simp add: b_def)
  ultimately have "del_done base (drop len (vstr_data base)) 0 b"
    by (simp add: del_done_def b_def)
  moreover have "vstr__del_beg base len = vstr__cache_del b (Suc 0) len"
    using len by (simp add: vstr__del_beg_def b_def Let_def)
  ultimately show ?thesis using del_done_post [OF inv] by metis
qed

lemma del_beg_spec:
  assumes inv: "vstr_inv base" and len: "len < b_len base"
  shows "del_post base (drop len (vstr_data base)) (vstr__del_beg base len)"
proof (cases "b_used base \<noteq> 0 \<and> len < node_len (hd (b_nodes base)) - b_used base")
  case True
  then show ?thesis using del_beg_used [OF inv] by blast
next
  case False
  have wf: "wf_base base" and pc: "pos_cache_ok base" using inv by (simp_all add: vstr_inv_def)
  let ?ns = "b_nodes base" and ?u = "b_used base"
  have sum: "nodes_len ?ns = b_len base + ?u" using wf by (simp add: wf_base_iff)
  define b1 where "b1 = (if ?u \<noteq> 0 then base\<lparr>b_len := b_len base - len, b_used := 0\<rparr>
      else base\<lparr>b_len := b_len base - len\<rparr>)"
  define run where "run = (if ?u \<noteq> 0 then [hd ?ns] else [])"
  define scan where "scan = (if ?u \<noteq> 0 then tl ?ns else ?ns)"
  define len1 where "len1 = (if ?u \<noteq> 0 then len - (node_len (hd ?ns) - ?u) else len)"
  obtain b2 run2 scan2 len2 where loop: "del_beg_loop b1 (node_type (hd ?ns)) run scan len1 = (b2, run2, scan2, len2)"
    by (metis prod_cases4)
  define b3 where "b3 = (vstr__del_beg_cleanup b2 run2 scan2 True)\<lparr>b_nodes := scan2\<rparr>"
  define b4 where "b4 = (if len2 \<noteq> 0 then vstr__cache_iovec_del_node_beg b3 (hd scan2) 1 len2 else b3)"
  have res: "vstr__del_beg base len = vstr__cache_del b4 (Suc 0) len"
    using False loop by (auto simp: vstr__del_beg_def b1_def run_def scan_def len1_def b3_def b4_def Let_def)
  have hd: "?u \<noteq> 0 \<Longrightarrow> ?ns = hd ?ns # tl ?ns" using wf by (auto simp: wf_base_iff used_ok_def)
  then have hd_len: "?u \<noteq> 0 \<Longrightarrow> nodes_len ?ns = node_len (hd ?ns) + nodes_len (tl ?ns)"
    by (metis list.simps(9) sum_list.Cons)
  have hd_ok: "?u \<noteq> 0 \<Longrightarrow> node_ok (buf_sz (b_conf base)) (hd ?ns)" "?u \<noteq> 0 \<Longrightarrow> ?u < node_len (hd ?ns)"
    using wf by (auto simp: wf_base_iff used_ok_def)
  have rs: "run @ scan = ?ns" using hd by (auto simp: run_def scan_def)
  have st: "cut_state b1 (b_conf base) ?ns (node_type (hd ?ns)) run scan"
    using wf rs by (auto simp: cut_state_def b1_def wf_base_iff run_def scan_def split: if_splits dest: list.set_sel(2) [rotated])
  have lt: "len1 < nodes_len scan"
    using len sum hd_len False hd_ok by (auto simp: len1_def scan_def)
  have b1: "b_used b1 = 0" "b_len b1 = b_len base - len" "vstr_cache_get_pos b1 = vstr_cache_get_pos base"
    by (simp_all add: b1_def)
  note L = del_beg_loop_spec [OF loop st b1(1) lt]
  obtain t' where st2: "cut_state b2 (b_conf base) ?ns t' run2 scan2" using L(1) by blast
  have st3: "cut_state b3 (b_conf base) ?ns t' [] scan2"
    using cut_state_cleanup [OF st2, of scan2 t'] by (simp add: cut_state_def b3_def)
  have dat: "drop len1 (nodes_data scan) = drop len (vstr_data base)"
  proof (cases "?u = 0")
    case True
    then show ?thesis by (simp add: len1_def scan_def vstr_data_def)
  next
    case u: False
    then have "len + ?u - node_len (hd ?ns) = len1" using False hd_ok by (auto simp: len1_def)
    moreover have "drop len (vstr_data base) = drop (len + ?u) (nodes_data (hd ?ns # tl ?ns))"
      by (metis hd u vstr_data_def drop_drop)
    ultimately show ?thesis
      using drop_nodes_data [OF hd_ok(1) [OF u], of "len + ?u" "tl ?ns"] u False hd_ok(2) [OF u]
      by (simp only: scan_def) auto
  qed
  have "nodes_len scan2 = b_len base - len + b_used b2"
    using L(5) lt len sum hd_len False hd_ok by (auto simp: len1_def scan_def split: if_splits)
  then have "wf_base b4"
    using L(2,6) b1 st3 wf by (simp add: b4_def wf_base_iff cut_state_def b3_def conf_same_def)
  moreover have "vstr_data b4 = drop len (vstr_data base)"
    using L(4) dat by (simp add: b4_def b3_def vstr_data_def)
  moreover have "pos_cache_upto b4 0"
    using pos_cache_upto_0 [OF wf pos_cache_upto_ok [OF pc], of b4] L(7) b1 by (simp add: b4_def b3_def)
  moreover have "conf_same (b_conf base) (b_conf b4)" "ids_step (b_conf base) ?ns (b_conf b4) (b_nodes b4)"
    using st3 by (simp_all add: b4_def cut_state_def b3_def)
  ultimately have "del_done base (drop len (vstr_data base)) 0 b4" by (simp add: del_done_def)
  then show ?thesis unfolding res by (rule del_done_post [OF inv])
qed

section \<open>The nodes behind a position\<close>

lemma relink_mid:
  assumes "\<forall>n \<in> set run. node_type n = t" "vstr__check_spare_nodes c" "conf_same c0 c"
    and "ids_step c0 ns0 c (as @ run @ ns)"
  shows "vstr__check_spare_nodes (vstr__relink_nodes c run (length run)) \<and>
    conf_same c0 (vstr__relink_nodes c run (length run)) \<and>
    ids_step c0 ns0 (vstr__relink_nodes c run (length run)) (as @ ns)"
  using relink_nodes_check [OF assms(2) refl, of run] conf_same_trans [OF assms(3)] relink_ids_front [OF assms(1,4)]
  by blast

definition mid_post :: "vstr_conf \<Rightarrow> vstr_node list \<Rightarrow> vstr_node list \<Rightarrow> vstr_node list \<Rightarrow> nat \<Rightarrow> nat \<Rightarrow>
    vstr_conf \<times> vstr_node list \<times> nat \<times> nat \<Rightarrow> bool" where
  "mid_post c0 ns0 as ns len dn res = (case res of (c', ns', len', dn') \<Rightarrow>
     \<exists>pre. ns = pre @ ns' \<and> nodes_len pre + len' = len \<and> (ns' = [] \<longrightarrow> len' = 0) \<and>
       (ns' \<noteq> [] \<longrightarrow> len' < node_len (hd ns')) \<and> dn' = dn + length pre \<and>
       vstr__check_spare_nodes c' \<and> conf_same c0 c' \<and> ids_step c0 ns0 c' (as @ ns'))"

lemma mid_post_Cons:
  assumes "mid_post c0 ns0 as ns (len - node_len n) (Suc dn) res" "node_len n \<le> len"
  shows "mid_post c0 ns0 as (n # ns) len dn res"
proof (cases res)
  case (fields c' ns' len' dn')
  then obtain pre where "ns = pre @ ns' \<and> nodes_len pre + len' = len - node_len n \<and> (ns' = [] \<longrightarrow> len' = 0) \<and>
       (ns' \<noteq> [] \<longrightarrow> len' < node_len (hd ns')) \<and> dn' = Suc dn + length pre \<and>
       vstr__check_spare_nodes c' \<and> conf_same c0 c' \<and> ids_step c0 ns0 c' (as @ ns')"
    using assms(1) by (auto simp: mid_post_def)
  then show ?thesis using fields assms(2) by (auto simp: mid_post_def intro!: exI [of _ "n # pre"])
qed

lemma del_mid_loop_spec:
  assumes "\<forall>n \<in> set run. node_type n = t" "run \<noteq> []" "vstr__check_spare_nodes c" "conf_same c0 c"
    and "ids_step c0 ns0 c (as @ run @ ns)" "len \<le> nodes_len ns" "\<forall>n \<in> set ns. 0 < node_len n"
  shows "mid_post c0 ns0 as ns len (dn + length run) (del_mid_loop c run ns len dn)"
  using assms
proof (induction c run ns len dn arbitrary: t rule: del_mid_loop.induct)
  case (1 c run len dn)
  then show ?case using relink_mid [OF 1(1,3,4), of ns0 as "[]"] by (simp add: mid_post_def)
next
  case (2 c run n ns len dn)
  let ?c1 = "vstr__del_node n c"
  have c1: "vstr__check_spare_nodes ?c1" "conf_same c0 ?c1" "ids_step c0 ns0 ?c1 (as @ run @ n # ns)"
    using 2(5-7) by simp_all
  have hd: "node_type (hd run) = t" using 2(3,4) by simp
  show ?case
  proof (cases "len \<ge> node_len n")
    case False
    then show ?thesis using relink_mid [OF 2(3,5,6), of ns0 as "n # ns"] 2(7) by (simp add: mid_post_def)
  next
    case True
    then have le: "len - node_len n \<le> nodes_len ns" "\<forall>n \<in> set ns. 0 < node_len n" using 2(8,9) by simp_all
    show ?thesis
    proof (cases "node_type n = node_type (hd run)")
      case False
      have rl: "vstr__check_spare_nodes (vstr__relink_nodes ?c1 run (length run))"
        "conf_same c0 (vstr__relink_nodes ?c1 run (length run))"
        "ids_step c0 ns0 (vstr__relink_nodes ?c1 run (length run)) (as @ [n] @ ns)"
        using relink_mid [OF 2(3) c1(1,2), of ns0 as "n # ns"] c1(3) by simp_all
      have "mid_post c0 ns0 as ns (len - node_len n) (dn + length run + length [n])
          (del_mid_loop (vstr__relink_nodes ?c1 run (length run)) [n] ns (len - node_len n) (dn + length run))"
        using 2(1) [OF True refl False _ _ rl le, of "node_type n"] by simp
      then show ?thesis using mid_post_Cons True False by simp
    next
      case t: True
      have "mid_post c0 ns0 as ns (len - node_len n) (dn + length (run @ [n]))
          (del_mid_loop ?c1 (run @ [n]) ns (len - node_len n) dn)"
        using 2(2) [OF True refl _ _ _ c1(1,2) _ le, of t] 2(3) c1(3) t hd by simp
      then show ?thesis using mid_post_Cons True t by simp
    qed
  qed
qed

lemma reset_node_frame [simp]:
  "b_nodes (vstr__cache_iovec_reset_node b n k) = b_nodes b" "b_len (vstr__cache_iovec_reset_node b n k) = b_len b"
  "b_num (vstr__cache_iovec_reset_node b n k) = b_num b" "b_used (vstr__cache_iovec_reset_node b n k) = b_used b"
  "b_conf (vstr__cache_iovec_reset_node b n k) = b_conf b"
  "flag_of (vstr__cache_iovec_reset_node b n k) t = flag_of b t"
  "vstr_cache_get_pos (vstr__cache_iovec_reset_node b n k) = vstr_cache_get_pos b"
  by (simp_all add: vstr__cache_iovec_reset_node_def)

lemma close_gap_frame [simp]:
  "b_nodes (vec_close_gap k d b) = b_nodes b" "b_len (vec_close_gap k d b) = b_len b"
  "b_num (vec_close_gap k d b) = b_num b" "b_used (vec_close_gap k d b) = b_used b"
  "b_conf (vec_close_gap k d b) = b_conf b" "flag_of (vec_close_gap k d b) t = flag_of b t"
  "vstr_cache_get_pos (vec_close_gap k d b) = vstr_cache_get_pos b"
  by (simp_all add: vec_close_gap_def)

text \<open>
  The string between shortening its length by \<open>len\<close> and removing that many bytes behind the nodes
  \<open>as\<close>, and what it is afterwards.
\<close>

definition tail_cut :: "vstr_base \<Rightarrow> vstr_node list \<Rightarrow> vstr_node list \<Rightarrow> nat \<Rightarrow> vstr_base \<Rightarrow> bool" where
  "tail_cut b as rest len b' \<longleftrightarrow> (\<exists>rest'. b_nodes b' = as @ rest' \<and> nodes_data rest' = drop len (nodes_data rest) \<and>
     nodes_len rest' + len = nodes_len rest \<and>
     (\<forall>n \<in> set rest'. node_ok (buf_sz (b_conf b)) n \<and> flag_of b (node_type n)) \<and>
     b_num b' = length as + length rest' \<and> b_len b' = b_len b \<and> b_used b' = b_used b \<and>
     (\<forall>t. flag_of b' t = flag_of b t) \<and> vstr_cache_get_pos b' = vstr_cache_get_pos b \<and>
     vstr__check_spare_nodes (b_conf b') \<and> conf_same (b_conf b) (b_conf b') \<and>
     ids_step (b_conf b) (as @ rest) (b_conf b') (as @ rest'))"

lemma fix_last_cut:
  assumes "b_nodes b = as @ n # ns" "length as = Suc idx" "0 < len" "len < node_len n"
    and ok: "\<forall>m \<in> set (n # ns). node_ok (buf_sz (b_conf b)) m \<and> flag_of b (node_type m)"
    and "b_num b = length as + length (n # ns)" "vstr__check_spare_nodes (b_conf b)"
  shows "tail_cut b as (n # ns) len (del_fix_last b idx num len)"
proof -
  have nok: "node_ok (buf_sz (b_conf b)) n" using ok by simp
  note f = node_cut_beg_facts [OF nok assms(3,4)]
  have "b_nodes b ! Suc idx = n" "(b_nodes b)[Suc idx := node_cut_beg len n] = as @ node_cut_beg len n # ns"
    using assms(1,2) by (simp_all add: nth_append list_update_append)
  moreover have "len \<le> length (node_data n)" using assms(4) node_data_length [OF nok] by simp
  ultimately show ?thesis
    unfolding tail_cut_def using f assms
    by (intro exI [of _ "node_cut_beg len n # ns"]) (auto simp: del_fix_last_def Let_def ids_step_def ids_of_def)
qed

lemma tail_cut_trans:
  assumes "tail_cut b as rest k b1" "tail_cut b1 as rest1 l b2" "b_nodes b1 = as @ rest1"
  shows "tail_cut b as rest (k + l) b2"
proof -
  obtain r1 where 1: "b_nodes b1 = as @ r1" "nodes_data r1 = drop k (nodes_data rest)"
    "nodes_len r1 + k = nodes_len rest" "\<forall>t. flag_of b1 t = flag_of b t" "b_len b1 = b_len b" "b_used b1 = b_used b"
    "vstr_cache_get_pos b1 = vstr_cache_get_pos b" "conf_same (b_conf b) (b_conf b1)"
    "ids_step (b_conf b) (as @ rest) (b_conf b1) (as @ r1)"
    using assms(1) by (auto simp: tail_cut_def)
  then have r: "r1 = rest1" using assms(3) by simp
  obtain r2 where 2: "b_nodes b2 = as @ r2" "nodes_data r2 = drop l (nodes_data rest1)" "nodes_len r2 + l = nodes_len rest1"
    "\<forall>n \<in> set r2. node_ok (buf_sz (b_conf b1)) n \<and> flag_of b1 (node_type n)"
    "b_num b2 = length as + length r2" "b_len b2 = b_len b1" "b_used b2 = b_used b1"
    "\<forall>t. flag_of b2 t = flag_of b1 t" "vstr_cache_get_pos b2 = vstr_cache_get_pos b1"
    "vstr__check_spare_nodes (b_conf b2)" "conf_same (b_conf b1) (b_conf b2)"
    "ids_step (b_conf b1) (as @ rest1) (b_conf b2) (as @ r2)"
    using assms(2) by (auto simp: tail_cut_def)
  show ?thesis unfolding tail_cut_def
    using 1 2 r conf_same_trans [OF 1(8) 2(11)] ids_step_trans [OF 1(9) [unfolded r] 2(12)]
    by (intro exI [of _ r2]) (auto simp: conf_same_def add.commute)
qed

lemma del_behind_cut:
  assumes ns: "b_nodes b = as @ rest" "length as = Suc idx" and len: "len \<le> nodes_len rest"
    and ok: "\<forall>n \<in> set rest. node_ok (buf_sz (b_conf b)) n \<and> flag_of b (node_type n)"
    and num: "b_num b = length as + length rest" and chk: "vstr__check_spare_nodes (b_conf b)"
  shows "tail_cut b as rest len (del_behind b idx num len)"
proof -
  have dr: "drop (Suc idx) (b_nodes b) = rest" "take (Suc idx) (b_nodes b) = as" using ns by simp_all
  consider (none) "len = 0" | (cut1) n ms where "0 < len" "rest = n # ms" "len < node_len n"
    | (loop) n ms where "0 < len" "rest = n # ms" "\<not> len < node_len n"
    using len by (cases rest) auto
  then show ?thesis
  proof cases
    case none
    then show ?thesis
      using ns ok num chk by (auto simp: tail_cut_def del_behind_def intro!: exI [of _ rest])
  next
    case cut1
    then show ?thesis
      using fix_last_cut [of b as n ms idx len num] ns ok num chk dr by (simp add: del_behind_def)
  next
    case loop
    let ?n = n
    have nok: "node_ok (buf_sz (b_conf b)) n" using ok loop by simp
    obtain c rest' len' dn where L: "del_mid_loop (vstr__del_node n (b_conf b)) [n] ms (len - node_len n) 0 = (c, rest', len', dn)"
      by (metis prod_cases4)
    have "mid_post (b_conf b) (as @ rest) as ms (len - node_len n) (0 + length [n])
        (del_mid_loop (vstr__del_node n (b_conf b)) [n] ms (len - node_len n) 0)"
      using ok len loop chk by (intro del_mid_loop_spec [where t = "node_type n"]) (auto simp: node_ok_def)
    then obtain pre where pre: "ms = pre @ rest'" "nodes_len pre + len' = len - node_len n" "rest' = [] \<longrightarrow> len' = 0"
      "rest' \<noteq> [] \<longrightarrow> len' < node_len (hd rest')" "dn = 1 + length pre" "vstr__check_spare_nodes c"
      "conf_same (b_conf b) c" "ids_step (b_conf b) (as @ rest) c (as @ rest')"
      unfolding L by (auto simp: mid_post_def)
    define b2 where "b2 = (vec_close_gap num dn (b\<lparr>b_conf := c\<rparr>))\<lparr>b_num := b_num b - dn, b_nodes := as @ rest'\<rparr>"
    have k: "len = (node_len n + nodes_len pre) + len'" using pre(2) loop(3) by simp
    have dat: "nodes_data rest = nodes_data (n # pre) @ nodes_data rest'" using loop(2) pre(1) by simp
    have dlen: "length (nodes_data (n # pre)) = node_len n + nodes_len pre"
      using nodes_data_length [of "n # pre" "buf_sz (b_conf b)"] ok loop(2) pre(1) by simp
    have cut: "tail_cut b as rest (node_len n + nodes_len pre) b2"
      unfolding tail_cut_def using pre loop(2) num ok ns dat dlen
      by (intro exI [of _ rest']) (auto simp: b2_def conf_same_def)
    have res: "del_behind b idx num len = (if rest' \<noteq> [] \<and> len' \<noteq> 0 then del_fix_last b2 idx num len' else b2)"
      using loop L dr by (simp add: del_behind_def b2_def Let_def)
    show ?thesis
    proof (cases "rest' \<noteq> [] \<and> len' \<noteq> 0")
      case True
      then obtain m ms' where m: "rest' = m # ms'" by (cases rest') auto
      have "tail_cut b2 as (m # ms') len' (del_fix_last b2 idx num len')"
        using True m pre ok loop(2) ns num by (intro fix_last_cut) (auto simp: b2_def conf_same_def)
      then show ?thesis
        using tail_cut_trans [OF cut, of "m # ms'" len'] m res True k by (simp add: b2_def)
    next
      case False
      then show ?thesis using cut k pre(3) res by auto
    qed
  qed
qed

section \<open>Putting it together\<close>

lemma del_assemble:
  assumes wf: "wf_base base" and pc: "pos_cache_upto base pos" and at: "at_pos base pos idx p"
    and pos: "1 \<le> pos" "pos + len \<le> b_len base"
    and ns': "b_nodes b' = take idx (b_nodes base) @ m # ms"
    and m: "node_id m = node_id (b_nodes base ! idx)" "node_type m = node_type (b_nodes base ! idx)" "p \<le> node_len m"
    and dat: "nodes_data (m # ms) = take p (node_data (b_nodes base ! idx)) @ drop (pos + len) (vstr_data base)"
    and ok: "\<forall>x \<in> set (m # ms). node_ok (buf_sz (b_conf base)) x \<and> flag_of base (node_type x)"
    and fr: "\<forall>t. flag_of b' t = flag_of base t" "b_len b' = b_len base - len" "b_used b' = b_used base"
      "b_num b' = length (b_nodes b')" "vstr_cache_get_pos b' = vstr_cache_get_pos base"
    and conf: "vstr__check_spare_nodes (b_conf b')" "conf_same (b_conf base) (b_conf b')"
      "ids_step (b_conf base) (b_nodes base) (b_conf b') (b_nodes b')"
  shows "del_done base (del_at pos len (vstr_data base)) pos b'"
proof -
  let ?ns = "b_nodes base" and ?n = "b_nodes base ! idx" and ?u = "b_used base"
  have idx: "idx < length ?ns" and p: "1 \<le> p" "p \<le> node_len ?n" and sum: "pos + ?u = nodes_len (take idx ?ns) + p"
    using at by (simp_all add: at_pos_def)
  have nok: "node_ok (buf_sz (b_conf base)) ?n" using wf idx by (intro wf_base_nodes_ok) simp_all
  have A: "length (nodes_data (take idx ?ns)) = nodes_len (take idx ?ns)"
    using wf by (intro nodes_len_take [where z = "buf_sz (b_conf base)"]) (simp add: wf_base_iff)
  have "nodes_len (m # ms) = length (nodes_data (m # ms))"
    using ok by (intro nodes_data_length [symmetric, where z = "buf_sz (b_conf base)"]) simp
  also have "\<dots> = p + (b_len base - (pos + len))"
    unfolding dat using vstr_data_length [OF wf] node_data_length [OF nok] p by simp
  finally have len: "nodes_len (b_nodes b') = b_len b' + b_used b'" using ns' fr sum pos by simp
  have "used_ok ?u (take idx ?ns @ m # ms)"
  proof (cases idx)
    case 0
    then have "?u < p" using sum pos(1) by simp
    moreover have "used_ok ?u (?n # tl ?ns)" using wf idx 0 by (cases ?ns) (simp_all add: wf_base_iff)
    ultimately show ?thesis using 0 m by (cases ?n; cases m) (auto simp: used_ok_def)
  next
    case (Suc j)
    then obtain x xs where "?ns = x # xs" using idx by (cases ?ns) auto
    then show ?thesis using wf Suc used_ok_tl [of ?u x xs] by (simp add: wf_base_iff)
  qed
  moreover have "\<forall>x \<in> set (b_nodes b'). node_ok (buf_sz (b_conf b')) x \<and> flag_of b' (node_type x)"
    using ok wf ns' fr(1) conf(2) by (auto simp: wf_base_iff conf_same_def dest: in_set_takeD)
  ultimately have wf': "wf_base b'"
    using len wf fr ns' conf by (simp add: wf_base_iff conf_same_def)
  have "vstr_data b' = drop ?u (nodes_data (take idx ?ns) @ take p (node_data ?n) @ drop (pos + len) (vstr_data base))"
    using ns' dat fr(3) by (simp add: vstr_data_def)
  also have "\<dots> = drop ?u (nodes_data (take idx ?ns) @ take p (node_data ?n)) @ drop (pos + len) (vstr_data base)"
    using sum A p node_data_length [OF nok] by simp
  also have "\<dots> = del_at pos len (vstr_data base)"
    using at_pos_take_drop(1) [OF wf at] by (simp add: del_at_def)
  finally have d: "vstr_data b' = del_at pos len (vstr_data base)" .
  have "pos_cache_upto b' pos"
    using idx m(1) sum p fr(3,5) ns' id_take_nth_drop [OF idx]
    by (intro pos_cache_upto_prefix [OF pc, of "take idx ?ns @ [?n]" "drop (Suc idx) ?ns" b' "take idx ?ns @ [m]" ms])
      simp_all
  then show ?thesis using wf' d conf by (simp add: del_done_def)
qed

lemma drop_data_at:
  assumes "wf_base base" "at_pos base pos idx p"
  shows "drop (pos + len) (vstr_data base) =
    drop len (drop p (node_data (b_nodes base ! idx)) @ nodes_data (drop (Suc idx) (b_nodes base)))"
  using at_pos_take_drop(2) [OF assms] by (metis add.commute drop_drop)

lemma del_node_end_frame [simp]:
  "b_nodes (vstr__cache_iovec_del_node_end b k l) = b_nodes b"
  "b_len (vstr__cache_iovec_del_node_end b k l) = b_len b"
  "b_num (vstr__cache_iovec_del_node_end b k l) = b_num b"
  "b_used (vstr__cache_iovec_del_node_end b k l) = b_used b"
  "b_conf (vstr__cache_iovec_del_node_end b k l) = b_conf b"
  "flag_of (vstr__cache_iovec_del_node_end b k l) t = flag_of b t"
  "vstr_cache_get_pos (vstr__cache_iovec_del_node_end b k l) = vstr_cache_get_pos b"
  by (simp_all add: vstr__cache_iovec_del_node_end_def)

lemma split_node_len:
  "vstr__base_split_node (b\<lparr>b_len := l\<rparr>) idx p =
     (fst (vstr__base_split_node b idx p), (snd (vstr__base_split_node b idx p))\<lparr>b_len := l\<rparr>)"
  by (simp add: vstr__base_split_node_def Let_def split: prod.split bool.split)

text \<open>The bytes leave the node in place.\<close>

lemma del_in_place:
  assumes wf: "wf_base base" and pc: "pos_cache_upto base pos" and at: "at_pos base pos idx p"
    and pos: "1 \<le> pos" "pos + len \<le> b_len base" and lt: "p + len < node_len (b_nodes base ! idx)"
    and m: "node_ok (buf_sz (b_conf base)) m" "node_id m = node_id (b_nodes base ! idx)"
      "node_type m = node_type (b_nodes base ! idx)" "p \<le> node_len m"
      "node_data m = take p (node_data (b_nodes base ! idx)) @ drop (p + len) (node_data (b_nodes base ! idx))"
  shows "del_done base (del_at pos len (vstr_data base)) pos
    (vstr__cache_iovec_del_node_end (base\<lparr>b_len := b_len base - len, b_nodes := (b_nodes base)[idx := m]\<rparr>) num len)"
proof -
  let ?ns = "b_nodes base" and ?n = "b_nodes base ! idx"
  have idx: "idx < length ?ns" using at by (simp add: at_pos_def)
  have nok: "node_ok (buf_sz (b_conf base)) ?n" using wf idx by (intro wf_base_nodes_ok) simp_all
  have ns': "?ns[idx := m] = take idx ?ns @ m # drop (Suc idx) ?ns" using idx by (rule upd_conv_take_nth_drop)
  have "len \<le> length (drop p (node_data ?n))" using lt node_data_length [OF nok] by simp
  then have "drop (pos + len) (vstr_data base) = drop (p + len) (node_data ?n) @ nodes_data (drop (Suc idx) ?ns)"
    unfolding drop_data_at [OF wf at] by (simp add: add.commute)
  moreover have "flag_of base (node_type m)" using wf m(3) idx by (simp add: wf_base_iff)
  moreover have "map node_id (?ns[idx := m]) = map node_id ?ns"
    using m(2) idx by (simp add: map_update list_update_same_conv)
  ultimately show ?thesis
    using wf m idx ns'
    by (intro del_assemble [OF wf pc at pos, of _ m "drop (Suc idx) ?ns"])
      (auto simp: wf_base_iff ids_step_def ids_of_def dest: in_set_dropD)
qed

lemma del_in_node_spec:
  assumes wf: "wf_base base" and pc: "pos_cache_upto base pos" and at: "at_pos base pos idx p"
    and pos: "1 \<le> pos" "pos + len \<le> b_len base" and lt: "p + len < node_len (b_nodes base ! idx)" and len: "0 < len"
    and res: "del_in_node (base\<lparr>b_len := b_len base - len\<rparr>) idx num p len = (r, b')"
  shows "if r then del_done base (del_at pos len (vstr_data base)) pos b'
    else malloc_bad (b_conf b') \<and> (\<exists>c. b' = base\<lparr>b_conf := c\<rparr> \<and> conf_same (b_conf base) c \<and>
      vstr__check_spare_nodes c \<and> ids_step (b_conf base) (b_nodes base) c (b_nodes base))"
proof -
  let ?ns = "b_nodes base" and ?n = "b_nodes base ! idx" and ?b1 = "base\<lparr>b_len := b_len base - len\<rparr>"
  have idx: "idx < length ?ns" and p: "1 \<le> p" "p \<le> node_len ?n" using at by (simp_all add: at_pos_def)
  have nok: "node_ok (buf_sz (b_conf base)) ?n" using wf idx by (intro wf_base_nodes_ok) simp_all
  note ip = del_in_place [OF wf pc at pos lt]
  obtain r2 b2 where S: "vstr__base_split_node base idx (p + len) = (r2, b2)" by fastforce
  have split: ?thesis
    if "(case vstr__base_split_node ?b1 idx (p + len) of
          (False, b1) \<Rightarrow> (False, b1\<lparr>b_len := b_len b1 + len\<rparr>)
        | (True, b1) \<Rightarrow> (True, vstr__cache_iovec_del_node_end
            (b1\<lparr>b_nodes := (b_nodes b1)[idx := node_set_len p (b_nodes b1 ! idx)]\<rparr>) num len)) = (r, b')"
  proof (rule split_node_cases [OF wf idx S])
    fix c assume c: "\<not> r2" "b2 = base\<lparr>b_conf := c\<rparr>" "malloc_bad c" "conf_same (b_conf base) c"
      "vstr__check_spare_nodes c" "ids_step (b_conf base) ?ns c ?ns"
    then show ?thesis using that S pos by (auto simp: split_node_len)
  next
    fix i c
    assume c: "r2" "b2 = base\<lparr>b_conf := c, b_num := b_num base + 1, iovec_upto_date := False,
        b_nodes := take idx ?ns @ [node_set_len (p + len) ?n, node_tail i (p + len) ?n] @ drop (Suc idx) ?ns\<rparr>"
      "conf_same (b_conf base) c" "vstr__check_spare_nodes c" "ids_step (b_conf base) ?ns c (b_nodes b2)"
    let ?m = "node_set_len p ?n" and ?ms = "node_tail i (p + len) ?n # drop (Suc idx) ?ns"
    have mm: "node_set_len p (node_set_len (p + len) ?n) = ?m" by (cases ?n) (simp_all add: min_def)
    have b': "r" "b_nodes b' = take idx ?ns @ ?m # ?ms" "b_conf b' = c" "b_len b' = b_len base - len"
      "b_num b' = b_num base + 1" "b_used b' = b_used base" "vstr_cache_get_pos b' = vstr_cache_get_pos base"
      "flag_of b' t = flag_of base t" for t
      using that S c(1,2) idx mm by (auto simp: split_node_len nth_append list_update_append)
    note tl = node_tail_facts [OF nok _ lt, of i]
    have "len \<le> length (drop p (node_data ?n))" using lt node_data_length [OF nok] by simp
    then have "drop (pos + len) (vstr_data base) = drop (p + len) (node_data ?n) @ nodes_data (drop (Suc idx) ?ns)"
      unfolding drop_data_at [OF wf at] by (simp add: add.commute)
    then have dat: "nodes_data (?m # ?ms) = take p (node_data ?n) @ drop (pos + len) (vstr_data base)"
      using tl(5) p by (simp add: node_set_len_data)
    have "map node_id (b_nodes b') = map node_id (b_nodes b2)" using b'(2) c(2) by simp
    then have ids: "ids_step (b_conf base) ?ns (b_conf b') (b_nodes b')"
      using c(5) b'(3) by (simp add: ids_step_def ids_of_def)
    have "del_done base (del_at pos len (vstr_data base)) pos b'"
      using tl p node_set_len_ok [OF nok, of p] wf idx b' c dat ids
      by (intro del_assemble [OF wf pc at pos b'(2)])
        (auto simp: node_set_len_len wf_base_iff dest: in_set_dropD)
    then show ?thesis using b'(1) by simp
  qed
  show ?thesis
  proof (cases ?n)
    case (Node_buf i bs)
    show ?thesis
    proof (cases "split_buf_del (b_conf base)")
      case True
      then show ?thesis using split res Node_buf by (simp add: del_in_node_def)
    next
      case False
      then show ?thesis
        using res Node_buf ip [of "Node_buf i (take p bs @ drop (p + len) bs)" num] lt nok p
        by (auto simp: del_in_node_def node_simps take_map drop_map)
    qed
  next
    case (Node_non i k)
    then show ?thesis
      using res ip [of "Node_non i (k - len)" num] lt nok p
      by (auto simp: del_in_node_def node_simps simp flip: replicate_add)
  qed (use split res in \<open>simp_all add: del_in_node_def\<close>)
qed

lemma base__pos_nocache: "snd (vstr_base__pos base pos False) = base"
  by (simp add: vstr_base__pos_def Let_def split: prod.split)

lemma node_set_len_all [simp]: "node_set_len (node_len n) n = n"
  by (cases n) simp_all

lemma del_across_spec:
  assumes wf: "wf_base base" and pc: "pos_cache_upto base pos" and at: "at_pos base pos idx p"
    and pos: "1 \<le> pos" "pos + len \<le> b_len base" and ge: "node_len (b_nodes base ! idx) \<le> p + len"
    and b2: "b_nodes b2 = (b_nodes base)[idx := node_set_len p (b_nodes base ! idx)]" "b_len b2 = b_len base - len"
      "b_used b2 = b_used base" "b_num b2 = b_num base" "b_conf b2 = b_conf base"
      "vstr_cache_get_pos b2 = vstr_cache_get_pos base" "\<forall>t. flag_of b2 t = flag_of base t"
  shows "del_done base (del_at pos len (vstr_data base)) pos
    (del_behind b2 idx num (len - (node_len (b_nodes base ! idx) - p)))"
proof -
  let ?ns = "b_nodes base" and ?n = "b_nodes base ! idx" and ?m = "node_set_len p (b_nodes base ! idx)"
  let ?rest = "drop (Suc idx) ?ns" and ?as = "take idx ?ns @ [?m]" and ?l = "len - (node_len ?n - p)"
  have idx: "idx < length ?ns" and p: "1 \<le> p" "p \<le> node_len ?n" and sum: "pos + b_used base = nodes_len (take idx ?ns) + p"
    using at by (simp_all add: at_pos_def)
  have nok: "node_ok (buf_sz (b_conf base)) ?n" using wf idx by (intro wf_base_nodes_ok) simp_all
  have n2: "b_nodes b2 = ?as @ ?rest" using b2(1) idx by (simp add: upd_conv_take_nth_drop)
  have "nodes_len ?ns = nodes_len (take idx ?ns) + node_len ?n + nodes_len ?rest"
    using arg_cong [OF id_take_nth_drop [OF idx], of nodes_len] by simp
  then have lel: "?l \<le> nodes_len ?rest" using wf_base_sum [OF wf] sum pos(2) by linarith
  have "tail_cut b2 ?as ?rest ?l (del_behind b2 idx num ?l)"
    using wf idx b2 by (intro del_behind_cut [OF n2 _ lel]) (auto simp: wf_base_iff dest: in_set_dropD)
  then obtain ms where ms: "b_nodes (del_behind b2 idx num ?l) = ?as @ ms" "nodes_data ms = drop ?l (nodes_data ?rest)"
    "\<forall>n \<in> set ms. node_ok (buf_sz (b_conf b2)) n \<and> flag_of b2 (node_type n)"
    "b_num (del_behind b2 idx num ?l) = length ?as + length ms" "b_len (del_behind b2 idx num ?l) = b_len b2"
    "b_used (del_behind b2 idx num ?l) = b_used b2" "\<forall>t. flag_of (del_behind b2 idx num ?l) t = flag_of b2 t"
    "vstr_cache_get_pos (del_behind b2 idx num ?l) = vstr_cache_get_pos b2"
    "vstr__check_spare_nodes (b_conf (del_behind b2 idx num ?l))" "conf_same (b_conf b2) (b_conf (del_behind b2 idx num ?l))"
    "ids_step (b_conf b2) (?as @ ?rest) (b_conf (del_behind b2 idx num ?l)) (?as @ ms)"
    by (auto simp: tail_cut_def)
  have dn: "length (node_data ?n) = node_len ?n" using node_data_length [OF nok] .
  have "drop (pos + len) (vstr_data base) = nodes_data ms"
    unfolding drop_data_at [OF wf at] ms(2) using ge dn by simp
  then have dat: "nodes_data (?m # ms) = take p (node_data ?n) @ drop (pos + len) (vstr_data base)"
    using p by (simp add: node_set_len_data)
  have "ids_step (b_conf base) ?ns (b_conf (del_behind b2 idx num ?l)) (?as @ ms)"
    using ms(11) b2(5) arg_cong [OF id_take_nth_drop [OF idx], of "map node_id"]
    by (simp add: ids_step_def ids_of_def)
  then show ?thesis
    using ms b2 p wf nok idx dat node_set_len_ok [OF nok, of p]
    by (intro del_assemble [OF wf pc at pos, of _ ?m ms]) (auto simp: node_set_len_len wf_base_iff)
qed

text \<open>What a deletion promises: it only fails when a node has to be split and none can be had.\<close>

definition del_result :: "vstr_base \<Rightarrow> nat \<Rightarrow> nat \<Rightarrow> bool \<times> vstr_base \<Rightarrow> bool" where
  "del_result base pos len res =
     (case res of (r, base') \<Rightarrow>
        if r then vstr_inv base' \<and> vstr_data base' = del_at (pos - 1) len (vstr_data base)
        else vstr_inv base' \<and> vstr_data base' = vstr_data base \<and> malloc_bad (b_conf base'))"

lemma pos_cache_ok_conf [simp]: "pos_cache_ok (b\<lparr>b_conf := c\<rparr>) = pos_cache_ok b"
  by (simp add: pos_cache_ok_def split: option.split)

lemma extern_inline_del_spec:
  assumes inv: "vstr_inv base" and pos: "1 \<le> pos" "0 < len" "pos + len \<le> Suc (b_len base)"
  shows "del_result base pos len (vstr_extern_inline_del base pos len)"
proof -
  have wf: "wf_base base" and pc: "pos_cache_ok base" and ids: "ids_distinct base" and idk: "ids_ok (b_conf base) (b_nodes base)"
    using inv ids_ok_distinct by (auto simp: vstr_inv_def ids_distinct_def)
  have guard: "pos \<noteq> 0 \<and> pos \<le> b_len base \<and> vstr_sc_poslast pos len \<le> b_len base"
    using pos by (auto simp: vstr_sc_poslast_def)
  show ?thesis
  proof (cases "pos \<le> 1")
    case True
    then show ?thesis
      using guard pos del_all_spec [OF inv] del_beg_spec [OF inv, of len] vstr_data_length [OF wf]
      by (auto simp: vstr_extern_inline_del_def del_result_def del_at_def del_post_def)
  next
    case False
    let ?pos = "pos - 1"
    have p1: "1 \<le> ?pos" "?pos \<le> b_len base" "?pos + len \<le> b_len base" using False pos by simp_all
    obtain idx p num where B: "vstr_base__pos base ?pos False = ((idx, p, num), base)"
      using base__pos_nocache [of base ?pos] by (metis prod.collapse)
    have at: "at_pos base ?pos idx p" using base__pos_at_pos [OF wf ids pc p1(1,2) B] by simp
    have up: "pos_cache_upto base ?pos" using pos_cache_upto_ok [OF pc] .
    let ?b1 = "base\<lparr>b_len := b_len base - len\<rparr>" and ?n = "b_nodes base ! idx"
    have len: "(if ?pos + len \<ge> b_len base then b_len base - ?pos else len) = len" using p1 by auto
    have suc: "Suc ?pos = pos" using p1 by simp
    have unf: "vstr_extern_inline_del base pos len =
       (if p \<noteq> node_len ?n \<and> len < node_len ?n - p then
          (case del_in_node ?b1 idx num p len of (False, b2) \<Rightarrow> (False, b2)
           | (True, b2) \<Rightarrow> (True, vstr__cache_del b2 pos len))
        else let (b2, len2) = (if p \<noteq> node_len ?n
              then ((vstr__cache_iovec_del_node_end ?b1 num (node_len ?n - p))
                      \<lparr>b_nodes := (b_nodes base)[idx := node_set_len p ?n]\<rparr>, len - (node_len ?n - p))
              else (?b1, len))
          in (True, vstr__cache_del (del_behind b2 idx num len2) pos len))"
      using guard False unfolding vstr_extern_inline_del_def Let_def len B prod.case by auto
    show ?thesis
    proof (cases "p \<noteq> node_len ?n \<and> len < node_len ?n - p")
      case True
      obtain r b2 where D: "del_in_node ?b1 idx num p len = (r, b2)" by fastforce
      have S: "if r then del_done base (del_at ?pos len (vstr_data base)) ?pos b2
          else malloc_bad (b_conf b2) \<and> (\<exists>c. b2 = base\<lparr>b_conf := c\<rparr> \<and> conf_same (b_conf base) c \<and>
            vstr__check_spare_nodes c \<and> ids_step (b_conf base) (b_nodes base) c (b_nodes base))"
        using True by (intro del_in_node_spec [OF wf up at p1(1,3) _ pos(2) D]) linarith
      show ?thesis
      proof (cases r)
        case r: True
        then show ?thesis
          using S del_done_post [OF inv, of "del_at ?pos len (vstr_data base)" ?pos b2 len] unf True D suc
          by (simp add: del_result_def del_post_def)
      next
        case r: False
        then obtain c where "b2 = base\<lparr>b_conf := c\<rparr>" "conf_same (b_conf base) c" "malloc_bad c"
          "vstr__check_spare_nodes c" "ids_step (b_conf base) (b_nodes base) c (b_nodes base)" using S by auto
        then show ?thesis
          using r unf True D conf_same_wf [OF wf] ids_ok_step [OF idk] pc
          by (simp add: del_result_def vstr_inv_def)
      qed
    next
      case False
      have pn: "p \<le> node_len ?n" using at by (simp add: at_pos_def)
      define b2 where "b2 = (if p \<noteq> node_len ?n then (vstr__cache_iovec_del_node_end ?b1 num (node_len ?n - p))
          \<lparr>b_nodes := (b_nodes base)[idx := node_set_len p ?n]\<rparr> else ?b1)"
      have "vstr_extern_inline_del base pos len =
          (True, vstr__cache_del (del_behind b2 idx num (len - (node_len ?n - p))) (Suc ?pos) len)"
        using unf False suc by (auto simp: b2_def)
      moreover have "del_done base (del_at ?pos len (vstr_data base)) ?pos (del_behind b2 idx num (len - (node_len ?n - p)))"
        using False pn by (intro del_across_spec [OF wf up at p1(1,3)]) (auto simp: b2_def)
      ultimately show ?thesis using del_done_post [OF inv] by (simp add: del_result_def del_post_def)
    qed
  qed
qed

section \<open>The fast paths\<close>

lemma cstr_map_frame [simp]:
  "b_nodes (cstr_map f b) = b_nodes b" "b_len (cstr_map f b) = b_len b" "b_num (cstr_map f b) = b_num b"
  "b_used (cstr_map f b) = b_used b" "b_conf (cstr_map f b) = b_conf b" "flag_of (cstr_map f b) t = flag_of b t"
  "iovec_upto_date (cstr_map f b) = iovec_upto_date b" "cache_vec (b_cache (cstr_map f b)) = cache_vec (b_cache b)"
  by (simp_all add: cstr_map_def)

lemma pos_forget_frame [simp]:
  "b_nodes (pos_forget b) = b_nodes b" "b_len (pos_forget b) = b_len b" "b_num (pos_forget b) = b_num b"
  "b_used (pos_forget b) = b_used b" "b_conf (pos_forget b) = b_conf b" "flag_of (pos_forget b) t = flag_of b t"
  "iovec_upto_date (pos_forget b) = iovec_upto_date b" "cache_vec (b_cache (pos_forget b)) = cache_vec (b_cache b)"
  by (simp_all add: pos_forget_def)

lemma pos_forget_ok: "pos_cache_ok (pos_forget b)"
  by (auto simp: pos_cache_ok_def vstr_cache_get_pos_def pos_forget_def split: option.split)

lemma del_fast_beg_spec:
  assumes inv: "vstr_inv base" and len: "b_nodes base \<noteq> []" "len + b_used base < node_len (hd (b_nodes base))" "0 < len"
  shows "vstr_inv (del_fast_beg base len) \<and> vstr_data (del_fast_beg base len) = drop len (vstr_data base)"
proof -
  let ?b = "del_fast_beg base len"
  have wf: "wf_base base" and ids: "ids_ok (b_conf base) (b_nodes base)" using inv by (simp_all add: vstr_inv_def)
  obtain n ns where ns: "b_nodes base = n # ns" using len(1) by (cases "b_nodes base") auto
  have nok: "node_ok (buf_sz (b_conf base)) n" using wf ns by (simp add: wf_base_iff)
  have sum: "node_len n + nodes_len ns = b_len base + b_used base" using wf ns by (simp add: wf_base_iff)
  have pc: "pos_cache_ok ?b" by (simp add: del_fast_beg_def Let_def pos_forget_ok)
  have fr: "b_len ?b = b_len base - len" "b_num ?b = b_num base" "b_conf ?b = b_conf base"
    "flag_of ?b t = flag_of base t" for t
    by (simp_all add: del_fast_beg_def Let_def)
  show ?thesis
  proof (cases "node_type n = NODE_BUF")
    case True
    then obtain i bs where n: "n = Node_buf i bs" by (cases n) auto
    have b: "b_nodes ?b = n # ns" "b_used ?b = b_used base + len"
      using True ns by (simp_all add: del_fast_beg_def Let_def)
    have "wf_base ?b" using wf len ns n sum b fr by (auto simp: wf_base_iff used_ok_def)
    moreover have "vstr_data ?b = drop len (vstr_data base)"
      unfolding vstr_data_def b ns drop_drop by (simp only: add.commute)
    ultimately show ?thesis using b ns ids fr pc by (simp add: vstr_inv_def)
  next
    case False
    then have u: "b_used base = 0" using wf ns by (auto simp: wf_base_iff used_ok_def)
    have b: "b_nodes ?b = node_cut_beg len n # ns" "b_used ?b = 0"
      using False ns u by (simp_all add: del_fast_beg_def Let_def)
    have lt: "len < node_len n" using len(2) ns u by simp
    note f = node_cut_beg_facts [OF nok len(3) lt]
    have "wf_base ?b" using wf lt ns sum b fr f u by (simp add: wf_base_iff)
    moreover have "len \<le> length (node_data n)" using lt node_data_length [OF nok] by simp
    ultimately show ?thesis
      using b ns ids fr pc f u by (simp add: vstr_inv_def vstr_data_def ids_ok_def ids_of_def)
  qed
qed

lemma del_fast_end_spec:
  assumes inv: "vstr_inv base" and ne: "b_nodes base \<noteq> []" and len: "0 < len" "len + (if length (b_nodes base) = 1 then b_used base else 0) < node_len (last (b_nodes base))"
  shows "vstr_inv (del_fast_end base pos len) \<and>
    vstr_data (del_fast_end base pos len) = take (b_len base - len) (vstr_data base)"
proof -
  let ?b = "del_fast_end base pos len" and ?ns = "b_nodes base" and ?n = "last (b_nodes base)"
  let ?as = "butlast (b_nodes base)" and ?m = "node_set_len (node_len ?n - len) ?n"
  have wf: "wf_base base" and ids: "ids_ok (b_conf base) ?ns" using inv by (simp_all add: vstr_inv_def)
  have ns: "?ns = ?as @ [?n]" using ne by simp
  have nok: "node_ok (buf_sz (b_conf base)) ?n" using wf ne by (intro wf_base_nodes_ok) simp_all
  have sum: "nodes_len ?as + node_len ?n = b_len base + b_used base"
    using wf arg_cong [OF ns, of nodes_len] by (simp add: wf_base_iff)
  have pc: "pos_cache_ok ?b" by (simp add: del_fast_end_def Let_def pos_forget_ok)
  have fr: "b_nodes ?b = ?as @ [?m]" "b_len ?b = b_len base - len" "b_num ?b = b_num base" "b_conf ?b = b_conf base"
    "b_used ?b = b_used base" "flag_of ?b t = flag_of base t" for t
    by (simp_all add: del_fast_end_def Let_def)
  have lt: "len < node_len ?n" using len(2) by simp
  have mok: "node_ok (buf_sz (b_conf base)) ?m" using node_set_len_ok [OF nok] lt by simp
  have ul: "b_used base \<le> nodes_len ?as + (node_len ?n - len)" and uo: "used_ok (b_used base) (?as @ [?m])"
  proof -
    have "used_ok (b_used base) (?as @ [?m]) \<and> b_used base \<le> nodes_len ?as + (node_len ?n - len)"
    proof (cases ?as)
      case Nil
      then have "?ns = [?n]" using ns by simp
      then have "used_ok (b_used base) [?n]" "length ?ns = 1"
        using wf by (metis wf_base_iff) (metis \<open>?ns = [?n]\<close> length_Cons list.size(3) One_nat_def)
      then show ?thesis using Nil len lt used_ok_head_len [of "b_used base" ?n "[]" "node_len ?n - len" "[]"] by simp
    next
      case (Cons x xs)
      then have c: "?ns = x # (xs @ [?n])" using ns by simp
      then have "used_ok (b_used base) (x # (xs @ [?n]))" using wf by (metis wf_base_iff)
      moreover have "x \<in> set ?ns" using c by (metis list.set_intros(1))
      then have "0 < node_len x" using wf by (simp add: wf_base_iff node_ok_def)
      ultimately have "used_ok (b_used base) (x # (xs @ [?n]))" "0 < node_len x" by simp_all
      then show ?thesis
        using Cons used_ok_tl [of "b_used base" x "xs @ [?n]" "xs @ [?m]"] used_ok_le [of "b_used base" x "xs @ [?n]"] by simp
    qed
    then show "used_ok (b_used base) (?as @ [?m])" "b_used base \<le> nodes_len ?as + (node_len ?n - len)" by simp_all
  qed
  have ok_as: "\<forall>x \<in> set ?as. node_ok (buf_sz (b_conf base)) x \<and> flag_of base (node_type x)"
    using wf by (auto simp: wf_base_iff dest: in_set_butlastD)
  have "flag_of base (node_type ?n)" using wf ne by (simp add: wf_base_iff)
  moreover have "length (?as @ [?m]) = b_num base"
  proof -
    have "length (?as @ [?m]) = length ?ns" using ne by simp
    then show ?thesis using wf by (metis wf_base_iff)
  qed
  ultimately have wf': "wf_base ?b"
    using wf fr uo ok_as mok sum lt ul by (auto simp: wf_base_iff node_set_len_len)
  have lA: "length (nodes_data ?as) = nodes_len ?as" using ok_as by (intro nodes_data_length) blast
  have "vstr_data base = drop (b_used base) (nodes_data ?as @ node_data ?n)"
    unfolding vstr_data_def by (subst ns) simp
  then have "take (b_len base - len) (vstr_data base) =
      drop (b_used base) (take (b_len base - len + b_used base) (nodes_data ?as @ node_data ?n))"
    by (simp only: take_drop)
  also have "b_len base - len + b_used base = nodes_len ?as + (node_len ?n - len)"
    using sum lt ul by linarith
  also have "drop (b_used base) (take \<dots> (nodes_data ?as @ node_data ?n)) = vstr_data ?b"
    using fr(1,5) lA by (simp add: vstr_data_def node_set_len_data)
  finally have "vstr_data ?b = take (b_len base - len) (vstr_data base)" by simp
  moreover have "map node_id (b_nodes ?b) = map node_id ?ns" using fr(1) arg_cong [OF ns, of "map node_id"] by simp
  then have "ids_ok (b_conf ?b) (b_nodes ?b)" using ids fr(4) by (simp add: ids_ok_def ids_of_def)
  ultimately show ?thesis using wf' pc by (simp add: vstr_inv_def)
qed

section \<open>The inline function deletes its range\<close>

text \<open>The bytes of a string fit in half of the address space.\<close>

definition fits_mem :: "vstr_base \<Rightarrow> bool" where
  "fits_mem base \<longleftrightarrow> b_len base + b_used base < 2 ^ 63"

lemma del_fast_end_guard:
  assumes wf: "wf_base base" and mem: "fits_mem base" and ne: "b_nodes base \<noteq> []"
    and pos: "pos \<le> b_len base" "pos > size_sub (b_len base) (del_end_len base - 1)"
    and len: "len = vstr_sc_posdiff pos (b_len base)"
  shows "len + (if length (b_nodes base) = 1 then b_used base else 0) < node_len (last (b_nodes base))"
proof (cases "length (b_nodes base) = 1")
  case True
  then obtain n where n: "b_nodes base = [n]" by (cases "b_nodes base") auto
  have sum: "node_len n = b_len base + b_used base" using wf n by (simp add: wf_base_iff)
  have "b_used base = 0"
  proof (rule ccontr)
    assume u: "b_used base \<noteq> 0"
    have e: "del_end_len base - 1 = b_len base + (2 * b_used base - 1)"
      using n sum u by (simp add: del_end_len_def)
    have "size_sub (b_len base) (del_end_len base - 1) = 2 ^ 64 - (2 * b_used base - 1)"
      unfolding e using mem u by (subst size_sub_wrap) (auto simp: fits_mem_def)
    then show False using pos mem by (simp add: fits_mem_def)
  qed
  moreover have "del_end_len base - 1 = b_len base - 1" using n sum \<open>b_used base = 0\<close> by (simp add: del_end_len_def)
  then have "size_sub (b_len base) (del_end_len base - 1) = (if b_len base = 0 then 0 else 1)"
    using mem by (simp add: size_sub_le fits_mem_def)
  ultimately show ?thesis using n sum pos len by (simp add: vstr_sc_posdiff_def split: if_splits)
next
  case False
  let ?l = "node_len (last (b_nodes base))"
  have "del_end_len base = ?l" using False by (simp add: del_end_len_def)
  moreover have "?l \<le> b_len base"
  proof -
    obtain n ms where n: "b_nodes base = n # ms" "ms \<noteq> []"
      using ne False by (cases "b_nodes base") auto
    then have "?l \<le> nodes_len ms" using node_len_le by simp
    moreover have "b_used base < node_len n"
      using used_ok_le [of "b_used base" n ms] wf n by (auto simp: wf_base_iff node_ok_def)
    ultimately show ?thesis using wf n by (simp add: wf_base_iff)
  qed
  moreover have "0 < ?l" using wf ne by (simp add: wf_base_iff node_ok_def)
  ultimately have "size_sub (b_len base) (del_end_len base - 1) = b_len base - (?l - 1)"
    using mem by (simp add: size_sub_le fits_mem_def)
  then show ?thesis using False pos len \<open>0 < ?l\<close> \<open>?l \<le> b_len base\<close> by (auto simp: vstr_sc_posdiff_def)
qed

lemma vstr_del_spec:
  assumes inv: "vstr_inv base" and mem: "fits_mem base" and pos: "1 \<le> pos" "pos + len \<le> Suc (b_len base)"
  shows "del_result base pos len (vstr_del base pos len)"
proof (cases "len = 0")
  case True
  then show ?thesis using inv by (simp add: vstr_del_def del_result_def)
next
  case False
  have wf: "wf_base base" using inv by (simp add: vstr_inv_def)
  let ?c = "(\<not> cache_available base \<or> cache_internal base) \<and> b_nodes base \<noteq> []"
  let ?A = "?c \<and> pos = 1 \<and> len + b_used base < node_len (hd (b_nodes base))"
  let ?B = "?c \<and> pos > size_sub (b_len base) (del_end_len base - 1) \<and> len = vstr_sc_posdiff pos (b_len base)"
  have le: "pos \<le> b_len base" using pos False by simp
  consider (beg) ?A | (tail) "\<not> ?A" ?B | (slow) "\<not> ?A" "\<not> ?B" by blast
  then show ?thesis
  proof cases
    case beg
    then have "vstr_del base pos len = (True, del_fast_beg base len)" using le False by (simp add: vstr_del_def)
    then show ?thesis
      using del_fast_beg_spec [OF inv, of len] beg False by (simp add: del_result_def del_at_def)
  next
    case tail
    then have "vstr_del base pos len = (True, del_fast_end base pos len)" using le False by (auto simp: vstr_del_def)
    moreover have "b_len base - len = pos - 1" "pos - 1 + len = b_len base"
      using tail pos le by (auto simp: vstr_sc_posdiff_def)
    ultimately show ?thesis
      using del_fast_end_spec [OF inv, of len pos] del_fast_end_guard [OF wf mem _ le] tail False vstr_data_length [OF wf]
      by (simp add: del_result_def del_at_def)
  next
    case slow
    then have "vstr_del base pos len = vstr_extern_inline_del base pos len" using le False by (auto simp: vstr_del_def)
    then show ?thesis using extern_inline_del_spec [OF inv pos(1) _ pos(2)] False by simp
  qed
qed

section \<open>Properties\<close>


lemma ex_abc_mem [simp]: "fits_mem ex_abc"
  by (simp add: fits_mem_def)

lemma ex_abc_del: "fst (vstr_del ex_abc 3 3)"
  by (simp add: vstr_del_def del_end_len_def size_sub_def SIZE_MOD_def vstr_sc_posdiff_def vstr_extern_inline_del_def
      vstr_sc_poslast_def vstr_base__pos_def)


end
