(* ===== verification/Vstr_Iter.thy ===== *)
theory Vstr_Iter
  imports Vstr_Add
begin

text \<open>
  Reading a string node by node (include/vstr-inline.h): \<^verbatim>\<open>vstr_iter_fwd_beg()\<close>, \<^verbatim>\<open>vstr_iter_fwd_nxt()\<close>
  and the functions built on them that read characters and buffers. What every function that walks over
  a string relies on is stated once, as the locale \<open>chunk_iter\<close>: an iterator stands for a list of elements and
  hands it out in pieces. The clients (comparing, spanning, searching, exporting) use the induction rule of
  the locale.
\<close>

section \<open>Iterators in general\<close>

locale chunk_iter =
  fixes inv :: "'i \<Rightarrow> bool" and chunk :: "'i \<Rightarrow> 'e list" and rest :: "'i \<Rightarrow> 'e list"
    and nxt :: "'i \<Rightarrow> 'i option" and size_of :: "'i \<Rightarrow> nat"
  assumes last_chunk: "inv i \<Longrightarrow> nxt i = None \<Longrightarrow> rest i = chunk i"
    and next_chunk: "inv i \<Longrightarrow> nxt i = Some j \<Longrightarrow> inv j \<and> rest i = chunk i @ rest j \<and> chunk j \<noteq> []"
    and next_less: "nxt i = Some j \<Longrightarrow> size_of j < size_of i"
begin

text \<open>The rule for loops of the form \<^verbatim>\<open>do { ... } while (nxt(iter))\<close>.\<close>

lemma chunk_induct [consumes 1, case_names last more]:
  assumes "inv i" and "\<And>i. inv i \<Longrightarrow> nxt i = None \<Longrightarrow> rest i = chunk i \<Longrightarrow> P i"
    and "\<And>i j. inv i \<Longrightarrow> nxt i = Some j \<Longrightarrow> inv j \<Longrightarrow> rest i = chunk i @ rest j \<Longrightarrow> chunk j \<noteq> [] \<Longrightarrow> P j \<Longrightarrow> P i"
  shows "P i"
  using assms(1)
proof (induction "size_of i" arbitrary: i rule: less_induct)
  case less
  show ?case
  proof (cases "nxt i")
    case None
    then show ?thesis using assms(2) less.prems last_chunk by blast
  next
    case (Some j)
    then show ?thesis using assms(3) less next_chunk next_less by blast
  qed
qed

lemma rest_nonempty: "inv i \<Longrightarrow> nxt i = Some j \<Longrightarrow> rest j \<noteq> []"
  using next_chunk last_chunk by (metis append_is_Nil_conv not_None_eq)

end

section \<open>The forward iterator\<close>

text \<open>
  \<^verbatim>\<open>struct Vstr_iter\<close>. The node pointer is the list of nodes from there on; the pointer to the data is the
  list of bytes that can be read through it up to the end of the node.
\<close>

record vstr_iter =
  iter_ptr :: "byte list option"
  iter_len :: nat
  iter_num :: nat
  iter_node :: "vstr_node list"
  iter_remaining :: nat

definition vstr_iter_fwd_beg :: "vstr_base \<Rightarrow> nat \<Rightarrow> nat \<Rightarrow> vstr_iter option \<times> vstr_base" where
  "vstr_iter_fwd_beg base pos len =
     (if \<not> (pos \<noteq> 0 \<and> ((pos \<le> b_len base \<and> vstr_sc_poslast pos len \<le> b_len base) \<or> len = 0)) then (None, base)
      else if len = 0 then (None, base)
      else (case vstr_base__pos base pos True of ((idx, p, num), b1) \<Rightarrow>
        let node = b_nodes b1 ! idx;
            off = p - 1;
            l = min (node_len node - off) len
        in (Some \<lparr>iter_ptr = (if node_type node \<noteq> NODE_NON then map_option (drop off) (node_bytes node) else None),
                  iter_len = l, iter_num = num, iter_node = drop idx (b_nodes b1),
                  iter_remaining = len - l\<rparr>, b1)))"

text \<open>
  \<^verbatim>\<open>vstr_iter_fwd_nxt()\<close>. While bytes remain there is a next node; the model also stops where the code would
  follow a null pointer.
\<close>

definition vstr_iter_fwd_nxt :: "vstr_iter \<Rightarrow> bool \<times> vstr_iter" where
  "vstr_iter_fwd_nxt iter =
     (case tl (iter_node iter) of
        [] \<Rightarrow> (False, iter\<lparr>iter_len := 0, iter_node := []\<rparr>)
      | node # ns \<Rightarrow>
          if iter_remaining iter = 0 then (False, iter\<lparr>iter_len := 0, iter_node := []\<rparr>)
          else let l = min (node_len node) (iter_remaining iter) in
            (True, \<lparr>iter_ptr = (if node_type node \<noteq> NODE_NON then node_bytes node else None),
                    iter_len = l, iter_num = iter_num iter + 1, iter_node = node # ns,
                    iter_remaining = iter_remaining iter - l\<rparr>))"

definition vstr_iter_len :: "vstr_iter \<Rightarrow> nat" where
  "vstr_iter_len iter = iter_len iter + iter_remaining iter"

definition vstr_iter_pos :: "vstr_iter \<Rightarrow> nat \<Rightarrow> nat \<Rightarrow> nat" where
  "vstr_iter_pos iter pos len =
     (if \<not> len \<ge> iter_len iter + iter_remaining iter then 0 else pos + (len - vstr_iter_len iter))"

lemma nxt_shorter: "vstr_iter_fwd_nxt it = (True, it') \<Longrightarrow> length (iter_node it') < length (iter_node it)"
  by (cases "iter_node it") (auto simp: vstr_iter_fwd_nxt_def Let_def split: list.splits if_splits)

section \<open>Reading through the iterator\<close>

datatype iter_type = ITER_DEF | ITER_NON | ITER_END

definition vstr_iter_fwd_chr :: "vstr_iter \<Rightarrow> byte \<times> iter_type \<times> vstr_iter" where
  "vstr_iter_fwd_chr iter =
     (case (if iter_len iter \<noteq> 0 then (True, iter) else vstr_iter_fwd_nxt iter) of
        (False, it) \<Rightarrow> (0, ITER_END, it)
      | (True, it) \<Rightarrow>
          let it1 = it\<lparr>iter_len := iter_len it - 1\<rparr> in
          (case iter_ptr it of
             None \<Rightarrow> (0, ITER_NON, it1)
           | Some b \<Rightarrow> (hd b, ITER_DEF, it1\<lparr>iter_ptr := Some (tl b)\<rparr>)))"

text \<open>
  The loop of \<^verbatim>\<open>vstr_iter_fwd_buf()\<close>. \<open>buf\<close> is the whole output buffer and \<open>off\<close> the place of the next
  byte in it; bytes of a \<^verbatim>\<open>NON\<close> node leave the buffer as it was.
\<close>

function iter_fwd_buf_loop ::
    "vstr_iter \<Rightarrow> nat \<Rightarrow> byte list \<Rightarrow> nat \<Rightarrow> nat \<Rightarrow> vstr_iter \<times> nat \<times> byte list" where
  "iter_fwd_buf_loop iter len buf off buf_len =
     (case (if iter_len iter \<noteq> 0 then (True, iter) else vstr_iter_fwd_nxt iter) of
        (False, it) \<Rightarrow> (it, len, buf)
      | (True, it) \<Rightarrow>
          if len = 0 then (it, len, buf)
          else
            let tmp = min len (iter_len it);
                tmp_buf_len = min tmp buf_len;
                buf1 = (case iter_ptr it of None \<Rightarrow> buf | Some b \<Rightarrow> vec_write off (take tmp_buf_len b) buf)
            in iter_fwd_buf_loop (it\<lparr>iter_len := iter_len it - tmp, iter_ptr := map_option (drop tmp) (iter_ptr it)\<rparr>)
                 (len - tmp) buf1 (off + tmp_buf_len) (buf_len - tmp_buf_len))"
  by pat_completeness auto
termination
proof (relation "measures [\<lambda>(it, _). length (iter_node it), \<lambda>(_, len, _). len]", goal_cases)
  case (2 iter len buf off buf_len)
  then show ?case
    using nxt_shorter [of iter] by (auto split: if_splits dest: sym)
qed simp

declare iter_fwd_buf_loop.simps [simp del]

definition vstr_iter_fwd_buf ::
    "vstr_iter \<Rightarrow> nat \<Rightarrow> byte list \<Rightarrow> nat \<Rightarrow> nat \<times> byte list \<times> iter_type \<times> vstr_iter" where
  "vstr_iter_fwd_buf iter len buf buf_len =
     (case (if iter_len iter \<noteq> 0 then (True, iter) else vstr_iter_fwd_nxt iter) of
        (False, it) \<Rightarrow> (0, buf, ITER_END, it)
      | (True, it) \<Rightarrow>
          (case iter_fwd_buf_loop it len buf 0 buf_len of
             (it', len', buf') \<Rightarrow> (len - len', buf', ITER_DEF, it')))"

function vstr_num_loop :: "vstr_iter \<Rightarrow> nat" where
  "vstr_num_loop iter =
     (case vstr_iter_fwd_nxt iter of (False, it) \<Rightarrow> iter_num it | (True, it) \<Rightarrow> vstr_num_loop it)"
  by pat_completeness auto
termination
  by (relation "measure (\<lambda>it. length (iter_node it))") (auto dest: nxt_shorter [OF sym])

declare vstr_num_loop.simps [simp del]

definition vstr_num :: "vstr_base \<Rightarrow> nat \<Rightarrow> nat \<Rightarrow> nat \<times> vstr_base" where
  "vstr_num base pos len =
     (if pos = 1 \<and> len = b_len base then (b_num base, base)
      else (case vstr_iter_fwd_beg base pos len of
              (None, b1) \<Rightarrow> (0, b1)
            | (Some it, b1) \<Rightarrow> ((vstr_num_loop it - iter_num it) + 1, b1)))"

section \<open>What an iterator stands for\<close>

definition iter_chunk :: "vstr_iter \<Rightarrow> content" where
  "iter_chunk it = (case iter_ptr it of None \<Rightarrow> replicate (iter_len it) None
                    | Some b \<Rightarrow> map Some (take (iter_len it) b))"

definition iter_rest :: "vstr_iter \<Rightarrow> content" where
  "iter_rest it = iter_chunk it @ take (iter_remaining it) (nodes_data (tl (iter_node it)))"

definition iter_inv :: "vstr_iter \<Rightarrow> bool" where
  "iter_inv it \<longleftrightarrow> iter_node it \<noteq> [] \<and> (\<exists>z. \<forall>n \<in> set (tl (iter_node it)). node_ok z n) \<and>
     iter_remaining it \<le> nodes_len (tl (iter_node it)) \<and>
     (case iter_ptr it of None \<Rightarrow> True | Some b \<Rightarrow> iter_len it \<le> length b)"

definition iter_next :: "vstr_iter \<Rightarrow> vstr_iter option" where
  "iter_next it = (case vstr_iter_fwd_nxt it of (False, _) \<Rightarrow> None | (True, it') \<Rightarrow> Some it')"

lemma iter_next_shorter: "iter_next it = Some it' \<Longrightarrow> length (iter_node it') < length (iter_node it)"
  by (auto simp: iter_next_def nxt_shorter split: prod.splits bool.splits)

lemma node_bytes_data:
  "node_bytes n = Some b \<Longrightarrow> node_data n = map Some b" "node_bytes n = None \<Longrightarrow> node_data n = replicate (node_len n) None"
  "node_bytes n = None \<longleftrightarrow> node_type n = NODE_NON"
  by (simp_all add: node_data_def) (cases n; simp)

lemma iter_chunk_length: "iter_inv it \<Longrightarrow> length (iter_chunk it) = iter_len it"
  by (auto simp: iter_inv_def iter_chunk_def split: option.splits)

lemma iter_rest_length: "iter_inv it \<Longrightarrow> length (iter_rest it) = vstr_iter_len it"
proof -
  assume it: "iter_inv it"
  then obtain z where "\<forall>n \<in> set (tl (iter_node it)). node_ok z n" by (auto simp: iter_inv_def)
  then have "length (nodes_data (tl (iter_node it))) = nodes_len (tl (iter_node it))" by (rule nodes_data_length)
  then show ?thesis
    using it iter_chunk_length [OF it] by (simp add: iter_rest_def vstr_iter_len_def iter_inv_def)
qed

lemma node_chunk:
  assumes "node_ok z n" "l = min (node_len n) k"
    and "it = \<lparr>iter_ptr = (if node_type n \<noteq> NODE_NON then node_bytes n else None), iter_len = l, iter_num = m,
       iter_node = n # ns, iter_remaining = r\<rparr>"
  shows "iter_chunk it = take l (node_data n)" "case iter_ptr it of None \<Rightarrow> True | Some b \<Rightarrow> iter_len it \<le> length b"
proof -
  have "node_data n = (case node_bytes n of None \<Rightarrow> replicate (node_len n) None | Some b \<Rightarrow> map Some b)"
    by (rule node_data_def)
  then show "iter_chunk it = take l (node_data n)"
    "case iter_ptr it of None \<Rightarrow> True | Some b \<Rightarrow> iter_len it \<le> length b"
    using assms node_data_length [OF assms(1)] node_bytes_data(3) [of n]
    by (auto simp: iter_chunk_def take_map split: option.splits)
qed

lemma iter_fwd_next:
  assumes it: "iter_inv it" and nx: "iter_next it = Some it'"
  shows "iter_inv it' \<and> iter_rest it = iter_chunk it @ iter_rest it' \<and> iter_chunk it' \<noteq> []"
proof -
  obtain n ns where ns: "tl (iter_node it) = n # ns" and r: "iter_remaining it \<noteq> 0"
    using nx by (auto simp: iter_next_def vstr_iter_fwd_nxt_def Let_def split: list.splits if_splits bool.splits)
  define l where "l = min (node_len n) (iter_remaining it)"
  have it': "it' = \<lparr>iter_ptr = (if node_type n \<noteq> NODE_NON then node_bytes n else None), iter_len = l,
       iter_num = iter_num it + 1, iter_node = n # ns, iter_remaining = iter_remaining it - l\<rparr>"
    using nx ns r by (simp add: iter_next_def vstr_iter_fwd_nxt_def Let_def l_def)
  obtain z where ok: "\<forall>m \<in> set (n # ns). node_ok z m" using it ns by (auto simp: iter_inv_def)
  then have nok: "node_ok z n" "0 < node_len n" by (auto simp: node_ok_def)
  note nc = node_chunk [OF nok(1) l_def it']
  have rem: "iter_remaining it \<le> node_len n + nodes_len ns" using it ns by (simp add: iter_inv_def)
  have "iter_node it' = n # ns" "iter_remaining it' \<le> nodes_len ns" using rem by (auto simp: it' l_def)
  then have "iter_inv it'" using nc(2) ok unfolding iter_inv_def by auto
  moreover have "take (iter_remaining it) (nodes_data (n # ns)) = iter_rest it'"
    using nc(1) node_data_length [OF nok(1)] by (auto simp: iter_rest_def it' l_def min_def)
  moreover have "0 < l" using nok(2) r by (simp add: l_def)
  then have "iter_chunk it' \<noteq> []" using nc(1) node_data_length [OF nok(1)] nok(2) by auto
  ultimately show ?thesis by (simp add: iter_rest_def ns)
qed

lemma iter_fwd_last:
  assumes "iter_inv it" "iter_next it = None"
  shows "iter_rest it = iter_chunk it"
proof -
  have "iter_remaining it = 0"
    using assms by (auto simp: iter_inv_def iter_next_def vstr_iter_fwd_nxt_def Let_def split: list.splits if_splits)
  then show ?thesis by (simp add: iter_rest_def)
qed

interpretation fwd: chunk_iter iter_inv iter_chunk iter_rest iter_next "\<lambda>it. length (iter_node it)"
  by unfold_locales (use iter_fwd_last iter_fwd_next iter_next_shorter in blast)+

text \<open>The iterator that \<^verbatim>\<open>vstr_iter_fwd_beg()\<close> sets up stands for the range it was given.\<close>

lemma iter_fwd_beg_spec:
  assumes inv: "vstr_inv base" and rng: "1 \<le> pos" "pos + len \<le> Suc (b_len base)" "0 < len"
  obtains it b' where "vstr_iter_fwd_beg base pos len = (Some it, b')" "iter_inv it" "iter_chunk it \<noteq> []"
    "iter_rest it = take len (drop (pos - 1) (vstr_data base))" "same_but_cache base b'" "vstr_inv b'"
proof -
  have wf: "wf_base base" and ids: "ids_distinct base" and pc: "pos_cache_ok base"
    using inv ids_ok_distinct by (auto simp: vstr_inv_def ids_distinct_def)
  have le: "pos \<le> b_len base" using rng by simp
  obtain idx p num b1 where 1: "vstr_base__pos base pos True = ((idx, p, num), b1)" by (metis surj_pair)
  have at: "at_pos base pos idx p" and same: "same_but_cache base b1" and pc1: "pos_cache_ok b1"
    using base__pos_at_pos [OF wf ids pc rng(1) le 1] by auto
  note fr = same_but_cache_frame [OF same]
  let ?ns = "b_nodes base" and ?n = "b_nodes base ! idx"
  define l where "l = min (node_len ?n - (p - 1)) len"
  define it where "it = \<lparr>iter_ptr = (if node_type ?n \<noteq> NODE_NON then map_option (drop (p - 1)) (node_bytes ?n) else None),
      iter_len = l, iter_num = num, iter_node = drop idx ?ns, iter_remaining = len - l\<rparr>"
  have beg: "vstr_iter_fwd_beg base pos len = (Some it, b1)"
  proof -
    have "vstr_sc_poslast pos len \<le> b_len base" using rng by (simp add: vstr_sc_poslast_def)
    then show ?thesis using rng le 1 fr(1) by (simp add: vstr_iter_fwd_beg_def it_def l_def Let_def)
  qed
  have idx: "idx < length ?ns" and p: "1 \<le> p" "p \<le> node_len ?n" and sum: "pos + b_used base = nodes_len (take idx ?ns) + p"
    using at by (simp_all add: at_pos_def)
  have ok: "\<forall>n \<in> set ?ns. node_ok (buf_sz (b_conf base)) n" using wf by (simp add: wf_base_iff)
  have nok: "node_ok (buf_sz (b_conf base)) ?n" using ok idx by simp
  have dl: "length (node_data ?n) = node_len ?n" using node_data_length [OF nok] .
  have tl: "tl (drop idx ?ns) = drop (Suc idx) ?ns" by (simp add: drop_Suc tl_drop)
  have ch: "iter_chunk it = take l (drop (p - 1) (node_data ?n)) \<and>
      (case iter_ptr it of None \<Rightarrow> True | Some b \<Rightarrow> iter_len it \<le> length b)"
    using dl node_data_def [of ?n] node_bytes_data(3) [of ?n] p
    by (auto simp: it_def iter_chunk_def l_def take_map drop_map split: option.splits)
  have "nodes_len ?ns = nodes_len (take idx ?ns) + node_len ?n + nodes_len (drop (Suc idx) ?ns)"
    using arg_cong [OF id_take_nth_drop [OF idx], of nodes_len] by simp
  then have rem: "len - l \<le> nodes_len (drop (Suc idx) ?ns)"
    using wf_base_sum [OF wf] sum rng p by (auto simp: l_def)
  have sel: "iter_node it = drop idx ?ns" "iter_remaining it = len - l" "iter_len it = l" by (simp_all add: it_def)
  have ii: "iter_inv it"
    using ch ok rem idx unfolding iter_inv_def sel tl by (auto dest: in_set_dropD intro!: exI [of _ "buf_sz (b_conf base)"])
  have "drop (pos - 1) (vstr_data base) = drop (p - 1) (node_data ?n) @ nodes_data (drop (Suc idx) ?ns)"
  proof -
    have "length (nodes_data (take idx ?ns)) = nodes_len (take idx ?ns)" using ok by (rule nodes_len_take)
    moreover have e: "pos - 1 + b_used base = nodes_len (take idx ?ns) + (p - 1)" using sum rng(1) p by simp
    ultimately show ?thesis
      unfolding vstr_data_def drop_drop e using nodes_split_nth [OF idx] dl p by simp
  qed
  then have "iter_rest it = take len (drop (pos - 1) (vstr_data base))"
    using ch dl by (auto simp: iter_rest_def tl sel l_def min_def)
  moreover have "0 < l" using p rng(3) by (simp add: l_def)
  then have "iter_chunk it \<noteq> []" using ch dl p by (auto simp: l_def)
  moreover have "vstr_inv b1" using inv fr pc1 by (simp add: vstr_inv_def)
  ultimately show thesis using that beg ii same by blast
qed

section \<open>Characters and buffers\<close>

lemma iter_step_more:
  assumes "iter_inv it" "iter_len it = 0"
  shows "case vstr_iter_fwd_nxt it of (False, _) \<Rightarrow> iter_rest it = []
    | (True, it') \<Rightarrow> iter_inv it' \<and> iter_rest it = iter_rest it' \<and> iter_len it' \<noteq> 0"
proof -
  have c: "iter_chunk it = []" using iter_chunk_length [OF assms(1)] assms(2) by simp
  show ?thesis
  proof (cases "vstr_iter_fwd_nxt it")
    case (Pair r it')
    show ?thesis
    proof (cases r)
      case True
      then have "iter_next it = Some it'" using Pair by (simp add: iter_next_def)
      then have "iter_inv it' \<and> iter_rest it = iter_chunk it @ iter_rest it' \<and> iter_chunk it' \<noteq> []"
        using fwd.next_chunk [OF assms(1)] by blast
      then show ?thesis using c Pair True iter_chunk_length [of it'] by (auto simp flip: length_greater_0_conv)
    next
      case False
      then have "iter_next it = None" using Pair by (simp add: iter_next_def)
      then show ?thesis using fwd.last_chunk [OF assms(1)] c Pair False by simp
    qed
  qed
qed

text \<open>Skipping to an unread piece: the common first step of the readers.\<close>

lemma iter_step:
  assumes "iter_inv it"
  obtains (fin) it' where "(if iter_len it \<noteq> 0 then (True, it) else vstr_iter_fwd_nxt it) = (False, it')" "iter_rest it = []"
    | (more) it' where "(if iter_len it \<noteq> 0 then (True, it) else vstr_iter_fwd_nxt it) = (True, it')"
      "iter_inv it'" "iter_rest it' = iter_rest it" "iter_len it' \<noteq> 0"
  using iter_step_more [OF assms] assms by (cases "iter_len it = 0"; cases "vstr_iter_fwd_nxt it") (auto split: bool.splits)

lemma iter_advance:
  assumes "iter_inv it" "k \<le> iter_len it"
  defines "it' \<equiv> it\<lparr>iter_len := iter_len it - k, iter_ptr := map_option (drop k) (iter_ptr it)\<rparr>"
  shows "iter_inv it'" "iter_rest it' = drop k (iter_rest it)"
proof -
  show "iter_inv it'" using assms by (auto simp: iter_inv_def split: option.splits)
  have "length (iter_chunk it) = iter_len it" using iter_chunk_length [OF assms(1)] .
  moreover have "iter_chunk it' = drop k (iter_chunk it)"
    using assms(2) by (cases "iter_ptr it") (simp_all add: iter_chunk_def it'_def drop_map drop_take)
  ultimately show "iter_rest it' = drop k (iter_rest it)" using assms(2) by (simp add: iter_rest_def it'_def)
qed

lemma iter_fwd_chr_spec:
  assumes it: "iter_inv it"
  shows "case iter_rest it of
      [] \<Rightarrow> fst (vstr_iter_fwd_chr it) = 0 \<and> fst (snd (vstr_iter_fwd_chr it)) = ITER_END
    | x # xs \<Rightarrow> (case vstr_iter_fwd_chr it of (c, t, it') \<Rightarrow> iter_inv it' \<and> iter_rest it' = xs \<and>
        (c, t) = (case x of None \<Rightarrow> (0, ITER_NON) | Some b \<Rightarrow> (b, ITER_DEF)))"
  using it
proof (cases rule: iter_step)
  case (fin it')
  then show ?thesis by (simp add: vstr_iter_fwd_chr_def)
next
  case (more it1)
  have "length (iter_chunk it1) = iter_len it1" using iter_chunk_length [OF more(2)] .
  then obtain x cs where ch: "iter_chunk it1 = x # cs" using more(4) by (cases "iter_chunk it1") auto
  then obtain xs where r: "iter_rest it1 = x # xs" by (simp add: iter_rest_def)
  note adv = iter_advance [OF more(2), of 1]
  have ptr: "x = None" if "iter_ptr it1 = None"
    using that ch more(4) by (cases "iter_len it1") (simp_all add: iter_chunk_def)
  have ptr': "x = Some (hd b)" "b \<noteq> []" if "iter_ptr it1 = Some b" for b
    using that ch more(4) by (cases b; cases "iter_len it1"; simp add: iter_chunk_def)+
  have r0: "iter_rest it = x # xs" using r more(3) by simp
  show ?thesis
  proof (cases "iter_ptr it1")
    case None
    then have "it1\<lparr>iter_len := iter_len it1 - 1, iter_ptr := map_option (drop 1) (iter_ptr it1)\<rparr> = it1\<lparr>iter_len := iter_len it1 - 1\<rparr>"
      by (cases it1) simp
    then have "iter_inv (it1\<lparr>iter_len := iter_len it1 - 1\<rparr>)" "iter_rest (it1\<lparr>iter_len := iter_len it1 - 1\<rparr>) = xs"
      using adv more(4) r by simp_all
    then show ?thesis
      using r0 more(1) ptr [OF None] None by (simp add: vstr_iter_fwd_chr_def Let_def)
  next
    case (Some b)
    then show ?thesis
      using r0 r more adv ptr' [OF Some] by (simp add: vstr_iter_fwd_chr_def Let_def drop_Suc)
  qed
qed

text \<open>Writing content into a buffer: positions without a byte leave the buffer as it was.\<close>

fun overlay :: "content \<Rightarrow> byte list \<Rightarrow> byte list" where
  "overlay (c # cs) (b # bs) = (case c of None \<Rightarrow> b | Some x \<Rightarrow> x) # overlay cs bs"
| "overlay _ bs = bs"

lemma overlay_Nil [simp]: "overlay [] bs = bs"
  by (cases bs) simp_all

lemma overlay_length [simp]: "length (overlay cs bs) = length bs"
  by (induction cs bs rule: overlay.induct) simp_all

lemma overlay_append: "overlay (as @ cs) bs = take (length as) (overlay as bs) @ overlay cs (drop (length as) bs)"
  by (induction as arbitrary: bs) (simp, case_tac bs, auto)

lemma overlay_Some: "length xs \<le> length bs \<Longrightarrow> overlay (map Some xs) bs = xs @ drop (length xs) bs"
  by (induction xs arbitrary: bs) (simp, case_tac bs, auto)

lemma overlay_None: "overlay (replicate n None) bs = bs"
proof (induction n arbitrary: bs)
  case (Suc n)
  then show ?case by (cases bs) simp_all
qed simp

lemma overlay_drop: "drop n (overlay cs bs) = (if length cs \<le> n then drop n bs else drop n (overlay cs bs))"
proof (induction cs arbitrary: n bs)
  case (Cons c cs)
  then show ?case by (cases bs; cases n) (auto, metis)
qed simp

text \<open>One piece written at an offset.\<close>

lemma write_chunk:
  assumes "off + k \<le> length buf" "k \<le> iter_len it" "iter_inv it"
  shows "(case iter_ptr it of None \<Rightarrow> buf | Some b \<Rightarrow> vec_write off (take k b) buf) =
    take off buf @ overlay (take k (iter_chunk it)) (drop off buf)"
proof (cases "iter_ptr it")
  case None
  then show ?thesis using assms by (simp add: iter_chunk_def overlay_None)
next
  case (Some b)
  then have "k \<le> length b" using assms by (simp add: iter_inv_def)
  then show ?thesis
    using Some assms by (simp add: iter_chunk_def take_map vec_write_def overlay_Some min_def add.commute)
qed

lemma overlay_step:
  assumes "off \<le> length buf" "length as = k"
  defines "buf1 \<equiv> take off buf @ overlay as (drop off buf)"
  shows "take (off + k) buf1 @ overlay cs (drop (off + k) buf1) = take off buf @ overlay (as @ cs) (drop off buf)"
proof -
  have "drop k (overlay as (drop off buf)) = drop k (drop off buf)"
    using overlay_drop [of k as "drop off buf"] assms(2) by simp
  then show ?thesis using assms(1,2) by (simp add: buf1_def overlay_append)
qed

lemma nxt_end_rest: "vstr_iter_fwd_nxt it = (False, it') \<Longrightarrow> iter_rest it' = []"
  by (auto simp: vstr_iter_fwd_nxt_def iter_rest_def iter_chunk_def Let_def split: list.splits if_splits option.splits)

lemma buf_loop_spec:
  assumes "iter_inv it" "off + buf_len \<le> length buf"
    and "iter_fwd_buf_loop it len buf off buf_len = (it', len', buf')"
  shows "iter_rest it' = drop len (iter_rest it) \<and> len' = len - length (iter_rest it) \<and>
    buf' = take off buf @ overlay (take (min len buf_len) (iter_rest it)) (drop off buf)"
  using assms
proof (induction it len buf off buf_len rule: iter_fwd_buf_loop.induct)
  case (1 it len buf off buf_len)
  note u = 1(4) [unfolded iter_fwd_buf_loop.simps [of it len buf off buf_len]]
  show ?case
    using 1(2)
  proof (cases rule: iter_step)
    case (fin it1)
    then have "it' = it1" "len' = len" "buf' = buf" using u by simp_all
    moreover have "iter_rest it1 = []" using fin nxt_end_rest by (auto split: if_splits)
    ultimately show ?thesis using fin(2) by simp
  next
    case (more it1)
    show ?thesis
    proof (cases "len = 0")
      case True
      then show ?thesis using more u by simp
    next
      case False
      define tmp where "tmp = min len (iter_len it1)"
      define k where "k = min tmp buf_len"
      define buf1 where "buf1 = (case iter_ptr it1 of None \<Rightarrow> buf | Some b \<Rightarrow> vec_write off (take k b) buf)"
      define it2 where "it2 = it1\<lparr>iter_len := iter_len it1 - tmp, iter_ptr := map_option (drop tmp) (iter_ptr it1)\<rparr>"
      have tl: "tmp \<le> iter_len it1" "k \<le> iter_len it1" "k \<le> buf_len" "tmp \<le> len" by (auto simp: tmp_def k_def)
      note it2 = iter_advance [OF more(2) tl(1), folded it2_def]
      have cl: "length (iter_chunk it1) = iter_len it1" using iter_chunk_length [OF more(2)] .
      have b1: "buf1 = take off buf @ overlay (take k (iter_chunk it1)) (drop off buf)"
        unfolding buf1_def using 1(3) tl by (intro write_chunk more(2)) simp_all
      have "iter_fwd_buf_loop it2 (len - tmp) buf1 (off + k) (buf_len - k) = (it', len', buf')"
        using u more(1) False unfolding it2_def buf1_def k_def tmp_def Let_def by simp
      then have IH: "iter_rest it' = drop (len - tmp) (iter_rest it2) \<and> len' = len - tmp - length (iter_rest it2) \<and>
          buf' = take (off + k) buf1 @ overlay (take (min (len - tmp) (buf_len - k)) (iter_rest it2)) (drop (off + k) buf1)"
        using 1(1) [OF more(1) [symmetric] _ False tmp_def k_def buf1_def, folded it2_def] it2(1) b1 1(3) tl by simp
      have le: "tmp \<le> length (iter_rest it1)" using cl tl by (simp add: iter_rest_def)
      have "take k (iter_chunk it1) @ take (min (len - tmp) (buf_len - k)) (iter_rest it2) = take (min len buf_len) (iter_rest it1)"
      proof (cases "buf_len \<ge> tmp")
        case True
        then have "k = tmp" "min len buf_len = tmp + min (len - tmp) (buf_len - k)" using tl by (auto simp: k_def)
        moreover have "take tmp (iter_rest it1) = take tmp (iter_chunk it1)" using cl tl by (simp add: iter_rest_def)
        ultimately show ?thesis using it2(2) by (simp add: take_add)
      next
        case False
        then have "k = buf_len" "min len buf_len = buf_len" using tl by (auto simp: k_def)
        then show ?thesis using cl tl by (simp add: iter_rest_def)
      qed
      moreover have "length (take k (iter_chunk it1)) = k" using cl tl by simp
      ultimately have "buf' = take off buf @ overlay (take (min len buf_len) (iter_rest it)) (drop off buf)"
        using IH overlay_step [of off buf "take k (iter_chunk it1)" k] b1 1(3) more(3) by simp
      then show ?thesis using IH it2(2) le more(3) tl by simp
    qed
  qed
qed

text \<open>
  Reading into a buffer consumes as many elements as asked for and stores as many of them as fit.
\<close>

lemma iter_fwd_buf_spec:
  assumes "iter_inv it" "buf_len \<le> length buf" "vstr_iter_fwd_buf it len buf buf_len = (n, buf', t, it')"
  shows "n = min len (length (iter_rest it))" "iter_rest it' = drop len (iter_rest it)"
    "buf' = overlay (take (min len buf_len) (iter_rest it)) buf" "t = ITER_END \<longleftrightarrow> iter_rest it = []"
proof -
  have "n = min len (length (iter_rest it)) \<and> iter_rest it' = drop len (iter_rest it) \<and>
    buf' = overlay (take (min len buf_len) (iter_rest it)) buf \<and> (t = ITER_END \<longleftrightarrow> iter_rest it = [])"
    using assms(1)
  proof (cases rule: iter_step)
    case (fin it1)
    then show ?thesis using assms(3) nxt_end_rest by (auto simp: vstr_iter_fwd_buf_def split: if_splits)
  next
    case (more it1)
    obtain i2 l2 b2 where L: "iter_fwd_buf_loop it1 len buf 0 buf_len = (i2, l2, b2)" by (metis prod_cases3)
    have "iter_rest it1 \<noteq> []" using iter_chunk_length [OF more(2)] more(4) by (auto simp: iter_rest_def)
    then show ?thesis
      using buf_loop_spec [OF more(2) _ L] assms(2,3) more L by (auto simp: vstr_iter_fwd_buf_def)
  qed
  then show "n = min len (length (iter_rest it))" "iter_rest it' = drop len (iter_rest it)"
    "buf' = overlay (take (min len buf_len) (iter_rest it)) buf" "t = ITER_END \<longleftrightarrow> iter_rest it = []" by simp_all
qed

section \<open>Properties\<close>

text \<open>
  Starting an iteration. For a non-empty range of a string, \<^verbatim>\<open>vstr_iter_fwd_beg()\<close> succeeds, and the iterator
  stands for exactly the elements of the range; the string changes only in its position cache.
\<close>

lemma iter_fwd_beg_correct:
  assumes "vstr_inv base" "1 \<le> pos" "pos + len \<le> Suc (b_len base)" "0 < len"
  shows "case vstr_iter_fwd_beg base pos len of (r, base') \<Rightarrow>
    vstr_inv base' \<and> vstr_data base' = vstr_data base \<and>
    (case r of None \<Rightarrow> False
     | Some it \<Rightarrow> iter_inv it \<and> iter_rest it = take len (drop (pos - 1) (vstr_data base)))"
  using assms
proof (rule iter_fwd_beg_spec)
  fix it b'
  assume "vstr_iter_fwd_beg base pos len = (Some it, b')" "iter_inv it" "vstr_inv b'" "same_but_cache base b'"
    "iter_rest it = take len (drop (pos - 1) (vstr_data base))"
  then show ?thesis using same_but_cache_frame [of base b'] by simp
qed

lemma iter_fwd_beg_correct_witness:
  "case fst (vstr_iter_fwd_beg ex_abc 3 3) of None \<Rightarrow> False
   | Some it \<Rightarrow> iter_rest it = [Some 99, Some 100, Some 101]"
  using iter_fwd_beg_correct [of ex_abc 3 3] by (simp split: prod.splits option.splits)

text \<open>
  Reading characters. \<^verbatim>\<open>vstr_iter_fwd_chr()\<close> returns the elements an iterator stands for one after the
  other, telling bytes, positions without a byte and the end apart.
\<close>

lemma iter_fwd_chr_correct:
  assumes "iter_inv it"
  shows "case iter_rest it of
      [] \<Rightarrow> fst (vstr_iter_fwd_chr it) = 0 \<and> fst (snd (vstr_iter_fwd_chr it)) = ITER_END
    | x # xs \<Rightarrow> (case vstr_iter_fwd_chr it of (c, t, it') \<Rightarrow> iter_inv it' \<and> iter_rest it' = xs \<and>
        (c, t) = (case x of None \<Rightarrow> (0, ITER_NON) | Some b \<Rightarrow> (b, ITER_DEF)))"
  by (rule iter_fwd_chr_spec [OF assms])

definition ex_iter :: vstr_iter where
  "ex_iter = \<lparr>iter_ptr = Some [99, 100], iter_len = 2, iter_num = 1,
     iter_node = [Node_buf 1 [97, 98, 99, 100], Node_buf 2 [101, 102]], iter_remaining = 1\<rparr>"

lemma ex_iter_inv: "iter_inv ex_iter" "iter_rest ex_iter = [Some 99, Some 100, Some 101]"
  by (auto simp: iter_inv_def iter_rest_def iter_chunk_def ex_iter_def node_simps intro: exI [of _ 4])

lemma iter_fwd_chr_correct_witness:
  "fst (vstr_iter_fwd_chr ex_iter) = 99 \<and> iter_rest (snd (snd (vstr_iter_fwd_chr ex_iter))) = [Some 100, Some 101]"
  using iter_fwd_chr_correct [OF ex_iter_inv(1)] by (simp add: ex_iter_inv(2) split: prod.splits)

text \<open>
  Reading into a buffer. \<^verbatim>\<open>vstr_iter_fwd_buf()\<close> consumes \<open>len\<close> elements (or what is left), returns how many, and
  stores those that fit into the buffer, across as many nodes as it takes.
\<close>

lemma iter_fwd_buf_correct:
  assumes "iter_inv it" "buf_len \<le> length buf"
  shows "case vstr_iter_fwd_buf it len buf buf_len of (n, buf', t, it') \<Rightarrow>
    n = min len (length (iter_rest it)) \<and> iter_rest it' = drop len (iter_rest it) \<and>
    buf' = overlay (take (min len buf_len) (iter_rest it)) buf \<and> (t = ITER_END \<longleftrightarrow> iter_rest it = [])"
  using iter_fwd_buf_spec [OF assms] by (simp split: prod.splits)

lemma iter_fwd_buf_correct_witness:
  "fst (snd (vstr_iter_fwd_buf ex_iter 3 [0, 0, 0, 0] 4)) = [99, 100, 101, 0]"
  using iter_fwd_buf_correct [OF ex_iter_inv(1), of 4 "[0, 0, 0, 0]" 3]
  by (simp add: ex_iter_inv(2) split: prod.splits)

end
