(* ===== verification/Vstr_Export.thy ===== *)
theory Vstr_Export
  imports Vstr_Iter Vstr_Iovec
begin

text \<open>
  Getting the data of a string out of it (src/vstr_export.c): into one buffer, into an array of buffers
  (\<^verbatim>\<open>readv()\<close> style), or as an array of pointers to the data of the nodes. The loops run over the pieces of a
  forward iterator, and what they store is the data of the range, whatever its nodes are.
\<close>

section \<open>One buffer\<close>

text \<open>The copy of one piece to a place in a buffer; a \<^verbatim>\<open>NON\<close> node has nothing to copy.\<close>

definition copy_chunk :: "vstr_iter \<Rightarrow> nat \<Rightarrow> nat \<Rightarrow> byte list \<Rightarrow> byte list" where
  "copy_chunk iter off k buf = (case iter_ptr iter of None \<Rightarrow> buf | Some b \<Rightarrow> vec_write off (take k b) buf)"

function export_buf_loop :: "vstr_iter \<Rightarrow> byte list \<Rightarrow> nat \<Rightarrow> byte list" where
  "export_buf_loop iter buf off =
     (let buf1 = copy_chunk iter off (iter_len iter) buf in
      case vstr_iter_fwd_nxt iter of
        (False, _) \<Rightarrow> buf1
      | (True, it) \<Rightarrow> export_buf_loop it buf1 (off + iter_len iter))"
  by pat_completeness auto
termination
  by (relation "measure (\<lambda>(it, _). length (iter_node it))") (auto dest: nxt_shorter [OF sym])

declare export_buf_loop.simps [simp del]

definition vstr_export_buf ::
    "vstr_base \<Rightarrow> nat \<Rightarrow> nat \<Rightarrow> byte list \<Rightarrow> nat \<Rightarrow> nat \<times> byte list \<times> vstr_base" where
  "vstr_export_buf base pos orig_len buf buf_len =
     (if \<not> (pos \<noteq> 0 \<and> ((pos \<le> b_len base \<and> vstr_sc_poslast pos orig_len \<le> b_len base) \<or> orig_len = 0))
      then (0, buf, base)
      else if buf_len = 0 then (0, buf, base)
      else let len = (if orig_len > buf_len then buf_len else orig_len) in
        (case vstr_iter_fwd_beg base pos len of
           (None, b1) \<Rightarrow> (0, buf, b1)
         | (Some it, b1) \<Rightarrow> (len, export_buf_loop it buf 0, b1)))"

section \<open>An array of pointers\<close>

text \<open>
  An entry of the caller's array: the memory its \<^verbatim>\<open>iov_base\<close> points to (nothing for a \<^verbatim>\<open>NON\<close> node) and \<^verbatim>\<open>iov_len\<close>.
\<close>

type_synonym iov_ptr = "byte list option \<times> nat"

function iovec_cpy_ptr_loop ::
    "vstr_iter \<Rightarrow> nat \<Rightarrow> iov_ptr list \<Rightarrow> nat \<Rightarrow> nat \<Rightarrow> iov_ptr list \<times> nat \<times> nat" where
  "iovec_cpy_ptr_loop iter num_max iovs ret_num ret_len =
     (let iovs1 = iovs[ret_num := (iter_ptr iter, iter_len iter)];
          ret_len1 = ret_len + iter_len iter;
          ret_num1 = ret_num + 1
      in if ret_num1 < num_max then
           (case vstr_iter_fwd_nxt iter of
              (False, _) \<Rightarrow> (iovs1, ret_num1, ret_len1)
            | (True, it) \<Rightarrow> iovec_cpy_ptr_loop it num_max iovs1 ret_num1 ret_len1)
         else (iovs1, ret_num1, ret_len1))"
  by pat_completeness auto
termination
  by (relation "measure (\<lambda>(it, _). length (iter_node it))") (auto dest: nxt_shorter [OF sym])

declare iovec_cpy_ptr_loop.simps [simp del]

text \<open>The result: the returned length, the array, the number stored through \<^verbatim>\<open>real_ret_num\<close> (if any), the string.\<close>

definition vstr_export_iovec_cpy_ptr ::
    "vstr_base \<Rightarrow> nat \<Rightarrow> nat \<Rightarrow> iov_ptr list \<Rightarrow> nat \<Rightarrow> nat \<times> iov_ptr list \<times> nat option \<times> vstr_base" where
  "vstr_export_iovec_cpy_ptr base pos len iovs num_max =
     (if num_max = 0 then (0, iovs, None, base)
      else (case vstr_iter_fwd_beg base pos len of
              (None, b1) \<Rightarrow> (0, iovs, None, b1)
            | (Some it, b1) \<Rightarrow>
                (case iovec_cpy_ptr_loop it num_max iovs 0 0 of
                   (iovs1, ret_num, ret_len) \<Rightarrow> (ret_len, iovs1, Some ret_num, b1))))"

section \<open>An array of buffers\<close>

text \<open>
  An entry here is a buffer of the caller and \<^verbatim>\<open>iov_len\<close>, which the function reduces for the last buffer when it
  is not filled.
\<close>

type_synonym iov_buf = "byte list \<times> nat"

function iovec_cpy_buf_loop ::
    "vstr_iter \<Rightarrow> nat \<Rightarrow> iov_buf list \<Rightarrow> nat \<Rightarrow> nat \<Rightarrow> nat \<Rightarrow> iov_buf list \<times> nat \<times> nat \<times> nat" where
  "iovec_cpy_buf_loop iter num_max iovs ret_num used ret_len =
     (let space = snd (iovs ! ret_num) - used;
          tmp = (if iter_len iter > space then space else iter_len iter);
          iovs1 = iovs[ret_num := (copy_chunk iter used tmp (fst (iovs ! ret_num)), snd (iovs ! ret_num))];
          it1 = iter\<lparr>iter_len := iter_len iter - tmp, iter_ptr := map_option (drop tmp) (iter_ptr iter)\<rparr>;
          ret_len1 = ret_len + tmp;
          full = (snd (iovs ! ret_num) = used + tmp);
          used1 = (if full then 0 else used + tmp);
          ret_num1 = (if full then ret_num + 1 else ret_num)
      in if full \<and> ret_num1 \<ge> num_max then (iovs1, ret_num1, used1, ret_len1)
         else if iter_len it1 \<noteq> 0 \<and> \<not> full then (iovs1, ret_num1, used1, ret_len1)
         else (case (if iter_len it1 \<noteq> 0 then (True, it1) else vstr_iter_fwd_nxt it1) of
                 (False, _) \<Rightarrow> (iovs1, ret_num1, used1, ret_len1)
               | (True, it2) \<Rightarrow> iovec_cpy_buf_loop it2 num_max iovs1 ret_num1 used1 ret_len1))"
  by pat_completeness auto
termination
proof (relation "measures [\<lambda>(it, _). length (iter_node it), \<lambda>(_, m, _, k, _). m - k]", goal_cases)
  case 1
  show ?case by simp
next
  case (2 iter num_max iovs ret_num used ret_len space tmp iovs1 it1 ret_len1 full used1 ret_num1 ok it2)
  have nodes: "iter_node it1 = iter_node iter" using 2(4) by simp
  show ?case
  proof (cases "iter_len it1 \<noteq> 0")
    case True
    then have "full" "ret_num1 < num_max" "ret_num1 = ret_num + 1" "it2 = it1"
      using 2(6,8-) by (auto split: if_splits)
    then show ?thesis using nodes by simp
  next
    case False
    then have "vstr_iter_fwd_nxt it1 = (True, it2)" using 2(11-) by simp
    then show ?thesis using nxt_shorter nodes by fastforce
  qed
qed

declare iovec_cpy_buf_loop.simps [simp del]

definition vstr_export_iovec_cpy_buf ::
    "vstr_base \<Rightarrow> nat \<Rightarrow> nat \<Rightarrow> iov_buf list \<Rightarrow> nat \<Rightarrow> nat \<times> iov_buf list \<times> nat option \<times> vstr_base" where
  "vstr_export_iovec_cpy_buf base pos len iovs num_max =
     (if num_max = 0 then (0, iovs, None, base)
      else (case vstr_iter_fwd_beg base pos len of
              (None, b1) \<Rightarrow> (0, iovs, None, b1)
            | (Some it, b1) \<Rightarrow>
                (case iovec_cpy_buf_loop it num_max iovs 0 0 0 of
                   (iovs1, ret_num, used, ret_len) \<Rightarrow>
                     if used \<noteq> 0
                     then (ret_len, iovs1[ret_num := (fst (iovs1 ! ret_num), used)], Some (ret_num + 1), b1)
                     else (ret_len, iovs1, Some ret_num, b1))))"

section \<open>The array of the cache\<close>

definition vstr_export_iovec_ptr_all :: "vstr_base \<Rightarrow> nat \<times> (nptr \<times> nat) list option \<times> vstr_base" where
  "vstr_export_iovec_ptr_all base =
     (if b_num base = 0 then (0, None, base)
      else (case vstr__cache_iovec_valid base of
              (False, b1) \<Rightarrow> (0, None, b1)
            | (True, b1) \<Rightarrow> (b_len b1, (case cache_vec (b_cache b1) of None \<Rightarrow> None
                 | Some d \<Rightarrow> Some (take (b_num b1) (drop (iov_off d) (iov_v d)))), b1)))"

section \<open>The loops store the data of the range\<close>

lemma nxt_cases:
  "(case vstr_iter_fwd_nxt it of (False, _) \<Rightarrow> a | (True, it') \<Rightarrow> f it') =
   (case iter_next it of None \<Rightarrow> a | Some it' \<Rightarrow> f it')"
  by (simp add: iter_next_def split: prod.split bool.split)

lemma copy_chunk_eq:
  "off + k \<le> length buf \<Longrightarrow> k \<le> iter_len it \<Longrightarrow> iter_inv it \<Longrightarrow>
   copy_chunk it off k buf = take off buf @ overlay (take k (iter_chunk it)) (drop off buf)"
  unfolding copy_chunk_def by (rule write_chunk)

lemma export_buf_loop_spec:
  "iter_inv it \<Longrightarrow> off + length (iter_rest it) \<le> length buf \<Longrightarrow>
   export_buf_loop it buf off = take off buf @ overlay (iter_rest it) (drop off buf)"
proof (induction it arbitrary: buf off rule: fwd.chunk_induct)
  case (last it)
  then show ?case
    using copy_chunk_eq [of off "iter_len it" buf it] iter_chunk_length [of it]
    by (simp add: export_buf_loop.simps [of it] nxt_cases)
next
  case (more it it')
  let ?buf1 = "take off buf @ overlay (iter_chunk it) (drop off buf)"
  have l: "length (iter_chunk it) = iter_len it" using iter_chunk_length more.hyps(1) .
  have "copy_chunk it off (iter_len it) buf = ?buf1"
    using copy_chunk_eq [of off "iter_len it" buf it] more.prems more.hyps(1,4) l by simp
  then have "export_buf_loop it buf off = export_buf_loop it' ?buf1 (off + iter_len it)"
    using more.hyps(2) by (simp add: export_buf_loop.simps [of it] nxt_cases)
  also have "\<dots> = take (off + iter_len it) ?buf1 @ overlay (iter_rest it') (drop (off + iter_len it) ?buf1)"
    using more.prems more.hyps(4) l by (intro more.IH) simp
  also have "\<dots> = take off buf @ overlay (iter_rest it) (drop off buf)"
    using overlay_step [of off buf "iter_chunk it" "iter_len it" "iter_rest it'"] more.prems l more.hyps(4) by simp
  finally show ?case .
qed

text \<open>What an entry of an array of pointers shows.\<close>

definition iov_content :: "iov_ptr \<Rightarrow> content" where
  "iov_content e = (case fst e of None \<Rightarrow> replicate (snd e) None | Some b \<Rightarrow> map Some (take (snd e) b))"

lemma iov_content_iter: "iov_content (iter_ptr it, iter_len it) = iter_chunk it"
  by (simp add: iov_content_def iter_chunk_def split: option.split)

lemma cpy_ptr_loop_spec:
  assumes "iter_inv it" "ret_num < num_max" "num_max \<le> length iovs"
    and "iovec_cpy_ptr_loop it num_max iovs ret_num ret_len = (iovs', n', len')"
  shows "ret_num < n' \<and> n' \<le> num_max \<and> length iovs' = length iovs \<and> take ret_num iovs' = take ret_num iovs \<and>
    ret_len \<le> len' \<and> concat (map iov_content (drop ret_num (take n' iovs'))) = take (len' - ret_len) (iter_rest it) \<and>
    len' - ret_len \<le> length (iter_rest it) \<and> (n' < num_max \<longrightarrow> len' - ret_len = length (iter_rest it))"
  using assms
proof (induction it arbitrary: iovs ret_num ret_len rule: fwd.chunk_induct)
  case (last it)
  then show ?case
    using iter_chunk_length [of it] iov_content_iter [of it]
    by (auto simp: iovec_cpy_ptr_loop.simps [of it] nxt_cases Let_def take_Suc_conv_app_nth split: if_splits)
next
  case (more it it')
  let ?iovs = "iovs[ret_num := (iter_ptr it, iter_len it)]"
  have l: "length (iter_chunk it) = iter_len it" using iter_chunk_length more.hyps(1) .
  show ?case
  proof (cases "Suc ret_num < num_max")
    case True
    then have r: "iovec_cpy_ptr_loop it' num_max ?iovs (Suc ret_num) (ret_len + iter_len it) = (iovs', n', len')"
      using more.prems(3) more.hyps(2) by (simp add: iovec_cpy_ptr_loop.simps [of it] nxt_cases)
    note IH = more.IH [OF True _ r]
    have t: "take (Suc ret_num) iovs' = take ret_num iovs @ [(iter_ptr it, iter_len it)]"
      using IH more.prems by (simp add: take_Suc_conv_app_nth)
    have "iovs' ! ret_num = (iter_ptr it, iter_len it)"
      using arg_cong [OF t, of "\<lambda>xs. xs ! ret_num"] more.prems by (simp add: nth_append)
    then have "drop ret_num (take n' iovs') = (iter_ptr it, iter_len it) # drop (Suc ret_num) (take n' iovs')"
      using IH more.prems Cons_nth_drop_Suc [of ret_num "take n' iovs'"] by simp
    moreover have "take ret_num iovs' = take ret_num iovs"
      using arg_cong [OF t, of "take ret_num"] more.prems by simp
    ultimately show ?thesis
      using IH more.prems more.hyps(4) l iov_content_iter [of it] by (auto simp: take_add)
  next
    case False
    then show ?thesis
      using more.prems more.hyps(4) l iov_content_iter [of it]
      by (auto simp: iovec_cpy_ptr_loop.simps [of it] Let_def take_Suc_conv_app_nth)
  qed
qed

text \<open>The buffers of an array as one piece of memory.\<close>

abbreviation iov_flat :: "iov_buf list \<Rightarrow> byte list" where
  "iov_flat iovs \<equiv> concat (map fst iovs)"

definition iov_bufs_ok :: "iov_buf list \<Rightarrow> bool" where
  "iov_bufs_ok iovs \<longleftrightarrow> (\<forall>e \<in> set iovs. snd e = length (fst e) \<and> 0 < snd e)"

lemma overlay_inside: "length as \<le> length xs \<Longrightarrow> overlay as (xs @ ys) = overlay as xs @ ys"
  by (induction as xs rule: overlay.induct) simp_all

lemma iov_flat_write:
  assumes "k < length iovs" "iovs ! k = (b, l)" "used + length as \<le> length b"
  defines "m \<equiv> length (iov_flat (take k iovs)) + used"
  shows "iov_flat (iovs[k := (take used b @ overlay as (drop used b), l)]) =
    take m (iov_flat iovs) @ overlay as (drop m (iov_flat iovs))"
proof -
  have e: "iov_flat iovs = iov_flat (take k iovs) @ b @ iov_flat (drop (Suc k) iovs)"
    using arg_cong [OF id_take_nth_drop [OF assms(1)], of iov_flat] assms(2) by simp
  have "overlay as (drop used b @ iov_flat (drop (Suc k) iovs)) = overlay as (drop used b) @ iov_flat (drop (Suc k) iovs)"
    using assms(3) by (intro overlay_inside) simp
  then show ?thesis
    unfolding e m_def using assms(1,3) by (simp add: upd_conv_take_nth_drop)
qed

lemma iov_flat_take:
  assumes "k < length iovs"
  shows "length (iov_flat (take (Suc k) iovs)) = length (iov_flat (take k iovs)) + length (fst (iovs ! k))"
    "length (iov_flat (take (Suc k) iovs)) \<le> length (iov_flat iovs)"
proof -
  show "length (iov_flat (take (Suc k) iovs)) = length (iov_flat (take k iovs)) + length (fst (iovs ! k))"
    using assms by (simp add: take_Suc_conv_app_nth)
  have "iov_flat iovs = iov_flat (take (Suc k) iovs) @ iov_flat (drop (Suc k) iovs)"
    by (metis append_take_drop_id concat_append map_append)
  then show "length (iov_flat (take (Suc k) iovs)) \<le> length (iov_flat iovs)" by simp
qed

text \<open>The sizes of the buffers do not change, so neither do the places where they start.\<close>

lemma iov_take_sizes:
  assumes "iov_bufs_ok xs"
  shows "length (iov_flat (take k xs)) = sum_list (take k (map snd xs))"
proof -
  have "map (length \<circ> fst) (take k xs) = map snd (take k xs)"
    using assms unfolding iov_bufs_ok_def by (intro map_cong refl) (metis comp_apply in_set_takeD)
  then show ?thesis by (simp only: length_concat take_map map_map)
qed

lemma iov_same_sizes:
  assumes "map snd iovs' = map snd iovs" "iov_bufs_ok iovs" "iov_bufs_ok iovs'"
  shows "length (iov_flat (take k iovs')) = length (iov_flat (take k iovs))"
  using assms iov_take_sizes [of iovs k] iov_take_sizes [of iovs' k] by simp

definition cpy_buf_post ::
    "content \<Rightarrow> nat \<Rightarrow> iov_buf list \<Rightarrow> nat \<Rightarrow> iov_buf list \<Rightarrow> nat \<Rightarrow> nat \<Rightarrow> nat \<Rightarrow> bool" where
  "cpy_buf_post data num_max iovs m iovs' k' used' n \<longleftrightarrow>
     n = min (length data) (length (iov_flat (take num_max iovs)) - m) \<and>
     map snd iovs' = map snd iovs \<and> iov_bufs_ok iovs' \<and> k' \<le> num_max \<and>
     iov_flat iovs' = take m (iov_flat iovs) @ overlay (take n data) (drop m (iov_flat iovs)) \<and>
     m + n = length (iov_flat (take k' iovs)) + used' \<and>
     (if k' = num_max then used' = 0 else used' < snd (iovs ! k'))"

text \<open>One turn of the loop: the new array, and the place reached in it.\<close>

lemma cpy_buf_turn:
  assumes it: "iter_inv it" and k: "k < num_max" "num_max \<le> length iovs" and ok: "iov_bufs_ok iovs"
    and used: "used < snd (iovs ! k)"
  defines "m \<equiv> length (iov_flat (take k iovs)) + used"
    and "tmp \<equiv> if iter_len it > snd (iovs ! k) - used then snd (iovs ! k) - used else iter_len it"
  defines "iovs1 \<equiv> iovs[k := (copy_chunk it used tmp (fst (iovs ! k)), snd (iovs ! k))]"
  shows "iov_flat iovs1 = take m (iov_flat iovs) @ overlay (take tmp (iter_rest it)) (drop m (iov_flat iovs))"
    "iov_bufs_ok iovs1" "map snd iovs1 = map snd iovs" "tmp \<le> iter_len it" "length (take tmp (iter_rest it)) = tmp"
    "m + tmp \<le> length (iov_flat (take (Suc k) iovs))"
proof -
  obtain b l where e: "iovs ! k = (b, l)" by (cases "iovs ! k")
  have kl: "k < length iovs" using k by simp
  then have l: "l = length b" "0 < l" using ok e nth_mem [OF kl] by (auto simp: iov_bufs_ok_def)
  have cl: "length (iter_chunk it) = iter_len it" by (rule iter_chunk_length [OF it])
  show t: "tmp \<le> iter_len it" by (simp add: tmp_def)
  have tb: "used + tmp \<le> length b" using used l e by (auto simp: tmp_def)
  have ct: "take tmp (iter_rest it) = take tmp (iter_chunk it)" using t cl by (simp add: iter_rest_def)
  have cc: "copy_chunk it used tmp b = take used b @ overlay (take tmp (iter_rest it)) (drop used b)"
    using copy_chunk_eq [OF tb t it] ct by simp
  show tl: "length (take tmp (iter_rest it)) = tmp" using t cl ct by simp
  show "iov_flat iovs1 = take m (iov_flat iovs) @ overlay (take tmp (iter_rest it)) (drop m (iov_flat iovs))"
    using iov_flat_write [OF kl e, of used "take tmp (iter_rest it)"] tb tl cc e by (simp add: iovs1_def m_def)
  have "set iovs1 \<subseteq> insert (copy_chunk it used tmp b, l) (set iovs)"
    unfolding iovs1_def e by (simp add: set_update_subset_insert)
  moreover have "length (copy_chunk it used tmp b) = l" using cc l used e by simp
  ultimately show "iov_bufs_ok iovs1" using ok l by (auto simp: iov_bufs_ok_def)
  show "map snd iovs1 = map snd iovs" using kl by (simp add: iovs1_def map_update list_update_same_conv)
  show "m + tmp \<le> length (iov_flat (take (Suc k) iovs))"
    using iov_flat_take(1) [OF kl] tb e by (simp add: m_def)
qed

lemma iov_flat_take_mono:
  assumes "k < num_max" "num_max \<le> length iovs"
  shows "length (iov_flat (take (Suc k) iovs)) \<le> length (iov_flat (take num_max iovs))"
  using iov_flat_take(2) [of k "take num_max iovs"] assms by (simp add: min_def)

lemma cpy_buf_post_more:
  assumes turn: "iov_flat iovs1 = take m (iov_flat iovs) @ overlay (take tmp data) (drop m (iov_flat iovs))"
      "length (take tmp data) = tmp" "m + tmp \<le> length (iov_flat (take num_max iovs))"
    and same: "map snd iovs1 = map snd iovs" "iov_bufs_ok iovs" "iov_bufs_ok iovs1"
    and post: "cpy_buf_post (drop tmp data) num_max iovs1 (m + tmp) iovs' k' used' n" and le: "num_max \<le> length iovs"
  shows "cpy_buf_post data num_max iovs m iovs' k' used' (tmp + n)"
proof -
  note sz = iov_same_sizes [OF same(1-3)]
  have "length (iov_flat (take num_max iovs)) \<le> length (iov_flat iovs)"
    by (metis append_take_drop_id concat_append length_append le_add1 map_append)
  then have "m \<le> length (iov_flat iovs)" using turn(3) by simp
  then have ov: "take (m + tmp) (iov_flat iovs1) @ overlay (take n (drop tmp data)) (drop (m + tmp) (iov_flat iovs1)) =
      take m (iov_flat iovs) @ overlay (take (tmp + n) data) (drop m (iov_flat iovs))"
    unfolding turn(1) using overlay_step [OF _ turn(2)] by (simp only: take_add [of tmp n])
  have "snd (iovs1 ! k') = snd (iovs ! k')" if "k' < length iovs"
    using same(1) that by (metis length_map nth_map)
  moreover have "length iovs1 = length iovs" using map_eq_imp_length_eq [OF same(1)] .
  ultimately show ?thesis
    using post same(1) sz turn(2,3) ov le unfolding cpy_buf_post_def by (auto split: if_splits)
qed

lemma cpy_buf_loop_spec:
  assumes "iter_inv it" "k < num_max" "num_max \<le> length iovs" "iov_bufs_ok iovs" "used < snd (iovs ! k)"
    and "iovec_cpy_buf_loop it num_max iovs k used ret_len = (iovs', k', used', len')"
  shows "ret_len \<le> len' \<and>
    cpy_buf_post (iter_rest it) num_max iovs (length (iov_flat (take k iovs)) + used) iovs' k' used' (len' - ret_len)"
  using assms
proof (induction it num_max iovs k used ret_len rule: iovec_cpy_buf_loop.induct)
  case (1 it num_max iovs k used ret_len)
  define tmp where "tmp = (if iter_len it > snd (iovs ! k) - used then snd (iovs ! k) - used else iter_len it)"
  define iovs1 where "iovs1 = iovs[k := (copy_chunk it used tmp (fst (iovs ! k)), snd (iovs ! k))]"
  define it1 where "it1 = it\<lparr>iter_len := iter_len it - tmp, iter_ptr := map_option (drop tmp) (iter_ptr it)\<rparr>"
  define full where "full \<longleftrightarrow> snd (iovs ! k) = used + tmp"
  define m where "m = length (iov_flat (take k iovs)) + used"
  let ?used = "if full then 0 else used + tmp" and ?k = "if full then k + 1 else k"
  have kl: "k < length iovs" using "1.prems" by simp
  have bk: "snd (iovs ! k) = length (fst (iovs ! k))" using "1.prems"(4) nth_mem [OF kl] by (simp add: iov_bufs_ok_def)
  note turn = cpy_buf_turn [OF "1.prems"(1-5), folded tmp_def, folded iovs1_def, folded m_def]
  note adv = iter_advance [OF "1.prems"(1) turn(4), folded it1_def]
  have cap: "m + tmp \<le> length (iov_flat (take num_max iovs))"
    using turn(6) iov_flat_take_mono [OF "1.prems"(2,3)] by simp
  have place: "m + tmp = length (iov_flat (take ?k iovs)) + ?used"
    using iov_flat_take(1) [OF kl] bk by (simp add: m_def full_def)
  have nfull: "full" if "iter_len it1 \<noteq> 0" using that "1.prems"(5) by (auto simp: full_def it1_def tmp_def split: if_splits)
  have len1: "length iovs1 = length iovs" by (simp add: iovs1_def)
  have flat1: "iov_flat iovs1 = take m (iov_flat iovs) @ overlay (take tmp (iter_rest it)) (drop m (iov_flat iovs))"
    by (rule turn(1))
  have used1: "?used < snd (iovs1 ! ?k)" "?used < snd (iovs ! ?k)" if "?k < num_max"
  proof -
    have kk: "?k < length iovs" using that "1.prems"(3) by simp
    then have "0 < snd (iovs ! ?k)" using "1.prems"(4) nth_mem [OF kk] unfolding iov_bufs_ok_def by blast
    moreover have "used + tmp \<le> snd (iovs ! k)" using "1.prems"(5) by (auto simp: tmp_def)
    ultimately show "?used < snd (iovs ! ?k)" by (auto simp: full_def)
    moreover have "snd (iovs1 ! ?k) = snd (iovs ! ?k)" using turn(3) kk len1 by (metis nth_map)
    ultimately show "?used < snd (iovs1 ! ?k)" by simp
  qed
  have stop: "cpy_buf_post (iter_rest it) num_max iovs m iovs1 ?k ?used tmp"
    if "?k = num_max \<or> iter_rest it1 = []"
    unfolding cpy_buf_post_def
    using that turn(2,3,5) flat1 place cap adv(2) "1.prems"(2) used1(2) by (auto split: if_splits)
  have unf: "iovec_cpy_buf_loop it num_max iovs k used ret_len =
      (if full \<and> ?k \<ge> num_max then (iovs1, ?k, ?used, ret_len + tmp)
       else (case (if iter_len it1 \<noteq> 0 then (True, it1) else vstr_iter_fwd_nxt it1) of
                 (False, _) \<Rightarrow> (iovs1, ?k, ?used, ret_len + tmp)
               | (True, it2) \<Rightarrow> iovec_cpy_buf_loop it2 num_max iovs1 ?k ?used (ret_len + tmp)))"
    using nfull unfolding iovec_cpy_buf_loop.simps [of it] Let_def
    by (simp only: tmp_def [symmetric] iovs1_def [symmetric] it1_def [symmetric] full_def [symmetric]) auto
  show ?case
  proof (cases "full \<and> ?k \<ge> num_max")
    case True
    then have "?k = num_max" using "1.prems"(2) by auto
    then show ?thesis using stop unf "1.prems"(6) True by (auto simp: m_def)
  next
    case False
    then have k1: "?k < num_max" using "1.prems"(2) by auto
    show ?thesis using adv(1)
    proof (cases rule: iter_step)
      case (fin it2)
      then show ?thesis using stop unf "1.prems"(6) False by (auto simp: m_def)
    next
      case (more it2)
      have r: "iovec_cpy_buf_loop it2 num_max iovs1 ?k ?used (ret_len + tmp) = (iovs', k', used', len')"
        using unf "1.prems"(6) False more(1) by simp
      have "ret_len + tmp \<le> len' \<and> cpy_buf_post (iter_rest it2) num_max iovs1
          (length (iov_flat (take ?k iovs1)) + ?used) iovs' k' used' (len' - (ret_len + tmp))"
        by (rule "1.IH" [OF refl tmp_def iovs1_def it1_def refl full_def refl refl False _ more(1) [symmetric] refl more(2) k1
              _ turn(2) used1(1) [OF k1] r]) (use nfull "1.prems"(3) len1 in auto)
      moreover have "length (iov_flat (take ?k iovs1)) + ?used = m + tmp"
        using place iov_same_sizes [OF turn(3) "1.prems"(4) turn(2)] by simp
      ultimately show ?thesis
        using cpy_buf_post_more [OF flat1 turn(5) cap turn(3) "1.prems"(4) turn(2), of iovs' k' used' "len' - (ret_len + tmp)"]
          more(3) adv(2) "1.prems"(3) by (auto simp: m_def)
    qed
  qed
qed

section \<open>Properties\<close>

text \<open>
  C26. Exporting into one buffer. \<^verbatim>\<open>vstr_export_buf()\<close> stores the first bytes of the range, as many as fit, at the
  start of the buffer and nothing behind them, whatever nodes hold them; positions without a byte leave the
  buffer as it was. It returns their number.
\<close>

theorem vstr_export_buf_correct:
  assumes "vstr_inv base" "1 \<le> pos" "pos + len \<le> Suc (b_len base)" "0 < len" "0 < buf_len" "buf_len \<le> length buf"
  shows "case vstr_export_buf base pos len buf buf_len of (n, buf', base') \<Rightarrow>
    n = min len buf_len \<and> buf' = overlay (take n (drop (pos - 1) (vstr_data base))) buf \<and>
    vstr_inv base' \<and> vstr_data base' = vstr_data base"
proof -
  define l where "l = min len buf_len"
  have rng: "1 \<le> pos" "pos + l \<le> Suc (b_len base)" "0 < l" using assms by (auto simp: l_def)
  obtain it b' where it: "vstr_iter_fwd_beg base pos l = (Some it, b')" "iter_inv it"
    "iter_rest it = take l (drop (pos - 1) (vstr_data base))" "same_but_cache base b'" "vstr_inv b'"
    using iter_fwd_beg_spec [OF assms(1) rng] by metis
  have "length (iter_rest it) \<le> length buf" using it(3) assms(6) by (simp add: l_def)
  then have "export_buf_loop it buf 0 = overlay (iter_rest it) buf" using export_buf_loop_spec [OF it(2), of 0 buf] by simp
  moreover have "(if len > buf_len then buf_len else len) = l" by (simp add: l_def)
  moreover have "vstr_sc_poslast pos len \<le> b_len base" using assms(2-4) by (simp add: vstr_sc_poslast_def)
  ultimately show ?thesis
    using it assms same_but_cache_frame(7) [OF it(4)]
    by (simp add: vstr_export_buf_def l_def [symmetric])
qed

theorem vstr_export_buf_correct_witness:
  "fst (snd (vstr_export_buf ex_abc 2 4 [0, 0, 0, 0, 9] 5)) = [98, 99, 100, 101, 9]"
  using vstr_export_buf_correct [of ex_abc 2 4 5 "[0, 0, 0, 0, 9]"] by (simp split: prod.splits)

text \<open>
  C27. Exporting pointers. \<^verbatim>\<open>vstr_export_iovec_cpy_ptr()\<close> fills entries of the array whose memory, read in order,
  is the start of the range; it returns the number of bytes they show, and it stops short of the range only when
  the array is full.
\<close>

theorem vstr_export_iovec_cpy_ptr_correct:
  assumes "vstr_inv base" "1 \<le> pos" "pos + len \<le> Suc (b_len base)" "0 < len" "0 < num_max" "num_max \<le> length iovs"
  shows "case vstr_export_iovec_cpy_ptr base pos len iovs num_max of (ret_len, iovs', num, base') \<Rightarrow>
    (case num of None \<Rightarrow> False | Some n \<Rightarrow> 0 < n \<and> n \<le> num_max \<and> ret_len \<le> len \<and>
       concat (map iov_content (take n iovs')) = take ret_len (drop (pos - 1) (vstr_data base)) \<and>
       (ret_len < len \<longrightarrow> n = num_max)) \<and> vstr_inv base' \<and> vstr_data base' = vstr_data base"
proof -
  obtain it b' where it: "vstr_iter_fwd_beg base pos len = (Some it, b')" "iter_inv it"
    "iter_rest it = take len (drop (pos - 1) (vstr_data base))" "same_but_cache base b'" "vstr_inv b'"
    using iter_fwd_beg_spec [OF assms(1-4)] by metis
  have "length (vstr_data base) = b_len base" using assms(1) vstr_data_length by (simp add: vstr_inv_def)
  then have "length (iter_rest it) = len" using it(3) assms(2,3) by (auto simp: min_def)
  moreover obtain iovs' n r where l: "iovec_cpy_ptr_loop it num_max iovs 0 0 = (iovs', n, r)" by (metis prod_cases3)
  ultimately show ?thesis
    using cpy_ptr_loop_spec [OF it(2) assms(5,6) l] it assms(5) same_but_cache_frame(7) [OF it(4)]
    by (auto simp: vstr_export_iovec_cpy_ptr_def)
qed

theorem vstr_export_iovec_cpy_ptr_correct_witness:
  "case vstr_export_iovec_cpy_ptr ex_abc 2 5 [(None, 0), (None, 0), (None, 0)] 3 of (ret_len, iovs', num, _) \<Rightarrow>
     (case num of None \<Rightarrow> False | Some n \<Rightarrow>
       concat (map iov_content (take n iovs')) = take ret_len [Some 98, Some 99, Some 100, Some 101, Some 102])"
  using vstr_export_iovec_cpy_ptr_correct [of ex_abc 2 5 3 "[(None, 0), (None, 0), (None, 0)]"]
  by (simp split: prod.splits option.splits)

text \<open>
  Exporting into many buffers. \<^verbatim>\<open>vstr_export_iovec_cpy_buf()\<close> scatters the start of the range over the buffers of the
  array, in order and without gaps: it stores as many bytes as the range has or the first \<open>num_max\<close> buffers can
  take, returns that number, and the entries it counts, the last of them cut to what was stored, are exactly these bytes.
\<close>

lemma vstr_export_iovec_cpy_buf_correct:
  assumes "vstr_inv base" "1 \<le> pos" "pos + len \<le> Suc (b_len base)" "0 < len" "0 < num_max" "num_max \<le> length iovs"
    and "iov_bufs_ok iovs"
  shows "case vstr_export_iovec_cpy_buf base pos len iovs num_max of (ret_len, iovs', num, base') \<Rightarrow>
    ret_len = min len (length (iov_flat (take num_max iovs))) \<and>
    iov_flat iovs' = overlay (take ret_len (drop (pos - 1) (vstr_data base))) (iov_flat iovs) \<and>
    (case num of None \<Rightarrow> False | Some n \<Rightarrow> n \<le> num_max \<and> sum_list (map snd (take n iovs')) = ret_len) \<and>
    vstr_inv base' \<and> vstr_data base' = vstr_data base"
proof -
  obtain it b' where it: "vstr_iter_fwd_beg base pos len = (Some it, b')" "iter_inv it"
    "iter_rest it = take len (drop (pos - 1) (vstr_data base))" "same_but_cache base b'" "vstr_inv b'"
    using iter_fwd_beg_spec [OF assms(1-4)] by metis
  have "length (vstr_data base) = b_len base" using assms(1) vstr_data_length by (simp add: vstr_inv_def)
  then have rl: "length (iter_rest it) = len" using it(3) assms(2,3) by (auto simp: min_def)
  have nz: "0 < snd (iovs ! 0)" using assms(5-7) nth_mem [of 0 iovs] unfolding iov_bufs_ok_def by fastforce
  obtain iovs' k u r where l: "iovec_cpy_buf_loop it num_max iovs 0 0 0 = (iovs', k, u, r)" by (metis prod_cases4)
  have post: "cpy_buf_post (iter_rest it) num_max iovs 0 iovs' k u r"
    using cpy_buf_loop_spec [OF it(2) assms(5-7) nz l] by simp
  have tk: "take r (iter_rest it) = take r (drop (pos - 1) (vstr_data base))"
    using it(3) rl post by (auto simp: cpy_buf_post_def)
  have sn: "sum_list (map snd (take k iovs')) = length (iov_flat (take k iovs))"
    using iov_take_sizes assms(7) post by (metis cpy_buf_post_def take_map)
  have len: "length iovs' = length iovs" using post map_eq_imp_length_eq by (auto simp: cpy_buf_post_def)
  show ?thesis
  proof (cases "u = 0")
    case True
    then show ?thesis
      using it post tk sn rl assms(5) same_but_cache_frame(7) [OF it(4)] l
      by (auto simp: vstr_export_iovec_cpy_buf_def cpy_buf_post_def)
  next
    case False
    then have k: "k < num_max" using post by (auto simp: cpy_buf_post_def split: if_splits)
    let ?iovs = "iovs'[k := (fst (iovs' ! k), u)]"
    have "map fst ?iovs = map fst iovs'" using k len assms(6) by (simp add: map_update list_update_same_conv)
    moreover have "take (Suc k) ?iovs = take k iovs' @ [(fst (iovs' ! k), u)]"
      using k len assms(6) by (simp add: take_Suc_conv_app_nth)
    ultimately show ?thesis
      using False it post tk sn rl assms(5) same_but_cache_frame(7) [OF it(4)] l k
      by (auto simp: vstr_export_iovec_cpy_buf_def cpy_buf_post_def)
  qed
qed

lemma vstr_export_iovec_cpy_buf_correct_witness:
  "iov_flat (fst (snd (vstr_export_iovec_cpy_buf ex_abc 1 5 [([0, 0, 0], 3), ([0, 0, 7], 3)] 2))) =
     [97, 98, 99, 100, 101, 7]"
  using vstr_export_iovec_cpy_buf_correct [of ex_abc 1 5 2 "[([0, 0, 0], 3), ([0, 0, 7], 3)]"]
  by (simp add: iov_bufs_ok_def split: prod.splits)

end
