(* ===== verification/Vstr_Range.thy ===== *)
theory Vstr_Range
  imports Vstr_Iter
begin

text \<open>
  What the functions that read a range of a string share: moving an iterator inside a piece, the content of a
  range or of a buffer, and the three facts about \<^verbatim>\<open>vstr_iter_fwd_beg()\<close> and \<^verbatim>\<open>vstr_iter_fwd_nxt()\<close> their loops rest on.
\<close>

section \<open>Inside a piece\<close>

text \<open>\<^verbatim>\<open>iter->len -= k; iter->ptr += k\<close>, and the loop condition \<^verbatim>\<open>iter->len || vstr_iter_fwd_nxt(iter)\<close>.\<close>

definition iter_skip :: "nat \<Rightarrow> vstr_iter \<Rightarrow> vstr_iter" where
  "iter_skip k it = it\<lparr>iter_len := iter_len it - k, iter_ptr := map_option (drop k) (iter_ptr it)\<rparr>"

definition iter_more :: "vstr_iter \<Rightarrow> bool \<times> vstr_iter" where
  "iter_more it = (if iter_len it \<noteq> 0 then (True, it) else vstr_iter_fwd_nxt it)"

text \<open>When the shorter piece of two is used up in both, at least one iterator moves to its next node.\<close>

lemma more_both_shorter:
  assumes "iter_more (iter_skip tmp iter1) = (True, it1)" "iter_more (iter_skip tmp iter2) = (True, it2)"
    and "tmp = (if iter_len iter1 > iter_len iter2 then iter_len iter2 else iter_len iter1)"
  shows "length (iter_node it1) + length (iter_node it2) < length (iter_node iter1) + length (iter_node iter2)"
proof -
  have sh: "length (iter_node it') < length (iter_node it) \<or> iter_len it \<noteq> 0 \<and> it' = it"
    if "iter_more it = (True, it')" for it it'
    using that nxt_shorter by (auto simp: iter_more_def split: if_splits)
  have skip: "iter_node (iter_skip k it) = iter_node it" "iter_len (iter_skip k it) = iter_len it - k" for k it
    by (simp_all add: iter_skip_def)
  show ?thesis using sh [OF assms(1)] sh [OF assms(2)] assms(3) by (auto simp: skip split: if_splits)
qed

lemma iter_skip_spec:
  assumes "iter_inv it" "k \<le> iter_len it"
  shows "iter_inv (iter_skip k it)" "iter_rest (iter_skip k it) = drop k (iter_rest it)"
  using iter_advance [OF assms] by (simp_all add: iter_skip_def)

lemma iter_more_cases:
  assumes "iter_inv it"
  obtains (fin) it' where "iter_more it = (False, it')" "iter_rest it = []"
    | (more) it' where "iter_more it = (True, it')" "iter_inv it'" "iter_rest it' = iter_rest it" "iter_len it' \<noteq> 0"
  using iter_step [OF assms] unfolding iter_more_def by metis

lemma iter_rest_nonempty: "iter_inv it \<Longrightarrow> iter_len it \<noteq> 0 \<Longrightarrow> iter_rest it \<noteq> []"
  using iter_chunk_length by (fastforce simp: iter_rest_def)

lemma nxt_rest:
  assumes "iter_inv it"
  shows "case vstr_iter_fwd_nxt it of
      (True, j) \<Rightarrow> iter_inv j \<and> iter_len j \<noteq> 0 \<and> iter_rest j = drop (iter_len it) (iter_rest it)
    | (False, j) \<Rightarrow> drop (iter_len it) (iter_rest it) = [] \<and> iter_remaining j = 0"
proof (cases "iter_next it")
  case None
  then obtain j where j: "vstr_iter_fwd_nxt it = (False, j)"
    by (auto simp: iter_next_def split: prod.splits bool.splits)
  have "drop (iter_len it) (iter_rest it) = []"
    using iter_fwd_last [OF assms None] iter_chunk_length [OF assms] by simp
  moreover have "iter_remaining j = 0"
    using j assms by (auto simp: vstr_iter_fwd_nxt_def iter_inv_def Let_def split: list.splits if_splits)
  ultimately show ?thesis using j by simp
next
  case (Some j)
  then have j: "vstr_iter_fwd_nxt it = (True, j)"
    by (auto simp: iter_next_def split: prod.splits bool.splits)
  have "iter_inv j" "iter_rest it = iter_chunk it @ iter_rest j" "iter_chunk j \<noteq> []"
    using iter_fwd_next [OF assms Some] by auto
  then show ?thesis using j iter_chunk_length [OF assms] iter_chunk_length [of j] by (auto simp flip: length_greater_0_conv)
qed

text \<open>What a pointer to memory, or a null pointer, shows of its first \<open>n\<close> positions.\<close>

definition buf_content :: "byte list option \<Rightarrow> nat \<Rightarrow> content" where
  "buf_content buf n = (case buf of None \<Rightarrow> replicate n None | Some b \<Rightarrow> map Some (take n b))"

definition buf_holds :: "byte list option \<Rightarrow> nat \<Rightarrow> bool" where
  "buf_holds buf n \<longleftrightarrow> (case buf of None \<Rightarrow> True | Some b \<Rightarrow> n \<le> length b)"

lemma buf_content_length [simp]: "buf_holds buf n \<Longrightarrow> length (buf_content buf n) = n"
  by (auto simp: buf_content_def buf_holds_def split: option.splits)

lemma buf_content_Nil: "buf_holds buf n \<Longrightarrow> buf_content buf n = [] \<longleftrightarrow> n = 0"
  using buf_content_length by (metis length_0_conv)

lemma buf_content_take: "k \<le> n \<Longrightarrow> take k (buf_content buf n) = buf_content buf k"
  by (auto simp: buf_content_def take_map split: option.splits)

lemma buf_content_drop:
  "drop k (buf_content buf n) = buf_content (map_option (drop k) buf) (n - k)"
  by (auto simp: buf_content_def drop_map drop_take split: option.splits)

lemma iter_rest_take:
  assumes "iter_inv it" "k \<le> iter_len it"
  shows "take k (iter_rest it) = buf_content (iter_ptr it) k" "buf_holds (iter_ptr it) k"
  using iter_chunk_length [OF assms(1)] assms
  by (auto simp: iter_rest_def iter_chunk_def buf_content_def buf_holds_def iter_inv_def take_map split: option.splits)

lemma iter_rest_split:
  assumes "iter_inv it" "k \<le> iter_len it"
  shows "iter_rest it = buf_content (iter_ptr it) k @ iter_rest (iter_skip k it)"
  using iter_rest_take(1) [OF assms] iter_skip_spec(2) [OF assms] by (metis append_take_drop_id)

text \<open>The content of a range.\<close>

abbreviation range_data :: "vstr_base \<Rightarrow> nat \<Rightarrow> nat \<Rightarrow> content" where
  "range_data base pos len \<equiv> take len (drop (pos - 1) (vstr_data base))"

definition in_range :: "vstr_base \<Rightarrow> nat \<Rightarrow> nat \<Rightarrow> bool" where
  "in_range base pos len \<longleftrightarrow> vstr_inv base \<and> 1 \<le> pos \<and> pos + len \<le> Suc (b_len base)"

lemma range_data_length: "in_range base pos len \<Longrightarrow> length (range_data base pos len) = len"
  using vstr_data_length [of base] by (auto simp: in_range_def vstr_inv_def min_def)

lemma range_data_Nil: "in_range b p l \<Longrightarrow> range_data b p l = [] \<longleftrightarrow> l = 0"
  using range_data_length by (metis length_0_conv)

lemma fwd_beg_zero [simp]: "vstr_iter_fwd_beg base pos 0 = (None, base)"
  by (simp add: vstr_iter_fwd_beg_def)

lemma fwd_beg_range:
  assumes "in_range base pos len"
  obtains (empty) "len = 0"
    | (some) it b' where "0 < len" "vstr_iter_fwd_beg base pos len = (Some it, b')" "iter_inv it" "iter_len it \<noteq> 0"
        "iter_rest it = range_data base pos len" "same_but_cache base b'" "vstr_inv b'"
proof (cases "len = 0")
  case True
  then show ?thesis using empty by simp
next
  case False
  then obtain it b' where "vstr_iter_fwd_beg base pos len = (Some it, b')" "iter_inv it" "iter_chunk it \<noteq> []"
    "iter_rest it = range_data base pos len" "same_but_cache base b'" "vstr_inv b'"
    using iter_fwd_beg_spec [of base pos len] assms by (auto simp: in_range_def)
  moreover from this have "iter_len it \<noteq> 0" using iter_chunk_length [of it] by (metis length_0_conv)
  ultimately show ?thesis using some False by auto
qed

lemma ex_abc_range [simp]: "in_range ex_abc p l \<longleftrightarrow> 1 \<le> p \<and> p + l \<le> 7"
  by (auto simp: in_range_def)

lemma ex_base_range:
  assumes "\<forall>n \<in> set ns. node_ok 4 n \<and> node_id n < 100" "distinct (map node_id ns)" "1 \<le> p" "p + l \<le> Suc (nodes_len ns)"
  shows "in_range (ex_base ns) p l"
  using ex_base_inv [OF assms(1,2)] assms(3,4) by (simp add: in_range_def)

end
