(* ===== verification/Vstr_Scan.thy ===== *)
theory Vstr_Scan
  imports Vstr_Range Vstr_Iovec
begin

text \<open>
  Walking over a range backwards (include/vstr-nx-inline.h): \<^verbatim>\<open>vstr__base_scan_rev_beg()\<close> and
  \<^verbatim>\<open>vstr__base_scan_rev_nxt()\<close> find the node before the current one in the iovec array, which therefore has to be up to
  date. The pair is the second implementation of the interface \<open>chunk_iter\<close>: it hands out the range in reverse.
\<close>

section \<open>The scanner\<close>

text \<open>Following a pointer of the array: the memory from there to the end of its block.\<close>

primrec nptr_bytes :: "vstr_node list \<Rightarrow> nptr \<Rightarrow> byte list option" where
  "nptr_bytes ns NP_null = None"
| "nptr_bytes ns (NP_buf i k) = (case find (\<lambda>n. node_id n = i) ns of None \<Rightarrow> None | Some n \<Rightarrow> map_option (drop k) (node_bytes n))"
| "nptr_bytes ns (NP_mem p) = Some (drop (cp_off p) (cp_mem p))"
| "nptr_bytes ns (NP_ref r k) = Some (drop k (ref_ptr r))"

text \<open>The variables of a scan: the length still in front of the current piece, the number of its node, the piece.\<close>

record rev_scan =
  rs_len :: nat
  rs_num :: nat
  rs_type :: ntype
  rs_str :: "byte list option"
  rs_slen :: nat

definition vstr__base_scan_rev_beg :: "vstr_base \<Rightarrow> nat \<Rightarrow> nat \<Rightarrow> rev_scan option \<times> vstr_base" where
  "vstr__base_scan_rev_beg base pos len =
     (if len = 0 then (None, base)
      else if \<not> (pos + len - 1 \<le> b_len base) then (None, base)
      else (case vstr_base__pos base pos True of ((beg, p, _), b1) \<Rightarrow>
            (case vstr_base__pos b1 (pos + len - 1) False of ((en, end_pos, num), b2) \<Rightarrow>
              let node = b_nodes b2 ! en;
                  (off, scan_len, len') = (if beg \<noteq> en then (0, end_pos, len - end_pos) else (p - 1, len, 0))
              in (Some \<lparr>rs_len = len', rs_num = num, rs_type = node_type node,
                        rs_str = (if node_type node \<noteq> NODE_NON then map_option (drop off) (node_bytes node) else None),
                        rs_slen = scan_len\<rparr>, b2))))"

definition vstr__base_scan_rev_nxt :: "vstr_base \<Rightarrow> rev_scan \<Rightarrow> bool \<times> rev_scan" where
  "vstr__base_scan_rev_nxt base s =
     (if rs_len s = 0 then (False, s)
      else if rs_num s - 1 = 0 then (False, s\<lparr>rs_num := 0\<rparr>)
      else (case cache_vec (b_cache base) of
              None \<Rightarrow> (False, s)
            | Some d \<Rightarrow>
                let num = rs_num s - 1;
                    (iov_base, iov_len) = iov_v d ! (iov_off d + num - 1);
                    type = iov_t d ! (iov_off d + num - 1);
                    (pos, scan_len) = (if iov_len > rs_len s then (iov_len - rs_len s, rs_len s) else (0, iov_len))
                in (True, \<lparr>rs_len = rs_len s - scan_len, rs_num = num, rs_type = type,
                           rs_str = (if type \<noteq> NODE_NON then map_option (drop pos) (nptr_bytes (b_nodes base) iov_base) else None),
                           rs_slen = scan_len\<rparr>)))"

lemma rev_nxt_less: "vstr__base_scan_rev_nxt base s = (True, s') \<Longrightarrow> rs_num s' < rs_num s"
  by (auto simp: vstr__base_scan_rev_nxt_def Let_def split: if_splits option.splits prod.splits)

section \<open>What a scan stands for\<close>

text \<open>The content of the first \<open>m\<close> nodes, and of one node, without the consumed bytes.\<close>

definition data_before :: "vstr_base \<Rightarrow> nat \<Rightarrow> content" where
  "data_before base m = drop (b_used base) (nodes_data (take m (b_nodes base)))"

definition node_part :: "vstr_base \<Rightarrow> nat \<Rightarrow> content" where
  "node_part base k = drop (if k = 0 then b_used base else 0) (node_data (b_nodes base ! k))"

definition rev_chunk :: "rev_scan \<Rightarrow> content" where
  "rev_chunk s = rev (buf_content (rs_str s) (rs_slen s))"

definition rev_rest :: "vstr_base \<Rightarrow> rev_scan \<Rightarrow> content" where
  "rev_rest base s = rev_chunk s @ take (rs_len s) (rev (data_before base (rs_num s - 1)))"

definition rev_inv :: "vstr_base \<Rightarrow> rev_scan \<Rightarrow> bool" where
  "rev_inv base s \<longleftrightarrow> vstr_inv base \<and> iovec_ok base \<and> iovec_upto_date base \<and> 1 \<le> rs_num s \<and>
     rs_num s \<le> length (b_nodes base) \<and> rs_len s \<le> length (data_before base (rs_num s - 1)) \<and>
     buf_holds (rs_str s) (rs_slen s)"

definition rev_next :: "vstr_base \<Rightarrow> rev_scan \<Rightarrow> rev_scan option" where
  "rev_next base s = (case vstr__base_scan_rev_nxt base s of (False, _) \<Rightarrow> None | (True, s') \<Rightarrow> Some s')"

lemma data_before_0 [simp]: "data_before base 0 = []"
  by (simp add: data_before_def)

lemma used_first:
  assumes "wf_base base" "b_nodes base \<noteq> []"
  shows "b_used base \<le> length (node_data (hd (b_nodes base)))"
proof -
  have "used_ok (b_used base) (b_nodes base)" "node_ok (buf_sz (b_conf base)) (hd (b_nodes base))"
    using assms by (simp_all add: wf_base_iff)
  then show ?thesis
    using node_data_length [of _ "hd (b_nodes base)"] by (auto simp: used_ok_def node_ok_def)
qed

lemma data_before_Suc:
  assumes wf: "wf_base base" and k: "k < length (b_nodes base)"
  shows "data_before base (Suc k) = data_before base k @ node_part base k"
proof (cases k)
  case 0
  then show ?thesis using k by (simp add: data_before_def node_part_def take_Suc_conv_app_nth)
next
  case (Suc j)
  have ne: "b_nodes base \<noteq> []" using k by auto
  then obtain n ns where ns: "b_nodes base = n # ns" by (cases "b_nodes base") auto
  have "b_used base \<le> length (nodes_data (take k (b_nodes base)))"
    using used_first [OF wf ne] Suc by (simp add: ns)
  then show ?thesis using k Suc by (simp add: data_before_def node_part_def take_Suc_conv_app_nth)
qed

lemma find_distinct:
  "distinct (map f xs) \<Longrightarrow> k < length xs \<Longrightarrow> find (\<lambda>x. f x = f (xs ! k)) xs = Some (xs ! k)"
proof (induction xs arbitrary: k)
  case (Cons x xs)
  then show ?case by (cases k) (auto dest: nth_mem)
qed simp

text \<open>The entry of a node in the array shows the content of the node.\<close>

lemma entry_content:
  assumes inv: "vstr_inv base" and k: "k < length (b_nodes base)" and e: "iov_entries base ! k = (p, l)"
  defines "n \<equiv> b_nodes base ! k"
  defines "str \<equiv> if node_type n \<noteq> NODE_NON then nptr_bytes (b_nodes base) p else None"
  shows "l = length (node_part base k)" "buf_holds str l" "buf_content str l = node_part base k"
proof -
  let ?u = "if k = 0 then b_used base else 0"
  have wf: "wf_base base" and ids: "distinct (map node_id (b_nodes base))"
    using inv ids_ok_distinct by (auto simp: vstr_inv_def ids_distinct_def)
  have nok: "node_ok (buf_sz (b_conf base)) n" using wf k by (simp add: wf_base_iff n_def)
  have dl: "length (node_data n) = node_len n" by (rule node_data_length [OF nok])
  have "nptr_add q 0 = q" for q by (cases q) (simp_all add: cptr_add_def)
  then have pe: "p = nptr_add (vstr_export__node_ptr n) ?u" "l = node_len n - ?u"
    using e k by (cases "b_nodes base"; cases k; simp add: iov_entries_def n_def)+
  have fnd: "find (\<lambda>m. node_id m = node_id n) (b_nodes base) = Some n" using find_distinct [OF ids k] by (simp add: n_def)
  show l: "l = length (node_part base k)" using pe(2) dl by (simp add: node_part_def n_def)
  have u: "used_ok (b_used base) (b_nodes base)" using wf by (simp add: wf_base_iff)
  have uk: "?u = 0 \<or> (\<exists>i b. n = Node_buf i b)"
    using u k by (cases k) (auto simp: used_ok_def n_def)
  have "buf_holds str l \<and> buf_content str l = drop ?u (node_data n)"
  proof (cases n)
    case (Node_buf i b)
    then show ?thesis
      using fnd pe by (auto simp: str_def buf_holds_def buf_content_def node_data_def drop_map)
  next
    case (Node_non i m)
    then show ?thesis using uk pe by (auto simp: str_def buf_holds_def buf_content_def node_data_def)
  next
    case (Node_ptr i q m)
    then show ?thesis
      using uk pe nok by (auto simp: str_def buf_holds_def buf_content_def node_data_def cptr_read_def cptr_add_def node_ok_def cptr_valid_def)
  next
    case (Node_ref i r q m)
    then show ?thesis
      using uk pe nok by (auto simp: str_def buf_holds_def buf_content_def node_data_def node_ok_def)
  qed
  then show "buf_holds str l" "buf_content str l = node_part base k" by (simp_all add: node_part_def n_def)
qed

lemma buf_content_suffix:
  assumes "buf_holds str l" "m \<le> l"
  shows "buf_content (map_option (drop (l - m)) str) m = drop (l - m) (buf_content str l)"
    "buf_holds (map_option (drop (l - m)) str) m"
  using assms buf_content_drop [of "l - m" str l] by (auto simp: buf_holds_def split: option.splits)

lemma rev_next_spec:
  assumes inv: "rev_inv base s" and nx: "rev_next base s = Some s'"
  shows "rev_inv base s' \<and> rev_rest base s = rev_chunk s @ rev_rest base s' \<and> rev_chunk s' \<noteq> []"
proof -
  define k where "k = rs_num s - 2"
  have vi: "vstr_inv base" and wf: "wf_base base" using inv by (auto simp: rev_inv_def vstr_inv_def)
  have num: "rs_len s \<noteq> 0" "rs_num s = Suc (Suc k)" and kl: "k < length (b_nodes base)"
    using nx inv by (auto simp: rev_next_def vstr__base_scan_rev_nxt_def k_def rev_inv_def split: if_splits)
  obtain d where d: "cache_vec (b_cache base) = Some d"
      "take (length (b_nodes base)) (drop (iov_off d) (iov_v d)) = iov_entries base"
      "take (length (b_nodes base)) (drop (iov_off d) (iov_t d)) = map node_type (b_nodes base)"
      "iov_off d + length (b_nodes base) \<le> length (iov_v d)" "iov_off d + length (b_nodes base) \<le> length (iov_t d)"
    using inv by (auto simp: rev_inv_def iovec_ok_def vec_holds_def)
  obtain p l where e: "iov_entries base ! k = (p, l)" by (cases "iov_entries base ! k")
  have vk: "iov_v d ! (iov_off d + k) = (p, l)" "iov_t d ! (iov_off d + k) = node_type (b_nodes base ! k)"
    using arg_cong [OF d(2), of "\<lambda>xs. xs ! k"] arg_cong [OF d(3), of "\<lambda>xs. xs ! k"] d(4,5) kl e by simp_all
  define str where "str = (if node_type (b_nodes base ! k) \<noteq> NODE_NON then nptr_bytes (b_nodes base) p else None)"
  define m where "m = min l (rs_len s)"
  note ec = entry_content [OF vi kl e, folded str_def]
  have s': "s' = \<lparr>rs_len = rs_len s - m, rs_num = Suc k, rs_type = node_type (b_nodes base ! k),
      rs_str = map_option (drop (l - m)) str, rs_slen = m\<rparr>"
  proof -
    have "map_option (drop 0) o' = o'" for o' :: "byte list option" by (cases o') auto
    then show ?thesis
      using nx num d(1) vk by (auto simp: rev_next_def vstr__base_scan_rev_nxt_def Let_def str_def m_def min_def split: if_splits)
  qed
  note bs = buf_content_suffix [OF ec(2), of m]
  have ml: "m \<le> l" "m \<le> rs_len s" by (simp_all add: m_def)
  have ch: "rev_chunk s' = take m (rev (node_part base k))"
    using bs(1) ml ec(1,3) by (simp add: rev_chunk_def s' take_rev)
  have db: "data_before base (Suc k) = data_before base k @ node_part base k" by (rule data_before_Suc [OF wf kl])
  have len: "rs_len s \<le> length (data_before base k) + l" using inv num db ec(1) by (simp add: rev_inv_def)
  have rest: "take (rs_len s) (rev (data_before base (Suc k))) = rev_rest base s'"
    using ch db ec(1) by (auto simp: rev_rest_def s' m_def min_def)
  have "0 < node_len (b_nodes base ! k)" using wf kl by (auto simp: wf_base_iff node_ok_def dest: nth_mem)
  moreover have "length (node_part base k) = node_len (b_nodes base ! k) - (if k = 0 then b_used base else 0)"
    using wf kl node_data_length [of "buf_sz (b_conf base)" "b_nodes base ! k"] by (simp add: node_part_def wf_base_iff)
  moreover have "k = 0 \<Longrightarrow> b_used base < node_len (b_nodes base ! k)"
    using wf kl used_ok_le [of "b_used base" "hd (b_nodes base)" "tl (b_nodes base)"] calculation(1)
    by (cases "b_nodes base") (auto simp: wf_base_iff)
  ultimately have "0 < l" using ec(1) by auto
  then have "rev_chunk s' \<noteq> []" using ch ec(1) num(1) by (auto simp: m_def)
  moreover have "rev_inv base s'" using inv kl len bs(2) ml by (auto simp: rev_inv_def s' m_def)
  moreover have "rev_rest base s = rev_chunk s @ rev_rest base s'" using rest num(2) by (simp add: rev_rest_def)
  ultimately show ?thesis by simp
qed

lemma rev_next_last:
  assumes "rev_inv base s" "rev_next base s = None"
  shows "rev_rest base s = rev_chunk s"
proof -
  obtain d where "cache_vec (b_cache base) = Some d" using assms(1) by (auto simp: rev_inv_def iovec_ok_def vec_holds_def)
  then have "rs_len s = 0 \<or> rs_num s - 1 = 0"
    using assms(2) by (auto simp: rev_next_def vstr__base_scan_rev_nxt_def Let_def split: if_splits prod.splits)
  then show ?thesis using assms(1) by (auto simp: rev_rest_def)
qed

interpretation bwd: chunk_iter "rev_inv base" rev_chunk "rev_rest base" "rev_next base" rs_num for base
  by unfold_locales
    (use rev_next_spec rev_next_last rev_nxt_less in \<open>auto simp: rev_next_def split: prod.splits bool.splits\<close>)

text \<open>Starting a scan: where the last piece lies in the node that holds the end of the range.\<close>

lemma base__pos_no_cache: "snd (vstr_base__pos base pos False) = base"
  by (simp add: vstr_base__pos_def Let_def split: prod.split)

lemma scan_places:
  assumes wf: "wf_base base" and at1: "at_pos base pos bi p" and at2: "at_pos base (pos + len - 1) ei ep"
    and len: "0 < len" and pos: "1 \<le> pos"
  defines "off \<equiv> if bi \<noteq> ei then 0 else p - 1" and "sl \<equiv> if bi \<noteq> ei then ep else len"
  shows "off + sl \<le> node_len (b_nodes base ! ei) \<and> 0 < sl \<and> sl \<le> len \<and> len - sl \<le> length (data_before base ei) \<and>
    rev (range_data base pos len) =
      rev (take sl (drop off (node_data (b_nodes base ! ei)))) @ take (len - sl) (rev (data_before base ei))"
proof -
  let ?ns = "b_nodes base" and ?n = "b_nodes base ! ei" and ?e = "pos + len - 1"
  have ok: "\<forall>n \<in> set ?ns. node_ok (buf_sz (b_conf base)) n" using wf by (simp add: wf_base_iff)
  have e: "bi < length ?ns" "ei < length ?ns" "1 \<le> p" "p \<le> node_len (?ns ! bi)" "1 \<le> ep" "ep \<le> node_len ?n"
    "pos + b_used base = nodes_len (take bi ?ns) + p" "?e + b_used base = nodes_len (take ei ?ns) + ep"
    using at1 at2 by (simp_all add: at_pos_def)
  have dl: "length (node_data ?n) = node_len ?n" using node_data_length [of "buf_sz (b_conf base)" ?n] ok e(2) by simp
  have rng: "range_data base pos len = drop (pos - 1) (take ?e (vstr_data base))"
    using len pos by (simp add: drop_take)
  note te = at_pos_take_drop(1) [OF wf at2]
  show ?thesis
  proof (cases "bi = ei")
    case True
    then have "ep = p + len - 1" using e len by simp
    moreover have "range_data base pos len = drop (p - 1) (take ep (node_data ?n))"
    proof -
      have "pos - 1 + b_used base = length (nodes_data (take ei ?ns)) + (p - 1)"
        using e True pos nodes_len_take [OF ok, of ei] by simp
      then show ?thesis unfolding rng te drop_drop by simp
    qed
    ultimately show ?thesis using True e len by (simp add: off_def sl_def drop_take)
  next
    case False
    have "bi < ei"
    proof (rule ccontr)
      assume "\<not> bi < ei"
      then have "Suc ei \<le> bi" using False by simp
      from sum_take_mono [OF this, of ?ns] show False using e len by (simp add: take_Suc_conv_app_nth)
    qed
    then have "nodes_len (take bi ?ns) + node_len (?ns ! bi) \<le> nodes_len (take ei ?ns)"
      using sum_take_mono [of "Suc bi" ei ?ns] e(1) by (simp add: take_Suc_conv_app_nth)
    then have u: "b_used base + pos \<le> nodes_len (take ei ?ns)" using e by simp
    have ld: "length (data_before base ei) = nodes_len (take ei ?ns) - b_used base"
      using nodes_len_take [OF ok] by (simp add: data_before_def)
    have te2: "take ?e (vstr_data base) = data_before base ei @ take ep (node_data ?n)"
      unfolding te using u nodes_len_take [OF ok, of ei] by (simp add: data_before_def)
    have "rev (range_data base pos len) = take len (rev (data_before base ei @ take ep (node_data ?n)))"
    proof -
      have "length (data_before base ei @ take ep (node_data ?n)) - (pos - 1) = len" using e(6,8) u pos ld dl by simp
      then show ?thesis unfolding rng te2 rev_drop by simp
    qed
    moreover have "ep \<le> len" "len - ep \<le> length (data_before base ei)" using e u ld len pos by linarith+
    ultimately show ?thesis using False e dl by (simp add: off_def sl_def)
  qed
qed

lemma scan_rev_beg_spec:
  assumes rng: "in_range base pos len" "0 < len" and io: "iovec_ok base" "iovec_upto_date base"
  obtains s b' where "vstr__base_scan_rev_beg base pos len = (Some s, b')" "rev_inv b' s" "rev_chunk s \<noteq> []"
    "rev_rest b' s = rev (range_data base pos len)" "same_but_cache base b'" "vstr_inv b'"
proof -
  let ?e = "pos + len - 1" and ?D = "vstr_data base"
  have inv: "vstr_inv base" and pos: "1 \<le> pos" "pos \<le> b_len base" "1 \<le> ?e" "?e \<le> b_len base"
    using rng by (auto simp: in_range_def)
  have wf: "wf_base base" and ids: "ids_distinct base" and pc: "pos_cache_ok base"
    using inv ids_ok_distinct by (auto simp: vstr_inv_def ids_distinct_def)
  obtain bi p n1 b1 where 1: "vstr_base__pos base pos True = ((bi, p, n1), b1)" by (metis surj_pair)
  have at1: "at_pos base pos bi p" and same1: "same_but_cache base b1" and pc1: "pos_cache_ok b1"
    using base__pos_at_pos [OF wf ids pc pos(1,2) 1] by auto
  note f1 = same_but_cache_frame [OF same1]
  obtain ei ep num b2 where 2: "vstr_base__pos b1 ?e False = ((ei, ep, num), b2)" by (metis surj_pair)
  have "wf_base b1" "ids_distinct b1" using wf ids f1 by (simp_all add: ids_distinct_def)
  then have at2: "at_pos b1 ?e ei ep" and num: "num = Suc ei"
    using base__pos_at_pos [OF _ _ pc1 _ _ 2] pos f1 by auto
  have b2: "b2 = b1" using base__pos_no_cache [of b1 ?e] 2 by simp
  have at3: "at_pos base ?e ei ep" using at2 f1 by (simp add: at_pos_def)
  have inv1: "vstr_inv b1" using inv pc1 f1 by (simp add: vstr_inv_def)
  let ?n = "b_nodes base ! ei"
  define off where "off = (if bi \<noteq> ei then 0 else p - 1)"
  define sl where "sl = (if bi \<noteq> ei then ep else len)"
  define s where "s = \<lparr>rs_len = len - sl, rs_num = num, rs_type = node_type ?n,
      rs_str = (if node_type ?n \<noteq> NODE_NON then map_option (drop off) (node_bytes ?n) else None), rs_slen = sl\<rparr>"
  have beg: "vstr__base_scan_rev_beg base pos len = (Some s, b1)"
    using pos rng(2) 1 2 f1 b2 by (simp add: vstr__base_scan_rev_beg_def s_def off_def sl_def Let_def)
  have ei: "ei < length (b_nodes base)" "1 \<le> ep" "ep \<le> node_len ?n" using at3 by (simp_all add: at_pos_def)
  have nok: "node_ok (buf_sz (b_conf base)) ?n" using wf ei by (simp add: wf_base_iff)
  have fits: "off + sl \<le> node_len ?n" "0 < sl" "sl \<le> len" and before: "len - sl \<le> length (data_before base ei)"
    and data: "rev (range_data base pos len) =
      rev (take sl (drop off (node_data ?n))) @ take (len - sl) (rev (data_before base ei))"
    using scan_places [OF wf at1 at3 rng(2) pos(1)] by (simp_all add: off_def sl_def)
  have bh: "buf_holds (rs_str s) (rs_slen s)" "buf_content (rs_str s) (rs_slen s) = take sl (drop off (node_data ?n))"
    using fits(1) node_data_length [OF nok] node_data_def [of ?n] node_bytes_data(3) [of ?n]
    by (auto simp: s_def buf_holds_def buf_content_def take_map drop_map split: option.splits)
  have fr: "data_before b1 m = data_before base m" for m using f1 by (simp add: data_before_def)
  have "iov_entries b1 = iov_entries base" using f1 by (simp only: iov_entries_def)
  then have io1: "iovec_ok b1" "iovec_upto_date b1" using io f1 by (simp_all add: iovec_ok_def vec_holds_def)
  have "rev_inv b1 s" using inv1 io1 bh(1) before ei(1) num f1 fr by (simp add: rev_inv_def s_def)
  moreover have ch: "rev_chunk s = rev (take sl (drop off (node_data ?n)))" using bh(2) by (simp add: rev_chunk_def)
  moreover have "rev_chunk s \<noteq> []" using ch fits node_data_length [OF nok] by auto
  moreover have "rev_rest b1 s = rev (range_data base pos len)"
    using data ch fr num by (simp add: rev_rest_def) (simp add: s_def)
  ultimately show ?thesis using that beg same1 inv1 by blast
qed

end
