(* ===== verification/Vstr_Spn.thy ===== *)
theory Vstr_Spn
  imports Vstr_Scan
begin

text \<open>
  Spans and searches for characters (src/vstr_spn.c, src/vstr_srch.c). All of them look for the first or the last
  position of a range that satisfies a test, going over the pieces of the range forwards, forwards with a restart at every
  failure, or backwards. The three loops are generic in the test; the specification is \<open>takeWhile\<close> on the content
  or on its reverse. An element is a byte, or none for a position of a \<^verbatim>\<open>NON\<close> node.
\<close>

section \<open>Characters\<close>

text \<open>
  \<^verbatim>\<open>memchr()\<close> converts the character, an \<^verbatim>\<open>int\<close>, to an unsigned one. \<^verbatim>\<open>vstr_wrap_memchr()\<close>, which replaces it when the
  library is configured so, does that only for more than 16 bytes: its switch compares an unsigned character with the
  \<^verbatim>\<open>int\<close>. Both return the index of the first match.
\<close>

primrec index_of :: "('a \<Rightarrow> bool) \<Rightarrow> 'a list \<Rightarrow> nat option" where
  "index_of P [] = None"
| "index_of P (x # xs) = (if P x then Some 0 else map_option Suc (index_of P xs))"

definition memchr :: "byte list \<Rightarrow> int \<Rightarrow> nat \<Rightarrow> nat option" where
  "memchr s c n = index_of (\<lambda>b. b = word_of_int c) (take n s)"

primrec memchr_switch :: "nat \<Rightarrow> byte list \<Rightarrow> int \<Rightarrow> nat option \<Rightarrow> nat option" where
  "memchr_switch 0 s c ret = ret"
| "memchr_switch (Suc k) s c ret = memchr_switch k s c (if uint (s ! k) = c then Some k else ret)"

definition vstr_wrap_memchr :: "byte list \<Rightarrow> int \<Rightarrow> nat \<Rightarrow> nat option" where
  "vstr_wrap_memchr s c n = (if n \<le> 16 then memchr_switch n s c None else memchr s c n)"

text \<open>\<^verbatim>\<open>memrchr()\<close>: the index of the last match.\<close>

definition memrchr :: "byte list \<Rightarrow> int \<Rightarrow> nat \<Rightarrow> nat option" where
  "memrchr s c n = map_option (\<lambda>i. n - 1 - i) (index_of (\<lambda>b. b = word_of_int c) (rev (take n s)))"

text \<open>Whether a byte, read as a (signed) \<^verbatim>\<open>char\<close>, is among some characters.\<close>

definition chrs_has :: "byte list \<Rightarrow> nat \<Rightarrow> byte \<Rightarrow> bool" where
  "chrs_has chrs chrs_len c \<longleftrightarrow> memchr chrs (sint c) chrs_len \<noteq> None"

section \<open>The loops\<close>

text \<open>
  \<open>go\<close> says over which elements a span goes on. The inner loop counts the bytes of a piece it goes over; a \<^verbatim>\<open>NON\<close> node is
  taken or refused as a whole.
\<close>

fun count_fwd :: "(byte option \<Rightarrow> bool) \<Rightarrow> byte list \<Rightarrow> nat \<Rightarrow> nat" where
  "count_fwd go (c # cs) (Suc k) = (if go (Some c) then Suc (count_fwd go cs k) else 0)"
| "count_fwd go _ _ = 0"

definition chunk_count :: "(byte option \<Rightarrow> bool) \<Rightarrow> byte list option \<Rightarrow> nat \<Rightarrow> nat" where
  "chunk_count go p k = (case p of None \<Rightarrow> if go None then k else 0 | Some b \<Rightarrow> count_fwd go b k)"

function spn_fwd_loop :: "(byte option \<Rightarrow> bool) \<Rightarrow> vstr_iter \<Rightarrow> nat \<Rightarrow> nat" where
  "spn_fwd_loop go iter ret =
     (let count = chunk_count go (iter_ptr iter) (iter_len iter) in
      if count < iter_len iter then ret + count
      else (case vstr_iter_fwd_nxt iter of
              (False, _) \<Rightarrow> ret + iter_len iter
            | (True, it) \<Rightarrow> spn_fwd_loop go it (ret + iter_len iter)))"
  by pat_completeness auto
termination
  by (relation "measure (\<lambda>(_, it, _). length (iter_node it))") (auto dest: nxt_shorter [OF sym])

declare spn_fwd_loop.simps [simp del]

definition spn_fwd :: "(byte option \<Rightarrow> bool) \<Rightarrow> vstr_base \<Rightarrow> nat \<Rightarrow> nat \<Rightarrow> nat \<times> vstr_base" where
  "spn_fwd go base pos len =
     (case vstr_iter_fwd_beg base pos len of
        (None, b1) \<Rightarrow> (0, b1)
      | (Some it, b1) \<Rightarrow> (spn_fwd_loop go it 0, b1))"

text \<open>Counting from the end of a piece: \<^verbatim>\<open>while (count-- > 0)\<close>.\<close>

definition chunk_count_rev :: "(byte option \<Rightarrow> bool) \<Rightarrow> byte list option \<Rightarrow> nat \<Rightarrow> nat" where
  "chunk_count_rev go p k =
     (case p of None \<Rightarrow> if go None then k else 0 | Some b \<Rightarrow> count_fwd go (rev (take k b)) k)"

text \<open>Going forwards for the last span: a failure inside a piece starts the count again behind it.\<close>

function spn_rev_slow_loop :: "(byte option \<Rightarrow> bool) \<Rightarrow> vstr_iter \<Rightarrow> nat \<Rightarrow> nat" where
  "spn_rev_slow_loop go iter ret =
     (let count = chunk_count_rev go (iter_ptr iter) (iter_len iter);
          ret1 = (if count < iter_len iter then count else ret + iter_len iter)
      in case vstr_iter_fwd_nxt iter of
           (False, _) \<Rightarrow> ret1
         | (True, it) \<Rightarrow> spn_rev_slow_loop go it ret1)"
  by pat_completeness auto
termination
  by (relation "measure (\<lambda>(_, it, _). length (iter_node it))") (auto dest: nxt_shorter [OF sym])

declare spn_rev_slow_loop.simps [simp del]

definition spn_rev_slow :: "(byte option \<Rightarrow> bool) \<Rightarrow> vstr_base \<Rightarrow> nat \<Rightarrow> nat \<Rightarrow> nat \<times> vstr_base" where
  "spn_rev_slow go base pos len =
     (case vstr_iter_fwd_beg base pos len of
        (None, b1) \<Rightarrow> (0, b1)
      | (Some it, b1) \<Rightarrow> (spn_rev_slow_loop go it 0, b1))"

text \<open>Going backwards with the iovec array.\<close>

function spn_rev_fast_loop :: "(byte option \<Rightarrow> bool) \<Rightarrow> vstr_base \<Rightarrow> rev_scan \<Rightarrow> nat \<Rightarrow> nat" where
  "spn_rev_fast_loop go base s ret =
     (let count = chunk_count_rev go (rs_str s) (rs_slen s) in
      if count < rs_slen s then ret + count
      else (case vstr__base_scan_rev_nxt base s of
              (False, _) \<Rightarrow> ret + rs_slen s
            | (True, s') \<Rightarrow> spn_rev_fast_loop go base s' (ret + rs_slen s)))"
  by pat_completeness auto
termination
  by (relation "measure (\<lambda>(_, _, s, _). rs_num s)") (auto dest: rev_nxt_less [OF sym])

declare spn_rev_fast_loop.simps [simp del]

definition spn_rev_fast :: "(byte option \<Rightarrow> bool) \<Rightarrow> vstr_base \<Rightarrow> nat \<Rightarrow> nat \<Rightarrow> nat \<times> vstr_base" where
  "spn_rev_fast go base pos len =
     (case vstr__base_scan_rev_beg base pos len of
        (None, b1) \<Rightarrow> (0, b1)
      | (Some s, b1) \<Rightarrow> (spn_rev_fast_loop go b1 s 0, b1))"

definition spn_rev :: "(byte option \<Rightarrow> bool) \<Rightarrow> vstr_base \<Rightarrow> nat \<Rightarrow> nat \<Rightarrow> nat \<times> vstr_base" where
  "spn_rev go base pos len =
     (if iovec_upto_date base then spn_rev_fast go base pos len else spn_rev_slow go base pos len)"

section \<open>Searching one character\<close>

function srch_chr_fwd_loop :: "vstr_iter \<Rightarrow> nat \<Rightarrow> nat \<Rightarrow> byte \<Rightarrow> nat" where
  "srch_chr_fwd_loop iter pos len srch =
     (case (case iter_ptr iter of None \<Rightarrow> None | Some b \<Rightarrow> memchr b (sint srch) (iter_len iter)) of
        Some found \<Rightarrow> vstr_iter_pos iter pos len + found
      | None \<Rightarrow>
          (case vstr_iter_fwd_nxt iter of
             (False, _) \<Rightarrow> 0
           | (True, it) \<Rightarrow> srch_chr_fwd_loop it pos len srch))"
  by pat_completeness auto
termination
  by (relation "measure (\<lambda>(it, _). length (iter_node it))") (auto dest: nxt_shorter [OF sym])

declare srch_chr_fwd_loop.simps [simp del]

definition vstr_srch_chr_fwd :: "vstr_base \<Rightarrow> nat \<Rightarrow> nat \<Rightarrow> byte \<Rightarrow> nat \<times> vstr_base" where
  "vstr_srch_chr_fwd base pos len srch =
     (case vstr_iter_fwd_beg base pos len of
        (None, b1) \<Rightarrow> (0, b1)
      | (Some it, b1) \<Rightarrow> (srch_chr_fwd_loop it pos len srch, b1))"

text \<open>A match lies in the range that was searched, so the search for the last one can go on behind it.\<close>

lemma index_of_less: "index_of P xs = Some i \<Longrightarrow> i < length xs \<and> P (xs ! i)"
  by (induction xs arbitrary: i) (auto split: if_splits)

lemma srch_chr_fwd_loop_bounds:
  "vstr_iter_len it \<le> len \<Longrightarrow> srch_chr_fwd_loop it pos len c \<noteq> 0 \<Longrightarrow>
   pos \<le> srch_chr_fwd_loop it pos len c \<and> srch_chr_fwd_loop it pos len c < pos + len"
proof (induction it pos len c rule: srch_chr_fwd_loop.induct)
  case (1 it pos len c)
  let ?f = "case iter_ptr it of None \<Rightarrow> None | Some b \<Rightarrow> memchr b (sint c) (iter_len it)"
  show ?case
  proof (cases ?f)
    case (Some i)
    then have "i < iter_len it" by (auto simp: memchr_def dest: index_of_less split: option.splits)
    then show ?thesis using Some "1.prems"(1) by (auto simp: srch_chr_fwd_loop.simps [of it] vstr_iter_pos_def vstr_iter_len_def)
  next
    case None
    obtain ok j where nx: "vstr_iter_fwd_nxt it = (ok, j)" by (cases "vstr_iter_fwd_nxt it")
    have ok: ok using "1.prems"(2) None nx by (cases ok) (simp_all add: srch_chr_fwd_loop.simps [of it])
    have "vstr_iter_len j \<le> vstr_iter_len it"
      using nx ok by (auto simp: vstr_iter_fwd_nxt_def vstr_iter_len_def Let_def split: list.splits if_splits)
    then show ?thesis
      using "1.IH" [OF None nx [symmetric]] ok "1.prems" None nx by (simp add: srch_chr_fwd_loop.simps [of it])
  qed
qed

lemma srch_chr_fwd_bounds:
  assumes "fst (vstr_srch_chr_fwd base pos len c) \<noteq> 0"
  shows "pos \<le> fst (vstr_srch_chr_fwd base pos len c) \<and> fst (vstr_srch_chr_fwd base pos len c) < pos + len"
proof -
  obtain r b1 where r: "vstr_iter_fwd_beg base pos len = (r, b1)" by (cases "vstr_iter_fwd_beg base pos len")
  then obtain it where it: "r = Some it" using assms by (cases r) (simp_all add: vstr_srch_chr_fwd_def)
  have "vstr_iter_len it \<le> len"
    using r it by (auto simp: vstr_iter_fwd_beg_def vstr_iter_len_def Let_def split: if_splits prod.splits)
  then show ?thesis using assms r it srch_chr_fwd_loop_bounds [of it len pos c] by (simp add: vstr_srch_chr_fwd_def)
qed

text \<open>
  The slow backwards search repeats the forwards search behind each match; \<^verbatim>\<open>scan_len\<close> is always what is left of the range
  behind \<^verbatim>\<open>scan_pos\<close>.
\<close>

function srch_chr_rev_slow_loop :: "vstr_base \<Rightarrow> nat \<Rightarrow> nat \<Rightarrow> byte \<Rightarrow> nat \<Rightarrow> nat \<Rightarrow> nat \<times> vstr_base" where
  "srch_chr_rev_slow_loop base pos len srch scan_pos ret =
     (let scan_len = pos + len - scan_pos in
      if scan_len = 0 then (ret, base)
      else (case vstr_srch_chr_fwd base scan_pos scan_len srch of
              (tmp, b1) \<Rightarrow> if tmp = 0 then (ret, b1) else srch_chr_rev_slow_loop b1 pos len srch (tmp + 1) tmp))"
  by pat_completeness auto
termination
proof (relation "measure (\<lambda>(_, pos, len, _, scan_pos, _). pos + len - scan_pos)", goal_cases)
  case (2 base pos len srch scan_pos ret scan_len tmp b1)
  have "fst (vstr_srch_chr_fwd base scan_pos scan_len srch) = tmp" using 2(3) by (metis fst_conv)
  then show ?case using 2 srch_chr_fwd_bounds [of base scan_pos scan_len srch] by auto
qed simp

declare srch_chr_rev_slow_loop.simps [simp del]

function srch_chr_rev_fast_loop :: "vstr_base \<Rightarrow> rev_scan \<Rightarrow> nat \<Rightarrow> byte \<Rightarrow> nat" where
  "srch_chr_rev_fast_loop base s pos srch =
     (case (case rs_str s of None \<Rightarrow> None | Some b \<Rightarrow> memrchr b (sint srch) (rs_slen s)) of
        Some found \<Rightarrow> pos + rs_len s + found
      | None \<Rightarrow>
          (case vstr__base_scan_rev_nxt base s of
             (False, _) \<Rightarrow> 0
           | (True, s') \<Rightarrow> srch_chr_rev_fast_loop base s' pos srch))"
  by pat_completeness auto
termination
  by (relation "measure (\<lambda>(_, s, _). rs_num s)") (auto dest: rev_nxt_less [OF sym])

declare srch_chr_rev_fast_loop.simps [simp del]

definition vstr_srch_chr_rev :: "vstr_base \<Rightarrow> nat \<Rightarrow> nat \<Rightarrow> byte \<Rightarrow> nat \<times> vstr_base" where
  "vstr_srch_chr_rev base pos len srch =
     (if iovec_upto_date base then
        (case vstr__base_scan_rev_beg base pos len of
           (None, b1) \<Rightarrow> (0, b1)
         | (Some s, b1) \<Rightarrow> (srch_chr_rev_fast_loop b1 s pos srch, b1))
      else srch_chr_rev_slow_loop base pos len srch pos 0)"

section \<open>Spans of characters\<close>

text \<open>The characters are given as a buffer, or as a null pointer for positions without a byte.\<close>

definition chrs_go :: "byte list option \<Rightarrow> nat \<Rightarrow> byte option \<Rightarrow> bool" where
  "chrs_go chrs n e = (case e of None \<Rightarrow> chrs = None
     | Some c \<Rightarrow> (case chrs of None \<Rightarrow> False | Some cs \<Rightarrow> chrs_has cs n c))"

definition vstr_spn_chrs_fwd :: "vstr_base \<Rightarrow> nat \<Rightarrow> nat \<Rightarrow> byte list option \<Rightarrow> nat \<Rightarrow> nat \<times> vstr_base" where
  "vstr_spn_chrs_fwd base pos len spn_chrs spn_len =
     (if spn_chrs = None \<and> \<not> node_non_used base then (0, base)
      else if spn_chrs \<noteq> None \<and> spn_len = 1 then spn_fwd (\<lambda>e. e = Some (hd (the spn_chrs))) base pos len
      else spn_fwd (chrs_go spn_chrs spn_len) base pos len)"

definition vstr_spn_chrs_rev :: "vstr_base \<Rightarrow> nat \<Rightarrow> nat \<Rightarrow> byte list option \<Rightarrow> nat \<Rightarrow> nat \<times> vstr_base" where
  "vstr_spn_chrs_rev base pos len spn_chrs spn_len =
     (if spn_chrs = None \<and> \<not> node_non_used base then (0, base)
      else spn_rev (chrs_go spn_chrs spn_len) base pos len)"

definition vstr_cspn_chrs_fwd :: "vstr_base \<Rightarrow> nat \<Rightarrow> nat \<Rightarrow> byte list option \<Rightarrow> nat \<Rightarrow> nat \<times> vstr_base" where
  "vstr_cspn_chrs_fwd base pos len cspn_chrs cspn_len =
     (if cspn_chrs = None \<and> \<not> node_non_used base then (len, base)
      else if cspn_chrs \<noteq> None \<and> cspn_len = 1 then
        (case vstr_srch_chr_fwd base pos len (hd (the cspn_chrs)) of
           (f_pos, b1) \<Rightarrow> (if f_pos = 0 then len else f_pos - pos, b1))
      else spn_fwd (\<lambda>e. \<not> chrs_go cspn_chrs cspn_len e) base pos len)"

definition vstr_cspn_chrs_rev :: "vstr_base \<Rightarrow> nat \<Rightarrow> nat \<Rightarrow> byte list option \<Rightarrow> nat \<Rightarrow> nat \<times> vstr_base" where
  "vstr_cspn_chrs_rev base pos len cspn_chrs cspn_len =
     (if cspn_chrs = None \<and> \<not> node_non_used base then (len, base)
      else if cspn_chrs \<noteq> None \<and> cspn_len = 1 then
        (case vstr_srch_chr_rev base pos len (hd (the cspn_chrs)) of
           (f_pos, b1) \<Rightarrow> (if f_pos = 0 then len else (pos + (len - 1)) - f_pos, b1))
      else spn_rev (\<lambda>e. \<not> chrs_go cspn_chrs cspn_len e) base pos len)"

text \<open>The searches for one of several characters are spans of the others.\<close>

definition srch_of_spn :: "nat \<times> vstr_base \<Rightarrow> nat \<Rightarrow> nat \<Rightarrow> nat \<times> vstr_base" where
  "srch_of_spn r pos len = (if fst r = len then 0 else pos + fst r, snd r)"

definition srch_of_spn_rev :: "nat \<times> vstr_base \<Rightarrow> nat \<Rightarrow> nat \<Rightarrow> nat \<times> vstr_base" where
  "srch_of_spn_rev r pos len = (if fst r = len then 0 else pos + ((len - fst r) - 1), snd r)"

definition vstr_srch_chrs_fwd :: "vstr_base \<Rightarrow> nat \<Rightarrow> nat \<Rightarrow> byte list option \<Rightarrow> nat \<Rightarrow> nat \<times> vstr_base" where
  "vstr_srch_chrs_fwd base pos len srch n = srch_of_spn (vstr_cspn_chrs_fwd base pos len srch n) pos len"

definition vstr_srch_chrs_rev :: "vstr_base \<Rightarrow> nat \<Rightarrow> nat \<Rightarrow> byte list option \<Rightarrow> nat \<Rightarrow> nat \<times> vstr_base" where
  "vstr_srch_chrs_rev base pos len srch n = srch_of_spn_rev (vstr_cspn_chrs_rev base pos len srch n) pos len"

definition vstr_csrch_chrs_fwd :: "vstr_base \<Rightarrow> nat \<Rightarrow> nat \<Rightarrow> byte list option \<Rightarrow> nat \<Rightarrow> nat \<times> vstr_base" where
  "vstr_csrch_chrs_fwd base pos len srch n = srch_of_spn (vstr_spn_chrs_fwd base pos len srch n) pos len"

definition vstr_csrch_chrs_rev :: "vstr_base \<Rightarrow> nat \<Rightarrow> nat \<Rightarrow> byte list option \<Rightarrow> nat \<Rightarrow> nat \<times> vstr_base" where
  "vstr_csrch_chrs_rev base pos len srch n = srch_of_spn_rev (vstr_spn_chrs_rev base pos len srch n) pos len"

section \<open>Spans of mapped bytes\<close>

text \<open>
  A map from bytes to bytes; an element is taken when its value equals, or shares a bit with, a given value. These
  functions do not use the iovec array.
\<close>

definition bmap_eq :: "byte list \<Rightarrow> byte \<Rightarrow> byte option \<Rightarrow> bool" where
  "bmap_eq bmap val e = (case e of None \<Rightarrow> False | Some c \<Rightarrow> bmap ! unat c = val)"

definition bmap_and :: "byte list \<Rightarrow> byte \<Rightarrow> byte option \<Rightarrow> bool" where
  "bmap_and bmap val e = (case e of None \<Rightarrow> False | Some c \<Rightarrow> and (bmap ! unat c) val \<noteq> 0)"

text \<open>Filling such a map from a buffer: \<^verbatim>\<open>vstr_sc_bmap_init_eq_spn_buf()\<close> and \<^verbatim>\<open>vstr_sc_bmap_init_or_spn_buf()\<close>.\<close>

primrec vstr_sc_bmap_init_eq_spn_buf :: "byte list \<Rightarrow> byte list \<Rightarrow> nat \<Rightarrow> byte \<Rightarrow> byte list" where
  "vstr_sc_bmap_init_eq_spn_buf bmap buf 0 val = bmap"
| "vstr_sc_bmap_init_eq_spn_buf bmap buf (Suc len) val =
     vstr_sc_bmap_init_eq_spn_buf (bmap[unat (buf ! len) := val]) buf len val"

primrec vstr_sc_bmap_init_or_spn_buf :: "byte list \<Rightarrow> byte list \<Rightarrow> nat \<Rightarrow> byte \<Rightarrow> byte list" where
  "vstr_sc_bmap_init_or_spn_buf bmap buf 0 val = bmap"
| "vstr_sc_bmap_init_or_spn_buf bmap buf (Suc len) val =
     vstr_sc_bmap_init_or_spn_buf (bmap[unat (buf ! len) := or (bmap ! unat (buf ! len)) val]) buf len val"

definition vstr_spn_bmap_eq_fwd :: "vstr_base \<Rightarrow> nat \<Rightarrow> nat \<Rightarrow> byte list \<Rightarrow> byte \<Rightarrow> nat \<times> vstr_base" where
  "vstr_spn_bmap_eq_fwd base pos len bmap val = spn_fwd (bmap_eq bmap val) base pos len"

definition vstr_spn_bmap_eq_rev :: "vstr_base \<Rightarrow> nat \<Rightarrow> nat \<Rightarrow> byte list \<Rightarrow> byte \<Rightarrow> nat \<times> vstr_base" where
  "vstr_spn_bmap_eq_rev base pos len bmap val = spn_rev_slow (bmap_eq bmap val) base pos len"

definition vstr_spn_bmap_and_fwd :: "vstr_base \<Rightarrow> nat \<Rightarrow> nat \<Rightarrow> byte list \<Rightarrow> byte \<Rightarrow> nat \<times> vstr_base" where
  "vstr_spn_bmap_and_fwd base pos len bmap val = spn_fwd (bmap_and bmap val) base pos len"

definition vstr_spn_bmap_and_rev :: "vstr_base \<Rightarrow> nat \<Rightarrow> nat \<Rightarrow> byte list \<Rightarrow> byte \<Rightarrow> nat \<times> vstr_base" where
  "vstr_spn_bmap_and_rev base pos len bmap val = spn_rev_slow (bmap_and bmap val) base pos len"

definition vstr_cspn_bmap_eq_fwd :: "vstr_base \<Rightarrow> nat \<Rightarrow> nat \<Rightarrow> byte list \<Rightarrow> byte \<Rightarrow> nat \<times> vstr_base" where
  "vstr_cspn_bmap_eq_fwd base pos len bmap val = spn_fwd (\<lambda>e. \<not> bmap_eq bmap val e) base pos len"

definition vstr_cspn_bmap_eq_rev :: "vstr_base \<Rightarrow> nat \<Rightarrow> nat \<Rightarrow> byte list \<Rightarrow> byte \<Rightarrow> nat \<times> vstr_base" where
  "vstr_cspn_bmap_eq_rev base pos len bmap val = spn_rev_slow (\<lambda>e. \<not> bmap_eq bmap val e) base pos len"

definition vstr_cspn_bmap_and_fwd :: "vstr_base \<Rightarrow> nat \<Rightarrow> nat \<Rightarrow> byte list \<Rightarrow> byte \<Rightarrow> nat \<times> vstr_base" where
  "vstr_cspn_bmap_and_fwd base pos len bmap val = spn_fwd (\<lambda>e. \<not> bmap_and bmap val e) base pos len"

definition vstr_cspn_bmap_and_rev :: "vstr_base \<Rightarrow> nat \<Rightarrow> nat \<Rightarrow> byte list \<Rightarrow> byte \<Rightarrow> nat \<times> vstr_base" where
  "vstr_cspn_bmap_and_rev base pos len bmap val = spn_rev_slow (\<lambda>e. \<not> bmap_and bmap val e) base pos len"

section \<open>The loops count elements\<close>

lemma count_fwd_eq: "k \<le> length cs \<Longrightarrow> count_fwd go cs k = length (takeWhile go (map Some (take k cs)))"
  by (induction go cs k rule: count_fwd.induct) auto

lemma takeWhile_replicate: "takeWhile P (replicate k x) = (if P x then replicate k x else [])"
  by (induction k) auto

lemma chunk_count_eq:
  assumes "buf_holds p k"
  shows "chunk_count go p k = length (takeWhile go (buf_content p k))"
    "chunk_count_rev go p k = length (takeWhile go (rev (buf_content p k)))"
  using assms count_fwd_eq [of k "the p" go] count_fwd_eq [of k "rev (take k (the p))" go]
  by (auto simp: chunk_count_def chunk_count_rev_def buf_content_def buf_holds_def takeWhile_replicate rev_map split: option.splits)

lemma takeWhile_append: "length (takeWhile P (xs @ ys)) =
    (if length (takeWhile P xs) < length xs then length (takeWhile P xs) else length xs + length (takeWhile P ys))"
proof (induction xs)
  case (Cons x xs)
  then show ?case by auto
qed simp

lemma takeWhile_full: "length (takeWhile P xs) < length xs \<longleftrightarrow> \<not> (\<forall>x \<in> set xs. P x)"
proof (induction xs)
  case (Cons x xs)
  then show ?case by auto
qed simp

text \<open>A piece as the buffer behind its pointer.\<close>

lemma chunk_content:
  assumes "iter_inv it"
  shows "iter_chunk it = buf_content (iter_ptr it) (iter_len it)" "buf_holds (iter_ptr it) (iter_len it)"
  using iter_rest_take [OF assms order_refl] iter_chunk_length [OF assms] by (simp_all add: iter_rest_def)

lemma nxt_option:
  "(case vstr_iter_fwd_nxt it of (False, _) \<Rightarrow> a | (True, it') \<Rightarrow> f it') =
   (case iter_next it of None \<Rightarrow> a | Some it' \<Rightarrow> f it')"
  by (simp add: iter_next_def split: prod.split bool.split)

lemma rev_nxt_option:
  "(case vstr__base_scan_rev_nxt base s of (False, _) \<Rightarrow> a | (True, s') \<Rightarrow> f s') =
   (case rev_next base s of None \<Rightarrow> a | Some s' \<Rightarrow> f s')"
  by (simp add: rev_next_def split: prod.split bool.split)

lemma spn_fwd_loop_eq: "iter_inv it \<Longrightarrow> spn_fwd_loop go it ret = ret + length (takeWhile go (iter_rest it))"
proof (induction it arbitrary: ret rule: fwd.chunk_induct)
  case (last it)
  then show ?case
    using chunk_content [OF last(1)] chunk_count_eq(1) [of "iter_ptr it" "iter_len it" go] iter_chunk_length [OF last(1)]
      takeWhile_append [of go "iter_chunk it" "[]"]
    by (auto simp: spn_fwd_loop.simps [of go it] nxt_option Let_def)
next
  case (more it it')
  then show ?case
    using chunk_content [OF more(1)] chunk_count_eq(1) [of "iter_ptr it" "iter_len it" go] iter_chunk_length [OF more(1)]
    by (simp add: spn_fwd_loop.simps [of go it] nxt_option Let_def takeWhile_append)
qed

lemma spn_rev_turn:
  fixes go :: "byte option \<Rightarrow> bool"
  assumes "iter_inv it"
  defines "cnt \<equiv> chunk_count_rev go (iter_ptr it) (iter_len it)"
  shows "(if cnt < iter_len it then cnt else ret + iter_len it) =
    length (takeWhile go (rev (iter_chunk it))) + (if \<forall>x \<in> set (iter_chunk it). go x then ret else 0)"
proof -
  have c: "cnt = length (takeWhile go (rev (iter_chunk it)))"
    unfolding cnt_def chunk_content(1) [OF assms(1)] by (rule chunk_count_eq(2) [OF chunk_content(2) [OF assms(1)]])
  then have "cnt < iter_len it \<longleftrightarrow> \<not> (\<forall>x \<in> set (iter_chunk it). go x)"
    using takeWhile_full [of go "rev (iter_chunk it)"] iter_chunk_length [OF assms(1)] by simp
  moreover have "cnt \<le> iter_len it"
    using length_takeWhile_le [of go "rev (iter_chunk it)"] iter_chunk_length [OF assms(1)] c by simp
  ultimately show ?thesis using c by auto
qed

lemma spn_rev_slow_loop_eq:
  "iter_inv it \<Longrightarrow> spn_rev_slow_loop go it ret =
    length (takeWhile go (rev (iter_rest it))) + (if \<forall>x \<in> set (iter_rest it). go x then ret else 0)"
proof (induction it arbitrary: ret rule: fwd.chunk_induct)
  case (last it)
  then show ?case
    unfolding spn_rev_slow_loop.simps [of go it] Let_def nxt_option spn_rev_turn [OF last(1)] by simp
next
  case (more it it')
  have full: "length (takeWhile go (rev (iter_rest it'))) < length (iter_rest it') \<longleftrightarrow> \<not> (\<forall>x \<in> set (iter_rest it'). go x)"
    using takeWhile_full [of go "rev (iter_rest it')"] by simp
  have "length (takeWhile go (rev (iter_rest it'))) \<le> length (iter_rest it')"
    using length_takeWhile_le [of go "rev (iter_rest it')"] by simp
  then show ?case
    unfolding spn_rev_slow_loop.simps [of go it] Let_def nxt_option spn_rev_turn [OF more(1)] more(4)
    using more(2) more.IH full by (auto simp: takeWhile_append)
qed

lemma rev_chunk_content:
  assumes "rev_inv base s"
  shows "buf_holds (rs_str s) (rs_slen s)" "length (rev_chunk s) = rs_slen s"
  using assms by (simp_all add: rev_inv_def rev_chunk_def)

lemma spn_rev_fast_loop_eq:
  "rev_inv base s \<Longrightarrow> spn_rev_fast_loop go base s ret = ret + length (takeWhile go (rev_rest base s))"
proof (induction s arbitrary: ret rule: bwd.chunk_induct)
  case (last s)
  have c: "chunk_count_rev go (rs_str s) (rs_slen s) = length (takeWhile go (rev_chunk s))"
    unfolding rev_chunk_def by (rule chunk_count_eq(2) [OF rev_chunk_content(1) [OF last(1)]])
  have "length (takeWhile go (rev_chunk s)) \<le> rs_slen s"
    using length_takeWhile_le [of go "rev_chunk s"] rev_chunk_content(2) [OF last(1)] by simp
  then show ?case unfolding spn_rev_fast_loop.simps [of go base s] Let_def rev_nxt_option c using last by simp
next
  case (more s s')
  have c: "chunk_count_rev go (rs_str s) (rs_slen s) = length (takeWhile go (rev_chunk s))"
    unfolding rev_chunk_def by (rule chunk_count_eq(2) [OF rev_chunk_content(1) [OF more(1)]])
  show ?case
    unfolding spn_rev_fast_loop.simps [of go base s] Let_def rev_nxt_option c
    using more rev_chunk_content(2) [OF more(1)] by (simp add: takeWhile_append)
qed

text \<open>The spans of a range. The backwards ones need an iovec array that is in step with the string, if there is one.\<close>

lemma spn_fwd_eq: "in_range base pos len \<Longrightarrow> fst (spn_fwd go base pos len) = length (takeWhile go (range_data base pos len))"
  by (rule fwd_beg_range) (auto simp: spn_fwd_def spn_fwd_loop_eq)

lemma spn_rev_slow_eq:
  "in_range base pos len \<Longrightarrow> fst (spn_rev_slow go base pos len) = length (takeWhile go (rev (range_data base pos len)))"
  by (rule fwd_beg_range) (auto simp: spn_rev_slow_def spn_rev_slow_loop_eq)

lemma spn_rev_eq:
  assumes "in_range base pos len" "iovec_ok base"
  shows "fst (spn_rev go base pos len) = length (takeWhile go (rev (range_data base pos len)))"
proof (cases "iovec_upto_date base \<and> 0 < len")
  case True
  then obtain s b' where "vstr__base_scan_rev_beg base pos len = (Some s, b')" "rev_inv b' s"
      "rev_rest b' s = rev (range_data base pos len)"
    using scan_rev_beg_spec [OF assms(1) _ assms(2)] by metis
  then show ?thesis using True by (simp add: spn_rev_def spn_rev_fast_def spn_rev_fast_loop_eq)
next
  case False
  then show ?thesis
    using spn_rev_slow_eq [OF assms(1), of go] by (auto simp: spn_rev_def spn_rev_fast_def vstr__base_scan_rev_beg_def)
qed

section \<open>The searches find elements\<close>

lemma index_of_append:
  "index_of P (xs @ ys) = (case index_of P xs of Some i \<Rightarrow> Some i | None \<Rightarrow> map_option (\<lambda>i. length xs + i) (index_of P ys))"
proof (induction xs)
  case (Cons x xs)
  then show ?case by (cases "index_of P ys") (auto split: option.split)
qed (cases "index_of P ys"; simp)

lemma index_of_None: "index_of P xs = None \<longleftrightarrow> \<not> (\<exists>x \<in> set xs. P x)"
  by (induction xs) auto

lemma index_of_map: "index_of P (map f xs) = index_of (\<lambda>x. P (f x)) xs"
  by (induction xs) auto

lemma index_of_takeWhile:
  "index_of P xs = (if \<exists>x \<in> set xs. P x then Some (length (takeWhile (\<lambda>x. \<not> P x) xs)) else None)"
  by (induction xs) auto

lemma memchr_sint: "memchr b (sint c) n = index_of (\<lambda>x. x = Some c) (map Some (take n b))" for c :: byte
  by (simp add: memchr_def index_of_map)

lemma chrs_has_iff: "chrs_has cs n c \<longleftrightarrow> c \<in> set (take n cs)"
  using index_of_None [of "\<lambda>x. x = Some c" "map Some (take n cs)"] by (auto simp: chrs_has_def memchr_sint)

lemma chunk_memchr:
  fixes c :: byte
  assumes "iter_inv it"
  shows "(case iter_ptr it of None \<Rightarrow> None | Some b \<Rightarrow> memchr b (sint c) (iter_len it)) = index_of (\<lambda>x. x = Some c) (iter_chunk it)"
  using index_of_None [of "\<lambda>x. x = Some c" "replicate (iter_len it) None"]
  by (auto simp: iter_chunk_def memchr_sint split: option.split)

definition found_at :: "nat \<Rightarrow> nat option \<Rightarrow> nat" where
  "found_at pos i = (case i of None \<Rightarrow> 0 | Some i \<Rightarrow> pos + i)"

lemma srch_chr_fwd_loop_eq:
  assumes "iter_inv it" "vstr_iter_len it \<le> len"
  shows "srch_chr_fwd_loop it pos len c =
    found_at (pos + (len - vstr_iter_len it)) (index_of (\<lambda>x. x = Some c) (iter_rest it))"
  using assms
proof (induction it rule: fwd.chunk_induct)
  case (last it)
  then show ?case
    unfolding srch_chr_fwd_loop.simps [of it] nxt_option chunk_memchr [OF last(1)]
    by (simp add: found_at_def vstr_iter_pos_def vstr_iter_len_def split: option.split)
next
  case (more it it')
  have len: "vstr_iter_len it = iter_len it + vstr_iter_len it'" "length (iter_chunk it) = iter_len it"
    using iter_rest_length [OF more(1)] iter_rest_length [OF more(3)] iter_chunk_length [OF more(1)] more(4) by simp_all
  then show ?case
    unfolding srch_chr_fwd_loop.simps [of it] nxt_option chunk_memchr [OF more(1)]
    using more by (auto simp: found_at_def index_of_append vstr_iter_pos_def vstr_iter_len_def split: option.split)
qed

lemma srch_chr_fwd_eq:
  assumes "in_range base pos len"
  shows "fst (vstr_srch_chr_fwd base pos len c) = found_at pos (index_of (\<lambda>x. x = Some c) (range_data base pos len))"
    "same_but_cache base (snd (vstr_srch_chr_fwd base pos len c)) \<and> vstr_inv (snd (vstr_srch_chr_fwd base pos len c))"
proof -
  show "fst (vstr_srch_chr_fwd base pos len c) = found_at pos (index_of (\<lambda>x. x = Some c) (range_data base pos len))"
    using assms
  proof (cases rule: fwd_beg_range)
    case (some it b')
    have "vstr_iter_len it = len" using iter_rest_length [OF some(3)] range_data_length [OF assms] some(5) by simp
    then show ?thesis using some srch_chr_fwd_loop_eq [OF some(3), of len pos c] by (simp add: vstr_srch_chr_fwd_def)
  qed (simp add: vstr_srch_chr_fwd_def found_at_def)
  show "same_but_cache base (snd (vstr_srch_chr_fwd base pos len c)) \<and> vstr_inv (snd (vstr_srch_chr_fwd base pos len c))"
    using assms by (cases rule: fwd_beg_range) (use assms in \<open>auto simp: vstr_srch_chr_fwd_def in_range_def\<close>)
qed

definition found_rev :: "nat \<Rightarrow> nat option \<Rightarrow> nat" where
  "found_rev en i = (case i of None \<Rightarrow> 0 | Some i \<Rightarrow> en - i)"

lemma srch_chr_rev_slow_loop_eq:
  assumes "in_range base pos len" "pos \<le> sp" "sp \<le> pos + len"
  shows "fst (srch_chr_rev_slow_loop base pos len c sp ret) =
    (case index_of (\<lambda>x. x = Some c) (rev (drop (sp - pos) (range_data base pos len))) of None \<Rightarrow> ret | Some i \<Rightarrow> pos + len - 1 - i)"
  using assms
proof (induction base pos len c sp ret rule: srch_chr_rev_slow_loop.induct)
  case (1 base pos len c sp ret)
  let ?P = "\<lambda>x. x = Some c" and ?R = "range_data base pos len"
  define R where "R = drop (sp - pos) ?R"
  obtain tmp b1 where f: "vstr_srch_chr_fwd base sp (pos + len - sp) c = (tmp, b1)" by (cases "vstr_srch_chr_fwd base sp (pos + len - sp) c")
  have rng: "in_range base sp (pos + len - sp)" using "1.prems" by (auto simp: in_range_def)
  have R: "range_data base sp (pos + len - sp) = R"
    using "1.prems" by (simp add: R_def drop_take in_range_def add.commute)
  have lR: "length R = pos + len - sp" using range_data_length [OF rng] unfolding R .
  note sf = srch_chr_fwd_eq [OF rng, of c, unfolded f R, simplified]
  show ?case
  proof (cases "index_of ?P R")
    case None
    then have "index_of ?P (rev R) = None" by (simp add: index_of_None)
    then show ?thesis
      unfolding R_def [symmetric] srch_chr_rev_slow_loop.simps [of base pos len c sp]
      using sf(1) None f by (simp add: found_at_def)
  next
    case (Some i)
    then have i: "i < length R" "R ! i = Some c" using index_of_less by fastforce+
    have tmp: "tmp = sp + i" "tmp \<noteq> 0" "tmp < pos + len" using sf(1) Some i lR "1.prems" by (auto simp: found_at_def in_range_def)
    have b1: "in_range b1 pos len" "range_data b1 pos len = ?R"
      using sf(2) "1.prems"(1) same_but_cache_frame [of base b1] by (auto simp: in_range_def)
    have step: "srch_chr_rev_slow_loop base pos len c sp ret = srch_chr_rev_slow_loop b1 pos len c (tmp + 1) tmp"
      using f tmp i lR by (auto simp: srch_chr_rev_slow_loop.simps [of base pos len c sp])
    have IH: "fst (srch_chr_rev_slow_loop b1 pos len c (tmp + 1) tmp) =
        (case index_of ?P (rev (drop (tmp + 1 - pos) ?R)) of None \<Rightarrow> tmp | Some i \<Rightarrow> pos + len - 1 - i)"
      using "1.IH" [OF refl _ f [symmetric]] b1 tmp "1.prems"(2) i lR by auto
    have dr: "drop (tmp + 1 - pos) ?R = drop (Suc i) R" using tmp(1) "1.prems"(2) by (simp add: R_def Suc_diff_le add.commute)
    have "rev R = rev (drop (Suc i) R) @ Some c # rev (take i R)"
      using arg_cong [OF id_take_nth_drop [OF i(1)], of rev] i(2) by simp
    then have "index_of ?P (rev R) = (case index_of ?P (rev (drop (Suc i) R)) of Some j \<Rightarrow> Some j | None \<Rightarrow> Some (length R - Suc i))"
      by (simp add: index_of_append split: option.split)
    then show ?thesis
      unfolding step IH dr R_def [symmetric] using tmp lR i "1.prems" by (auto split: option.split)
  qed
qed

lemma rev_chunk_memrchr:
  fixes c :: byte
  assumes "rev_inv base s"
  shows "(case rs_str s of None \<Rightarrow> None | Some b \<Rightarrow> memrchr b (sint c) (rs_slen s)) =
    map_option (\<lambda>i. rs_slen s - 1 - i) (index_of (\<lambda>x. x = Some c) (rev_chunk s))"
proof (cases "rs_str s")
  case None
  then have "index_of (\<lambda>x. x = Some c) (rev_chunk s) = None" by (simp add: rev_chunk_def buf_content_def index_of_None)
  then show ?thesis using None by simp
next
  case (Some b)
  then show ?thesis by (simp add: rev_chunk_def buf_content_def memrchr_def rev_map index_of_map)
qed

lemma srch_chr_rev_fast_loop_eq:
  assumes "rev_inv base s"
  shows "srch_chr_rev_fast_loop base s pos c =
    found_rev (pos + length (rev_rest base s) - 1) (index_of (\<lambda>x. x = Some c) (rev_rest base s))"
  using assms
proof (induction s rule: bwd.chunk_induct)
  case (last s)
  have "rs_len s = 0" using last(1,3) by (auto simp: rev_rest_def rev_inv_def)
  then show ?case
    unfolding srch_chr_rev_fast_loop.simps [of base s] rev_nxt_option rev_chunk_memrchr [OF last(1)]
    using last(2,3) rev_chunk_content(2) [OF last(1)]
    by (auto simp: found_rev_def dest!: index_of_less split: option.split)
next
  case (more s s')
  have "length (rev_rest base s) = rs_slen s + rs_len s"
    using more(1) rev_chunk_content(2) [OF more(1)] by (auto simp: rev_rest_def rev_inv_def)
  moreover have "length (rev_rest base s') = rs_len s" using calculation more(4) rev_chunk_content(2) [OF more(1)] by simp
  ultimately show ?case
    unfolding srch_chr_rev_fast_loop.simps [of base s] rev_nxt_option rev_chunk_memrchr [OF more(1)]
    using more(2,4) more.IH rev_chunk_content(2) [OF more(1)]
    by (auto simp: found_rev_def index_of_append dest!: index_of_less split: option.split)
qed

lemma srch_chr_rev_eq:
  assumes "in_range base pos len" "iovec_ok base"
  shows "fst (vstr_srch_chr_rev base pos len c) =
    found_rev (pos + len - 1) (index_of (\<lambda>x. x = Some c) (rev (range_data base pos len)))"
proof (cases "iovec_upto_date base \<and> 0 < len")
  case True
  then obtain s b' where s: "vstr__base_scan_rev_beg base pos len = (Some s, b')" "rev_inv b' s"
      "rev_rest b' s = rev (range_data base pos len)"
    using scan_rev_beg_spec [OF assms(1) _ assms(2)] by metis
  then show ?thesis
    using True srch_chr_rev_fast_loop_eq [OF s(2), of pos c] range_data_length [OF assms(1)] by (simp add: vstr_srch_chr_rev_def)
next
  case False
  then show ?thesis
    using srch_chr_rev_slow_loop_eq [OF assms(1), of pos c 0]
    by (auto simp: vstr_srch_chr_rev_def vstr__base_scan_rev_beg_def found_rev_def split: option.splits)
qed

section \<open>What the functions count\<close>

text \<open>The elements given by some characters, or by a null pointer.\<close>

definition chr_set :: "byte list option \<Rightarrow> nat \<Rightarrow> byte option set" where
  "chr_set chrs n = (case chrs of None \<Rightarrow> {None} | Some cs \<Rightarrow> Some ` set (take n cs))"

lemma chrs_go_eq: "chrs_go chrs n = (\<lambda>e. e \<in> chr_set chrs n)"
  by (rule ext) (auto simp: chrs_go_def chr_set_def chrs_has_iff split: option.splits)

lemma chr_set_single: "buf_holds (Some cs) 1 \<Longrightarrow> chr_set (Some cs) 1 = {Some (hd cs)}"
  by (cases cs) (auto simp: chr_set_def buf_holds_def)

text \<open>Without \<^verbatim>\<open>NON\<close> nodes every position has a byte.\<close>

lemma no_non_data:
  assumes "wf_base base" "\<not> node_non_used base" "e \<in> set (vstr_data base)"
  shows "e \<noteq> None"
proof -
  obtain n where n: "n \<in> set (b_nodes base)" "e \<in> set (node_data n)"
    using assms(3) by (auto simp: vstr_data_def dest!: in_set_dropD)
  have "flag_of base (node_type n)" using assms(1) n(1) by (simp add: wf_base_iff)
  then have "node_type n \<noteq> NODE_NON" using assms(2) by (auto simp: flag_of_def)
  then show ?thesis using n(2) by (cases n) (auto simp: node_data_def)
qed

lemma no_non_range: "in_range base pos len \<Longrightarrow> \<not> node_non_used base \<Longrightarrow> None \<notin> set (range_data base pos len)"
  using no_non_data by (auto simp: in_range_def vstr_inv_def dest!: in_set_takeD in_set_dropD)

lemma takeWhile_none:
  assumes "None \<notin> set xs"
  shows "length (takeWhile (\<lambda>e. e \<in> chr_set None n) xs) = 0" "length (takeWhile (\<lambda>e. e \<notin> chr_set None n) xs) = length xs"
proof -
  have "x \<notin> chr_set None n" if "x \<in> set xs" for x
  proof -
    have "x \<noteq> None" using that assms by metis
    then show ?thesis by (simp add: chr_set_def)
  qed
  note out = this
  show "length (takeWhile (\<lambda>e. e \<in> chr_set None n) xs) = 0"
  proof (cases xs)
    case (Cons y ys)
    then have "y \<notin> chr_set None n" by (intro out) simp
    then show ?thesis using Cons by simp
  qed simp
  have "takeWhile (\<lambda>e. e \<notin> chr_set None n) xs = xs" using out by (subst takeWhile_eq_all_conv) blast
  then show "length (takeWhile (\<lambda>e. e \<notin> chr_set None n) xs) = length xs" by (rule arg_cong)
qed

lemma takeWhile_index:
  "length (takeWhile (\<lambda>x. x \<noteq> e) xs) = (case index_of (\<lambda>x. x = e) xs of None \<Rightarrow> length xs | Some i \<Rightarrow> i)"
  by (induction xs) (auto split: option.splits)

lemma spn_chrs_fwd_eq:
  assumes "in_range base pos len" "buf_holds chrs n"
  shows "fst (vstr_spn_chrs_fwd base pos len chrs n) = length (takeWhile (\<lambda>e. e \<in> chr_set chrs n) (range_data base pos len))"
    "fst (vstr_cspn_chrs_fwd base pos len chrs n) = length (takeWhile (\<lambda>e. e \<notin> chr_set chrs n) (range_data base pos len))"
proof -
  have len: "length (range_data base pos len) = len" by (rule range_data_length [OF assms(1)])
  show "fst (vstr_spn_chrs_fwd base pos len chrs n) = length (takeWhile (\<lambda>e. e \<in> chr_set chrs n) (range_data base pos len))"
    using takeWhile_none(1) [OF no_non_range [OF assms(1)]] chr_set_single [of "the chrs"] assms(2)
    by (auto simp: vstr_spn_chrs_fwd_def spn_fwd_eq [OF assms(1)] chrs_go_eq)
  show "fst (vstr_cspn_chrs_fwd base pos len chrs n) = length (takeWhile (\<lambda>e. e \<notin> chr_set chrs n) (range_data base pos len))"
  proof (cases "chrs \<noteq> None \<and> n = 1")
    case True
    then have cs: "chr_set chrs n = {Some (hd (the chrs))}" using chr_set_single [of "the chrs"] assms(2) by auto
    have "pos \<noteq> 0" using assms(1) by (simp add: in_range_def)
    then show ?thesis
      unfolding cs
      using True srch_chr_fwd_eq(1) [OF assms(1), of "hd (the chrs)"] len takeWhile_index [of "Some (hd (the chrs))" "range_data base pos len"]
      by (auto simp: vstr_cspn_chrs_fwd_def found_at_def split: prod.splits option.splits)
  next
    case False
    then show ?thesis
      using takeWhile_none(2) [OF no_non_range [OF assms(1)]] len
      by (auto simp: vstr_cspn_chrs_fwd_def spn_fwd_eq [OF assms(1)] chrs_go_eq)
  qed
qed

lemma spn_chrs_rev_eq:
  assumes "in_range base pos len" "buf_holds chrs n" "iovec_ok base"
  shows "fst (vstr_spn_chrs_rev base pos len chrs n) = length (takeWhile (\<lambda>e. e \<in> chr_set chrs n) (rev (range_data base pos len)))"
    "fst (vstr_cspn_chrs_rev base pos len chrs n) = length (takeWhile (\<lambda>e. e \<notin> chr_set chrs n) (rev (range_data base pos len)))"
proof -
  have len: "length (range_data base pos len) = len" by (rule range_data_length [OF assms(1)])
  have nn: "\<not> node_non_used base \<Longrightarrow> None \<notin> set (rev (range_data base pos len))" using no_non_range [OF assms(1)] by simp
  show "fst (vstr_spn_chrs_rev base pos len chrs n) = length (takeWhile (\<lambda>e. e \<in> chr_set chrs n) (rev (range_data base pos len)))"
    using takeWhile_none(1) [OF nn]
    by (auto simp: vstr_spn_chrs_rev_def spn_rev_eq [OF assms(1,3)] chrs_go_eq)
  show "fst (vstr_cspn_chrs_rev base pos len chrs n) = length (takeWhile (\<lambda>e. e \<notin> chr_set chrs n) (rev (range_data base pos len)))"
  proof (cases "chrs \<noteq> None \<and> n = 1")
    case True
    then have cs: "chr_set chrs n = {Some (hd (the chrs))}" using chr_set_single [of "the chrs"] assms(2) by auto
    have "pos \<noteq> 0" using assms(1) by (simp add: in_range_def)
    then show ?thesis
      unfolding cs
      using True srch_chr_rev_eq [OF assms(1,3), of "hd (the chrs)"] len takeWhile_index [of "Some (hd (the chrs))" "rev (range_data base pos len)"]
      by (auto simp: vstr_cspn_chrs_rev_def found_rev_def dest!: index_of_less split: prod.splits option.splits)
  next
    case False
    then show ?thesis
      using takeWhile_none(2) [OF nn] len
      by (auto simp: vstr_cspn_chrs_rev_def spn_rev_eq [OF assms(1,3)] chrs_go_eq)
  qed
qed

section \<open>Maps filled from a buffer\<close>

lemma bmap_init_length [simp]: "length (vstr_sc_bmap_init_eq_spn_buf bmap buf n val) = length bmap"
  by (induction n arbitrary: bmap) simp_all

lemma bmap_init_nth:
  "length bmap = 256 \<Longrightarrow> n \<le> length buf \<Longrightarrow>
   vstr_sc_bmap_init_eq_spn_buf bmap buf n val ! unat c = (if c \<in> set (take n buf) then val else bmap ! unat c)" for c :: byte
proof (induction n arbitrary: bmap)
  case (Suc n)
  have lt: "unat c < 256" using unsigned_less [of c] by simp
  have IH: "vstr_sc_bmap_init_eq_spn_buf (bmap[unat (buf ! n) := val]) buf n val ! unat c =
    (if c \<in> set (take n buf) then val else bmap[unat (buf ! n) := val] ! unat c)"
    using Suc.prems by (intro Suc.IH) simp_all
  have set: "set (take (Suc n) buf) = insert (buf ! n) (set (take n buf))"
    using Suc.prems(2) by (simp add: take_Suc_conv_app_nth)
  show ?case
  proof (cases "c = buf ! n")
    case True
    then show ?thesis using IH set lt Suc.prems(1) by simp
  next
    case False
    then have "unat (buf ! n) \<noteq> unat c" by (simp add: word_unat_eq_iff)
    then show ?thesis using IH set False by simp
  qed
qed simp

section \<open>Properties\<close>

text \<open>
  C28. Spans. \<^verbatim>\<open>vstr_spn_chrs_fwd()\<close> and \<^verbatim>\<open>vstr_cspn_chrs_fwd()\<close> count the elements at the start of a range that are, or are
  not, among the characters; a null pointer stands for the positions without a byte.
\<close>

theorem spn_chrs_fwd_correct:
  assumes "in_range base pos len" "buf_holds chrs n"
  shows "fst (vstr_spn_chrs_fwd base pos len chrs n) = length (takeWhile (\<lambda>e. e \<in> chr_set chrs n) (range_data base pos len)) \<and>
    fst (vstr_cspn_chrs_fwd base pos len chrs n) = length (takeWhile (\<lambda>e. e \<notin> chr_set chrs n) (range_data base pos len))"
  using spn_chrs_fwd_eq [OF assms] by simp

theorem spn_chrs_fwd_correct_witness:
  "fst (vstr_spn_chrs_fwd ex_abc 2 5 (Some [100, 99, 98]) 3) = 3 \<and> fst (vstr_cspn_chrs_fwd ex_abc 1 6 (Some [101]) 1) = 4"
  using spn_chrs_fwd_correct [of ex_abc 2 5 "Some [100, 99, 98]" 3] spn_chrs_fwd_correct [of ex_abc 1 6 "Some [101]" 1]
  by (simp add: buf_holds_def chr_set_def)

text \<open>
  C29. Spans from the end. The backwards spans count from the end of the range, and the walk through the iovec array and the
  walk over all nodes with its restarts give the same number.
\<close>

theorem spn_chrs_rev_correct:
  assumes "in_range base pos len" "buf_holds chrs n" "iovec_ok base"
  shows "fst (vstr_spn_chrs_rev base pos len chrs n) = length (takeWhile (\<lambda>e. e \<in> chr_set chrs n) (rev (range_data base pos len))) \<and>
    fst (vstr_cspn_chrs_rev base pos len chrs n) = length (takeWhile (\<lambda>e. e \<notin> chr_set chrs n) (rev (range_data base pos len)))"
  using spn_chrs_rev_eq [OF assms] by simp

lemma ex_abc_iovec_ok: "iovec_ok ex_abc"
  by (simp add: iovec_ok_def vec_holds_def ex_abc_def ex_base_def)

theorem spn_chrs_rev_correct_witness:
  "fst (vstr_spn_chrs_rev ex_abc 1 6 (Some [102, 101, 100]) 3) = 3 \<and> fst (vstr_cspn_chrs_rev ex_abc 1 6 (Some [97]) 1) = 5"
  using spn_chrs_rev_correct [of ex_abc 1 6 "Some [102, 101, 100]" 3] spn_chrs_rev_correct [of ex_abc 1 6 "Some [97]" 1] ex_abc_iovec_ok
  by (simp add: buf_holds_def chr_set_def)

text \<open>
  C30. Searching a character. \<^verbatim>\<open>vstr_srch_chr_fwd()\<close> returns the first position of the range that holds the byte, and
  \<^verbatim>\<open>vstr_srch_chr_rev()\<close> the last, or 0 when there is none.
\<close>

theorem srch_chr_correct:
  assumes "in_range base pos len" "iovec_ok base"
  shows "fst (vstr_srch_chr_fwd base pos len c) =
      (if Some c \<notin> set (range_data base pos len) then 0
       else pos + length (takeWhile (\<lambda>e. e \<noteq> Some c) (range_data base pos len))) \<and>
    fst (vstr_srch_chr_rev base pos len c) =
      (if Some c \<notin> set (range_data base pos len) then 0
       else pos + len - 1 - length (takeWhile (\<lambda>e. e \<noteq> Some c) (rev (range_data base pos len))))"
  unfolding srch_chr_fwd_eq(1) [OF assms(1)] srch_chr_rev_eq [OF assms]
  by (auto simp: found_at_def found_rev_def index_of_takeWhile)

theorem srch_chr_correct_witness:
  "fst (vstr_srch_chr_fwd ex_abc 2 4 101) = 5 \<and> fst (vstr_srch_chr_rev ex_abc 2 4 99) = 3 \<and> fst (vstr_srch_chr_rev ex_abc 2 4 97) = 0"
  using srch_chr_correct [of ex_abc 2 4 101] srch_chr_correct [of ex_abc 2 4 99] srch_chr_correct [of ex_abc 2 4 97] ex_abc_iovec_ok
  by simp

text \<open>
  Spans through a map. A map of 256 bytes that is zero but for the bytes \<^verbatim>\<open>vstr_sc_bmap_init_eq_spn_buf()\<close> sets makes
  \<^verbatim>\<open>vstr_spn_bmap_eq_fwd()\<close> the same function as \<^verbatim>\<open>vstr_spn_chrs_fwd()\<close> on the buffer.
\<close>

lemma spn_bmap_is_spn_chrs:
  assumes "in_range base pos len" "n \<le> length buf" "val \<noteq> 0"
  shows "fst (vstr_spn_bmap_eq_fwd base pos len (vstr_sc_bmap_init_eq_spn_buf (replicate 256 0) buf n val) val) =
    fst (vstr_spn_chrs_fwd base pos len (Some buf) n)"
proof -
  have "bmap_eq (vstr_sc_bmap_init_eq_spn_buf (replicate 256 0) buf n val) val = (\<lambda>e. e \<in> chr_set (Some buf) n)"
  proof
    fix e :: "byte option"
    have "unat c < 256" for c :: byte using unsigned_less [of c] by simp
    then show "bmap_eq (vstr_sc_bmap_init_eq_spn_buf (replicate 256 0) buf n val) val e = (e \<in> chr_set (Some buf) n)"
      using bmap_init_nth [of "replicate 256 0" n buf val] assms(2,3)
      by (auto simp: bmap_eq_def chr_set_def split: option.split)
  qed
  then show ?thesis
    using spn_chrs_fwd_eq(1) [OF assms(1), of "Some buf" n] assms(2) spn_fwd_eq [OF assms(1)]
    by (simp add: vstr_spn_bmap_eq_fwd_def buf_holds_def)
qed

lemma spn_bmap_is_spn_chrs_witness:
  "fst (vstr_spn_bmap_eq_fwd ex_abc 1 6 (vstr_sc_bmap_init_eq_spn_buf (replicate 256 0) [98, 97] 2 1) 1) =
   fst (vstr_spn_chrs_fwd ex_abc 1 6 (Some [98, 97]) 2)"
  by (rule spn_bmap_is_spn_chrs) simp_all

text \<open>
  The replacement of \<^verbatim>\<open>memchr()\<close>. For a character code from 0 to 255 \<^verbatim>\<open>vstr_wrap_memchr()\<close> agrees with \<^verbatim>\<open>memchr()\<close>; for the
  codes of bytes from 0x80 on, which a \<^verbatim>\<open>char\<close> makes negative, it finds nothing in a buffer of up to 16 bytes.
\<close>

lemma wrap_memchr_chars:
  assumes "n \<le> length s"
  shows "(0 \<le> c \<longrightarrow> c < 256 \<longrightarrow> vstr_wrap_memchr s c n = memchr s c n) \<and>
    (c < 0 \<longrightarrow> n \<le> 16 \<longrightarrow> vstr_wrap_memchr s c n = None)"
proof -
  have sw: "memchr_switch n s c r = (case index_of (\<lambda>b. uint b = c) (take n s) of None \<Rightarrow> r | Some i \<Rightarrow> Some i)" for r
    using assms
  proof (induction n arbitrary: r)
    case (Suc n)
    then show ?case by (auto simp: take_Suc_conv_app_nth index_of_append split: option.split)
  qed simp
  have "(\<lambda>b :: byte. uint b = c) = (\<lambda>b. b = word_of_int c)" if "0 \<le> c" "c < 256"
    using that by (intro ext) (auto simp: word_uint_eq_iff uint_word_of_int)
  then have agree: "vstr_wrap_memchr s c n = memchr s c n" if "0 \<le> c" "c < 256"
    using that sw [of None] by (simp add: vstr_wrap_memchr_def memchr_def option.case_eq_if)
  have "uint b \<noteq> c" if "c < 0" for b :: byte using that uint_nonnegative [of b] by linarith
  then have "index_of (\<lambda>b :: byte. uint b = c) (take n s) = None" if "c < 0" using that by (simp add: index_of_None)
  then have "vstr_wrap_memchr s c n = None" if "c < 0" "n \<le> 16"
    using that sw [of None] by (simp add: vstr_wrap_memchr_def)
  then show ?thesis using agree by blast
qed

lemma wrap_memchr_chars_witness:
  "vstr_wrap_memchr [0x61, 0xE9] 0xE9 2 = memchr [0x61, 0xE9] 0xE9 2 \<and> vstr_wrap_memchr [0x61, 0xE9] (sint (0xE9 :: byte)) 2 = None"
  using wrap_memchr_chars [of 2 "[0x61, 0xE9]" "0xE9"] wrap_memchr_chars [of 2 "[0x61, 0xE9]" "sint (0xE9 :: byte)"] by simp

end
