(* ===== verification/Vstr_Cmp.thy ===== *)
theory Vstr_Cmp
  imports Vstr_Range "HOL-Library.List_Lexorder" "HOL-Library.Option_ord"
begin

text \<open>
  Comparing strings (src/vstr_cmp.c and the short cuts of include/vstr-inline.h). The specification is the
  lexicographic order of the content, in which a position without a byte comes before every byte. The functions
  that ignore case share their loops with the plain ones; what the loops need of the routine that compares two
  pieces of memory is the locale \<open>mem_compare\<close>.
\<close>

section \<open>Comparing memory\<close>

text \<open>\<^verbatim>\<open>memcmp()\<close>: the difference of the first bytes that differ, as unsigned characters.\<close>

fun memcmp :: "byte list \<Rightarrow> byte list \<Rightarrow> int" where
  "memcmp (a # as) (b # bs) = (if a = b then memcmp as bs else uint a - uint b)"
| "memcmp _ _ = 0"

text \<open>
  \<^verbatim>\<open>vstr_wrap_memcmp()\<close>: up to 16 bytes are compared from the last to the first by the cases of a switch, a
  difference further in front overwriting one further behind.
\<close>

primrec memcmp_switch :: "nat \<Rightarrow> byte list \<Rightarrow> byte list \<Rightarrow> int \<Rightarrow> int" where
  "memcmp_switch 0 s1 s2 ret = ret"
| "memcmp_switch (Suc k) s1 s2 ret =
     (let tmp = uint (s1 ! k) - uint (s2 ! k) in memcmp_switch k s1 s2 (if tmp \<noteq> 0 then tmp else ret))"

definition vstr_wrap_memcmp :: "byte list \<Rightarrow> byte list \<Rightarrow> nat \<Rightarrow> int" where
  "vstr_wrap_memcmp s1 s2 n = (if n > 16 then memcmp (take n s1) (take n s2) else memcmp_switch n s1 s2 0)"

definition IS_ASCII_UPPER :: "byte \<Rightarrow> bool" where
  "IS_ASCII_UPPER x \<longleftrightarrow> 0x41 \<le> x \<and> x \<le> 0x5A"

definition TO_ASCII_LOWER :: "byte \<Rightarrow> byte" where
  "TO_ASCII_LOWER x = x + 0x20"

definition IS_ASCII_DIGIT :: "byte \<Rightarrow> bool" where
  "IS_ASCII_DIGIT x \<longleftrightarrow> 0x30 \<le> x \<and> x \<le> 0x39"

definition fold_case :: "byte \<Rightarrow> byte" where
  "fold_case a = (if IS_ASCII_UPPER a then TO_ASCII_LOWER a else a)"

fun vstr__cmp_memcasecmp :: "byte list \<Rightarrow> byte list \<Rightarrow> nat \<Rightarrow> int" where
  "vstr__cmp_memcasecmp (x # xs) (y # ys) (Suc len) =
     (let a = fold_case x; b = fold_case y in
      if uint a - uint b \<noteq> 0 then uint a - uint b else vstr__cmp_memcasecmp xs ys len)"
| "vstr__cmp_memcasecmp _ _ _ = 0"

section \<open>The loops\<close>

text \<open>One turn: memory against memory, and memory against a \<^verbatim>\<open>NON\<close> node, which comes first.\<close>

definition chunk_cmp ::
    "(byte list \<Rightarrow> byte list \<Rightarrow> nat \<Rightarrow> int) \<Rightarrow> byte list option \<Rightarrow> byte list option \<Rightarrow> nat \<Rightarrow> int" where
  "chunk_cmp cmp p1 p2 k =
     (case (p1, p2) of
        (Some a, Some b) \<Rightarrow> cmp a b k
      | (Some _, None) \<Rightarrow> 1
      | (None, Some _) \<Rightarrow> -1
      | (None, None) \<Rightarrow> 0)"

text \<open>
  The double loop of \<^verbatim>\<open>vstr_cmp()\<close> and \<^verbatim>\<open>vstr_cmp_case()\<close>: \<open>cmp\<close> compares the two pieces. It ends with the first
  string when that is used up (\<^verbatim>\<open>iter1->node\<close> is then null).
\<close>

function cmp_loop :: "(byte list \<Rightarrow> byte list \<Rightarrow> nat \<Rightarrow> int) \<Rightarrow> vstr_iter \<Rightarrow> vstr_iter \<Rightarrow> int" where
  "cmp_loop cmp iter1 iter2 =
     (let tmp = (if iter_len iter1 > iter_len iter2 then iter_len iter2 else iter_len iter1);
          ret = chunk_cmp cmp (iter_ptr iter1) (iter_ptr iter2) tmp
      in if ret \<noteq> 0 then ret
         else (case iter_more (iter_skip tmp iter1) of
                 (False, it1) \<Rightarrow> if vstr_iter_len (iter_skip tmp iter2) \<noteq> 0 then -1 else 0
               | (True, it1) \<Rightarrow>
                   (case iter_more (iter_skip tmp iter2) of
                      (False, it2) \<Rightarrow> 1
                    | (True, it2) \<Rightarrow> cmp_loop cmp it1 it2)))"
  by pat_completeness auto
termination
proof (relation "measure (\<lambda>(_, it1, it2). length (iter_node it1) + length (iter_node it2))", goal_cases)
  case (2 cmp iter1 iter2 tmp ret)
  then show ?case using more_both_shorter [of tmp iter1 _ iter2] by (simp split: if_splits)
qed simp

declare cmp_loop.simps [simp del]

text \<open>The macro \<^verbatim>\<open>VSTR__CMP_DOUBLE_ITER_BEG\<close> and the comparisons of two ranges.\<close>

definition cmp_double ::
    "(vstr_iter \<Rightarrow> vstr_iter \<Rightarrow> int) \<Rightarrow> vstr_base \<Rightarrow> nat \<Rightarrow> nat \<Rightarrow> vstr_base \<Rightarrow> nat \<Rightarrow> nat \<Rightarrow>
     int \<times> vstr_base \<times> vstr_base" where
  "cmp_double body base_1 pos_1 len_1 base_2 pos_2 len_2 =
     (case (vstr_iter_fwd_beg base_1 pos_1 len_1, vstr_iter_fwd_beg base_2 pos_2 len_2) of
        ((None, b1), (None, b2)) \<Rightarrow> (0, b1, b2)
      | ((None, b1), (Some _, b2)) \<Rightarrow> (-1, b1, b2)
      | ((Some _, b1), (None, b2)) \<Rightarrow> (1, b1, b2)
      | ((Some it1, b1), (Some it2, b2)) \<Rightarrow> (body it1 it2, b1, b2))"

definition vstr_cmp ::
    "vstr_base \<Rightarrow> nat \<Rightarrow> nat \<Rightarrow> vstr_base \<Rightarrow> nat \<Rightarrow> nat \<Rightarrow> int \<times> vstr_base \<times> vstr_base" where
  "vstr_cmp = cmp_double (cmp_loop vstr_wrap_memcmp)"

definition vstr_cmp_case ::
    "vstr_base \<Rightarrow> nat \<Rightarrow> nat \<Rightarrow> vstr_base \<Rightarrow> nat \<Rightarrow> nat \<Rightarrow> int \<times> vstr_base \<times> vstr_base" where
  "vstr_cmp_case = cmp_double (cmp_loop vstr__cmp_memcasecmp)"

text \<open>
  The comparison with a buffer; a null \<open>buf\<close> stands for positions without a byte. When the piece is longer than
  what is left of the buffer, \<^verbatim>\<open>remaining\<close> is raised so that the string is seen to be longer.
\<close>

function cmp_buf_loop ::
    "(byte list \<Rightarrow> byte list \<Rightarrow> nat \<Rightarrow> int) \<Rightarrow> vstr_iter \<Rightarrow> byte list option \<Rightarrow> nat \<Rightarrow> int" where
  "cmp_buf_loop cmp iter buf buf_len =
     (let it = (if iter_len iter > buf_len
                then iter\<lparr>iter_len := buf_len, iter_remaining := iter_remaining iter + 1\<rparr> else iter);
          ret = chunk_cmp cmp (iter_ptr it) buf (iter_len it);
          buf' = map_option (drop (iter_len it)) buf;
          left = buf_len - iter_len it
      in if ret \<noteq> 0 then ret
         else (case (if left \<noteq> 0 then vstr_iter_fwd_nxt it else (False, it)) of
                 (True, it') \<Rightarrow> cmp_buf_loop cmp it' buf' left
               | (False, it') \<Rightarrow> if iter_remaining it' \<noteq> 0 then 1 else if left \<noteq> 0 then -1 else 0))"
  by pat_completeness auto
termination
proof (relation "measure (\<lambda>(_, it, _). length (iter_node it))", goal_cases)
  case (2 cmp iter buf buf_len it ret buf' left ok it')
  then have "vstr_iter_fwd_nxt it = (True, it')" "iter_node it = iter_node iter" by (auto split: if_splits)
  then show ?case using nxt_shorter [of it it'] by simp
qed simp

declare cmp_buf_loop.simps [simp del]

definition cmp_single ::
    "(vstr_iter \<Rightarrow> byte list option \<Rightarrow> nat \<Rightarrow> int) \<Rightarrow> vstr_base \<Rightarrow> nat \<Rightarrow> nat \<Rightarrow> byte list option \<Rightarrow> nat \<Rightarrow>
     int \<times> vstr_base" where
  "cmp_single body base pos len buf buf_len =
     (case vstr_iter_fwd_beg base pos len of
        (None, b1) \<Rightarrow> (if buf_len = 0 then 0 else -1, b1)
      | (Some it, b1) \<Rightarrow> (if buf_len = 0 then 1 else body it buf buf_len, b1))"

definition vstr_cmp_buf :: "vstr_base \<Rightarrow> nat \<Rightarrow> nat \<Rightarrow> byte list option \<Rightarrow> nat \<Rightarrow> int \<times> vstr_base" where
  "vstr_cmp_buf = cmp_single (cmp_buf_loop vstr_wrap_memcmp)"

definition vstr_cmp_case_buf :: "vstr_base \<Rightarrow> nat \<Rightarrow> nat \<Rightarrow> byte list option \<Rightarrow> nat \<Rightarrow> int \<times> vstr_base" where
  "vstr_cmp_case_buf = cmp_single (cmp_buf_loop vstr__cmp_memcasecmp)"

text \<open>The short cuts of the header: equality, and comparison of the beginnings and of the ends.\<close>

definition vstr_cmp_eq :: "vstr_base \<Rightarrow> nat \<Rightarrow> nat \<Rightarrow> vstr_base \<Rightarrow> nat \<Rightarrow> nat \<Rightarrow> bool" where
  "vstr_cmp_eq s1 p1 l1 s2 p2 l2 \<longleftrightarrow> l1 = l2 \<and> fst (vstr_cmp s1 p1 l1 s2 p2 l1) = 0"

definition vstr_cmp_case_eq :: "vstr_base \<Rightarrow> nat \<Rightarrow> nat \<Rightarrow> vstr_base \<Rightarrow> nat \<Rightarrow> nat \<Rightarrow> bool" where
  "vstr_cmp_case_eq s1 p1 l1 s2 p2 l2 \<longleftrightarrow> l1 = l2 \<and> fst (vstr_cmp_case s1 p1 l1 s2 p2 l1) = 0"

definition vstr_cmp_buf_eq :: "vstr_base \<Rightarrow> nat \<Rightarrow> nat \<Rightarrow> byte list option \<Rightarrow> nat \<Rightarrow> bool" where
  "vstr_cmp_buf_eq s1 p1 l1 buf buf_len \<longleftrightarrow> l1 = buf_len \<and> fst (vstr_cmp_buf s1 p1 l1 buf buf_len) = 0"

definition vstr_cmp_case_buf_eq :: "vstr_base \<Rightarrow> nat \<Rightarrow> nat \<Rightarrow> byte list option \<Rightarrow> nat \<Rightarrow> bool" where
  "vstr_cmp_case_buf_eq s1 p1 l1 buf buf_len \<longleftrightarrow> l1 = buf_len \<and> fst (vstr_cmp_case_buf s1 p1 l1 buf buf_len) = 0"

text \<open>\<^verbatim>\<open>vstr_cmp_fast()\<close>: the difference of two lengths is converted from \<^verbatim>\<open>size_t\<close> to \<^verbatim>\<open>int\<close>.\<close>

definition int_of_size :: "int \<Rightarrow> int" where
  "int_of_size n = (n + 2 ^ 31) mod 2 ^ 32 - 2 ^ 31"

definition vstr_cmp_fast :: "vstr_base \<Rightarrow> nat \<Rightarrow> nat \<Rightarrow> vstr_base \<Rightarrow> nat \<Rightarrow> nat \<Rightarrow> int" where
  "vstr_cmp_fast s1 p1 l1 s2 p2 l2 =
     (if l1 \<noteq> l2 then int_of_size (int l2 - int l1) else - fst (vstr_cmp s1 p1 l1 s2 p2 l1))"

definition vstr_cmp_fast_buf :: "vstr_base \<Rightarrow> nat \<Rightarrow> nat \<Rightarrow> byte list option \<Rightarrow> nat \<Rightarrow> int" where
  "vstr_cmp_fast_buf s1 p1 l1 buf buf_len =
     (if l1 \<noteq> buf_len then int_of_size (int buf_len - int l1) else - fst (vstr_cmp_buf s1 p1 l1 buf l1))"

definition vstr_cmp_bod :: "vstr_base \<Rightarrow> nat \<Rightarrow> nat \<Rightarrow> vstr_base \<Rightarrow> nat \<Rightarrow> nat \<Rightarrow> int" where
  "vstr_cmp_bod s1 p1 l1 s2 p2 l2 =
     (let tmp = (if l1 > l2 then l2 else l1) in fst (vstr_cmp s1 p1 tmp s2 p2 tmp))"

definition vstr_cmp_eod :: "vstr_base \<Rightarrow> nat \<Rightarrow> nat \<Rightarrow> vstr_base \<Rightarrow> nat \<Rightarrow> nat \<Rightarrow> int" where
  "vstr_cmp_eod s1 p1 l1 s2 p2 l2 =
     (let tmp = (if l1 > l2 then l2 else l1) in
      fst (vstr_cmp s1 (p1 + (l1 - tmp)) tmp s2 (p2 + (l2 - tmp)) tmp))"

definition vstr_cmp_bod_buf :: "vstr_base \<Rightarrow> nat \<Rightarrow> nat \<Rightarrow> byte list option \<Rightarrow> nat \<Rightarrow> int" where
  "vstr_cmp_bod_buf s1 p1 l1 buf buf_len =
     (let tmp = (if l1 > buf_len then buf_len else l1) in fst (vstr_cmp_buf s1 p1 tmp buf tmp))"

definition vstr_cmp_eod_buf :: "vstr_base \<Rightarrow> nat \<Rightarrow> nat \<Rightarrow> byte list option \<Rightarrow> nat \<Rightarrow> int" where
  "vstr_cmp_eod_buf s1 p1 l1 buf buf_len =
     (let tmp = (if l1 > buf_len then buf_len else l1) in
      fst (vstr_cmp_buf s1 (p1 + (l1 - tmp)) tmp (map_option (drop (buf_len - tmp)) buf) tmp))"

section \<open>The order of contents\<close>

text \<open>The sign of a comparison: the position of the first content in the lexicographic order.\<close>

definition cmp_sign :: "content \<Rightarrow> content \<Rightarrow> int" where
  "cmp_sign xs ys = (if xs < ys then -1 else if xs = ys then 0 else 1)"

lemma cmp_sign_simps [simp]:
  "cmp_sign [] [] = 0" "cmp_sign (x # xs) [] = 1" "cmp_sign [] (y # ys) = -1"
  "cmp_sign (x # xs) (y # ys) = (if x < y then -1 else if x = y then cmp_sign xs ys else 1)"
  by (auto simp: cmp_sign_def)

lemma cmp_sign_zero [simp]: "cmp_sign xs ys = 0 \<longleftrightarrow> xs = ys" "cmp_sign xs xs = 0"
  by (auto simp: cmp_sign_def)

lemma cmp_sign_split:
  assumes "n \<le> length xs" "n \<le> length ys"
  shows "cmp_sign xs ys = (if take n xs \<noteq> take n ys then cmp_sign (take n xs) (take n ys)
    else cmp_sign (drop n xs) (drop n ys))"
  using assms
proof (induction n arbitrary: xs ys)
  case (Suc n)
  then obtain x xs' y ys' where "xs = x # xs'" "ys = y # ys'" by (metis Suc_le_length_iff)
  then show ?case using Suc.IH [of xs' ys'] Suc.prems by simp
qed simp

lemma cmp_sign_Nil: "cmp_sign [] ys = (if ys = [] then 0 else -1)" "cmp_sign xs [] = (if xs = [] then 0 else 1)"
  by (cases ys; simp) (cases xs; simp)

section \<open>What a routine that compares memory promises\<close>

text \<open>
  The routine compares the bytes after some translation \<open>key\<close>: none for \<^verbatim>\<open>memcmp()\<close>, lower case for the other.
\<close>

abbreviation key_content :: "(byte \<Rightarrow> byte) \<Rightarrow> content \<Rightarrow> content" where
  "key_content key xs \<equiv> map (map_option key) xs"

lemma key_content_id [simp]: "key_content (\<lambda>b. b) xs = xs"
  by (induction xs) (simp_all add: option.map_ident)

locale mem_compare =
  fixes cmp :: "byte list \<Rightarrow> byte list \<Rightarrow> nat \<Rightarrow> int" and key :: "byte \<Rightarrow> byte"
  assumes cmp_sgn: "n \<le> length s1 \<Longrightarrow> n \<le> length s2 \<Longrightarrow>
    sgn (cmp s1 s2 n) = cmp_sign (map Some (map key (take n s1))) (map Some (map key (take n s2)))"
begin

lemma chunk_sgn:
  assumes "buf_holds p1 k" "buf_holds p2 k" "0 < k"
  shows "sgn (chunk_cmp cmp p1 p2 k) = cmp_sign (key_content key (buf_content p1 k)) (key_content key (buf_content p2 k))"
proof -
  obtain k' where k': "k = Suc k'" using assms(3) by (cases k) auto
  have ne: "b \<noteq> []" if "k \<le> length b" for b :: "byte list" using that k' by auto
  show ?thesis
  proof (cases p1; cases p2)
    fix a b
    assume "p1 = Some a" "p2 = Some b"
    then show ?thesis using cmp_sgn [of k a b] assms by (simp add: chunk_cmp_def buf_content_def buf_holds_def comp_def)
  next
    fix a
    assume p: "p1 = Some a" "p2 = None"
    then obtain x xs where "a = x # xs" using assms(1) ne by (cases a) (auto simp: buf_holds_def)
    then show ?thesis using p by (simp add: chunk_cmp_def buf_content_def k')
  next
    fix b
    assume p: "p1 = None" "p2 = Some b"
    then obtain x xs where "b = x # xs" using assms(2) ne by (cases b) (auto simp: buf_holds_def)
    then show ?thesis using p by (simp add: chunk_cmp_def buf_content_def k')
  qed (simp add: chunk_cmp_def buf_content_def)
qed

lemma cmp_loop_sgn:
  assumes "f = cmp" "iter_inv i1" "iter_inv i2" "iter_len i1 \<noteq> 0" "iter_len i2 \<noteq> 0"
  shows "sgn (cmp_loop f i1 i2) = cmp_sign (key_content key (iter_rest i1)) (key_content key (iter_rest i2))"
  using assms
proof (induction f i1 i2 rule: cmp_loop.induct)
  case (1 f i1 i2)
  define tmp where "tmp = (if iter_len i1 > iter_len i2 then iter_len i2 else iter_len i1)"
  define ret where "ret = chunk_cmp f (iter_ptr i1) (iter_ptr i2) tmp"
  let ?R1 = "key_content key (iter_rest i1)" and ?R2 = "key_content key (iter_rest i2)"
  have tmp: "0 < tmp" "tmp \<le> iter_len i1" "tmp \<le> iter_len i2" using "1.prems"(4,5) by (auto simp: tmp_def)
  have sret: "sgn ret = cmp_sign (take tmp ?R1) (take tmp ?R2)"
    using chunk_sgn [OF _ _ tmp(1)] iter_rest_take [OF "1.prems"(2) tmp(2)] iter_rest_take [OF "1.prems"(3) tmp(3)]
    by (simp add: ret_def "1.prems"(1) take_map)
  have len: "tmp \<le> length ?R1" "tmp \<le> length ?R2"
    using tmp iter_rest_length [OF "1.prems"(2)] iter_rest_length [OF "1.prems"(3)] by (simp_all add: vstr_iter_len_def)
  note split = cmp_sign_split [OF len]
  note s1 = iter_skip_spec [OF "1.prems"(2) tmp(2)] and s2 = iter_skip_spec [OF "1.prems"(3) tmp(3)]
  note unf = cmp_loop.simps [of f i1 i2, folded tmp_def, unfolded Let_def, folded ret_def]
  show ?case
  proof (cases "ret = 0")
    case False
    then show ?thesis using sret split unf by (simp add: sgn_0_0) (metis cmp_sign_zero(2) sgn_0_0)
  next
    case True
    then have rest: "cmp_sign ?R1 ?R2 = cmp_sign (key_content key (iter_rest (iter_skip tmp i1)))
        (key_content key (iter_rest (iter_skip tmp i2)))"
      using sret split s1(2) s2(2) by (simp add: drop_map)
    show ?thesis using s1(1)
    proof (cases rule: iter_more_cases)
      case (fin j)
      then show ?thesis using True unf rest iter_rest_length [OF s2(1)] by (auto simp: cmp_sign_Nil)
    next
      case more1: (more j1)
      show ?thesis using s2(1)
      proof (cases rule: iter_more_cases)
        case (fin j)
        then show ?thesis
          using True unf rest more1 iter_rest_nonempty [OF more1(2,4)] by (simp add: cmp_sign_Nil)
      next
        case more2: (more j2)
        have "sgn (cmp_loop f j1 j2) = cmp_sign (key_content key (iter_rest j1)) (key_content key (iter_rest j2))"
          using "1.IH" [OF tmp_def ret_def _ more1(1) [symmetric] refl more2(1) [symmetric] refl] True "1.prems"(1) more1 more2 by simp
        then show ?thesis using True unf rest more1 more2 by simp
      qed
    qed
  qed
qed

text \<open>The comparison with a buffer.\<close>

lemma cmp_buf_loop_sgn:
  assumes "f = cmp" "iter_inv it" "iter_len it \<noteq> 0" "n \<noteq> 0" "buf_holds buf n"
  shows "sgn (cmp_buf_loop f it buf n) = cmp_sign (key_content key (iter_rest it)) (key_content key (buf_content buf n))"
  using assms
proof (induction f it buf n rule: cmp_buf_loop.induct)
  case (1 f it buf n)
  define i1 where "i1 = (if iter_len it > n then it\<lparr>iter_len := n, iter_remaining := iter_remaining it + 1\<rparr> else it)"
  define k where "k = iter_len i1"
  define ret where "ret = chunk_cmp f (iter_ptr i1) buf k"
  define buf1 where "buf1 = map_option (drop k) buf"
  let ?R1 = "key_content key (iter_rest it)" and ?R2 = "key_content key (buf_content buf n)"
  have k: "0 < k" "k \<le> iter_len it" "k \<le> n" and ptr: "iter_ptr i1 = iter_ptr it"
    using "1.prems"(3,4) by (auto simp: i1_def k_def)
  have bk: "buf_holds buf k" "buf_holds buf1 (n - k)"
    using "1.prems"(5) k(3) by (auto simp: buf_holds_def buf1_def split: option.splits)
  have sret: "sgn ret = cmp_sign (take k ?R1) (take k ?R2)"
    using chunk_sgn [OF _ bk(1) k(1)] iter_rest_take [OF "1.prems"(2) k(2)] buf_content_take [OF k(3)]
    by (simp add: ret_def ptr "1.prems"(1) take_map)
  have rl: "length (iter_rest it) = vstr_iter_len it" by (rule iter_rest_length [OF "1.prems"(2)])
  have len: "k \<le> length ?R1" "k \<le> length ?R2" using rl k "1.prems"(5) by (simp_all add: vstr_iter_len_def)
  note split = cmp_sign_split [OF len]
  note unf = cmp_buf_loop.simps [of f it buf n, unfolded Let_def, folded i1_def, folded k_def, folded ret_def buf1_def]
  show ?case
  proof (cases "ret = 0")
    case False
    then show ?thesis using sret split unf by (simp add: sgn_0_0) (metis cmp_sign_zero(2) sgn_0_0)
  next
    case True
    then have rest: "cmp_sign ?R1 ?R2 = cmp_sign (key_content key (drop k (iter_rest it))) (key_content key (buf_content buf1 (n - k)))"
      using sret split by (simp add: drop_map buf_content_drop buf1_def)
    show ?thesis
    proof (cases "iter_len it > n")
      case True
      then have "k = n" "iter_remaining i1 \<noteq> 0" "drop k (iter_rest it) \<noteq> []"
        using rl by (auto simp: i1_def k_def vstr_iter_len_def)
      moreover have "buf_content buf1 0 = []" by (simp add: buf_content_def split: option.split)
      ultimately show ?thesis using unf rest \<open>ret = 0\<close> by (simp add: cmp_sign_Nil)
    next
      case False
      then have i1: "i1 = it" "k = iter_len it" by (simp_all add: i1_def k_def)
      have dk: "length (drop k (iter_rest it)) = iter_remaining it" using rl i1 by (simp add: vstr_iter_len_def)
      show ?thesis
      proof (cases "n - k = 0")
        case True
        moreover have "buf_content buf1 0 = []" by (simp add: buf_content_def split: option.split)
        ultimately show ?thesis using unf rest \<open>ret = 0\<close> dk i1 by (auto simp: cmp_sign_Nil)
      next
        case nk: False
        then have ne: "buf_content buf1 (n - k) \<noteq> []" using buf_content_length [OF bk(2)] by auto
        obtain ok j where nx: "vstr_iter_fwd_nxt it = (ok, j)" by (cases "vstr_iter_fwd_nxt it")
        note nr = nxt_rest [OF "1.prems"(2), unfolded nx, folded i1(2)]
        show ?thesis
        proof (cases ok)
          case True
          then have "sgn (cmp_buf_loop f j buf1 (n - k)) =
              cmp_sign (key_content key (iter_rest j)) (key_content key (buf_content buf1 (n - k)))"
            using "1.IH" [OF i1_def ret_def [unfolded k_def] buf1_def [unfolded k_def] refl _ _ refl, of j]
              nk nx nr \<open>ret = 0\<close> bk "1.prems"(1) i1 by (simp add: k_def)
          then show ?thesis using unf rest \<open>ret = 0\<close> nk nx nr i1 True by simp
        next
          case False
          then show ?thesis using unf rest \<open>ret = 0\<close> nk nx nr i1 ne by (simp add: cmp_sign_Nil)
        qed
      qed
    qed
  qed
qed

end

section \<open>The two routines keep the promise\<close>

lemma uint_less_sgn: "sgn (uint a - uint b) = (if a < b then -1 else if a = b then 0 else 1)" for a b :: byte
  by (auto simp: word_less_def sgn_if word_uint_eq_iff)

lemma memcmp_sgn: "length s1 = length s2 \<Longrightarrow> sgn (memcmp s1 s2) = cmp_sign (map Some s1) (map Some s2)"
  by (induction s1 s2 rule: memcmp.induct) (auto simp: uint_less_sgn)

text \<open>The switch computes \<^verbatim>\<open>memcmp()\<close>.\<close>

lemma memcmp_append:
  "length s1 = length s2 \<Longrightarrow>
   memcmp (s1 @ [a]) (s2 @ [b]) = (if memcmp s1 s2 \<noteq> 0 then memcmp s1 s2 else uint a - uint b)"
  by (induction s1 s2 rule: memcmp.induct) (auto simp: word_uint_eq_iff)

lemma memcmp_switch_eq:
  "n \<le> length s1 \<Longrightarrow> n \<le> length s2 \<Longrightarrow>
   memcmp_switch n s1 s2 ret = (if memcmp (take n s1) (take n s2) \<noteq> 0 then memcmp (take n s1) (take n s2) else ret)"
  by (induction n arbitrary: ret) (auto simp: take_Suc_conv_app_nth memcmp_append)

lemma wrap_memcmp_eq:
  assumes "n \<le> length s1" "n \<le> length s2"
  shows "vstr_wrap_memcmp s1 s2 n = memcmp (take n s1) (take n s2)"
  using memcmp_switch_eq [OF assms, of 0] by (simp add: vstr_wrap_memcmp_def)

interpretation plain: mem_compare vstr_wrap_memcmp "\<lambda>b. b"
  by unfold_locales (simp add: wrap_memcmp_eq memcmp_sgn)

lemma memcasecmp_eq:
  "n \<le> length s1 \<Longrightarrow> n \<le> length s2 \<Longrightarrow>
   vstr__cmp_memcasecmp s1 s2 n = memcmp (map fold_case (take n s1)) (map fold_case (take n s2))"
  by (induction s1 s2 n rule: vstr__cmp_memcasecmp.induct) (auto simp: word_uint_eq_iff Let_def)

interpretation nocase: mem_compare vstr__cmp_memcasecmp fold_case
  by unfold_locales (simp add: memcasecmp_eq memcmp_sgn)

section \<open>Comparing ranges\<close>

definition cmp_result :: "(byte \<Rightarrow> byte) \<Rightarrow> vstr_base \<Rightarrow> nat \<Rightarrow> nat \<Rightarrow> vstr_base \<Rightarrow> nat \<Rightarrow> nat \<Rightarrow> int \<Rightarrow> bool" where
  "cmp_result key b1 p1 l1 b2 p2 l2 r \<longleftrightarrow>
     sgn r = cmp_sign (key_content key (range_data b1 p1 l1)) (key_content key (range_data b2 p2 l2))"

context mem_compare
begin

lemma cmp_double_result:
  assumes "in_range b1 p1 l1" "in_range b2 p2 l2"
  shows "cmp_result key b1 p1 l1 b2 p2 l2 (fst (cmp_double (cmp_loop cmp) b1 p1 l1 b2 p2 l2))"
proof -
  have ne: "range_data b p l \<noteq> []" if "in_range b p l" "0 < l" for b p l
    using range_data_length [OF that(1)] that(2) by auto
  show ?thesis using assms(1)
  proof (cases rule: fwd_beg_range)
    case empty
    show ?thesis using assms(2)
    proof (cases rule: fwd_beg_range)
      case some2: (some it b')
      then show ?thesis using empty ne [OF assms(2)] by (simp add: cmp_result_def cmp_double_def cmp_sign_Nil)
    qed (simp add: empty cmp_result_def cmp_double_def)
  next
    case some1: (some it1 b1')
    show ?thesis using assms(2)
    proof (cases rule: fwd_beg_range)
      case empty
      then show ?thesis using some1 ne [OF assms(1)] by (simp add: cmp_result_def cmp_double_def cmp_sign_Nil)
    next
      case some2: (some it2 b2')
      then show ?thesis
        using some1 cmp_loop_sgn [OF refl some1(3) some2(3) some1(4) some2(4)] by (simp add: cmp_result_def cmp_double_def)
    qed
  qed
qed

lemma cmp_single_result:
  assumes "in_range base pos len" "buf_holds buf n"
  shows "sgn (fst (cmp_single (cmp_buf_loop cmp) base pos len buf n)) =
    cmp_sign (key_content key (range_data base pos len)) (key_content key (buf_content buf n))"
  using assms(1)
proof (cases rule: fwd_beg_range)
  case empty
  have "buf_content buf n = [] \<longleftrightarrow> n = 0" using buf_content_length [OF assms(2)] by auto
  then show ?thesis using empty by (simp add: cmp_single_def cmp_sign_Nil)
next
  case (some it b')
  have "range_data base pos len \<noteq> []" using range_data_length [OF assms(1)] some(1) by auto
  moreover have "buf_content buf 0 = []" by (simp add: buf_content_def split: option.split)
  ultimately show ?thesis
    using some cmp_buf_loop_sgn [OF refl some(3,4) _ assms(2)] by (cases "n = 0") (simp_all add: cmp_single_def cmp_sign_Nil)
qed

end

section \<open>Properties\<close>

text \<open>
  C24. Comparing two ranges. The sign of \<^verbatim>\<open>vstr_cmp()\<close> is the place of the first range's content before, at or behind
  the second's in the lexicographic order, however the two strings are cut into nodes; positions without a byte
  come before every byte.
\<close>

theorem vstr_cmp_correct:
  assumes "in_range b1 p1 l1" "in_range b2 p2 l2"
  shows "sgn (fst (vstr_cmp b1 p1 l1 b2 p2 l2)) =
    (if range_data b1 p1 l1 < range_data b2 p2 l2 then -1 else if range_data b1 p1 l1 = range_data b2 p2 l2 then 0 else 1)"
  using plain.cmp_double_result [OF assms] by (simp add: vstr_cmp_def cmp_result_def cmp_sign_def)

theorem vstr_cmp_correct_witness:
  "fst (vstr_cmp ex_abc 1 3 ex_abc 4 3) < 0 \<and> fst (vstr_cmp ex_abc 2 4 ex_abc 2 3) > 0"
  using vstr_cmp_correct [of ex_abc 1 3 ex_abc 4 3] vstr_cmp_correct [of ex_abc 2 4 ex_abc 2 3]
  by (simp add: sgn_if split: if_splits)

text \<open>
  C25. Equality without case. \<^verbatim>\<open>vstr_cmp_case_eq()\<close> is true exactly for ranges of equal length whose contents are the
  same after ASCII upper case letters are made lower case.
\<close>

theorem vstr_cmp_case_eq_correct:
  assumes "in_range b1 p1 l1" "in_range b2 p2 l2"
  shows "vstr_cmp_case_eq b1 p1 l1 b2 p2 l2 \<longleftrightarrow>
    key_content fold_case (range_data b1 p1 l1) = key_content fold_case (range_data b2 p2 l2)"
proof (cases "l1 = l2")
  case True
  then show ?thesis
    using nocase.cmp_double_result [OF assms]
    by (simp add: vstr_cmp_case_eq_def vstr_cmp_case_def cmp_result_def) (metis cmp_sign_zero(1) sgn_0_0)
next
  case False
  then show ?thesis
    using range_data_length [OF assms(1)] range_data_length [OF assms(2)]
    by (metis length_map vstr_cmp_case_eq_def)
qed

theorem vstr_cmp_case_eq_correct_witness:
  "vstr_cmp_case_eq ex_abc 2 3 (ex_base [Node_buf 1 [66], Node_buf 2 [67, 100]]) 1 3"
proof -
  have "in_range (ex_base [Node_buf 1 [66], Node_buf 2 [67, 100]]) 1 3"
    by (rule ex_base_range) (auto simp: node_simps)
  from vstr_cmp_case_eq_correct [OF _ this, of ex_abc 2 3] show ?thesis
    by (simp add: node_simps fold_case_def IS_ASCII_UPPER_def TO_ASCII_LOWER_def)
qed

text \<open>
  Comparing with a buffer. \<^verbatim>\<open>vstr_cmp_buf_eq()\<close> is true exactly when the range has the length of the buffer and
  holds its bytes (or only positions without a byte, for a null pointer).
\<close>

lemma vstr_cmp_buf_eq_correct:
  assumes "in_range base pos len" "buf_holds buf n"
  shows "vstr_cmp_buf_eq base pos len buf n \<longleftrightarrow> range_data base pos len = buf_content buf n"
proof (cases "len = n")
  case True
  then show ?thesis
    using plain.cmp_single_result [OF assms]
    by (simp add: vstr_cmp_buf_eq_def vstr_cmp_buf_def) (metis cmp_sign_zero(1) sgn_0_0)
next
  case False
  then show ?thesis
    using range_data_length [OF assms(1)] buf_content_length [OF assms(2)] by (metis vstr_cmp_buf_eq_def)
qed

lemma vstr_cmp_buf_eq_correct_witness:
  "vstr_cmp_buf_eq ex_abc 3 4 (Some [99, 100, 101, 102]) 4 \<and> \<not> vstr_cmp_buf_eq ex_abc 3 3 None 3"
  using vstr_cmp_buf_eq_correct [of ex_abc 3 4 "Some [99, 100, 101, 102]" 4] vstr_cmp_buf_eq_correct [of ex_abc 3 3 None 3]
  by (simp add: buf_holds_def buf_content_def numeral_eq_Suc)

end
