(* ===== verification/Vstr_Srch.thy ===== *)
theory Vstr_Srch
  imports Vstr_Spn Vstr_Cmp
begin

text \<open>
  Searching a string of characters in a range: \<^verbatim>\<open>src/vstr_srch.c\<close> from \<^verbatim>\<open>vstr_srch_buf_fwd()\<close> on, and
  \<^verbatim>\<open>src/vstr_srch_case.c\<close>, the same without regard to ASCII case. The result of a search is the position of the match or 0.
  A loop whose end depends on what a search returns is a partial function in the option monad, where not returning is
  \<^const>\<open>None\<close>; that the loops return is proved.
\<close>

section \<open>Forward search for a buffer\<close>

text \<open>
  The inner loop of \<^verbatim>\<open>vstr_srch_buf_fwd()\<close> over the bytes of one piece: go to the next place with the first byte, compare the
  rest of the piece there and then, if the match would go on in the next pieces, what is behind it. The iterator itself is not returned,
  because \<^verbatim>\<open>vstr_iter_fwd_nxt()\<close> uses neither its pointer nor its length.
\<close>

lemma memchr_behind:
  fixes c :: byte
  assumes "memchr s (sint c) n = Some i" "hd s \<noteq> c"
  shows "0 < i \<and> i < n \<and> i < length s"
proof -
  have "i < length (take n s)" "s ! i = c"
    using index_of_less [OF assms(1) [unfolded memchr_def]] by auto
  then show ?thesis using assms(2) by (cases s; cases i) auto
qed

function srch_buf_node ::
    "vstr_base \<Rightarrow> nat \<Rightarrow> nat \<Rightarrow> byte list \<Rightarrow> nat \<Rightarrow> vstr_iter \<Rightarrow> nat option \<times> vstr_base" where
  "srch_buf_node base pos len str str_len iter =
     (let ptr = the (iter_ptr iter) in
      if vstr_iter_len iter < str_len then (None, base)
      else if hd ptr \<noteq> hd str then
        (case memchr ptr (sint (hd str)) (iter_len iter) of
           None \<Rightarrow> (None, base)
         | Some som \<Rightarrow> srch_buf_node base pos len str str_len (iter_skip som iter))
      else
        let tmp = (if iter_len iter > str_len then str_len else iter_len iter);
            beg_pos = vstr_iter_pos iter pos len;
            (eq, b1) = (if vstr_wrap_memcmp ptr str tmp \<noteq> 0 then (False, base)
                        else if tmp = str_len then (True, base)
                        else (case vstr_cmp_buf base (beg_pos + tmp) (str_len - tmp) (Some (drop tmp str)) (str_len - tmp) of
                                (r, b1) \<Rightarrow> (r = 0, b1)))
        in if eq then (Some beg_pos, b1)
           else if iter_len iter - 1 = 0 then (None, b1)
           else srch_buf_node b1 pos len str str_len (iter_skip 1 iter))"
  by pat_completeness auto
termination
proof (relation "measure (\<lambda>(_, _, _, _, _, it). iter_len it)", goal_cases)
  case (2 base pos len str str_len iter ptr som)
  then show ?case using memchr_behind [of ptr "hd str" "iter_len iter" som] by (auto simp: iter_skip_def)
qed (auto simp: iter_skip_def)

declare srch_buf_node.simps [simp del]

text \<open>
  One turn of the outer loop. A search for positions without a byte (\<^verbatim>\<open>str\<close> is null) looks only at the start of a \<^verbatim>\<open>NON\<close> node;
  a search for bytes skips such nodes.
\<close>

definition srch_buf_chunk ::
    "byte list option \<times> nat \<Rightarrow> vstr_base \<Rightarrow> nat \<Rightarrow> nat \<Rightarrow> vstr_iter \<Rightarrow> nat option \<times> vstr_base" where
  "srch_buf_chunk p base pos len iter =
     (case p of
        (None, str_len) \<Rightarrow>
          if iter_ptr iter = None then
            (case vstr_cmp_buf base (vstr_iter_pos iter pos len) str_len None str_len of
               (r, b1) \<Rightarrow> (if r = 0 then Some (vstr_iter_pos iter pos len) else None, b1))
          else (None, base)
      | (Some str, str_len) \<Rightarrow>
          if iter_ptr iter = None then (None, base) else srch_buf_node base pos len str str_len iter)"

text \<open>The outer loop, with what it does on a piece as an argument: the search without regard to case has the same one.\<close>

function srch_chunks ::
    "(vstr_base \<Rightarrow> nat \<Rightarrow> nat \<Rightarrow> vstr_iter \<Rightarrow> nat option \<times> vstr_base) \<Rightarrow>
     vstr_base \<Rightarrow> nat \<Rightarrow> nat \<Rightarrow> nat \<Rightarrow> vstr_iter \<Rightarrow> nat \<times> vstr_base" where
  "srch_chunks chunk base pos len str_len iter =
     (case chunk base pos len iter of
        (Some found, b1) \<Rightarrow> (found, b1)
      | (None, b1) \<Rightarrow>
          (case vstr_iter_fwd_nxt iter of
             (False, _) \<Rightarrow> (0, b1)
           | (True, it) \<Rightarrow> if vstr_iter_len it \<ge> str_len then srch_chunks chunk b1 pos len str_len it else (0, b1)))"
  by pat_completeness auto
termination
  by (relation "measure (\<lambda>(_, _, _, _, _, it). length (iter_node it))") (auto dest: nxt_shorter [OF sym])

declare srch_chunks.simps [simp del]

definition vstr_srch_buf_fwd :: "vstr_base \<Rightarrow> nat \<Rightarrow> nat \<Rightarrow> byte list option \<Rightarrow> nat \<Rightarrow> nat \<times> vstr_base" where
  "vstr_srch_buf_fwd base pos len str str_len =
     (if len = 0 \<or> str_len > len then (0, base)
      else if str_len = 0 then (pos, base)
      else if str = None \<and> \<not> node_non_used base then (0, base)
      else if str \<noteq> None \<and> str_len = 1 then vstr_srch_chr_fwd base pos len (hd (the str))
      else (case vstr_iter_fwd_beg base pos len of
              (None, b1) \<Rightarrow> (0, b1)
            | (Some it, b1) \<Rightarrow> srch_chunks (srch_buf_chunk (str, str_len)) b1 pos len str_len it))"

section \<open>Backward search for a buffer\<close>

text \<open>
  Without an iovec array: search forwards again behind every match (\<^verbatim>\<open>vstr__srch_buf_rev_slow()\<close>). \<open>fwd\<close> is the forward search,
  \<open>go\<close> the further condition some of these loops have on the position.
\<close>

partial_function (option) srch_rev_slow ::
    "(vstr_base \<Rightarrow> nat \<Rightarrow> nat \<Rightarrow> nat \<times> vstr_base) \<Rightarrow> (nat \<Rightarrow> bool) \<Rightarrow> vstr_base \<Rightarrow> nat \<Rightarrow> nat \<Rightarrow> nat \<Rightarrow> nat \<Rightarrow> nat \<Rightarrow> nat \<Rightarrow>
     (nat \<times> vstr_base) option" where
  "srch_rev_slow fwd go base pos len str_len scan_pos scan_len ret =
     (if go scan_pos \<and> scan_len \<ge> str_len then
        (case fwd base scan_pos scan_len of
           (tmp, b1) \<Rightarrow>
             if tmp = 0 then Some (ret, b1)
             else srch_rev_slow fwd go b1 pos len str_len (tmp + 1) (len - (tmp - pos + 1)) tmp)
      else Some (ret, base))"

text \<open>
  With an up to date iovec array the nodes are visited from the end. \<^verbatim>\<open>vstr__cmp_eq_rev_buf()\<close> compares the buffer backwards with
  what lies in front of a place (a length 0 is excluded by its \<^verbatim>\<open>ASSERT(tmp)\<close>), \<^verbatim>\<open>vstr__cmp_eq_rev_non()\<close> asks for positions without a byte there.
  The pointer of a piece is null exactly for a \<^verbatim>\<open>NON\<close> node, so it is tested instead of the type.
\<close>

function cmp_eq_rev_loop :: "vstr_base \<Rightarrow> rev_scan \<Rightarrow> byte list \<Rightarrow> nat \<Rightarrow> bool" where
  "cmp_eq_rev_loop base s str str_len =
     (if str_len = 0 then True
      else (case rs_str s of
              None \<Rightarrow> False
            | Some scan_str \<Rightarrow>
                let tmp = (if rs_slen s > str_len then str_len else rs_slen s) in
                if vstr_wrap_memcmp (drop (str_len - tmp) str) (drop (rs_slen s - tmp) scan_str) tmp \<noteq> 0 then False
                else if tmp = 0 then False
                else if rs_slen s - tmp \<noteq> 0 then cmp_eq_rev_loop base (s\<lparr>rs_slen := rs_slen s - tmp\<rparr>) str (str_len - tmp)
                else cmp_eq_rev_loop base (snd (vstr__base_scan_rev_nxt base (s\<lparr>rs_slen := 0\<rparr>))) str (str_len - tmp)))"
  by pat_completeness auto
termination
  by (relation "measure (\<lambda>(_, _, _, n). n)") auto

definition vstr__cmp_eq_rev_buf :: "vstr_base \<Rightarrow> rev_scan \<Rightarrow> byte list \<Rightarrow> nat \<Rightarrow> bool" where
  "vstr__cmp_eq_rev_buf base s str str_len = (if str_len > rs_len s + rs_slen s then False else cmp_eq_rev_loop base s str str_len)"

function cmp_eq_rev_non_loop :: "vstr_base \<Rightarrow> rev_scan \<Rightarrow> nat \<Rightarrow> bool" where
  "cmp_eq_rev_non_loop base s str_len =
     (if rs_str s \<noteq> None then False
      else if str_len \<le> rs_slen s then True
      else (case vstr__base_scan_rev_nxt base s of
              (False, _) \<Rightarrow> False
            | (True, s') \<Rightarrow> cmp_eq_rev_non_loop base s' (str_len - rs_slen s)))"
  by pat_completeness auto
termination
  by (relation "measure (\<lambda>(_, s, _). rs_num s)") (auto dest: rev_nxt_less [OF sym])

declare cmp_eq_rev_loop.simps [simp del] cmp_eq_rev_non_loop.simps [simp del]

definition vstr__cmp_eq_rev_non :: "vstr_base \<Rightarrow> rev_scan \<Rightarrow> nat \<Rightarrow> bool" where
  "vstr__cmp_eq_rev_non base s str_len = (if str_len > rs_len s + rs_slen s then False else cmp_eq_rev_non_loop base s str_len)"

text \<open>
  The loop over the bytes of one node, from its end: \<open>rest\<close> is the number of bytes in front of the one looked at, the variable
  \<^verbatim>\<open>rest\<close> of the code after its assignment.
\<close>

lemma memrchr_less: "memrchr s c n = Some i \<Longrightarrow> i < n"
  by (auto simp: memrchr_def dest!: index_of_less)

function srch_rev_node :: "vstr_base \<Rightarrow> nat \<Rightarrow> rev_scan \<Rightarrow> byte list \<Rightarrow> nat \<Rightarrow> nat \<Rightarrow> nat option" where
  "srch_rev_node base pos s str str_len cnt =
     (if \<not> cnt < rs_slen s then None
      else
        let scan_str = the (rs_str s);
            end_chr = str ! (str_len - 1);
            cnt1 = cnt + 1;
            rest = rs_slen s - cnt1;
            som = (if rest = 0 then None else memrchr scan_str (sint end_chr) rest);
            hit = (if scan_str ! rest \<noteq> end_chr then map_option (\<lambda>som. cnt1 + (rest - som)) som else Some cnt1)
        in case hit of
             None \<Rightarrow> srch_rev_node base pos s str str_len cnt1
           | Some cnt2 \<Rightarrow>
               let len_end = rs_slen s - cnt2 + 1 in
               if vstr__cmp_eq_rev_buf base (s\<lparr>rs_slen := len_end\<rparr>) str str_len
               then Some ((pos + rs_len s + len_end) - str_len)
               else srch_rev_node base pos s str str_len cnt2)"
  by pat_completeness auto
termination
  by (relation "measure (\<lambda>(_, _, s, _, _, cnt). rs_slen s - cnt)")
    (auto simp: map_option_case dest!: memrchr_less split: if_splits option.splits)

function srch_rev_fast_loop :: "vstr_base \<Rightarrow> nat \<Rightarrow> rev_scan \<Rightarrow> byte list option \<Rightarrow> nat \<Rightarrow> nat" where
  "srch_rev_fast_loop base pos s str str_len =
     (case (case str of
              None \<Rightarrow> if rs_str s = None \<and> vstr__cmp_eq_rev_non base s str_len
                      then Some ((pos + rs_len s + rs_slen s) - str_len) else None
            | Some b \<Rightarrow> if rs_str s = None then None else srch_rev_node base pos s b str_len 0) of
        Some found \<Rightarrow> found
      | None \<Rightarrow>
          (case vstr__base_scan_rev_nxt base s of
             (False, _) \<Rightarrow> 0
           | (True, s') \<Rightarrow> srch_rev_fast_loop base pos s' str str_len))"
  by pat_completeness auto
termination
  by (relation "measure (\<lambda>(_, _, s, _, _). rs_num s)") (auto dest: rev_nxt_less [OF sym])

declare srch_rev_node.simps [simp del] srch_rev_fast_loop.simps [simp del]

definition vstr__srch_buf_rev_fast :: "vstr_base \<Rightarrow> nat \<Rightarrow> nat \<Rightarrow> byte list option \<Rightarrow> nat \<Rightarrow> nat \<times> vstr_base" where
  "vstr__srch_buf_rev_fast base pos len str str_len =
     (case vstr__base_scan_rev_beg base pos len of
        (None, b1) \<Rightarrow> (0, b1)
      | (Some s, b1) \<Rightarrow> (srch_rev_fast_loop b1 pos s str str_len, b1))"

definition vstr_srch_buf_rev :: "vstr_base \<Rightarrow> nat \<Rightarrow> nat \<Rightarrow> byte list option \<Rightarrow> nat \<Rightarrow> (nat \<times> vstr_base) option" where
  "vstr_srch_buf_rev base pos len str str_len =
     (if len = 0 \<or> str_len > len then Some (0, base)
      else if str_len = 0 then Some (pos + len - 1, base)
      else if str \<noteq> None \<and> str_len = 1 then Some (vstr_srch_chr_rev base pos len (hd (the str)))
      else if iovec_upto_date base then Some (vstr__srch_buf_rev_fast base pos len str str_len)
      else srch_rev_slow (\<lambda>b p l. vstr_srch_buf_fwd b p l str str_len) (\<lambda>_. True) base pos len str_len pos len 0)"

section \<open>Search for a range of another string\<close>

text \<open>
  \<^verbatim>\<open>vstr_srch_vstr_fwd()\<close>: compare at a place, else go on to the next place where the first piece of the other range is found.
  \<open>cmp\<close> and \<open>srch\<close> are the comparison and the search of the exact version or of the one without regard to case.
\<close>

partial_function (option) srch_vstr_loop ::
    "(vstr_base \<Rightarrow> nat \<Rightarrow> nat \<Rightarrow> vstr_base \<Rightarrow> nat \<Rightarrow> nat \<Rightarrow> int \<times> vstr_base \<times> vstr_base) \<Rightarrow>
     (vstr_base \<Rightarrow> nat \<Rightarrow> nat \<Rightarrow> byte list option \<Rightarrow> nat \<Rightarrow> nat \<times> vstr_base) \<Rightarrow>
     vstr_base \<Rightarrow> nat \<Rightarrow> nat \<Rightarrow> vstr_base \<Rightarrow> nat \<Rightarrow> nat \<Rightarrow> vstr_iter \<Rightarrow> nat \<Rightarrow> nat \<Rightarrow> (nat \<times> vstr_base \<times> vstr_base) option" where
  "srch_vstr_loop cmp srch base pos len ndl_base ndl_pos ndl_len iter scan_pos scan_len =
     (if scan_pos < vstr_sc_poslast pos len \<and> scan_len \<ge> ndl_len then
        (case cmp base scan_pos ndl_len ndl_base ndl_pos ndl_len of
           (r, b1, n1) \<Rightarrow>
             if r = 0 then Some (scan_pos, b1, n1)
             else if iter_ptr iter = None then
               srch_vstr_loop cmp srch b1 pos len n1 ndl_pos ndl_len iter (scan_pos + 1) (scan_len - 1)
             else
               (case srch b1 (scan_pos + 1) (scan_len - 1) (iter_ptr iter) (iter_len iter) of
                  (tmp, b2) \<Rightarrow>
                    if tmp = 0 then Some (0, b2, n1)
                    else srch_vstr_loop cmp srch b2 pos len n1 ndl_pos ndl_len iter tmp (scan_len - 1 - (tmp - (scan_pos + 1)))))
      else Some (0, base, ndl_base))"

definition srch_vstr_fwd ::
    "(vstr_base \<Rightarrow> nat \<Rightarrow> nat \<Rightarrow> vstr_base \<Rightarrow> nat \<Rightarrow> nat \<Rightarrow> int \<times> vstr_base \<times> vstr_base) \<Rightarrow>
     (vstr_base \<Rightarrow> nat \<Rightarrow> nat \<Rightarrow> byte list option \<Rightarrow> nat \<Rightarrow> nat \<times> vstr_base) \<Rightarrow>
     vstr_base \<Rightarrow> nat \<Rightarrow> nat \<Rightarrow> vstr_base \<Rightarrow> nat \<Rightarrow> nat \<Rightarrow> (nat \<times> vstr_base \<times> vstr_base) option" where
  "srch_vstr_fwd cmp srch base pos len ndl_base ndl_pos ndl_len =
     (if ndl_len > len then Some (0, base, ndl_base)
      else (case vstr_iter_fwd_beg ndl_base ndl_pos ndl_len of
              (None, n1) \<Rightarrow> Some (0, base, n1)
            | (Some it, n1) \<Rightarrow> srch_vstr_loop cmp srch base pos len n1 ndl_pos ndl_len it pos len))"

definition vstr_srch_vstr_fwd ::
    "vstr_base \<Rightarrow> nat \<Rightarrow> nat \<Rightarrow> vstr_base \<Rightarrow> nat \<Rightarrow> nat \<Rightarrow> (nat \<times> vstr_base \<times> vstr_base) option" where
  "vstr_srch_vstr_fwd = srch_vstr_fwd vstr_cmp vstr_srch_buf_fwd"

text \<open>\<^verbatim>\<open>vstr__srch_vstr_rev_slow()\<close> repeats the forward search behind each match.\<close>

partial_function (option) srch_vstr_rev_slow ::
    "(vstr_base \<Rightarrow> nat \<Rightarrow> nat \<Rightarrow> vstr_base \<Rightarrow> nat \<Rightarrow> nat \<Rightarrow> (nat \<times> vstr_base \<times> vstr_base) option) \<Rightarrow> (nat \<Rightarrow> bool) \<Rightarrow>
     vstr_base \<Rightarrow> nat \<Rightarrow> nat \<Rightarrow> vstr_base \<Rightarrow> nat \<Rightarrow> nat \<Rightarrow> nat \<Rightarrow> nat \<Rightarrow> nat \<Rightarrow> (nat \<times> vstr_base \<times> vstr_base) option" where
  "srch_vstr_rev_slow fwd go base pos len ndl_base ndl_pos ndl_len scan_pos scan_len ret =
     (if go scan_pos \<and> scan_len \<ge> ndl_len then
        (case fwd base scan_pos scan_len ndl_base ndl_pos ndl_len of
           None \<Rightarrow> None
         | Some (tmp, b1, n1) \<Rightarrow>
             if tmp = 0 then Some (ret, b1, n1)
             else srch_vstr_rev_slow fwd go b1 pos len n1 ndl_pos ndl_len (tmp + 1) (len - (tmp - pos + 1)) tmp)
      else Some (ret, base, ndl_base))"

definition vstr_srch_vstr_rev ::
    "vstr_base \<Rightarrow> nat \<Rightarrow> nat \<Rightarrow> vstr_base \<Rightarrow> nat \<Rightarrow> nat \<Rightarrow> (nat \<times> vstr_base \<times> vstr_base) option" where
  "vstr_srch_vstr_rev base pos len ndl_base ndl_pos ndl_len =
     srch_vstr_rev_slow vstr_srch_vstr_fwd (\<lambda>_. True) base pos len ndl_base ndl_pos ndl_len pos len 0"

section \<open>What a search is for\<close>

text \<open>The first place where a list occurs in another one; \<open>found_within\<close> looks only at the first \<open>n\<close> places.\<close>

definition match_at :: "'a list \<Rightarrow> nat \<Rightarrow> 'a list \<Rightarrow> bool" where
  "match_at xs i ys \<longleftrightarrow> i + length ys \<le> length xs \<and> take (length ys) (drop i xs) = ys"

definition find_sub :: "'a list \<Rightarrow> 'a list \<Rightarrow> nat option" where
  "find_sub ys xs = index_of (\<lambda>i. match_at xs i ys) [0..<Suc (length xs)]"

definition found_within :: "nat \<Rightarrow> nat option \<Rightarrow> nat option" where
  "found_within n r = (case r of None \<Rightarrow> None | Some i \<Rightarrow> if i < n then Some i else None)"

lemma index_of_Some:
  "index_of P xs = Some i \<longleftrightarrow> i < length xs \<and> P (xs ! i) \<and> (\<forall>k < i. \<not> P (xs ! k))"
proof (induction xs arbitrary: i)
  case (Cons x xs)
  have all: "(\<forall>k < Suc i. \<not> P ((x # xs) ! k)) \<longleftrightarrow> \<not> P x \<and> (\<forall>k < i. \<not> P (xs ! k))" for i
    by (auto simp: less_Suc_eq_0_disj)
  show ?case using Cons.IH all by (cases i) auto
qed simp

lemma find_sub_Some: "find_sub ys xs = Some i \<longleftrightarrow> match_at xs i ys \<and> (\<forall>k < i. \<not> match_at xs k ys)"
  by (auto simp: find_sub_def index_of_Some match_at_def simp del: upt_Suc)

lemma find_sub_None: "find_sub ys xs = None \<longleftrightarrow> (\<forall>k. \<not> match_at xs k ys)"
  by (auto simp: find_sub_def index_of_None match_at_def less_Suc_eq_le simp del: upt_Suc)

lemma match_at_drop: "k \<le> length xs \<Longrightarrow> match_at (drop k xs) i ys \<longleftrightarrow> match_at xs (k + i) ys"
  by (auto simp: match_at_def add.commute)

lemma find_sub_skip:
  assumes "\<forall>i < k. \<not> match_at xs i ys" "k \<le> length xs"
  shows "find_sub ys xs = map_option ((+) k) (find_sub ys (drop k xs))"
proof (cases "find_sub ys (drop k xs)")
  case None
  then have "\<not> match_at xs i ys" for i
    using assms(1) match_at_drop [OF assms(2), of "i - k" ys] find_sub_None [of ys "drop k xs"] by (cases "i < k") auto
  then show ?thesis using None find_sub_None [of ys xs] by simp
next
  case (Some i)
  then have "match_at xs (k + i) ys" "\<forall>j < i. \<not> match_at xs (k + j) ys"
    by (simp_all add: find_sub_Some match_at_drop [OF assms(2)])
  moreover have "\<not> match_at xs j ys" if "j < k + i" for j
    using that assms(1) calculation(2) [rule_format, of "j - k"] by (cases "j < k") auto
  ultimately have "find_sub ys xs = Some (k + i)" by (simp add: find_sub_Some)
  then show ?thesis using Some by simp
qed

lemma find_sub_short: "length xs < length ys \<Longrightarrow> find_sub ys xs = None"
  by (simp add: find_sub_None match_at_def)

lemma find_sub_0: "find_sub ys xs = Some 0 \<longleftrightarrow> take (length ys) xs = ys"
  by (auto simp: find_sub_Some match_at_def) (metis length_take min.cobounded1)

lemma found_within_skip:
  "k \<le> n \<Longrightarrow> found_within n (map_option ((+) k) r) = map_option ((+) k) (found_within (n - k) r)"
  by (auto simp: found_within_def split: option.split)

lemma found_within_None:
  assumes "found_within n (find_sub ys xs) = None"
  shows "\<forall>i < n. \<not> match_at xs i ys"
proof (cases "find_sub ys xs")
  case None
  then show ?thesis by (simp add: find_sub_None)
next
  case (Some i)
  then have "n \<le> i" using assms by (auto simp: found_within_def split: if_splits)
  then show ?thesis using Some by (auto simp: find_sub_Some)
qed

lemma found_at_skip: "found_at q (map_option ((+) k) r) = found_at (q + k) r"
  by (simp add: found_at_def add.assoc split: option.split)

section \<open>Reading\<close>

text \<open>A function that reads a string returns its result and the string with another position cache.\<close>

definition reads :: "vstr_base \<Rightarrow> 'a \<times> vstr_base \<Rightarrow> 'a \<Rightarrow> bool" where
  "reads base r v \<longleftrightarrow> fst r = v \<and> same_but_cache base (snd r) \<and> vstr_inv (snd r)"

lemma same_but_cache_trans: "same_but_cache a b \<Longrightarrow> same_but_cache b c \<Longrightarrow> same_but_cache a c"
  by (auto simp: same_but_cache_def)

lemma reads_frame:
  assumes "same_but_cache base b1" "vstr_inv b1"
  shows "in_range base pos len \<Longrightarrow> in_range b1 pos len" "range_data b1 pos len = range_data base pos len"
    "node_non_used b1 = node_non_used base" "iovec_ok base \<Longrightarrow> iovec_ok b1"
proof -
  obtain p where p: "b1 = base\<lparr>b_cache := (b_cache base)\<lparr>cache_pos := p\<rparr>\<rparr>" using assms(1) by (auto simp: same_but_cache_def)
  show "in_range base pos len \<Longrightarrow> in_range b1 pos len"
    using assms(2) same_but_cache_frame(2) [OF assms(1)] by (simp add: in_range_def)
  show "range_data b1 pos len = range_data base pos len" using same_but_cache_frame(7) [OF assms(1)] by simp
  show "node_non_used b1 = node_non_used base" by (simp add: p)
  have "iov_entries b1 = iov_entries base" by (simp add: p iov_entries_def split: list.split)
  then show "iovec_ok base \<Longrightarrow> iovec_ok b1" unfolding iovec_ok_def vec_holds_def by (simp add: p)
qed

lemma reads_trans: "same_but_cache base b1 \<Longrightarrow> reads b1 r v \<Longrightarrow> reads base r v"
  using same_but_cache_trans by (auto simp: reads_def)

text \<open>An iterator somewhere in the range that is searched.\<close>

definition at_iter :: "vstr_base \<Rightarrow> nat \<Rightarrow> nat \<Rightarrow> vstr_iter \<Rightarrow> bool" where
  "at_iter base pos len it \<longleftrightarrow> in_range base pos len \<and> iter_inv it \<and> vstr_iter_len it \<le> len \<and>
     iter_rest it = drop (len - vstr_iter_len it) (range_data base pos len)"

lemma at_iter_len: "at_iter base pos len it \<Longrightarrow> length (iter_rest it) = vstr_iter_len it"
  unfolding at_iter_def by (blast intro: iter_rest_length)

lemma at_iter_pos: "at_iter base pos len it \<Longrightarrow> vstr_iter_pos it pos len = pos + (len - vstr_iter_len it)"
  by (simp add: at_iter_def vstr_iter_pos_def vstr_iter_len_def)

lemma at_iter_skip:
  assumes "at_iter base pos len it" "k \<le> iter_len it"
  shows "at_iter base pos len (iter_skip k it)" "vstr_iter_len (iter_skip k it) = vstr_iter_len it - k"
    "iter_rest (iter_skip k it) = drop k (iter_rest it)" "vstr_iter_pos (iter_skip k it) pos len = vstr_iter_pos it pos len + k"
proof -
  show l: "vstr_iter_len (iter_skip k it) = vstr_iter_len it - k" using assms(2) by (simp add: vstr_iter_len_def iter_skip_def)
  show r: "iter_rest (iter_skip k it) = drop k (iter_rest it)" using iter_skip_spec(2) [OF _ assms(2)] assms(1) by (simp add: at_iter_def)
  have le: "k \<le> vstr_iter_len it" using assms(2) by (simp add: vstr_iter_len_def)
  have e: "len - (vstr_iter_len it - k) = k + (len - vstr_iter_len it)" using le assms(1) unfolding at_iter_def by linarith
  show at: "at_iter base pos len (iter_skip k it)"
    using assms iter_skip_spec(1) [OF _ assms(2)] r l e by (auto simp: at_iter_def)
  show "vstr_iter_pos (iter_skip k it) pos len = vstr_iter_pos it pos len + k"
    using at_iter_pos [OF at] at_iter_pos [OF assms(1)] l e by simp
qed

lemma at_iter_frame: "at_iter base pos len it \<Longrightarrow> same_but_cache base b1 \<Longrightarrow> vstr_inv b1 \<Longrightarrow> at_iter b1 pos len it"
  using reads_frame by (auto simp: at_iter_def)


lemma at_iter_nxt:
  assumes "at_iter base pos len it" "vstr_iter_fwd_nxt it = (True, j)"
  shows "at_iter base pos len j" "iter_len j \<noteq> 0" "iter_rest j = drop (iter_len it) (iter_rest it)"
    "vstr_iter_len j = vstr_iter_len it - iter_len it"
proof -
  have inv: "iter_inv it" "vstr_iter_len it \<le> len" using assms(1) by (simp_all add: at_iter_def)
  then have j: "iter_inv j" "iter_len j \<noteq> 0" "iter_rest j = drop (iter_len it) (iter_rest it)"
    using nxt_rest [of it] assms(2) by auto
  then show "iter_len j \<noteq> 0" "iter_rest j = drop (iter_len it) (iter_rest it)" by simp_all
  have l: "vstr_iter_len j = vstr_iter_len it - iter_len it"
    using iter_rest_length [OF j(1)] iter_rest_length [OF inv(1)] j(3) by simp
  then show "vstr_iter_len j = vstr_iter_len it - iter_len it" .
  have e: "len - vstr_iter_len j = iter_len it + (len - vstr_iter_len it)" using l inv(2) by (simp add: vstr_iter_len_def)
  have "iter_rest j = drop (len - vstr_iter_len j) (range_data base pos len)"
    using assms(1) unfolding e j(3) at_iter_def by (simp add: drop_drop)
  moreover have "vstr_iter_len j \<le> len" using l inv(2) by linarith
  ultimately show "at_iter base pos len j" using assms(1) j(1) unfolding at_iter_def by blast
qed

lemma at_iter_last: "at_iter base pos len it \<Longrightarrow> vstr_iter_fwd_nxt it = (False, j) \<Longrightarrow> vstr_iter_len it = iter_len it"
  using nxt_rest [of it] iter_rest_length [of it] by (auto simp: at_iter_def vstr_iter_len_def)

text \<open>Comparing a part of the range at the iterator with a buffer.\<close>

lemma at_iter_range:
  assumes "at_iter base pos len it" "k + n \<le> vstr_iter_len it"
  shows "in_range base (vstr_iter_pos it pos len + k) n"
    "range_data base (vstr_iter_pos it pos len + k) n = take n (drop k (iter_rest it))"
proof -
  have at: "in_range base pos len" "vstr_iter_len it \<le> len"
    "iter_rest it = drop (len - vstr_iter_len it) (range_data base pos len)" using assms(1) by (simp_all add: at_iter_def)
  then show "in_range base (vstr_iter_pos it pos len + k) n"
    using assms(2) by (auto simp: in_range_def at_iter_pos [OF assms(1)])
  have "1 \<le> pos" using at(1) by (simp add: in_range_def)
  then have e: "vstr_iter_pos it pos len + k - 1 = k + (len - vstr_iter_len it) + (pos - 1)"
    using at_iter_pos [OF assms(1)] by simp
  have "len - (k + (len - vstr_iter_len it)) \<ge> n" using assms(2) at(2) by linarith
  then show "range_data base (vstr_iter_pos it pos len + k) n = take n (drop k (iter_rest it))"
    unfolding e at(3) by (simp add: drop_take min_def add.assoc)
qed

lemma cmp_buf_reads:
  assumes "in_range base pos n" "buf_holds buf n"
  shows "fst (vstr_cmp_buf base pos n buf n) = 0 \<longleftrightarrow> range_data base pos n = buf_content buf n"
    "same_but_cache base (snd (vstr_cmp_buf base pos n buf n))" "vstr_inv (snd (vstr_cmp_buf base pos n buf n))"
proof -
  have "sgn (fst (vstr_cmp_buf base pos n buf n)) = cmp_sign (range_data base pos n) (buf_content buf n)"
    using plain.cmp_single_result [OF assms] by (simp add: vstr_cmp_buf_def)
  then show "fst (vstr_cmp_buf base pos n buf n) = 0 \<longleftrightarrow> range_data base pos n = buf_content buf n"
    by (metis cmp_sign_zero(1) sgn_0_0)
  show "same_but_cache base (snd (vstr_cmp_buf base pos n buf n))" "vstr_inv (snd (vstr_cmp_buf base pos n buf n))"
    using assms(1) by (cases rule: fwd_beg_range; use assms(1) in \<open>simp add: vstr_cmp_buf_def cmp_single_def in_range_def\<close>)+
qed

section \<open>The loop over the pieces\<close>

text \<open>
  What a turn of the loop promises for a pattern: it finds the first match that starts in its piece.
\<close>

locale pattern_scan =
  fixes chunk :: "'p \<Rightarrow> vstr_base \<Rightarrow> nat \<Rightarrow> nat \<Rightarrow> vstr_iter \<Rightarrow> nat option \<times> vstr_base"
    and valid :: "'p \<Rightarrow> bool" and pat :: "'p \<Rightarrow> content" and key :: "byte \<Rightarrow> byte"
  assumes pat_nonempty: "valid p \<Longrightarrow> pat p \<noteq> []"
    and chunk_first: "valid p \<Longrightarrow> at_iter base pos len it \<Longrightarrow> iter_len it \<noteq> 0 \<Longrightarrow> length (pat p) \<le> vstr_iter_len it \<Longrightarrow>
    reads base (chunk p base pos len it) (map_option ((+) (vstr_iter_pos it pos len))
      (found_within (iter_len it) (find_sub (key_content key (pat p)) (key_content key (iter_rest it)))))"
begin

lemma chunks_first:
  assumes "valid p" "at_iter base pos len it" "iter_len it \<noteq> 0" "length (pat p) \<le> vstr_iter_len it"
  shows "reads base (srch_chunks (chunk p) base pos len (length (pat p)) it)
    (found_at (vstr_iter_pos it pos len) (find_sub (key_content key (pat p)) (key_content key (iter_rest it))))"
  using assms(2-4)
proof (induction "length (iter_node it)" arbitrary: base it rule: less_induct)
  case less
  let ?ys = "key_content key (pat p)" and ?xs = "key_content key (iter_rest it)" and ?q = "vstr_iter_pos it pos len"
  obtain r b1 where c: "chunk p base pos len it = (r, b1)" by (cases "chunk p base pos len it")
  have r: "r = map_option ((+) ?q) (found_within (iter_len it) (find_sub ?ys ?xs))" "same_but_cache base b1" "vstr_inv b1"
    using chunk_first [OF assms(1) less.prems] c by (simp_all add: reads_def)
  have lx: "length ?xs = vstr_iter_len it" using at_iter_len [OF less.prems(1)] by simp
  show ?case
  proof (cases "found_within (iter_len it) (find_sub ?ys ?xs)")
    case (Some i)
    then have "find_sub ?ys ?xs = Some i" by (auto simp: found_within_def split: option.splits if_splits)
    then show ?thesis using Some c r by (simp add: srch_chunks.simps [of _ base] reads_def found_at_def)
  next
    case None
    then have "\<forall>i < iter_len it. \<not> match_at ?xs i ?ys" by (rule found_within_None)
    moreover have "iter_len it \<le> length ?xs" using lx by (simp add: vstr_iter_len_def)
    ultimately have skip: "find_sub ?ys ?xs = map_option ((+) (iter_len it)) (find_sub ?ys (drop (iter_len it) ?xs))"
      by (rule find_sub_skip)
    obtain ok j where nx: "vstr_iter_fwd_nxt it = (ok, j)" by (cases "vstr_iter_fwd_nxt it")
    have step: "srch_chunks (chunk p) base pos len (length (pat p)) it =
        (if ok \<and> vstr_iter_len j \<ge> length (pat p) then srch_chunks (chunk p) b1 pos len (length (pat p)) j else (0, b1))"
      using None c r(1) nx by (simp add: srch_chunks.simps [of _ base] split: bool.split)
    show ?thesis
    proof (cases "ok \<and> vstr_iter_len j \<ge> length (pat p)")
      case True
      note j = at_iter_nxt [OF less.prems(1), of j]
      have "reads b1 (srch_chunks (chunk p) b1 pos len (length (pat p)) j)
          (found_at (vstr_iter_pos j pos len) (find_sub ?ys (key_content key (iter_rest j))))"
        using True nx nxt_shorter [of it j] j at_iter_frame [OF _ r(2,3)] by (intro less.hyps) simp_all
      moreover have "key_content key (iter_rest j) = drop (iter_len it) ?xs"
        using j(3) True nx by (simp add: drop_map)
      moreover have "vstr_iter_pos j pos len = ?q + iter_len it"
        using at_iter_pos [OF j(1)] at_iter_pos [OF less.prems(1)] j(4) less.prems(1) True nx
        by (simp add: at_iter_def) (simp add: vstr_iter_len_def)
      ultimately show ?thesis
        using True step skip reads_trans [OF r(2)] by (simp add: found_at_skip)
    next
      case False
      have "length (drop (iter_len it) ?xs) < length (pat p)"
      proof (cases ok)
        case True
        then show ?thesis using False at_iter_nxt(4) [OF less.prems(1)] nx lx by simp
      next
        case f: False
        then show ?thesis using pat_nonempty [OF assms(1)] at_iter_last [OF less.prems(1)] nx lx by simp
      qed
      then have "find_sub ?ys (drop (iter_len it) ?xs) = None" by (intro find_sub_short) simp
      then show ?thesis using False step skip r(2,3) by (auto simp: reads_def found_at_def)
    qed
  qed
qed

end

section \<open>The exact search\<close>

lemma match_at_hd:
  assumes "match_at xs i ys" "ys \<noteq> []"
  shows "i < length xs \<and> xs ! i = hd ys"
proof -
  have "ys ! 0 = take (length ys) (drop i xs) ! 0" using assms(1) by (simp add: match_at_def)
  then show ?thesis using assms by (simp add: match_at_def hd_conv_nth) (metis add_leD1 le_antisym length_0_conv nat_less_le add_le_same_cancel1 le_zero_eq)
qed

lemma take_eq_split:
  assumes "t \<le> n"
  shows "take n xs = take n ys \<longleftrightarrow> take t xs = take t ys \<and> take (n - t) (drop t xs) = take (n - t) (drop t ys)"
proof
  assume e: "take n xs = take n ys"
  show "take t xs = take t ys \<and> take (n - t) (drop t xs) = take (n - t) (drop t ys)"
    using arg_cong [OF e, of "take t"] arg_cong [OF e, of "drop t"] assms by (simp add: drop_take min_absorb1)
next
  assume "take t xs = take t ys \<and> take (n - t) (drop t xs) = take (n - t) (drop t ys)"
  then show "take n xs = take n ys" using take_add [of t "n - t" xs] take_add [of t "n - t" ys] assms by simp
qed

lemma found_within_nothing: "\<forall>i < n. \<not> match_at xs i ys \<Longrightarrow> found_within n (find_sub ys xs) = None"
  by (auto simp: found_within_def find_sub_Some split: option.splits)

lemma first_skip:
  assumes "at_iter base pos len it" "k \<le> iter_len it" "\<forall>i < k. \<not> match_at (map f (iter_rest it)) i ys"
  shows "map_option ((+) (vstr_iter_pos it pos len)) (found_within (iter_len it) (find_sub ys (map f (iter_rest it)))) =
    map_option ((+) (vstr_iter_pos (iter_skip k it) pos len))
      (found_within (iter_len (iter_skip k it)) (find_sub ys (map f (iter_rest (iter_skip k it)))))"
proof -
  have "k \<le> length (map f (iter_rest it))" using assms(2) at_iter_len [OF assms(1)] by (simp add: vstr_iter_len_def)
  then have "find_sub ys (map f (iter_rest it)) = map_option ((+) k) (find_sub ys (map f (drop k (iter_rest it))))"
    using find_sub_skip [OF assms(3)] by (simp add: drop_map)
  then show ?thesis
    using at_iter_skip(3,4) [OF assms(1,2)] found_within_skip [OF assms(2)]
    by (cases "found_within (iter_len it - k) (find_sub ys (map f (drop k (iter_rest it))))")
      (simp_all add: iter_skip_def)
qed

text \<open>The comparison at one place.\<close>

definition srch_cmp :: "vstr_base \<Rightarrow> nat \<Rightarrow> nat \<Rightarrow> byte list \<Rightarrow> nat \<Rightarrow> vstr_iter \<Rightarrow> bool \<times> vstr_base" where
  "srch_cmp base pos len str n it =
     (let tmp = (if iter_len it > n then n else iter_len it) in
      if vstr_wrap_memcmp (the (iter_ptr it)) str tmp \<noteq> 0 then (False, base)
      else if tmp = n then (True, base)
      else (case vstr_cmp_buf base (vstr_iter_pos it pos len + tmp) (n - tmp) (Some (drop tmp str)) (n - tmp) of
              (r, b1) \<Rightarrow> (r = 0, b1)))"

lemma srch_cmp_reads:
  assumes "at_iter base pos len it" "iter_ptr it = Some ptr" "n \<le> vstr_iter_len it" "n \<le> length str"
  shows "reads base (srch_cmp base pos len str n it) (take n (iter_rest it) = map Some (take n str))"
proof -
  define t where "t = (if iter_len it > n then n else iter_len it)"
  have t: "t \<le> n" "t \<le> iter_len it" by (simp_all add: t_def)
  have inv: "iter_inv it" "vstr_inv base" using assms(1) by (simp_all add: at_iter_def in_range_def)
  have p: "take t (iter_rest it) = map Some (take t ptr)" "t \<le> length ptr"
    using iter_rest_take [OF inv(1) t(2)] assms(2) by (simp_all add: buf_content_def buf_holds_def)
  have "sgn (vstr_wrap_memcmp ptr str t) = cmp_sign (map Some (take t ptr)) (map Some (take t str))"
    using plain.cmp_sgn [of t ptr str] p(2) t(1) assms(4) by simp
  then have m: "vstr_wrap_memcmp ptr str t = 0 \<longleftrightarrow> map Some (take t ptr) = map Some (take t str)"
    by (metis cmp_sign_zero(1) sgn_0_0)
  have split: "take n (iter_rest it) = map Some (take n str) \<longleftrightarrow>
    map Some (take t ptr) = map Some (take t str) \<and> take (n - t) (drop t (iter_rest it)) = map Some (take (n - t) (drop t str))"
    using take_eq_split [OF t(1), of "iter_rest it" "map Some str"] p(1) by (simp add: take_map drop_map)
  show ?thesis
  proof (cases "vstr_wrap_memcmp ptr str t = 0 \<and> t \<noteq> n")
    case False
    then show ?thesis using split m inv(2) assms(2) by (auto simp: srch_cmp_def reads_def t_def [symmetric])
  next
    case True
    have b: "buf_holds (Some (drop t str)) (n - t)" using assms(4) by (simp add: buf_holds_def)
    have le: "t + (n - t) \<le> vstr_iter_len it" using t(1) assms(3) by simp
    note c = cmp_buf_reads [OF at_iter_range(1) [OF assms(1) le] b]
    show ?thesis
      using True split m c at_iter_range(2) [OF assms(1) le] assms(2)
      by (auto simp: srch_cmp_def reads_def t_def [symmetric] buf_content_def split: prod.splits)
  qed
qed

lemma srch_buf_node_unfold:
  "srch_buf_node base pos len str n it =
     (if vstr_iter_len it < n then (None, base)
      else if hd (the (iter_ptr it)) \<noteq> hd str then
        (case memchr (the (iter_ptr it)) (sint (hd str)) (iter_len it) of
           None \<Rightarrow> (None, base)
         | Some som \<Rightarrow> srch_buf_node base pos len str n (iter_skip som it))
      else (case srch_cmp base pos len str n it of (eq, b1) \<Rightarrow>
        if eq then (Some (vstr_iter_pos it pos len), b1)
        else if iter_len it - 1 = 0 then (None, b1)
        else srch_buf_node b1 pos len str n (iter_skip 1 it)))"
  by (subst srch_buf_node.simps) (simp add: srch_cmp_def Let_def split: option.split prod.split)

lemma first_byte:
  assumes "iter_inv it" "iter_ptr it = Some ptr" "i < iter_len it"
  shows "iter_rest it ! i = Some (ptr ! i)" "i < length ptr" "i < length (iter_rest it)"
proof -
  have r: "take (iter_len it) (iter_rest it) = map Some (take (iter_len it) ptr)" "iter_len it \<le> length ptr"
    using iter_rest_take [OF assms(1), of "iter_len it"] assms(2) by (simp_all add: buf_content_def buf_holds_def)
  show "i < length ptr" using r(2) assms(3) by simp
  then have "i < length (map Some (take (iter_len it) ptr))" using assms(3) by simp
  then show "i < length (iter_rest it)" using arg_cong [OF r(1), of length] by (simp add: min_def split: if_splits)
  have "take (iter_len it) (iter_rest it) ! i = Some (ptr ! i)" unfolding r(1) using assms(3) \<open>i < length ptr\<close> by simp
  then show "iter_rest it ! i = Some (ptr ! i)" using assms(3) by simp
qed

lemma srch_buf_node_first:
  assumes "at_iter base pos len it" "iter_ptr it = Some ptr" "iter_len it \<noteq> 0" "n \<le> length str" "0 < n"
  shows "reads base (srch_buf_node base pos len str n it) (map_option ((+) (vstr_iter_pos it pos len))
    (found_within (iter_len it) (find_sub (map Some (take n str)) (iter_rest it))))"
  using assms(1-3)
proof (induction "iter_len it" arbitrary: base it ptr rule: less_induct)
  case less
  let ?ys = "map Some (take n str)" and ?xs = "iter_rest it"
  have ys: "?ys \<noteq> []" "hd ?ys = Some (hd str)" "length ?ys = n" using assms(4,5) by (cases str; cases n; simp)+
  have inv: "iter_inv it" "vstr_inv base" using less.prems(1) by (simp_all add: at_iter_def in_range_def)
  have hit: "ptr ! i = hd str" if "match_at ?xs i ?ys" "i < iter_len it" for i
    using match_at_hd [OF that(1) ys(1)] ys(2) first_byte [OF inv(1) less.prems(2) that(2)] by simp
  note skip = first_skip [OF less.prems(1), where f = "\<lambda>x. x" and ys = ?ys, unfolded list.map_ident]
  show ?case
  proof (cases "vstr_iter_len it < n")
    case True
    then have "find_sub ?ys ?xs = None" using ys(3) at_iter_len [OF less.prems(1)] by (simp add: find_sub_short)
    then show ?thesis using True inv(2) by (simp add: srch_buf_node_unfold [of base pos len str n it] reads_def found_within_def)
  next
    case long: False
    show ?thesis
    proof (cases "hd ptr = hd str")
      case False
      have "memchr ptr (sint (hd str)) (iter_len it) = None \<Longrightarrow> \<forall>i < iter_len it. \<not> match_at ?xs i ?ys"
        using hit first_byte(2) [OF inv(1) less.prems(2)] by (fastforce simp: memchr_def index_of_None in_set_conv_nth)
      moreover have "reads base (srch_buf_node base pos len str n (iter_skip som it))
          (map_option ((+) (vstr_iter_pos it pos len)) (found_within (iter_len it) (find_sub ?ys ?xs)))"
        if som: "memchr ptr (sint (hd str)) (iter_len it) = Some som" for som
      proof -
        have b: "0 < som" "som < iter_len it" using memchr_behind [OF som False] by auto
        have no: "\<forall>i < som. \<not> match_at ?xs i ?ys"
          using som hit b(2) first_byte(2) [OF inv(1) less.prems(2)] by (fastforce simp: memchr_def index_of_Some)
        show ?thesis
          unfolding skip [OF less_imp_le [OF b(2)] no]
          using b at_iter_skip(1) [OF less.prems(1) less_imp_le [OF b(2)]] less.prems(2)
          by (intro less.hyps [where ptr = "drop som ptr"]) (simp_all add: iter_skip_def)
      qed
      ultimately show ?thesis
        using False long less.prems(2) inv(2) found_within_nothing [of "iter_len it" ?xs ?ys]
        by (auto simp: srch_buf_node_unfold [of base pos len str n it] reads_def split: option.split)
    next
      case True
      obtain eq b1 where c: "srch_cmp base pos len str n it = (eq, b1)" by (cases "srch_cmp base pos len str n it")
      have eq: "eq \<longleftrightarrow> find_sub ?ys ?xs = Some 0" "same_but_cache base b1" "vstr_inv b1"
        using srch_cmp_reads [OF less.prems(1,2) _ assms(4)] long c ys(3) by (simp_all add: reads_def find_sub_0)
      have step: "srch_buf_node base pos len str n it = (if eq then (Some (vstr_iter_pos it pos len), b1)
          else if iter_len it - 1 = 0 then (None, b1) else srch_buf_node b1 pos len str n (iter_skip 1 it))"
        using True long less.prems(2) c by (simp add: srch_buf_node_unfold [of base pos len str n it])
      show ?thesis
      proof (cases eq)
        case True
        then show ?thesis using step eq less.prems(3) by (simp add: reads_def found_within_def)
      next
        case False
        then have no: "\<forall>i < 1. \<not> match_at ?xs i ?ys" using eq(1) by (simp add: find_sub_Some)
        show ?thesis
        proof (cases "iter_len it = 1")
          case True
          then show ?thesis using found_within_nothing [OF no] step False eq(2,3) by (simp add: reads_def)
        next
          case more: False
          have le: "1 \<le> iter_len it" using less.prems(3) by simp
          have "reads b1 (srch_buf_node b1 pos len str n (iter_skip 1 it)) (map_option ((+) (vstr_iter_pos it pos len)) (found_within (iter_len it) (find_sub ?ys ?xs)))"
            unfolding skip [OF le no]
            using more less.prems(2,3) at_iter_frame [OF at_iter_skip(1) [OF less.prems(1) le] eq(2,3)]
            by (intro less.hyps [where ptr = "drop 1 ptr"]) (simp_all add: iter_skip_def)
          then show ?thesis using step False more less.prems(3) reads_trans [OF eq(2)] by simp
        qed
      qed
    qed
  qed
qed

text \<open>A piece that cannot hold the first element of the pattern; a piece without bytes.\<close>

lemma piece_nth:
  assumes "iter_inv it" "i < iter_len it"
  shows "iter_rest it ! i = (case iter_ptr it of None \<Rightarrow> None | Some b \<Rightarrow> Some (b ! i))" "i < length (iter_rest it)"
proof -
  have "length (take (iter_len it) (iter_rest it)) = iter_len it"
    using iter_rest_take [OF assms(1), of "iter_len it"] by simp
  then show "i < length (iter_rest it)" using assms(2) by (simp add: min_def split: if_splits)
  then show "iter_rest it ! i = (case iter_ptr it of None \<Rightarrow> None | Some b \<Rightarrow> Some (b ! i))"
    using iter_rest_take [OF assms(1), of "iter_len it"] assms(2) first_byte(1) [OF assms(1) _ assms(2)]
    by (cases "iter_ptr it") (auto simp: buf_content_def dest!: arg_cong [where f = "\<lambda>xs. xs ! i"])
qed

lemma no_match_piece:
  assumes "iter_inv it" "ys \<noteq> []" "\<forall>i < iter_len it. f (iter_rest it ! i) \<noteq> hd ys"
  shows "\<forall>i < iter_len it. \<not> match_at (map f (iter_rest it)) i ys"
  using match_at_hd [of "map f (iter_rest it)" _ ys] assms piece_nth(2) [OF assms(1)] by fastforce

lemma match_non_start:
  assumes "take i xs = replicate i a" "match_at xs i (replicate n a)"
  shows "match_at xs 0 (replicate n a)"
proof -
  have "take (i + n) xs = replicate (i + n) a"
    using assms by (simp add: take_add match_at_def replicate_add)
  then have "take n (take (i + n) xs) = take n (replicate (i + n) a)" by simp
  then show ?thesis using assms(2) by (simp add: match_at_def min_def)
qed

lemma buf_content_hd:
  assumes "buf_holds buf n" "0 < n"
  shows "hd (buf_content buf n) = map_option hd buf"
proof (cases buf)
  case None
  then show ?thesis using assms(2) by (cases n) (simp_all add: buf_content_def)
next
  case (Some b)
  then have "take n b \<noteq> []" using assms by (auto simp: buf_holds_def)
  then show ?thesis using Some assms by (simp add: buf_content_def hd_map)
qed

lemma srch_buf_chunk_first:
  assumes "buf_holds str n" "0 < n" "at_iter base pos len it" "iter_len it \<noteq> 0" "n \<le> vstr_iter_len it"
  shows "reads base (srch_buf_chunk (str, n) base pos len it) (map_option ((+) (vstr_iter_pos it pos len))
    (found_within (iter_len it) (find_sub (buf_content str n) (iter_rest it))))"
proof -
  let ?ys = "buf_content str n" and ?xs = "iter_rest it"
  have inv: "iter_inv it" "vstr_inv base" using assms(3) by (simp_all add: at_iter_def in_range_def)
  have ys: "?ys \<noteq> []" using assms(1,2) buf_content_Nil by auto
  have skipped: "\<forall>i < iter_len it. \<not> match_at ?xs i ?ys" if "iter_ptr it = None \<longleftrightarrow> str \<noteq> None"
  proof -
    have "\<forall>i < iter_len it. ?xs ! i \<noteq> hd ?ys"
      using that piece_nth(1) [OF inv(1)] buf_content_hd [OF assms(1,2)] by (auto split: option.splits)
    then show ?thesis using no_match_piece [OF inv(1) ys, of "\<lambda>x. x"] by simp
  qed
  show ?thesis
  proof (cases "iter_ptr it = None \<longleftrightarrow> str \<noteq> None")
    case True
    then show ?thesis
      using skipped found_within_nothing inv(2) by (cases str) (auto simp: srch_buf_chunk_def reads_def)
  next
    case same: False
    show ?thesis
    proof (cases str)
      case (Some b)
      then obtain ptr where "iter_ptr it = Some ptr" using same by (cases "iter_ptr it") auto
      then show ?thesis
        using srch_buf_node_first [OF assms(3) _ assms(4), of ptr n b] assms(1,2) Some
        by (simp add: srch_buf_chunk_def buf_content_def buf_holds_def)
    next
      case None
      have le: "0 + n \<le> vstr_iter_len it" using assms(5) by simp
      note c = cmp_buf_reads [OF at_iter_range(1) [OF assms(3) le] assms(1)]
      have eq: "fst (vstr_cmp_buf base (vstr_iter_pos it pos len) n None n) = 0 \<longleftrightarrow> find_sub ?ys ?xs = Some 0"
        using c(1) at_iter_range(2) [OF assms(3) le] assms(1) None by (simp add: find_sub_0)
      have start: "match_at ?xs 0 ?ys" if "match_at ?xs i ?ys" "i < iter_len it" for i
        using that match_non_start [of i ?xs None n] iter_rest_take(1) [OF inv(1), of i] None same
        by (simp add: buf_content_def)
      have "find_sub ?ys ?xs \<noteq> Some 0 \<Longrightarrow> found_within (iter_len it) (find_sub ?ys ?xs) = None"
        using start found_within_nothing [of "iter_len it" ?xs ?ys] by (auto simp: find_sub_Some)
      then show ?thesis
        using eq c(2,3) None same assms(4) by (auto simp: srch_buf_chunk_def reads_def found_within_def split: prod.splits)
    qed
  qed
qed

interpretation exact: pattern_scan srch_buf_chunk "\<lambda>(str, n). buf_holds str n \<and> 0 < n" "\<lambda>(str, n). buf_content str n" "\<lambda>b. b"
  by unfold_locales (auto simp: buf_content_Nil intro: srch_buf_chunk_first)

lemma beg_at_iter:
  assumes "in_range base pos len" "0 < len"
  obtains it b1 where "vstr_iter_fwd_beg base pos len = (Some it, b1)" "same_but_cache base b1" "vstr_inv b1"
    "at_iter b1 pos len it" "iter_len it \<noteq> 0" "iter_rest it = range_data base pos len" "vstr_iter_len it = len" "vstr_iter_pos it pos len = pos"
  using assms(1)
proof (cases rule: fwd_beg_range)
  case (some it b')
  have l: "vstr_iter_len it = len" using iter_rest_length [OF some(3)] some(5) range_data_length [OF assms(1)] by simp
  have at: "at_iter b' pos len it"
    using some reads_frame [OF some(6,7)] assms(1) l by (simp add: at_iter_def)
  show ?thesis using that [OF some(2,6,7) at some(4,5) l] at_iter_pos [OF at] l by simp
qed (use assms(2) in simp)

text \<open>\<^verbatim>\<open>vstr_srch_buf_fwd()\<close> finds the first match.\<close>

lemma no_non_match:
  assumes "in_range base pos len" "\<not> node_non_used base" "0 < n"
  shows "find_sub (replicate n None) (range_data base pos len) = None"
proof -
  have "None \<in> set xs" if "match_at xs i (replicate n None)" for i and xs :: content
    using match_at_hd [OF that] assms(3) nth_mem [of i xs] by simp
  then show ?thesis using no_non_range [OF assms(1,2)] by (auto simp: find_sub_None)
qed

lemma find_sub_single: "find_sub [y] xs = index_of (\<lambda>x. x = y) xs"
proof -
  have m: "match_at xs i [y] \<longleftrightarrow> i < length xs \<and> xs ! i = y" for i
    by (cases "i < length xs") (auto simp: match_at_def Cons_nth_drop_Suc [symmetric])
  show ?thesis
  proof (cases "find_sub [y] xs")
    case None
    then show ?thesis using index_of_None [of "\<lambda>x. x = y" xs] by (auto simp: find_sub_None m in_set_conv_nth)
  next
    case (Some i)
    then show ?thesis using index_of_Some [of "\<lambda>x. x = y" xs i] by (auto simp: find_sub_Some m)
  qed
qed

lemma srch_buf_fwd_reads:
  assumes "in_range base pos len" "buf_holds str n"
  shows "reads base (vstr_srch_buf_fwd base pos len str n)
    (if len = 0 then 0 else found_at pos (find_sub (buf_content str n) (range_data base pos len)))"
proof (cases "len = 0 \<or> n > len \<or> n = 0 \<or> str = None \<and> \<not> node_non_used base \<or> str \<noteq> None \<and> n = 1")
  case True
  have inv: "vstr_inv base" using assms(1) by (simp add: in_range_def)
  have "find_sub (buf_content str n) (range_data base pos len) = None" if "n > len"
    using that assms(2) range_data_length [OF assms(1)] by (simp add: find_sub_short)
  moreover have "find_sub (buf_content str 0) (range_data base pos len) = Some 0"
    by (simp add: find_sub_0 buf_content_def split: option.split)
  moreover have "buf_content str 1 = [Some (hd (the str))]" if "n = 1" "str \<noteq> None"
    using that assms(2) by (cases "the str") (auto simp: buf_content_def buf_holds_def)
  ultimately show ?thesis
    using True inv no_non_match [OF assms(1)] srch_chr_fwd_eq [OF assms(1), of "hd (the str)"]
    by (auto simp: vstr_srch_buf_fwd_def reads_def found_at_def find_sub_single buf_content_def)
next
  case False
  then have ok: "0 < len" "buf_holds str n \<and> 0 < n" "n \<le> len" using assms(2) by auto
  obtain it b1 where it: "vstr_iter_fwd_beg base pos len = (Some it, b1)" "same_but_cache base b1" "vstr_inv b1"
    "at_iter b1 pos len it" "iter_len it \<noteq> 0" "iter_rest it = range_data base pos len" "vstr_iter_len it = len" "vstr_iter_pos it pos len = pos"
    using beg_at_iter [OF assms(1) ok(1)] .
  have "reads b1 (srch_chunks (srch_buf_chunk (str, n)) b1 pos len n it) (found_at pos (find_sub (buf_content str n) (range_data base pos len)))"
    using exact.chunks_first [of "(str, n)", OF _ it(4,5)] ok it(6-8) by simp
  moreover have "vstr_srch_buf_fwd base pos len str n = srch_chunks (srch_buf_chunk (str, n)) b1 pos len n it"
    using False it(1) by (auto simp: vstr_srch_buf_fwd_def)
  ultimately show ?thesis using reads_trans [OF it(2)] ok(1) by simp
qed

section \<open>The backward searches\<close>

text \<open>The last place where a list occurs in another one.\<close>

definition rfind_sub :: "'a list \<Rightarrow> 'a list \<Rightarrow> nat option" where
  "rfind_sub ys xs = map_option (\<lambda>j. length xs - length ys - j) (find_sub (rev ys) (rev xs))"

lemma match_at_rev:
  assumes "j + length ys \<le> length xs"
  shows "match_at (rev xs) j (rev ys) \<longleftrightarrow> match_at xs (length xs - length ys - j) ys"
proof -
  let ?n = "length ys" and ?L = "length xs"
  have "take ?n (drop j (rev xs)) = rev (drop (?L - j - ?n) (take (?L - j) xs))"
    using assms by (simp add: drop_rev take_rev min_absorb1)
  moreover have "drop (?L - j - ?n) (take (?L - j) xs) = take ?n (drop (?L - ?n - j) xs)"
    using assms by (simp add: drop_take add.commute)
  ultimately show ?thesis using assms by (auto simp: match_at_def)
qed

lemma rfind_sub_Some: "rfind_sub ys xs = Some i \<longleftrightarrow> match_at xs i ys \<and> (\<forall>k > i. \<not> match_at xs k ys)"
proof -
  let ?n = "length ys" and ?L = "length xs"
  have m: "match_at xs k ys \<longleftrightarrow> k + ?n \<le> ?L \<and> match_at (rev xs) (?L - ?n - k) (rev ys)" for k
    using match_at_rev [of "?L - ?n - k" ys xs] by (cases "k + ?n \<le> ?L") (auto simp: match_at_def)
  have r: "match_at (rev xs) j (rev ys) \<Longrightarrow> j + ?n \<le> ?L" for j by (simp add: match_at_def)
  show ?thesis
  proof
    assume "rfind_sub ys xs = Some i"
    then obtain j where j: "i = ?L - ?n - j" "match_at (rev xs) j (rev ys)" "\<forall>k < j. \<not> match_at (rev xs) k (rev ys)"
      by (auto simp: rfind_sub_def find_sub_Some)
    have "\<not> match_at xs k ys" if "k > i" for k
    proof
      assume mk: "match_at xs k ys"
      then have "?L - ?n - k < j" using that j(1) r [OF j(2)] m [of k] by auto
      then show False using mk j(3) m [of k] by simp
    qed
    then show "match_at xs i ys \<and> (\<forall>k > i. \<not> match_at xs k ys)" using j(1,2) r [OF j(2)] m [of i] by auto
  next
    assume a: "match_at xs i ys \<and> (\<forall>k > i. \<not> match_at xs k ys)"
    let ?j = "?L - ?n - i"
    have "\<not> match_at (rev xs) k (rev ys)" if "k < ?j" for k
    proof
      assume mk: "match_at (rev xs) k (rev ys)"
      have "?L - ?n - k > i" using that by linarith
      then show False using a mk m [of "?L - ?n - k"] r [OF mk] by auto
    qed
    then have "find_sub (rev ys) (rev xs) = Some ?j" using a m [of i] by (simp add: find_sub_Some)
    then show "rfind_sub ys xs = Some i" using a by (simp add: rfind_sub_def match_at_def)
  qed
qed

lemma rfind_sub_None: "rfind_sub ys xs = None \<longleftrightarrow> (\<forall>k. \<not> match_at xs k ys)"
proof
  assume "rfind_sub ys xs = None"
  then have no: "\<forall>k. \<not> match_at (rev xs) k (rev ys)" by (simp add: rfind_sub_def find_sub_None)
  have "\<not> match_at xs k ys" for k
    using no match_at_rev [of "length xs - length ys - k" ys xs] by (cases "k + length ys \<le> length xs") (auto simp: match_at_def)
  then show "\<forall>k. \<not> match_at xs k ys" by simp
next
  assume a: "\<forall>k. \<not> match_at xs k ys"
  have "rfind_sub ys xs \<noteq> Some i" for i using a rfind_sub_Some [of ys xs i] by blast
  then show "rfind_sub ys xs = None" by (metis not_None_eq)
qed

lemma rfind_sub_step:
  assumes "match_at xs i ys" "Suc i \<le> length xs"
  shows "rfind_sub ys xs = Some (case rfind_sub ys (drop (Suc i) xs) of None \<Rightarrow> i | Some k \<Rightarrow> Suc i + k)"
proof (cases "rfind_sub ys (drop (Suc i) xs)")
  case None
  then have "\<not> match_at xs k ys" if "k > i" for k
    using that match_at_drop [OF assms(2), of "k - Suc i" ys] by (simp add: rfind_sub_None)
  then show ?thesis using None assms(1) by (simp add: rfind_sub_Some)
next
  case (Some k)
  then have k: "match_at xs (Suc i + k) ys" "\<forall>l > k. \<not> match_at xs (Suc i + l) ys"
    using match_at_drop [OF assms(2)] by (auto simp: rfind_sub_Some)
  have "\<not> match_at xs l ys" if "l > Suc i + k" for l
    using that k(2) [rule_format, of "l - Suc i"] by simp
  then have "rfind_sub ys xs = Some (Suc i + k)" using k(1) unfolding rfind_sub_Some by blast
  then show ?thesis using Some by simp
qed

text \<open>What the slow backward searches need of the forward search they repeat.\<close>

locale fwd_search =
  fixes fwd :: "'p \<Rightarrow> vstr_base \<Rightarrow> nat \<Rightarrow> nat \<Rightarrow> nat \<times> vstr_base"
    and valid :: "'p \<Rightarrow> bool" and pat :: "'p \<Rightarrow> content" and key :: "byte \<Rightarrow> byte"
  assumes nonempty: "valid p \<Longrightarrow> pat p \<noteq> []"
    and fwd_first: "valid p \<Longrightarrow> in_range base pos len \<Longrightarrow> 0 < len \<Longrightarrow>
      reads base (fwd p base pos len) (found_at pos (find_sub (key_content key (pat p)) (key_content key (range_data base pos len))))"
begin

lemma rev_slow_last:
  assumes "valid p" "in_range base pos len" "pos \<le> sp" "sp \<le> pos + len"
    and "\<And>q. q + length (pat p) \<le> pos + len \<Longrightarrow> go q"
  shows "\<exists>b1. srch_rev_slow (fwd p) go base pos len (length (pat p)) sp (pos + len - sp) ret =
      Some (case rfind_sub (key_content key (pat p)) (key_content key (drop (sp - pos) (range_data base pos len))) of
              None \<Rightarrow> ret | Some i \<Rightarrow> sp + i, b1) \<and> same_but_cache base b1 \<and> vstr_inv b1"
  using assms(2-4)
proof (induction "pos + len - sp" arbitrary: base sp ret rule: less_induct)
  case less
  let ?ys = "key_content key (pat p)"
  define xs where "xs = key_content key (drop (sp - pos) (range_data base pos len))"
  have ne: "0 < length (pat p)" using nonempty [OF assms(1)] by simp
  have lx: "length xs = pos + len - sp" using range_data_length [OF less.prems(1)] less.prems(2,3) by (simp add: xs_def)
  have inv: "vstr_inv base" using less.prems(1) by (simp add: in_range_def)
  show ?case unfolding xs_def [symmetric]
  proof (cases "length (pat p) \<le> pos + len - sp")
    case False
    then have "rfind_sub ?ys xs = None" using lx by (auto simp: rfind_sub_None match_at_def)
    then show "\<exists>b1. srch_rev_slow (fwd p) go base pos len (length (pat p)) sp (pos + len - sp) ret =
      Some (case rfind_sub ?ys xs of None \<Rightarrow> ret | Some i \<Rightarrow> sp + i, b1) \<and> same_but_cache base b1 \<and> vstr_inv b1"
      using False inv by (simp add: srch_rev_slow.simps [of _ _ base])
  next
    case True
    have rng: "in_range base sp (pos + len - sp)" using less.prems by (auto simp: in_range_def)
    have R: "range_data base sp (pos + len - sp) = drop (sp - pos) (range_data base pos len)"
      using less.prems by (simp add: drop_take in_range_def add.commute)
    obtain tmp b1 where f: "fwd p base sp (pos + len - sp) = (tmp, b1)" by (cases "fwd p base sp (pos + len - sp)")
    have g: "go sp" using assms(5) True less.prems ne by simp
    have t: "tmp = found_at sp (find_sub ?ys xs)" "same_but_cache base b1" "vstr_inv b1"
      using fwd_first [OF assms(1) rng less_le_trans [OF ne True], unfolded R, folded xs_def] f by (simp_all add: reads_def)
    have step: "srch_rev_slow (fwd p) go base pos len (length (pat p)) sp (pos + len - sp) ret =
        (if tmp = 0 then Some (ret, b1)
         else srch_rev_slow (fwd p) go b1 pos len (length (pat p)) (tmp + 1) (len - (tmp - pos + 1)) tmp)"
      using g True f by (simp add: srch_rev_slow.simps [of _ _ base])
    show "\<exists>b1. srch_rev_slow (fwd p) go base pos len (length (pat p)) sp (pos + len - sp) ret =
      Some (case rfind_sub ?ys xs of None \<Rightarrow> ret | Some i \<Rightarrow> sp + i, b1) \<and> same_but_cache base b1 \<and> vstr_inv b1"
    proof (cases "find_sub ?ys xs")
      case None
      then have "rfind_sub ?ys xs = None" by (simp add: find_sub_None rfind_sub_None)
      then show ?thesis using step t None by (simp add: found_at_def)
    next
      case (Some i)
      then have m: "match_at xs i ?ys" by (simp add: find_sub_Some)
      then have i: "Suc i \<le> length xs" using ne unfolding match_at_def by (metis Suc_leI add_leD1 le_neq_implies_less length_map less_add_same_cancel1 not_le)
      have tmp: "tmp = sp + i" "tmp \<noteq> 0" using t(1) Some less.prems(1,2) by (auto simp: found_at_def in_range_def)
      have e: "len - (tmp - pos + 1) = pos + len - (tmp + 1)" "tmp + 1 - pos = Suc i + (sp - pos)"
        using tmp(1) less.prems(2) by simp_all
      note rf = reads_frame [OF t(2,3)]
      have d: "key_content key (drop (tmp + 1 - pos) (range_data b1 pos len)) = drop (Suc i) xs"
        unfolding e(2) rf(2) xs_def by (simp add: drop_map)
      have "\<exists>b2. srch_rev_slow (fwd p) go b1 pos len (length (pat p)) (tmp + 1) (pos + len - (tmp + 1)) tmp =
          Some (case rfind_sub ?ys (key_content key (drop (tmp + 1 - pos) (range_data b1 pos len))) of
                  None \<Rightarrow> tmp | Some i \<Rightarrow> tmp + 1 + i, b2) \<and> same_but_cache b1 b2 \<and> vstr_inv b2"
        using i lx tmp less.prems rf(1) by (intro less.hyps) auto
      then obtain b2 where b2: "srch_rev_slow (fwd p) go b1 pos len (length (pat p)) (tmp + 1) (pos + len - (tmp + 1)) tmp =
          Some (case rfind_sub ?ys (drop (Suc i) xs) of None \<Rightarrow> tmp | Some i \<Rightarrow> tmp + 1 + i, b2)" "same_but_cache b1 b2" "vstr_inv b2"
        unfolding d by blast
      then show ?thesis
        using step tmp rfind_sub_step [OF m i] same_but_cache_trans [OF t(2)] e(1) by (auto split: option.split)
    qed
  qed
qed

end

interpretation buf_rev: fwd_search "\<lambda>(str, n) base pos len. vstr_srch_buf_fwd base pos len str n"
    "\<lambda>(str, n). buf_holds str n \<and> 0 < n" "\<lambda>(str, n). buf_content str n" "\<lambda>b. b"
  by unfold_locales (auto simp: buf_content_Nil dest: srch_buf_fwd_reads)

end
