(* ===== verification/Vstr_Srch_Rev.thy ===== *)
theory Vstr_Srch_Rev
  imports Vstr_Srch
begin

text \<open>
  The search for the last match of a buffer. The walk from the end through the iovec array and the repeated forward search both
  give the position of the last match; and the search for a range of another string.
\<close>

section \<open>The backward search through the iovec array\<close>

lemma rev_shorter:
  assumes "rev_inv base s" "k \<le> rs_slen s"
  shows "rev_inv base (s\<lparr>rs_slen := k\<rparr>)" "rev_rest base (s\<lparr>rs_slen := k\<rparr>) = drop (rs_slen s - k) (rev_rest base s)"
proof -
  have h: "buf_holds (rs_str s) (rs_slen s)" using assms(1) by (simp add: rev_inv_def)
  then have "buf_holds (rs_str s) k" using assms(2) by (auto simp: buf_holds_def split: option.splits)
  then show "rev_inv base (s\<lparr>rs_slen := k\<rparr>)" using assms(1) by (simp add: rev_inv_def)
  have "drop (rs_slen s - k) (rev (buf_content (rs_str s) (rs_slen s))) = rev (buf_content (rs_str s) k)"
    using buf_content_length [OF h] assms(2) by (simp add: drop_rev buf_content_take)
  then show "rev_rest base (s\<lparr>rs_slen := k\<rparr>) = drop (rs_slen s - k) (rev_rest base s)"
    using buf_content_length [OF h] by (simp add: rev_rest_def rev_chunk_def)
qed

lemma rev_rest_length: "rev_inv base s \<Longrightarrow> length (rev_rest base s) = rs_len s + rs_slen s"
  using rev_chunk_content(2) [of base s] by (auto simp: rev_rest_def rev_inv_def)

lemma rev_take:
  assumes "rev_inv base s" "rs_str s = Some scan" "k \<le> rs_slen s"
  shows "take k (rev_rest base s) = rev (map Some (take k (drop (rs_slen s - k) scan)))" "rs_slen s \<le> length scan"
proof -
  show le: "rs_slen s \<le> length scan" using assms(1,2) by (simp add: rev_inv_def buf_holds_def)
  show "take k (rev_rest base s) = rev (map Some (take k (drop (rs_slen s - k) scan)))"
    using assms(2,3) le by (simp add: rev_rest_def rev_chunk_def buf_content_def take_rev drop_map drop_take)
qed

lemma rev_move:
  assumes "rev_inv base s" "rs_slen s = 0" "rs_len s \<noteq> 0"
  obtains s' where "vstr__base_scan_rev_nxt base s = (True, s')" "rev_inv base s'" "rev_rest base s' = rev_rest base s" "rs_slen s' \<noteq> 0"
proof -
  have c: "rev_chunk s = []" using rev_chunk_content(2) [OF assms(1)] assms(2) by simp
  have "rev_rest base s \<noteq> []" using rev_rest_length [OF assms(1)] assms(3) by auto
  then obtain s' where s': "rev_next base s = Some s'" using bwd.last_chunk [OF assms(1)] c by (cases "rev_next base s") auto
  then have "rev_inv base s'" "rev_rest base s = rev_rest base s'" "rev_chunk s' \<noteq> []" using bwd.next_chunk [OF assms(1) s'] c by auto
  moreover have "vstr__base_scan_rev_nxt base s = (True, s')" using s' by (auto simp: rev_next_def split: prod.splits bool.splits)
  moreover have "rs_slen s' \<noteq> 0" using calculation rev_chunk_content(2) [of base s'] by (metis length_0_conv)
  ultimately show ?thesis using that by metis
qed

lemma cmp_eq_rev_loop_eq:
  assumes "rev_inv base s" "n \<le> length str" "n \<le> rs_len s + rs_slen s" "rs_slen s \<noteq> 0"
  shows "cmp_eq_rev_loop base s str n \<longleftrightarrow> take n (rev_rest base s) = rev (map Some (take n str))"
  using assms
proof (induction n arbitrary: s rule: less_induct)
  case (less n)
  show ?case
  proof (cases "n = 0")
    case True
    then show ?thesis by (simp add: cmp_eq_rev_loop.simps)
  next
    case n: False
    show ?thesis
    proof (cases "rs_str s")
      case None
      have "take n (rev_rest base s) ! 0 = None"
        using n less.prems(4) None by (simp add: rev_rest_def rev_chunk_def buf_content_def nth_append)
      moreover have "rev (map Some (take n str)) ! 0 \<noteq> None" using n less.prems(2) by (simp add: rev_nth)
      ultimately have "take n (rev_rest base s) \<noteq> rev (map Some (take n str))" by metis
      then show ?thesis using n None by (simp add: cmp_eq_rev_loop.simps)
    next
      case (Some scan)
      define t where "t = (if rs_slen s > n then n else rs_slen s)"
      have t: "t \<le> n" "t \<le> rs_slen s" "t \<noteq> 0" using n less.prems(4) by (auto simp: t_def)
      note rt = rev_take [OF less.prems(1) Some t(2)]
      have "sgn (vstr_wrap_memcmp (drop (n - t) str) (drop (rs_slen s - t) scan) t) =
          cmp_sign (map Some (take t (drop (n - t) str))) (map Some (take t (drop (rs_slen s - t) scan)))"
        using plain.cmp_sgn [of t "drop (n - t) str" "drop (rs_slen s - t) scan"] t rt(2) less.prems(2) by simp
      then have m: "vstr_wrap_memcmp (drop (n - t) str) (drop (rs_slen s - t) scan) t = 0 \<longleftrightarrow>
          take t (drop (n - t) str) = take t (drop (rs_slen s - t) scan)"
        by (metis cmp_sign_zero(1) inj_Some inj_map_eq_map sgn_0_0)
      define s1 where "s1 = s\<lparr>rs_slen := rs_slen s - t\<rparr>"
      have s1: "rev_inv base s1" "rev_rest base s1 = drop t (rev_rest base s)" "rs_len s1 = rs_len s"
        using rev_shorter [OF less.prems(1), of "rs_slen s - t"] t(2) by (simp_all add: s1_def)
      have ys: "take t (rev (map Some (take n str))) = rev (map Some (take t (drop (n - t) str)))"
        "drop t (rev (map Some (take n str))) = rev (map Some (take (n - t) str))"
        using t(1) less.prems(2) by (simp_all add: take_rev drop_rev drop_map take_map drop_take min_absorb1)
      have "take n (rev_rest base s) = rev (map Some (take n str)) \<longleftrightarrow>
          take n (rev_rest base s) = take n (rev (map Some (take n str)))" using less.prems(2) by simp
      also have "\<dots> \<longleftrightarrow> take t (drop (n - t) str) = take t (drop (rs_slen s - t) scan) \<and>
          take (n - t) (rev_rest base s1) = rev (map Some (take (n - t) str))"
        unfolding take_eq_split [OF t(1)] rt(1) ys s1(2) using less.prems(2) by (auto simp: min_absorb1 inj_map_eq_map)
      finally have split: "take n (rev_rest base s) = rev (map Some (take n str)) \<longleftrightarrow>
          take t (drop (n - t) str) = take t (drop (rs_slen s - t) scan) \<and>
          take (n - t) (rev_rest base s1) = rev (map Some (take (n - t) str))" .
      have step: "cmp_eq_rev_loop base s str n \<longleftrightarrow> take t (drop (n - t) str) = take t (drop (rs_slen s - t) scan) \<and>
          (if rs_slen s - t \<noteq> 0 then cmp_eq_rev_loop base s1 str (n - t)
           else cmp_eq_rev_loop base (snd (vstr__base_scan_rev_nxt base s1)) str (n - t))"
        using n Some m t(3) by (subst cmp_eq_rev_loop.simps) (simp add: t_def [symmetric] s1_def Let_def)
      have tail: "(if rs_slen s - t \<noteq> 0 then cmp_eq_rev_loop base s1 str (n - t)
           else cmp_eq_rev_loop base (snd (vstr__base_scan_rev_nxt base s1)) str (n - t)) \<longleftrightarrow>
          take (n - t) (rev_rest base s1) = rev (map Some (take (n - t) str))"
      proof (cases "n - t = 0 \<or> rs_slen s - t \<noteq> 0")
        case True
        then show ?thesis
          using less.IH [of "n - t" s1] s1 t less.prems(2,3) n by (auto simp: cmp_eq_rev_loop.simps s1_def)
      next
        case False
        then have z: "rs_slen s1 = 0" "rs_len s1 \<noteq> 0" using less.prems(3) t by (simp_all add: s1_def)
        obtain s' where s': "vstr__base_scan_rev_nxt base s1 = (True, s')" "rev_inv base s'" "rev_rest base s' = rev_rest base s1" "rs_slen s' \<noteq> 0"
          using rev_move [OF s1(1) z] .
        have "length (rev_rest base s') = rs_len s" using rev_rest_length [OF s1(1)] s'(3) z s1(3) by simp
        then show ?thesis
          using less.IH [of "n - t" s'] s' t less.prems(2,3) n False rev_rest_length [OF s'(2)] by simp
      qed
      show ?thesis unfolding step tail split ..
    qed
  qed
qed

lemma cmp_eq_rev_non_loop_eq:
  assumes "rev_inv base s" "n \<le> rs_len s + rs_slen s" "rs_slen s \<noteq> 0" "0 < n"
  shows "cmp_eq_rev_non_loop base s n \<longleftrightarrow> take n (rev_rest base s) = replicate n None"
  using assms
proof (induction "rs_num s" arbitrary: s n rule: less_induct)
  case less
  show ?case
  proof (cases "rs_str s")
    case (Some b)
    have "take n (rev_rest base s) ! 0 \<noteq> None"
      using rev_take [OF less.prems(1) Some, of 1] less.prems(3,4)
      by (cases "rev_rest base s"; cases "drop (rs_slen s - 1) b"; simp)
    then have "take n (rev_rest base s) \<noteq> replicate n None" using less.prems(4) by (metis nth_replicate)
    then show ?thesis using Some by (simp add: cmp_eq_rev_non_loop.simps)
  next
    case None
    have c: "rev_chunk s = replicate (rs_slen s) None" using None by (simp add: rev_chunk_def buf_content_def)
    show ?thesis
    proof (cases "n \<le> rs_slen s")
      case True
      then show ?thesis using None c by (simp add: cmp_eq_rev_non_loop.simps rev_rest_def)
    next
      case False
      have "length (rev_rest base s) \<noteq> length (rev_chunk s)" using False less.prems(2) rev_rest_length [OF less.prems(1)] c by simp
      then obtain s' where s': "rev_next base s = Some s'" using bwd.last_chunk [OF less.prems(1)] by (cases "rev_next base s") auto
      have nx: "rev_inv base s'" "rev_rest base s = rev_chunk s @ rev_rest base s'" "rev_chunk s' \<noteq> []" "rs_num s' < rs_num s"
        using bwd.next_chunk [OF less.prems(1) s'] bwd.next_less [OF s'] by auto
      have l: "rs_slen s' \<noteq> 0" using nx(3) rev_chunk_content(2) [OF nx(1)] by (metis length_0_conv)
      have l': "rs_len s' + rs_slen s' = rs_len s"
        using nx(2) rev_rest_length [OF nx(1)] rev_rest_length [OF less.prems(1)] c by simp
      have step: "cmp_eq_rev_non_loop base s n = cmp_eq_rev_non_loop base s' (n - rs_slen s)"
        using None False by (subst cmp_eq_rev_non_loop.simps) (simp add: rev_nxt_option s')
      have "cmp_eq_rev_non_loop base s' (n - rs_slen s) \<longleftrightarrow> take (n - rs_slen s) (rev_rest base s') = replicate (n - rs_slen s) None"
        using nx l l' False less.prems(2) by (intro less.hyps) auto
      moreover have "replicate n (None :: byte option) = replicate (rs_slen s) None @ replicate (n - rs_slen s) None"
        using False by (simp flip: replicate_add)
      ultimately show ?thesis using False unfolding step nx(2) c by simp
    qed
  qed
qed

text \<open>The place in a piece, counted from its end, is the place of a match in the reversed range.\<close>

lemma cmp_eq_rev_at:
  assumes "rev_inv base s" "n \<le> length str" "0 < n" "j < rs_slen s"
  shows "vstr__cmp_eq_rev_buf base (s\<lparr>rs_slen := rs_slen s - j\<rparr>) str n \<longleftrightarrow> match_at (rev_rest base s) j (rev (map Some (take n str)))"
proof -
  let ?s = "s\<lparr>rs_slen := rs_slen s - j\<rparr>"
  have r: "rev_inv base ?s" "rev_rest base ?s = drop j (rev_rest base s)"
    using rev_shorter [OF assms(1), of "rs_slen s - j"] assms(4) by simp_all
  have l: "length (rev_rest base s) = rs_len s + rs_slen s" by (rule rev_rest_length [OF assms(1)])
  show ?thesis
  proof (cases "n > rs_len s + (rs_slen s - j)")
    case True
    then show ?thesis using l assms(2-4) by (auto simp: vstr__cmp_eq_rev_buf_def match_at_def)
  next
    case False
    then have "cmp_eq_rev_loop base ?s str n \<longleftrightarrow> take n (drop j (rev_rest base s)) = rev (map Some (take n str))"
      using cmp_eq_rev_loop_eq [OF r(1) assms(2)] assms(4) r(2) by simp
    moreover have "j + n \<le> rs_len s + rs_slen s" using False assms(4) by linarith
    ultimately show ?thesis using False l assms(2,4) by (simp add: vstr__cmp_eq_rev_buf_def match_at_def)
  qed
qed

lemma rev_nth_byte:
  assumes "rev_inv base s" "rs_str s = Some scan" "j < rs_slen s"
  shows "rev_rest base s ! j = Some (scan ! (rs_slen s - 1 - j))"
proof -
  have "rs_slen s \<le> length scan" using assms(1,2) by (simp add: rev_inv_def buf_holds_def)
  then show ?thesis using assms(2,3) by (simp add: rev_rest_def rev_chunk_def buf_content_def nth_append rev_nth)
qed

lemma memrchr_sint:
  fixes c :: byte
  assumes "n \<le> length s"
  shows "memrchr s (sint c) n = None \<longleftrightarrow> (\<forall>i < n. s ! i \<noteq> c)"
    "memrchr s (sint c) n = Some i \<Longrightarrow> i < n \<and> s ! i = c \<and> (\<forall>k. i < k \<and> k < n \<longrightarrow> s ! k \<noteq> c)"
proof -
  show "memrchr s (sint c) n = None \<longleftrightarrow> (\<forall>i < n. s ! i \<noteq> c)"
    using assms by (auto simp: memrchr_def index_of_None in_set_conv_nth)
  assume "memrchr s (sint c) n = Some i"
  then obtain j where j: "i = n - 1 - j" "index_of (\<lambda>b. b = c) (rev (take n s)) = Some j" by (auto simp: memrchr_def)
  then have b: "j < n" "s ! (n - 1 - j) = c" "\<And>k. k < j \<Longrightarrow> s ! (n - 1 - k) \<noteq> c"
    using assms by (auto simp: index_of_Some rev_nth)
  have "s ! k \<noteq> c" if "i < k" "k < n" for k using b(3) [of "n - 1 - k"] that j(1) by simp
  then show "i < n \<and> s ! i = c \<and> (\<forall>k. i < k \<and> k < n \<longrightarrow> s ! k \<noteq> c)" using b j(1) by auto
qed

lemma srch_rev_node_eq:
  assumes "rev_inv base s" "rs_str s = Some scan" "n \<le> length str" "0 < n" "cnt \<le> rs_slen s"
    and "\<forall>j < cnt. \<not> match_at (rev_rest base s) j (rev (map Some (take n str)))"
  shows "srch_rev_node base pos s str n cnt =
    map_option (\<lambda>j. pos + (rs_len s + rs_slen s - j) - n) (found_within (rs_slen s) (find_sub (rev (map Some (take n str))) (rev_rest base s)))"
  using assms(5,6)
proof (induction "rs_slen s - cnt" arbitrary: cnt rule: less_induct)
  case less
  let ?ys = "rev (map Some (take n str))" and ?xs = "rev_rest base s" and ?e = "str ! (n - 1)"
  have slen: "rs_slen s \<le> length scan" using assms(1,2) by (simp add: rev_inv_def buf_holds_def)
  have ne: "take n str \<noteq> []" using assms(3,4) by auto
  then have ys: "?ys \<noteq> []" "hd ?ys = Some ?e" using assms(3,4) by (auto simp: hd_rev last_map last_conv_nth min_absorb2)
  have hit: "scan ! (rs_slen s - 1 - j) = ?e" if "match_at ?xs j ?ys" "j < rs_slen s" for j
    using match_at_hd [OF that(1) ys(1)] ys(2) rev_nth_byte [OF assms(1,2) that(2)] by simp
  show ?case
  proof (cases "cnt < rs_slen s")
    case False
    then show ?thesis using less.prems found_within_nothing [of "rs_slen s" ?xs ?ys] by (simp add: srch_rev_node.simps)
  next
    case True
    define rst where "rst = rs_slen s - (cnt + 1)"
    define hits where "hits = (if scan ! rst \<noteq> ?e then
        map_option (\<lambda>som. cnt + 1 + (rst - som)) (if rst = 0 then None else memrchr scan (sint ?e) rst) else Some (cnt + 1))"
    have step: "srch_rev_node base pos s str n cnt =
      (case hits of None \<Rightarrow> srch_rev_node base pos s str n (cnt + 1)
       | Some c \<Rightarrow> if vstr__cmp_eq_rev_buf base (s\<lparr>rs_slen := rs_slen s - c + 1\<rparr>) str n
                   then Some (pos + rs_len s + (rs_slen s - c + 1) - n) else srch_rev_node base pos s str n c)"
      using True assms(2) by (subst srch_rev_node.simps) (simp add: hits_def rst_def Let_def split: option.split)
    have rst: "rst = rs_slen s - 1 - cnt" "rst \<le> length scan" using slen by (simp_all add: rst_def)
    show ?thesis
    proof (cases hits)
      case None
      then have "scan ! rst \<noteq> ?e" by (auto simp: hits_def split: if_splits)
      then have "\<forall>j < cnt + 1. \<not> match_at ?xs j ?ys" using less.prems(2) hit [of cnt] True rst(1) by (auto simp: less_Suc_eq)
      then show ?thesis using None step less.hyps [of "cnt + 1"] True by simp
    next
      case (Some c)
      have c: "cnt < c \<and> c \<le> rs_slen s \<and> (\<forall>j < c - 1. \<not> match_at ?xs j ?ys)"
      proof (cases "scan ! rst = ?e")
        case eq: True
        then show ?thesis using Some less.prems(2) True by (auto simp: hits_def)
      next
        case ne: False
        then obtain som where som: "memrchr scan (sint ?e) rst = Some som" "c = cnt + 1 + (rst - som)"
          using Some by (auto simp: hits_def split: if_splits)
        note ms = memrchr_sint(2) [OF rst(2) som(1)]
        have "\<not> match_at ?xs j ?ys" if "j < c - 1" for j
        proof (cases "j < cnt")
          case False
          have b: "j < rs_slen s" "rs_slen s - 1 - j = rst - (j - cnt)" using that False som(2) ms True rst(1) by auto
          have "scan ! (rst - (j - cnt)) \<noteq> ?e"
          proof (cases "j = cnt")
            case False
            then have "som < rst - (j - cnt)" "rst - (j - cnt) < rst" using ms that som(2) \<open>\<not> j < cnt\<close> by linarith+
            then show ?thesis using ms by blast
          qed (use ne in simp)
          then show ?thesis using hit [of j] b by auto
        qed (simp add: less.prems(2))
        then show ?thesis using som(2) ms True rst(1) by auto
      qed
      have e: "rs_slen s - c + 1 = rs_slen s - (c - 1)" using c by linarith
      have m: "vstr__cmp_eq_rev_buf base (s\<lparr>rs_slen := rs_slen s - c + 1\<rparr>) str n \<longleftrightarrow> match_at ?xs (c - 1) ?ys"
        unfolding e using c by (intro cmp_eq_rev_at [OF assms(1,3,4)]) linarith
      show ?thesis
      proof (cases "match_at ?xs (c - 1) ?ys")
        case True
        then have "find_sub ?ys ?xs = Some (c - 1)" using c by (simp add: find_sub_Some)
        moreover have "c - 1 < rs_slen s" "0 < c" using c by linarith+
        ultimately show ?thesis using True Some step m c by (simp add: found_within_def add.assoc)
      next
        case False
        then have "\<forall>j < c. \<not> match_at ?xs j ?ys" using c by (metis Suc_pred gr0I less_Suc_eq less_nat_zero_code One_nat_def)
        then show ?thesis using Some step m False less.hyps [of c] c True by auto
      qed
    qed
  qed
qed

lemma rev_piece_nth:
  assumes "rev_inv base s" "j < rs_slen s"
  shows "rev_rest base s ! j = map_option (\<lambda>b. b ! (rs_slen s - 1 - j)) (rs_str s)"
  using rev_nth_byte [OF assms(1) _ assms(2)] assms
  by (cases "rs_str s") (simp_all add: rev_rest_def rev_chunk_def buf_content_def nth_append)

definition rev_piece :: "vstr_base \<Rightarrow> nat \<Rightarrow> rev_scan \<Rightarrow> byte list option \<Rightarrow> nat \<Rightarrow> nat option" where
  "rev_piece base pos s str n =
     (case str of
        None \<Rightarrow> if rs_str s = None \<and> vstr__cmp_eq_rev_non base s n then Some ((pos + rs_len s + rs_slen s) - n) else None
      | Some b \<Rightarrow> if rs_str s = None then None else srch_rev_node base pos s b n 0)"

lemma buf_content_last:
  assumes "buf_holds buf n" "0 < n"
  shows "rev (buf_content buf n) \<noteq> []" "hd (rev (buf_content buf n)) = map_option (\<lambda>b. b ! (n - 1)) buf"
proof -
  show ne: "rev (buf_content buf n) \<noteq> []" using assms buf_content_Nil by auto
  show "hd (rev (buf_content buf n)) = map_option (\<lambda>b. b ! (n - 1)) buf"
    using ne assms buf_content_length [OF assms(1)]
    by (cases buf) (auto simp: hd_rev last_conv_nth buf_content_def buf_holds_def)
qed

lemma rev_piece_eq:
  assumes "rev_inv base s" "rs_slen s \<noteq> 0" "buf_holds str n" "0 < n"
  shows "rev_piece base pos s str n = map_option (\<lambda>j. pos + (rs_len s + rs_slen s - j) - n)
    (found_within (rs_slen s) (find_sub (rev (buf_content str n)) (rev_rest base s)))"
proof -
  let ?ys = "rev (buf_content str n)" and ?xs = "rev_rest base s"
  note ys = buf_content_last [OF assms(3,4)]
  have len: "length ?xs = rs_len s + rs_slen s" by (rule rev_rest_length [OF assms(1)])
  show ?thesis
  proof (cases "rs_str s = None \<longleftrightarrow> str \<noteq> None")
    case True
    have "\<forall>j < rs_slen s. \<not> match_at ?xs j ?ys"
    proof (intro allI impI notI)
      fix j assume "j < rs_slen s" "match_at ?xs j ?ys"
      then have "map_option (\<lambda>b. b ! (rs_slen s - 1 - j)) (rs_str s) = map_option (\<lambda>b. b ! (n - 1)) str"
        using match_at_hd [OF _ ys(1)] ys(2) rev_piece_nth [OF assms(1)] by metis
      then show False using True by (cases str) auto
    qed
    then show ?thesis using True found_within_nothing by (cases str) (auto simp: rev_piece_def)
  next
    case same: False
    show ?thesis
    proof (cases str)
      case (Some b)
      then obtain scan where "rs_str s = Some scan" using same by (cases "rs_str s") auto
      then show ?thesis
        using srch_rev_node_eq [OF assms(1), of scan n b 0 pos] assms(3,4) Some
        by (simp add: rev_piece_def buf_content_def buf_holds_def)
    next
      case None
      have y: "?ys = replicate n None" using None by (simp add: buf_content_def)
      have eq: "vstr__cmp_eq_rev_non base s n \<longleftrightarrow> find_sub ?ys ?xs = Some 0"
      proof (cases "n > rs_len s + rs_slen s")
        case True
        then show ?thesis using len find_sub_short [of ?xs ?ys] y by (simp add: vstr__cmp_eq_rev_non_def)
      next
        case False
        then show ?thesis
          using cmp_eq_rev_non_loop_eq [OF assms(1) _ assms(2,4)] y by (simp add: vstr__cmp_eq_rev_non_def find_sub_0)
      qed
      have start: "match_at ?xs 0 ?ys" if "match_at ?xs j ?ys" "j < rs_slen s" for j
      proof -
        have "take j ?xs = replicate j None"
          using that(2) None same by (simp add: rev_rest_def rev_chunk_def buf_content_def)
        then show ?thesis using match_non_start [of j ?xs None n] that(1) unfolding y by simp
      qed
      have "find_sub ?ys ?xs \<noteq> Some 0 \<Longrightarrow> found_within (rs_slen s) (find_sub ?ys ?xs) = None"
        using start found_within_nothing [of "rs_slen s" ?xs ?ys] by (auto simp: find_sub_Some)
      then show ?thesis using eq None same assms(2) by (auto simp: rev_piece_def found_within_def add.assoc)
    qed
  qed
qed

lemma srch_rev_fast_loop_eq:
  assumes "rev_inv base s" "buf_holds str n" "0 < n"
  shows "rev_chunk s \<noteq> [] \<Longrightarrow> srch_rev_fast_loop base pos s str n =
    (case find_sub (rev (buf_content str n)) (rev_rest base s) of None \<Rightarrow> 0 | Some j \<Rightarrow> pos + (rs_len s + rs_slen s - j) - n)"
  using assms(1)
proof (induction s rule: bwd.chunk_induct)
  case (last s)
  have sl: "rs_slen s \<noteq> 0" "length (rev_rest base s) = rs_slen s"
    using last rev_chunk_content(2) [OF last(1)] by (auto simp flip: length_greater_0_conv)
  have w: "found_within (rs_slen s) (find_sub (rev (buf_content str n)) (rev_rest base s)) = find_sub (rev (buf_content str n)) (rev_rest base s)"
  proof (cases "find_sub (rev (buf_content str n)) (rev_rest base s)")
    case (Some j)
    then have "j < rs_slen s" using sl(2) assms(2,3) by (auto simp: find_sub_Some match_at_def)
    then show ?thesis using Some by (simp add: found_within_def)
  qed (simp add: found_within_def)
  show ?case
    unfolding srch_rev_fast_loop.simps [of base pos s] rev_nxt_option last(2) rev_piece_def [symmetric]
      rev_piece_eq [OF last(1) sl(1) assms(2,3)] w
    by (simp split: option.split)
next
  case (more s s')
  let ?ys = "rev (buf_content str n)" and ?xs = "rev_rest base s"
  have sl: "rs_slen s \<noteq> 0" "length ?xs = rs_len s + rs_slen s" "drop (rs_slen s) ?xs = rev_rest base s'"
    using more rev_chunk_content(2) [OF more(1)] rev_rest_length [OF more(1)] by (auto simp flip: length_greater_0_conv)
  have l': "rs_len s' + rs_slen s' = rs_len s" using rev_rest_length [OF more(3)] sl(2) sl(3) [symmetric] by simp
  show ?case
  proof (cases "found_within (rs_slen s) (find_sub ?ys ?xs)")
    case None
    then have "find_sub ?ys ?xs = map_option ((+) (rs_slen s)) (find_sub ?ys (rev_rest base s'))"
      using find_sub_skip [OF found_within_None [OF None]] sl by simp
    then show ?thesis
      unfolding srch_rev_fast_loop.simps [of base pos s] rev_nxt_option more(2) rev_piece_def [symmetric]
        rev_piece_eq [OF more(1) sl(1) assms(2,3)] None
      using more(5,6) l' by (simp split: option.split)
  next
    case (Some j)
    then have "find_sub ?ys ?xs = Some j" by (auto simp: found_within_def split: option.splits if_splits)
    then show ?thesis
      unfolding srch_rev_fast_loop.simps [of base pos s] rev_nxt_option more(2) rev_piece_def [symmetric]
        rev_piece_eq [OF more(1) sl(1) assms(2,3)] Some
      by simp
  qed
qed

section \<open>Searching a range of another string\<close>

text \<open>The comparison and the search that the loop uses, with the key under which bytes are compared.\<close>

locale range_search =
  fixes cmp :: "vstr_base \<Rightarrow> nat \<Rightarrow> nat \<Rightarrow> vstr_base \<Rightarrow> nat \<Rightarrow> nat \<Rightarrow> int \<times> vstr_base \<times> vstr_base"
    and srch :: "vstr_base \<Rightarrow> nat \<Rightarrow> nat \<Rightarrow> byte list option \<Rightarrow> nat \<Rightarrow> nat \<times> vstr_base" and key :: "byte \<Rightarrow> byte"
  assumes cmp_eq: "in_range b p n \<Longrightarrow> in_range c q n \<Longrightarrow>
      (fst (cmp b p n c q n) = 0 \<longleftrightarrow> key_content key (range_data b p n) = key_content key (range_data c q n)) \<and>
      same_but_cache b (fst (snd (cmp b p n c q n))) \<and> vstr_inv (fst (snd (cmp b p n c q n))) \<and>
      same_but_cache c (snd (snd (cmp b p n c q n))) \<and> vstr_inv (snd (snd (cmp b p n c q n)))"
    and srch_first: "in_range b p l \<Longrightarrow> buf_holds str k \<Longrightarrow> 0 < l \<Longrightarrow>
      reads b (srch b p l str k) (found_at p (find_sub (key_content key (buf_content str k)) (key_content key (range_data b p l))))"
begin

lemma match_prefix:
  assumes "match_at xs i ys"
  shows "match_at xs i (take k ys)"
proof -
  have "take k (take (length ys) (drop i xs)) = take k ys" using assms by (simp add: match_at_def)
  moreover have "min k (length ys) \<le> length ys" by simp
  ultimately show ?thesis using assms by (simp add: match_at_def min.commute) linarith
qed

lemma match_take:
  assumes "match_at (take l xs) i ys"
  shows "match_at xs i ys"
proof -
  have "i + length ys \<le> min (length xs) l" using assms by (simp add: match_at_def)
  then have "i + length ys \<le> length xs" "length ys \<le> l - i" by linarith+
  then show ?thesis using assms by (simp add: match_at_def drop_take min_absorb1)
qed

lemma srch_vstr_loop_first:
  assumes "in_range base pos len" "in_range ndl np nl" "0 < nl" "pos \<le> sp" "sp \<le> pos + len"
    and it: "buf_holds (iter_ptr it) (iter_len it)" "iter_len it \<noteq> 0" "buf_content (iter_ptr it) (iter_len it) = take (iter_len it) (range_data ndl np nl)"
  shows "\<exists>b1 n1. srch_vstr_loop cmp srch base pos len ndl np nl it sp (pos + len - sp) =
    Some (found_at sp (find_sub (key_content key (range_data ndl np nl))
      (drop (sp - pos) (take (if nl = 1 then len - 1 else len) (key_content key (range_data base pos len))))), b1, n1) \<and>
    same_but_cache base b1 \<and> vstr_inv b1 \<and> same_but_cache ndl n1 \<and> vstr_inv n1"
  using assms(1,2,4,5) it(3)
proof (induction "pos + len - sp" arbitrary: base ndl sp rule: less_induct)
  case less
  let ?ys = "key_content key (range_data ndl np nl)" and ?R = "key_content key (range_data base pos len)"
  define xs where "xs = drop (sp - pos) (take (if nl = 1 then len - 1 else len) ?R)"
  have inv: "vstr_inv base" "vstr_inv ndl" using less.prems(1,2) by (simp_all add: in_range_def)
  have ly: "length ?ys = nl" using range_data_length [OF less.prems(2)] by simp
  have lx: "length xs = (if nl = 1 then pos + len - 1 - sp else pos + len - sp)"
    using range_data_length [OF less.prems(1)] less.prems(3,4) by (auto simp: xs_def)
  have guard: "sp < vstr_sc_poslast pos len \<and> pos + len - sp \<ge> nl \<longleftrightarrow> nl \<le> length xs"
    using lx assms(3) less.prems(3,4) by (auto simp: vstr_sc_poslast_def)
  let ?res = "\<lambda>r. \<exists>b1 n1. r = Some (found_at sp (find_sub ?ys xs), b1, n1) \<and>
    same_but_cache base b1 \<and> vstr_inv b1 \<and> same_but_cache ndl n1 \<and> vstr_inv n1"
  have "?res (srch_vstr_loop cmp srch base pos len ndl np nl it sp (pos + len - sp))"
  proof (cases "nl \<le> length xs")
    case False
    then have "find_sub ?ys xs = None" using ly by (simp add: find_sub_short)
    moreover have "srch_vstr_loop cmp srch base pos len ndl np nl it sp (pos + len - sp) = Some (0, base, ndl)"
      using False guard by (subst srch_vstr_loop.simps) auto
    ultimately show ?thesis using inv by (simp add: found_at_def)
  next
    case True
    then have fit: "sp + nl \<le> pos + len" "sp < pos + len" "pos + len - sp - 1 > 0" using guard assms(3) less.prems(3) by (auto simp: vstr_sc_poslast_def)
    have rng: "in_range base sp nl" using less.prems(1,3) fit by (auto simp: in_range_def)
    have Lk: "nl \<le> (if nl = 1 then len - 1 else len) - (sp - pos)" using True lx less.prems(3,4) by (auto split: if_splits)
    have pos: "sp - pos + (pos - 1) = sp - 1" using less.prems(1,3) by (simp add: in_range_def)
    have "take nl xs = take nl (drop (sp - pos) ?R)"
      using Lk unfolding xs_def drop_take take_take by (simp only: min_absorb1)
    then have "key_content key (range_data base sp nl) = take nl xs"
      using pos fit(1) less.prems(3) by (simp add: take_map drop_map drop_take min_absorb1 add.commute)
    then have c: "fst (cmp base sp nl ndl np nl) = 0 \<longleftrightarrow> find_sub ?ys xs = Some 0"
      using cmp_eq [OF rng less.prems(2)] ly by (simp add: find_sub_0)
    obtain r b1 n1 where cm: "cmp base sp nl ndl np nl = (r, b1, n1)" by (cases "cmp base sp nl ndl np nl") auto
    have fr: "same_but_cache base b1" "vstr_inv b1" "same_but_cache ndl n1" "vstr_inv n1"
      using cmp_eq [OF rng less.prems(2)] cm by auto
    have again: "?res (srch_vstr_loop cmp srch b2 pos len n1 np nl it tmp (pos + len - tmp))"
      if b2: "same_but_cache base b2" "vstr_inv b2" and tmp: "sp < tmp" "tmp - sp \<le> length xs" "\<forall>i < tmp - sp. \<not> match_at xs i ?ys" for b2 tmp
    proof -
      have "tmp \<le> pos + len" using tmp(1,2) lx by (auto split: if_splits)
      then have "\<exists>b3 n3. srch_vstr_loop cmp srch b2 pos len n1 np nl it tmp (pos + len - tmp) =
          Some (found_at tmp (find_sub (key_content key (range_data n1 np nl))
            (drop (tmp - pos) (take (if nl = 1 then len - 1 else len) (key_content key (range_data b2 pos len))))), b3, n3) \<and>
          same_but_cache b2 b3 \<and> vstr_inv b3 \<and> same_but_cache n1 n3 \<and> vstr_inv n3"
        using tmp(1) less.prems fit(2) reads_frame [OF b2] reads_frame [OF fr(3,4)] by (intro less.hyps) auto
      moreover have "drop (tmp - pos) (take (if nl = 1 then len - 1 else len) (key_content key (range_data b2 pos len))) = drop (tmp - sp) xs"
        using tmp(1) less.prems(3) unfolding xs_def reads_frame(2) [OF b2] drop_drop by simp
      moreover have "found_at tmp (find_sub ?ys (drop (tmp - sp) xs)) = found_at sp (find_sub ?ys xs)"
        unfolding find_sub_skip [OF tmp(3,2)] found_at_skip using tmp(1) by simp
      ultimately show ?thesis
        using same_but_cache_trans [OF b2(1)] same_but_cache_trans [OF fr(3)] reads_frame(2) [OF fr(3,4)] by metis
    qed
    have step: "srch_vstr_loop cmp srch base pos len ndl np nl it sp (pos + len - sp) =
        (if r = 0 then Some (sp, b1, n1)
         else if iter_ptr it = None then srch_vstr_loop cmp srch b1 pos len n1 np nl it (sp + 1) (pos + len - (sp + 1))
         else (case srch b1 (sp + 1) (pos + len - (sp + 1)) (iter_ptr it) (iter_len it) of (tmp, b2) \<Rightarrow>
           if tmp = 0 then Some (0, b2, n1)
           else srch_vstr_loop cmp srch b2 pos len n1 np nl it tmp (pos + len - (sp + 1) - (tmp - (sp + 1)))))"
      using True guard cm by (subst srch_vstr_loop.simps) (simp split: prod.split)
    show ?thesis
    proof (cases "r = 0")
      case True
      then show ?thesis using step c cm fr by (simp add: found_at_def)
    next
      case ne: False
      then have no0: "\<not> match_at xs 0 ?ys" using c cm by (simp add: find_sub_Some)
      show ?thesis
      proof (cases "iter_ptr it")
        case None
        have "1 \<le> length xs" using True assms(3) by linarith
        then show ?thesis using step ne None again [of b1 "sp + 1"] fr no0 by simp
      next
        case (Some ptr)
        define zs where "zs = key_content key (range_data b1 (sp + 1) (pos + len - (sp + 1)))"
        have rng1: "in_range b1 (sp + 1) (pos + len - (sp + 1))" "0 < pos + len - (sp + 1)"
          using less.prems(1,3) fit reads_frame(1) [OF fr(1,2)] by (auto simp: in_range_def)
        have zs: "zs = drop (sp + 1 - pos) ?R" "length zs = pos + len - (sp + 1)"
          using less.prems(1,3) fit(2) range_data_length [OF rng1(1)] unfolding zs_def reads_frame(2) [OF fr(1,2)]
          by (simp_all add: drop_map drop_take in_range_def add.commute)
        have pre: "match_at zs (i - 1) (take (iter_len it) ?ys)" if "match_at xs i ?ys" "i \<noteq> 0" for i
        proof -
          have "sp - pos \<le> length (take (if nl = 1 then len - 1 else len) ?R)"
            using Lk assms(3) range_data_length [OF less.prems(1)] by auto
          then have "match_at ?R (sp - pos + i) ?ys" using that(1) match_at_drop match_take unfolding xs_def by blast
          moreover have "sp - pos + i = sp + 1 - pos + (i - 1)" "sp + 1 - pos \<le> length ?R"
            using that(2) less.prems(3) fit(2) range_data_length [OF less.prems(1)] by auto
          ultimately show ?thesis unfolding zs(1) using match_prefix by (simp add: match_at_drop)
        qed
        obtain tmp b2 where sr: "srch b1 (sp + 1) (pos + len - (sp + 1)) (iter_ptr it) (iter_len it) = (tmp, b2)"
          by (cases "srch b1 (sp + 1) (pos + len - (sp + 1)) (iter_ptr it) (iter_len it)")
        have pat: "key_content key (buf_content (iter_ptr it) (iter_len it)) = take (iter_len it) ?ys"
          unfolding less.prems(5) by (simp add: take_map)
        then have lp: "length (take (iter_len it) ?ys) = iter_len it" using buf_content_length [OF it(1)] by (metis length_map)
        have t: "tmp = found_at (sp + 1) (find_sub (take (iter_len it) ?ys) zs)" "same_but_cache b1 b2" "vstr_inv b2"
          using srch_first [OF rng1(1) it(1) rng1(2)] sr unfolding pat zs_def by (simp_all add: reads_def)
        have fr2: "same_but_cache base b2" using same_but_cache_trans fr(1) t(2) by blast
        show ?thesis
        proof (cases "find_sub (take (iter_len it) ?ys) zs")
          case none: None
          then have "\<forall>i. \<not> match_at xs i ?ys" using pre no0 unfolding find_sub_None by metis
          then have "find_sub ?ys xs = None" by (simp add: find_sub_None)
          then show ?thesis using step ne Some sr t none fr fr2 by (auto simp: found_at_def)
        next
          case j: (Some j)
          then have mj: "match_at zs j (take (iter_len it) ?ys)" "\<forall>k < j. \<not> match_at zs k (take (iter_len it) ?ys)"
            by (simp_all add: find_sub_Some)
          have tmp: "tmp = sp + 1 + j" using t(1) j by (simp add: found_at_def)
          have "j + iter_len it \<le> pos + len - (sp + 1)" using mj(1) lp zs(2) by (simp add: match_at_def)
          then have "tmp - sp \<le> length xs" using tmp lx it(2) by auto
          moreover have "\<not> match_at xs i ?ys" if "i < tmp - sp" for i
            using pre [of i] no0 mj(2) that tmp by (cases "i = 0") auto
          moreover have "pos + len - (sp + 1) - (tmp - (sp + 1)) = pos + len - tmp" using tmp by simp
          ultimately show ?thesis using again [OF fr2 t(3), of tmp] step ne Some sr tmp by simp
        qed
      qed
    qed
  qed
  then show ?case unfolding xs_def .
qed

lemma srch_vstr_fwd_first:
  assumes "in_range base pos len" "in_range ndl np nl" "0 < nl"
  shows "\<exists>b1 n1. srch_vstr_fwd cmp srch base pos len ndl np nl =
    Some (found_at pos (find_sub (key_content key (range_data ndl np nl))
      (take (if nl = 1 then len - 1 else len) (key_content key (range_data base pos len)))), b1, n1)"
proof (cases "nl > len")
  case True
  have "length (key_content key (range_data ndl np nl)) = nl" "length (key_content key (range_data base pos len)) = len"
    using range_data_length [OF assms(1)] range_data_length [OF assms(2)] by simp_all
  then have "find_sub (key_content key (range_data ndl np nl)) (take (if nl = 1 then len - 1 else len) (key_content key (range_data base pos len))) = None"
    using True by (intro find_sub_short) simp
  then show ?thesis using True by (simp add: srch_vstr_fwd_def found_at_def)
next
  case False
  obtain it n1 where it: "vstr_iter_fwd_beg ndl np nl = (Some it, n1)" "same_but_cache ndl n1" "vstr_inv n1" "iter_inv it"
      "iter_len it \<noteq> 0" "iter_rest it = range_data ndl np nl"
    using fwd_beg_range [OF assms(2)] assms(3) by (metis not_gr_zero)
  note fr = reads_frame [OF it(2,3)]
  have p: "buf_content (iter_ptr it) (iter_len it) = take (iter_len it) (range_data n1 np nl)" "buf_holds (iter_ptr it) (iter_len it)"
    using iter_rest_take [OF it(4), of "iter_len it"] it(6) unfolding fr(2) by simp_all
  show ?thesis
    using srch_vstr_loop_first [OF assms(1) fr(1) [OF assms(2)] assms(3), of pos it] p it(5) False it(1)
    unfolding fr(2) by (auto simp: srch_vstr_fwd_def)
qed

end

lemma cmp_double_frame:
  assumes "in_range b p n" "in_range c q n"
  shows "same_but_cache b (fst (snd (cmp_double body b p n c q n)))" "vstr_inv (fst (snd (cmp_double body b p n c q n)))"
    "same_but_cache c (snd (snd (cmp_double body b p n c q n)))" "vstr_inv (snd (snd (cmp_double body b p n c q n)))"
proof -
  have "n = 0 \<or> (\<exists>i1 b1 i2 c1. vstr_iter_fwd_beg b p n = (Some i1, b1) \<and> same_but_cache b b1 \<and> vstr_inv b1 \<and>
      vstr_iter_fwd_beg c q n = (Some i2, c1) \<and> same_but_cache c c1 \<and> vstr_inv c1)"
    using fwd_beg_range [OF assms(1)] fwd_beg_range [OF assms(2)] by metis
  then show "same_but_cache b (fst (snd (cmp_double body b p n c q n)))" "vstr_inv (fst (snd (cmp_double body b p n c q n)))"
    "same_but_cache c (snd (snd (cmp_double body b p n c q n)))" "vstr_inv (snd (snd (cmp_double body b p n c q n)))"
    using assms by (auto simp: cmp_double_def in_range_def)
qed

interpretation vstr_exact: range_search vstr_cmp vstr_srch_buf_fwd "\<lambda>b. b"
proof
  fix b p n c q
  assume r: "in_range b p n" "in_range c q n"
  have "fst (vstr_cmp b p n c q n) = 0 \<longleftrightarrow> range_data b p n = range_data c q n"
    using plain.cmp_double_result [OF r] by (simp add: vstr_cmp_def cmp_result_def) (metis cmp_sign_zero(1) sgn_0_0)
  then show "(fst (vstr_cmp b p n c q n) = 0 \<longleftrightarrow> key_content (\<lambda>b. b) (range_data b p n) = key_content (\<lambda>b. b) (range_data c q n)) \<and>
      same_but_cache b (fst (snd (vstr_cmp b p n c q n))) \<and> vstr_inv (fst (snd (vstr_cmp b p n c q n))) \<and>
      same_but_cache c (snd (snd (vstr_cmp b p n c q n))) \<and> vstr_inv (snd (snd (vstr_cmp b p n c q n)))"
    using cmp_double_frame [OF r] by (simp add: vstr_cmp_def)
next
  show "reads b (vstr_srch_buf_fwd b p l str k)
      (found_at p (find_sub (key_content (\<lambda>b. b) (buf_content str k)) (key_content (\<lambda>b. b) (range_data b p l))))"
    if "in_range b p l" "buf_holds str k" "0 < l" for b p l str k
    using srch_buf_fwd_reads [OF that(1,2)] that(3) by simp
qed

section \<open>Properties\<close>

text \<open>
  C31. Searching a buffer. \<^verbatim>\<open>vstr_srch_buf_fwd()\<close> returns the first position of the range where the buffer, or for a null pointer
  a run of positions without a byte, is found, and 0 if there is none; also when the match lies across several nodes.
\<close>

theorem srch_buf_fwd_correct:
  assumes "in_range base pos len" "buf_holds str n" "0 < len"
  shows "fst (vstr_srch_buf_fwd base pos len str n) =
    (case find_sub (buf_content str n) (range_data base pos len) of None \<Rightarrow> 0 | Some i \<Rightarrow> pos + i)"
  using srch_buf_fwd_reads [OF assms(1,2)] assms(3) by (simp add: reads_def found_at_def)

theorem srch_buf_fwd_correct_witness:
  "fst (vstr_srch_buf_fwd ex_abc 1 6 (Some [99, 100, 101]) 3) = 3 \<and> fst (vstr_srch_buf_fwd ex_abc 1 6 (Some [99, 101]) 2) = 0"
  using srch_buf_fwd_correct [of ex_abc 1 6 "Some [99, 100, 101]" 3] srch_buf_fwd_correct [of ex_abc 1 6 "Some [99, 101]" 2]
  by (simp add: buf_holds_def buf_content_def find_sub_def match_at_def upt_rec numeral_eq_Suc)

text \<open>
  C32. Searching a buffer from the end. \<^verbatim>\<open>vstr_srch_buf_rev()\<close> always returns, and gives the last position of the range where the
  buffer is found, or 0: with the walk through the iovec array and with the repeated forward search alike.
\<close>

theorem srch_buf_rev_correct:
  assumes "in_range base pos len" "buf_holds str n" "0 < len" "0 < n" "iovec_ok base"
  shows "\<exists>b1. vstr_srch_buf_rev base pos len str n =
    Some (case rfind_sub (buf_content str n) (range_data base pos len) of None \<Rightarrow> 0 | Some i \<Rightarrow> pos + i, b1)"
proof -
  let ?ys = "buf_content str n" and ?xs = "range_data base pos len"
  have len: "length ?xs = len" by (rule range_data_length [OF assms(1)])
  have fits: "j + n \<le> len" if "find_sub (rev ?ys) (rev ?xs) = Some j" for j
    using that len assms(2) by (simp add: find_sub_Some match_at_def)
  have rf: "(case find_sub (rev ?ys) (rev ?xs) of None \<Rightarrow> 0 | Some j \<Rightarrow> pos + (len - j) - n) =
      (case rfind_sub ?ys ?xs of None \<Rightarrow> 0 | Some i \<Rightarrow> pos + i)"
    using fits len assms(2) by (auto simp: rfind_sub_def split: option.split)
  consider (long) "n > len" | (chr) "n \<le> len" "str \<noteq> None" "n = 1" | (fast) "n \<le> len" "\<not> (str \<noteq> None \<and> n = 1)" "iovec_upto_date base"
    | (slow) "n \<le> len" "\<not> (str \<noteq> None \<and> n = 1)" "\<not> iovec_upto_date base" by linarith
  then show ?thesis
  proof cases
    case long
    then have "rfind_sub ?ys ?xs = None" using len assms(2) by (auto simp: rfind_sub_None match_at_def)
    then show ?thesis using long by (simp add: vstr_srch_buf_rev_def)
  next
    case chr
    then have y: "?ys = [Some (hd (the str))]"
      using assms(2) by (cases "the str") (auto simp: buf_content_def buf_holds_def)
    have "fst (vstr_srch_chr_rev base pos len (hd (the str))) =
        (case find_sub (rev ?ys) (rev ?xs) of None \<Rightarrow> 0 | Some j \<Rightarrow> pos + (len - j) - n)"
      using srch_chr_rev_eq [OF assms(1,5), of "hd (the str)"] fits chr(3) unfolding y
      by (auto simp: find_sub_single found_rev_def split: option.split)
    then have "fst (vstr_srch_chr_rev base pos len (hd (the str))) = (case rfind_sub ?ys ?xs of None \<Rightarrow> 0 | Some i \<Rightarrow> pos + i)"
      unfolding rf .
    then show ?thesis using chr assms(3) by (simp add: vstr_srch_buf_rev_def) (metis prod.collapse)
  next
    case fast
    obtain s b' where s: "vstr__base_scan_rev_beg base pos len = (Some s, b')" "rev_inv b' s" "rev_chunk s \<noteq> []" "rev_rest b' s = rev ?xs"
      using scan_rev_beg_spec [OF assms(1,3,5) fast(3)] by metis
    have L: "rs_len s + rs_slen s = len" using rev_rest_length [OF s(2)] s(4) len by simp
    have "srch_rev_fast_loop b' pos s str n = (case rfind_sub ?ys ?xs of None \<Rightarrow> 0 | Some i \<Rightarrow> pos + i)"
      using srch_rev_fast_loop_eq [OF s(2) assms(2,4) s(3), of pos] unfolding L s(4) rf .
    then show ?thesis using fast assms(3,4) s(1) by (auto simp: vstr_srch_buf_rev_def vstr__srch_buf_rev_fast_def)
  next
    case slow
    have "\<exists>b1. srch_rev_slow (\<lambda>b p l. vstr_srch_buf_fwd b p l str n) (\<lambda>_. True) base pos len (length ?ys) pos (pos + len - pos) 0 =
      Some (case rfind_sub ?ys (drop (pos - pos) ?xs) of None \<Rightarrow> 0 | Some i \<Rightarrow> pos + i, b1) \<and> same_but_cache base b1 \<and> vstr_inv b1"
      using buf_rev.rev_slow_last [of "(str, n)" base pos len pos "\<lambda>_. True" 0] assms by simp
    then show ?thesis using slow assms(2-4) by (auto simp: vstr_srch_buf_rev_def)
  qed
qed

theorem srch_buf_rev_correct_witness:
  "\<exists>b1. vstr_srch_buf_rev ex_abc 1 6 (Some [99, 100]) 2 = Some (3, b1)"
  using srch_buf_rev_correct [of ex_abc 1 6 "Some [99, 100]" 2] ex_abc_iovec_ok
  by (simp add: buf_holds_def buf_content_def rfind_sub_def find_sub_def match_at_def upt_rec numeral_eq_Suc)

text \<open>
  C33. Searching a range of another string. \<^verbatim>\<open>vstr_srch_vstr_fwd()\<close> always returns, and gives the first position where the other
  range is found, or 0; but a range of one position is not looked for in the last position of the range.
\<close>

theorem srch_vstr_fwd_correct:
  assumes "in_range base pos len" "in_range ndl ndl_pos ndl_len" "0 < ndl_len"
  shows "\<exists>b1 n1. vstr_srch_vstr_fwd base pos len ndl ndl_pos ndl_len =
    Some (case find_sub (range_data ndl ndl_pos ndl_len) (range_data base pos (if ndl_len = 1 then len - 1 else len)) of
            None \<Rightarrow> 0 | Some i \<Rightarrow> pos + i, b1, n1)"
  using vstr_exact.srch_vstr_fwd_first [OF assms] by (simp add: vstr_srch_vstr_fwd_def found_at_def)

theorem srch_vstr_fwd_correct_witness:
  "(\<exists>b1 n1. vstr_srch_vstr_fwd ex_abc 1 6 ex_abc 3 2 = Some (3, b1, n1)) \<and>
   (\<exists>b1 n1. vstr_srch_vstr_fwd ex_abc 1 6 ex_abc 6 1 = Some (0, b1, n1))"
proof
  show "\<exists>b1 n1. vstr_srch_vstr_fwd ex_abc 1 6 ex_abc 3 2 = Some (3, b1, n1)"
    using srch_vstr_fwd_correct [of ex_abc 1 6 ex_abc 3 2]
    by (simp add: find_sub_def match_at_def upt_rec numeral_eq_Suc)
  show "\<exists>b1 n1. vstr_srch_vstr_fwd ex_abc 1 6 ex_abc 6 1 = Some (0, b1, n1)"
    using srch_vstr_fwd_correct [of ex_abc 1 6 ex_abc 6 1] by (simp add: find_sub_single)
qed

end
