(* ===== verification/Vstr_Srch_Case.thy ===== *)
theory Vstr_Srch_Case
  imports Vstr_Srch_Rev
begin

text \<open>
  Searching without regard to ASCII case: \<^verbatim>\<open>src/vstr_srch_case.c\<close>. The loops over the pieces and the repeated searches are those of
  the exact search.
\<close>

section \<open>Case\<close>

definition IS_ASCII_LOWER :: "byte \<Rightarrow> bool" where
  "IS_ASCII_LOWER x \<longleftrightarrow> 0x61 \<le> x \<and> x \<le> 0x7A"

definition IS_ASCII_ALPHA :: "byte \<Rightarrow> bool" where
  "IS_ASCII_ALPHA x \<longleftrightarrow> IS_ASCII_LOWER x \<or> IS_ASCII_UPPER x"

definition TO_ASCII_UPPER :: "byte \<Rightarrow> byte" where
  "TO_ASCII_UPPER x = x - 0x20"

text \<open>The macros fold a searched character to upper case, the comparison folds to lower case.\<close>

definition fold_upper :: "byte \<Rightarrow> byte" where
  "fold_upper a = (if IS_ASCII_LOWER a then TO_ASCII_UPPER a else a)"

lemmas case_defs = IS_ASCII_LOWER_def IS_ASCII_UPPER_def IS_ASCII_ALPHA_def TO_ASCII_UPPER_def TO_ASCII_LOWER_def
  fold_upper_def fold_case_def

lemma uint_case:
  "uint (fold_upper a) = (if 97 \<le> uint a \<and> uint a \<le> 122 then uint a - 32 else uint a)"
  "uint (fold_case a) = (if 65 \<le> uint a \<and> uint a \<le> 90 then uint a + 32 else uint a)"
  "IS_ASCII_LOWER a \<longleftrightarrow> 97 \<le> uint a \<and> uint a \<le> 122" "IS_ASCII_UPPER a \<longleftrightarrow> 65 \<le> uint a \<and> uint a \<le> 90"
  by (auto simp: case_defs word_le_def uint_word_ariths)

lemma fold_upper_eq: "fold_upper a = fold_upper b \<longleftrightarrow> fold_case a = fold_case b"
  unfolding word_uint_eq_iff uint_case by auto

lemma fold_case_alpha:
  assumes "IS_ASCII_ALPHA c"
  shows "fold_case x = fold_case c \<longleftrightarrow> x = c \<or> x = (if IS_ASCII_LOWER c then TO_ASCII_UPPER c else TO_ASCII_LOWER c)"
proof -
  have "uint (TO_ASCII_UPPER c) = uint c - 32" if "IS_ASCII_LOWER c"
    using that unfolding uint_case(3) by (simp add: TO_ASCII_UPPER_def uint_word_ariths)
  moreover have "uint (TO_ASCII_LOWER c) = uint c + 32" if "IS_ASCII_UPPER c"
    using that unfolding uint_case(4) by (simp add: TO_ASCII_LOWER_def uint_word_ariths)
  ultimately show ?thesis
    using assms unfolding word_uint_eq_iff IS_ASCII_ALPHA_def by (auto simp: uint_case split: if_splits)
qed

lemma fold_case_other: "\<not> IS_ASCII_ALPHA c \<Longrightarrow> fold_case x = fold_case c \<longleftrightarrow> x = c"
  unfolding word_uint_eq_iff IS_ASCII_ALPHA_def uint_case by auto

section \<open>The searches\<close>

text \<open>One character, forwards: the loop of \<^verbatim>\<open>vstr_srch_case_chr_fwd()\<close> over a piece; the loop over the pieces has no condition on a length.\<close>

definition srch_case_chr_chunk :: "byte \<Rightarrow> vstr_base \<Rightarrow> nat \<Rightarrow> nat \<Rightarrow> vstr_iter \<Rightarrow> nat option \<times> vstr_base" where
  "srch_case_chr_chunk srch base pos len iter =
     (case iter_ptr iter of
        None \<Rightarrow> (None, base)
      | Some ptr \<Rightarrow>
          (map_option ((+) (vstr_iter_pos iter pos len)) (index_of (\<lambda>c. fold_upper c = srch) (take (iter_len iter) ptr)), base))"

definition vstr_srch_case_chr_fwd :: "vstr_base \<Rightarrow> nat \<Rightarrow> nat \<Rightarrow> byte \<Rightarrow> nat \<times> vstr_base" where
  "vstr_srch_case_chr_fwd base pos len srch =
     (if \<not> IS_ASCII_ALPHA srch then vstr_srch_chr_fwd base pos len srch
      else (case vstr_iter_fwd_beg base pos len of
              (None, b1) \<Rightarrow> (0, b1)
            | (Some it, b1) \<Rightarrow> srch_chunks (srch_case_chr_chunk (fold_upper srch)) b1 pos len 0 it))"

definition vstr_srch_case_chr_rev :: "vstr_base \<Rightarrow> nat \<Rightarrow> nat \<Rightarrow> byte \<Rightarrow> nat \<times> vstr_base" where
  "vstr_srch_case_chr_rev base pos len srch =
     (if \<not> IS_ASCII_ALPHA srch then vstr_srch_chr_rev base pos len srch
      else vstr_srch_chrs_rev base pos len
        (Some [srch, if IS_ASCII_LOWER srch then TO_ASCII_UPPER srch else TO_ASCII_LOWER srch]) 2)"

text \<open>A buffer: the loop over the bytes of a piece.\<close>

function srch_case_node ::
    "vstr_base \<Rightarrow> nat \<Rightarrow> nat \<Rightarrow> byte list \<Rightarrow> nat \<Rightarrow> vstr_iter \<Rightarrow> nat option \<times> vstr_base" where
  "srch_case_node base pos len str str_len iter =
     (if iter_len iter \<noteq> 0 \<and> vstr_iter_len iter \<ge> str_len then
        let beg_pos = vstr_iter_pos iter pos len;
            (eq, b1) = (if fold_upper (hd (the (iter_ptr iter))) \<noteq> fold_upper (hd str) then (False, base)
                        else (case vstr_cmp_case_buf base beg_pos str_len (Some str) str_len of (r, b1) \<Rightarrow> (r = 0, b1)))
        in if eq then (Some beg_pos, b1) else srch_case_node b1 pos len str str_len (iter_skip 1 iter)
      else (None, base))"
  by pat_completeness auto
termination
  by (relation "measure (\<lambda>(_, _, _, _, _, it). iter_len it)") (auto simp: iter_skip_def)

declare srch_case_node.simps [simp del]

definition srch_case_chunk ::
    "byte list \<times> nat \<Rightarrow> vstr_base \<Rightarrow> nat \<Rightarrow> nat \<Rightarrow> vstr_iter \<Rightarrow> nat option \<times> vstr_base" where
  "srch_case_chunk p base pos len iter =
     (if iter_ptr iter = None then (None, base) else srch_case_node base pos len (fst p) (snd p) iter)"

definition vstr_srch_case_buf_fwd :: "vstr_base \<Rightarrow> nat \<Rightarrow> nat \<Rightarrow> byte list option \<Rightarrow> nat \<Rightarrow> nat \<times> vstr_base" where
  "vstr_srch_case_buf_fwd base pos len str str_len =
     (if len = 0 \<or> str_len > len then (0, base)
      else if str_len = 0 then (pos, base)
      else (case str of
              None \<Rightarrow> vstr_srch_buf_fwd base pos len str str_len
            | Some s \<Rightarrow>
                if str_len = 1 then vstr_srch_case_chr_fwd base pos len (hd s)
                else (case vstr_iter_fwd_beg base pos len of
                        (None, b1) \<Rightarrow> (0, b1)
                      | (Some it, b1) \<Rightarrow> srch_chunks (srch_case_chunk (s, str_len)) b1 pos len str_len it)))"

definition vstr_srch_case_buf_rev :: "vstr_base \<Rightarrow> nat \<Rightarrow> nat \<Rightarrow> byte list option \<Rightarrow> nat \<Rightarrow> (nat \<times> vstr_base) option" where
  "vstr_srch_case_buf_rev base pos len str str_len =
     (if len = 0 \<or> str_len > len then Some (0, base)
      else if str_len = 0 then Some (pos + len - 1, base)
      else if str \<noteq> None \<and> str_len = 1 then Some (vstr_srch_case_chr_rev base pos len (hd (the str)))
      else srch_rev_slow (\<lambda>b p l. vstr_srch_case_buf_fwd b p l str str_len) (\<lambda>scan_pos. scan_pos < pos + len - 1)
             base pos len str_len pos len 0)"

text \<open>A range of another string.\<close>

definition vstr_srch_case_vstr_fwd ::
    "vstr_base \<Rightarrow> nat \<Rightarrow> nat \<Rightarrow> vstr_base \<Rightarrow> nat \<Rightarrow> nat \<Rightarrow> (nat \<times> vstr_base \<times> vstr_base) option" where
  "vstr_srch_case_vstr_fwd = srch_vstr_fwd vstr_cmp_case vstr_srch_case_buf_fwd"

definition vstr_srch_case_vstr_rev ::
    "vstr_base \<Rightarrow> nat \<Rightarrow> nat \<Rightarrow> vstr_base \<Rightarrow> nat \<Rightarrow> nat \<Rightarrow> (nat \<times> vstr_base \<times> vstr_base) option" where
  "vstr_srch_case_vstr_rev base pos len ndl_base ndl_pos ndl_len =
     srch_vstr_rev_slow vstr_srch_case_vstr_fwd (\<lambda>scan_pos. scan_pos < pos + len - 1) base pos len ndl_base ndl_pos ndl_len pos len 0"

section \<open>What they find\<close>

lemma case_chunk_start:
  assumes "iter_inv it" "iter_len it \<noteq> 0" "iter_ptr it = Some ptr"
  shows "iter_rest it \<noteq> []" "hd (iter_rest it) = Some (hd ptr)"
proof -
  show ne: "iter_rest it \<noteq> []" using iter_rest_nonempty [OF assms(1,2)] .
  have "ptr \<noteq> []" using first_byte(2) [OF assms(1,3), of 0] assms(2) by auto
  then show "hd (iter_rest it) = Some (hd ptr)" using first_byte(1) [OF assms(1,3), of 0] assms(2) ne by (simp add: hd_conv_nth)
qed

lemma cmp_case_buf_reads:
  assumes "in_range base pos n" "buf_holds buf n"
  shows "fst (vstr_cmp_case_buf base pos n buf n) = 0 \<longleftrightarrow> key_content fold_case (range_data base pos n) = key_content fold_case (buf_content buf n)"
    "same_but_cache base (snd (vstr_cmp_case_buf base pos n buf n))" "vstr_inv (snd (vstr_cmp_case_buf base pos n buf n))"
proof -
  have "sgn (fst (vstr_cmp_case_buf base pos n buf n)) = cmp_sign (key_content fold_case (range_data base pos n)) (key_content fold_case (buf_content buf n))"
    using nocase.cmp_single_result [OF assms] by (simp add: vstr_cmp_case_buf_def)
  then show "fst (vstr_cmp_case_buf base pos n buf n) = 0 \<longleftrightarrow> key_content fold_case (range_data base pos n) = key_content fold_case (buf_content buf n)"
    by (metis cmp_sign_zero(1) sgn_0_0)
  show "same_but_cache base (snd (vstr_cmp_case_buf base pos n buf n))" "vstr_inv (snd (vstr_cmp_case_buf base pos n buf n))"
    using assms(1) by (cases rule: fwd_beg_range; use assms(1) in \<open>simp add: vstr_cmp_case_buf_def cmp_single_def in_range_def\<close>)+
qed

lemma srch_case_node_first:
  assumes "at_iter base pos len it" "iter_ptr it = Some ptr" "n \<le> length str" "0 < n"
  shows "reads base (srch_case_node base pos len str n it) (map_option ((+) (vstr_iter_pos it pos len))
    (found_within (iter_len it) (find_sub (key_content fold_case (map Some (take n str))) (key_content fold_case (iter_rest it)))))"
  using assms(1,2)
proof (induction "iter_len it" arbitrary: base it ptr rule: less_induct)
  case less
  let ?ys = "key_content fold_case (map Some (take n str))" and ?xs = "key_content fold_case (iter_rest it)"
  have ys: "?ys \<noteq> []" "hd ?ys = Some (fold_case (hd str))" "length ?ys = n" using assms(3,4) by (cases str; cases n; simp)+
  have inv: "iter_inv it" "vstr_inv base" using less.prems(1) by (simp_all add: at_iter_def in_range_def)
  show ?case
  proof (cases "iter_len it \<noteq> 0 \<and> vstr_iter_len it \<ge> n")
    case False
    then have "found_within (iter_len it) (find_sub ?ys ?xs) = None"
      using ys(3) at_iter_len [OF less.prems(1)] find_sub_short [of ?xs ?ys] by (auto simp: found_within_def split: option.split)
    then show ?thesis using False inv(2) by (auto simp: srch_case_node.simps [of base pos len str n it] reads_def)
  next
    case True
    let ?q = "vstr_iter_pos it pos len"
    define eq where "eq = (find_sub ?ys ?xs = Some 0)"
    have "0 + n \<le> vstr_iter_len it" using True by simp
    note rg = at_iter_range [OF less.prems(1) this, simplified]
    have b: "buf_holds (Some str) n" using assms(3) by (simp add: buf_holds_def)
    have cm: "fst (vstr_cmp_case_buf base ?q n (Some str) n) = 0 \<longleftrightarrow> eq"
      using cmp_case_buf_reads(1) [OF rg(1) b] rg(2) ys(3) by (simp add: eq_def find_sub_0 buf_content_def take_map)
    have hd: "fold_upper (hd ptr) \<noteq> fold_upper (hd str) \<Longrightarrow> \<not> eq"
      using match_at_hd [of ?xs 0 ?ys] ys case_chunk_start [OF inv(1) _ less.prems(2)] True
      by (auto simp: eq_def find_sub_Some fold_upper_eq hd_conv_nth)
    define b1 where "b1 = (if fold_upper (hd ptr) = fold_upper (hd str) then snd (vstr_cmp_case_buf base ?q n (Some str) n) else base)"
    have step: "srch_case_node base pos len str n it =
        (if eq then (Some ?q, b1) else srch_case_node b1 pos len str n (iter_skip 1 it))"
      using True less.prems(2) cm hd by (subst srch_case_node.simps) (auto simp: b1_def case_prod_beta Let_def)
    have fr: "same_but_cache base b1" "vstr_inv b1" using inv(2) cmp_case_buf_reads(2,3) [OF rg(1) b] by (simp_all add: b1_def)
    show ?thesis
    proof (cases eq)
      case True
      then show ?thesis using step fr \<open>iter_len it \<noteq> 0 \<and> _\<close> by (simp add: reads_def found_within_def eq_def)
    next
      case False
      then have no: "\<forall>i < 1. \<not> match_at ?xs i ?ys" by (simp add: eq_def find_sub_Some)
      have le: "1 \<le> iter_len it" using True by simp
      have "reads b1 (srch_case_node b1 pos len str n (iter_skip 1 it)) (map_option ((+) ?q) (found_within (iter_len it) (find_sub ?ys ?xs)))"
        unfolding first_skip [OF less.prems(1) le no]
        using less.prems(2) le at_iter_frame [OF at_iter_skip(1) [OF less.prems(1) le] fr]
        by (intro less.hyps [where ptr = "drop 1 ptr"]) (simp_all add: iter_skip_def)
      then show ?thesis using step False reads_trans [OF fr(1)] by simp
    qed
  qed
qed

interpretation case_chunks: pattern_scan srch_case_chunk "\<lambda>(str, n). n \<le> length str \<and> 0 < n" "\<lambda>(str, n). map Some (take n str)" fold_case
proof
  fix p :: "byte list \<times> nat" and base pos len it
  assume a: "case p of (str, n) \<Rightarrow> n \<le> length str \<and> 0 < n" "at_iter base pos len it" "iter_len it \<noteq> 0"
  obtain str n where p: "p = (str, n)" by (cases p)
  have inv: "iter_inv it" "vstr_inv base" using a(2) by (simp_all add: at_iter_def in_range_def)
  let ?ys = "key_content fold_case (map Some (take n str))"
  have ys: "?ys \<noteq> []" "hd ?ys \<noteq> None" using a(1) p by (cases "take n str"; auto)+
  have none: "\<forall>i < iter_len it. \<not> match_at (key_content fold_case (iter_rest it)) i ?ys" if "iter_ptr it = None"
    using no_match_piece [OF inv(1) ys(1), of "map_option fold_case"] ys(2) piece_nth(1) [OF inv(1)] that by auto
  show "reads base (srch_case_chunk p base pos len it) (map_option ((+) (vstr_iter_pos it pos len)) (found_within (iter_len it)
      (find_sub (key_content fold_case (case p of (str, n) \<Rightarrow> map Some (take n str))) (key_content fold_case (iter_rest it)))))"
    using srch_case_node_first [OF a(2), of _ n str] a(1) none found_within_nothing inv(2) p
    by (cases "iter_ptr it") (auto simp: srch_case_chunk_def reads_def)
qed auto

text \<open>One character.\<close>

lemma index_of_within: "found_within (length xs) (index_of P (xs @ ys)) = index_of P xs"
  by (auto simp: found_within_def index_of_append dest: index_of_less split: option.split)

interpretation case_chr: pattern_scan "\<lambda>c. srch_case_chr_chunk (fold_upper c)" "\<lambda>_. True" "\<lambda>c. [Some c]" fold_case
proof
  fix c base pos len it
  assume a: "at_iter base pos len it"
  have inv: "iter_inv it" "vstr_inv base" using a by (simp_all add: at_iter_def in_range_def)
  let ?P = "\<lambda>x. x = Some (fold_case c)"
  have i: "found_within (iter_len it) (find_sub [Some (fold_case c)] (key_content fold_case (iter_rest it))) =
      index_of (\<lambda>x. map_option fold_case x = Some (fold_case c)) (buf_content (iter_ptr it) (iter_len it))"
    using index_of_within [of "key_content fold_case (buf_content (iter_ptr it) (iter_len it))" ?P "key_content fold_case (iter_rest (iter_skip (iter_len it) it))"]
      iter_rest_split [OF inv(1), of "iter_len it"] buf_content_length [OF iter_rest_take(2) [OF inv(1)]]
    by (simp add: find_sub_single index_of_map)
  show "reads base (srch_case_chr_chunk (fold_upper c) base pos len it) (map_option ((+) (vstr_iter_pos it pos len))
      (found_within (iter_len it) (find_sub (key_content fold_case [Some c]) (key_content fold_case (iter_rest it)))))"
    using inv(2) i index_of_None [of "\<lambda>x. map_option fold_case x = Some (fold_case c)" "replicate (iter_len it) None"]
    by (auto simp: srch_case_chr_chunk_def reads_def buf_content_def index_of_map fold_upper_eq split: option.split)
qed auto

lemma srch_chunks_any_length:
  "iter_inv it \<Longrightarrow> srch_chunks chunk base pos len 0 it = srch_chunks chunk base pos len 1 it"
proof (induction "length (iter_node it)" arbitrary: base it rule: less_induct)
  case less
  have "iter_inv j \<and> vstr_iter_len j \<ge> 1 \<and> length (iter_node j) < length (iter_node it)" if "vstr_iter_fwd_nxt it = (True, j)" for j
    using nxt_rest [OF less.prems] that nxt_shorter [OF that] by (simp add: vstr_iter_len_def)
  then show ?case
    using less.hyps
    by (auto simp: srch_chunks.simps [of chunk base pos len _ it] split: prod.split option.split bool.split)
qed

lemma case_chr_fwd_reads:
  assumes "in_range base pos len" "0 < len"
  shows "reads base (vstr_srch_case_chr_fwd base pos len c)
    (found_at pos (find_sub [Some (fold_case c)] (key_content fold_case (range_data base pos len))))"
proof (cases "IS_ASCII_ALPHA c")
  case True
  obtain it b1 where it: "vstr_iter_fwd_beg base pos len = (Some it, b1)" "same_but_cache base b1" "vstr_inv b1"
    "at_iter b1 pos len it" "iter_len it \<noteq> 0" "iter_rest it = range_data base pos len" "vstr_iter_len it = len" "vstr_iter_pos it pos len = pos"
    using beg_at_iter [OF assms] .
  have "reads b1 (srch_chunks (srch_case_chr_chunk (fold_upper c)) b1 pos len 1 it)
      (found_at pos (find_sub [Some (fold_case c)] (key_content fold_case (range_data base pos len))))"
    using case_chr.chunks_first [OF _ it(4,5), where p = c] assms(2) it(6-8) by simp
  moreover have "vstr_srch_case_chr_fwd base pos len c = srch_chunks (srch_case_chr_chunk (fold_upper c)) b1 pos len 1 it"
    using True it(1,4) srch_chunks_any_length by (simp add: vstr_srch_case_chr_fwd_def at_iter_def)
  ultimately show ?thesis using reads_trans [OF it(2)] by simp
next
  case False
  have "index_of (\<lambda>x. x = Some (fold_case c)) (key_content fold_case xs) = index_of (\<lambda>x. x = Some c) xs" for xs
    unfolding index_of_map by (rule arg_cong [where f = "\<lambda>P. index_of P xs"], rule ext)
      (auto simp: fold_case_other [OF False])
  then show ?thesis
    using False srch_chr_fwd_eq [OF assms(1), of c] by (simp add: vstr_srch_case_chr_fwd_def reads_def find_sub_single)
qed

lemma map_none_replicate: "map (map_option g) zs = replicate n None \<longleftrightarrow> zs = replicate n None"
  by (induction n arbitrary: zs) (auto simp: map_eq_Cons_conv)

lemma case_buf_fwd_reads:
  assumes "in_range base pos len" "buf_holds str n" "0 < len"
  shows "reads base (vstr_srch_case_buf_fwd base pos len str n)
    (found_at pos (find_sub (key_content fold_case (buf_content str n)) (key_content fold_case (range_data base pos len))))"
proof (cases "n > len \<or> n = 0 \<or> str = None \<or> n = 1")
  case True
  let ?ys = "key_content fold_case (buf_content str n)" and ?xs = "key_content fold_case (range_data base pos len)"
  have inv: "vstr_inv base" using assms(1) by (simp add: in_range_def)
  have "find_sub ?ys ?xs = None" if "n > len" using that assms(2) range_data_length [OF assms(1)] by (simp add: find_sub_short)
  moreover have "find_sub (key_content fold_case (buf_content str 0)) ?xs = Some 0"
    by (simp add: find_sub_0 buf_content_def split: option.split)
  moreover have "buf_content str 1 = [Some (hd (the str))]" if "n = 1" "str \<noteq> None"
    using that assms(2) by (cases "the str") (auto simp: buf_content_def buf_holds_def)
  moreover have "find_sub (replicate n None) ?xs = find_sub (replicate n None) (range_data base pos len)"
    by (simp add: find_sub_def match_at_def take_map drop_map map_none_replicate)
  moreover have "reads base (vstr_srch_buf_fwd base pos len None n) (found_at pos (find_sub (replicate n None) (range_data base pos len)))" if "str = None"
    using srch_buf_fwd_reads [OF assms(1), of None n] assms(3) by (simp add: buf_holds_def buf_content_def)
  ultimately show ?thesis
    using True inv assms(3) case_chr_fwd_reads [OF assms(1,3), of "hd (the str)"]
    by (auto simp: vstr_srch_case_buf_fwd_def reads_def found_at_def buf_content_def split: option.splits)
next
  case False
  then obtain s where s: "str = Some s" "n \<le> length s" "0 < n" "n \<le> len" using assms(2) by (auto simp: buf_holds_def)
  obtain it b1 where it: "vstr_iter_fwd_beg base pos len = (Some it, b1)" "same_but_cache base b1" "vstr_inv b1"
    "at_iter b1 pos len it" "iter_len it \<noteq> 0" "iter_rest it = range_data base pos len" "vstr_iter_len it = len" "vstr_iter_pos it pos len = pos"
    using beg_at_iter [OF assms(1,3)] .
  have "reads b1 (srch_chunks (srch_case_chunk (s, n)) b1 pos len n it)
      (found_at pos (find_sub (key_content fold_case (buf_content str n)) (key_content fold_case (range_data base pos len))))"
    using case_chunks.chunks_first [of "(s, n)", OF _ it(4,5)] s it(6-8) by (simp add: buf_content_def)
  then show ?thesis using reads_trans [OF it(2)] False s it(1) assms(3) by (simp add: vstr_srch_case_buf_fwd_def)
qed

interpretation case_rev: fwd_search "\<lambda>(str, n) base pos len. vstr_srch_case_buf_fwd base pos len str n"
    "\<lambda>(str, n). buf_holds str n \<and> 0 < n" "\<lambda>(str, n). buf_content str n" fold_case
  by unfold_locales (auto simp: buf_content_Nil dest: case_buf_fwd_reads)

interpretation vstr_case: range_search vstr_cmp_case vstr_srch_case_buf_fwd fold_case
proof
  fix b p n c q
  assume r: "in_range b p n" "in_range c q n"
  have "fst (vstr_cmp_case b p n c q n) = 0 \<longleftrightarrow> key_content fold_case (range_data b p n) = key_content fold_case (range_data c q n)"
    using nocase.cmp_double_result [OF r] by (simp add: vstr_cmp_case_def cmp_result_def) (metis cmp_sign_zero(1) sgn_0_0)
  then show "(fst (vstr_cmp_case b p n c q n) = 0 \<longleftrightarrow> key_content fold_case (range_data b p n) = key_content fold_case (range_data c q n)) \<and>
      same_but_cache b (fst (snd (vstr_cmp_case b p n c q n))) \<and> vstr_inv (fst (snd (vstr_cmp_case b p n c q n))) \<and>
      same_but_cache c (snd (snd (vstr_cmp_case b p n c q n))) \<and> vstr_inv (snd (snd (vstr_cmp_case b p n c q n)))"
    using cmp_double_frame [OF r] by (simp add: vstr_cmp_case_def)
qed (rule case_buf_fwd_reads)

section \<open>Properties\<close>



end
