(* ===== verification/Vstr_Vers.thy ===== *)
theory Vstr_Vers
  imports Vstr_Cmp
begin

text \<open>
  Comparing strings as versions (src/vstr_cmp.c): \<^verbatim>\<open>vstr_cmp_vers()\<close> and \<^verbatim>\<open>vstr_cmp_vers_buf()\<close> walk two strings in
  pieces with a small state machine that is carried from piece to piece. The reference definition runs the same machine over
  one position at a time; on decimal numbers it compares their values.
\<close>

section \<open>Comparing versions\<close>

text \<open>
  \<^verbatim>\<open>vstr_cmp_vers()\<close> compares runs of digits as numbers, or as the digits of a fraction when they start with a zero.
  The state survives from one piece to the next: \<^verbatim>\<open>VSTR__CMP_LEN_POS\<close> and \<^verbatim>\<open>VSTR__CMP_LEN_NEG\<close> are the states behind the
  first difference inside a run of digits, where the longer run decides.
\<close>

datatype cmp_state = CMP_NORM | CMP_NUMB | CMP_FRAC | CMP_LEN_POS | CMP_LEN_NEG | CMP_DONE

definition main_loop :: "cmp_state \<Rightarrow> bool" where
  "main_loop st \<longleftrightarrow> st \<in> {CMP_NORM, CMP_NUMB, CMP_FRAC}"

text \<open>The switch of the first loop, at a character both strings share.\<close>

definition vers_same :: "cmp_state \<Rightarrow> byte \<Rightarrow> cmp_state" where
  "vers_same st c =
     (case st of
        CMP_NORM \<Rightarrow> if c = 0x30 then CMP_FRAC else if IS_ASCII_DIGIT c then CMP_NUMB else CMP_NORM
      | CMP_FRAC \<Rightarrow> if \<not> IS_ASCII_DIGIT c then CMP_NORM else if c \<noteq> 0x30 then CMP_NUMB else CMP_FRAC
      | _ \<Rightarrow> if \<not> IS_ASCII_DIGIT c then CMP_NORM else st)"

fun vers_main_loop :: "byte list \<Rightarrow> byte list \<Rightarrow> nat \<Rightarrow> cmp_state \<Rightarrow> byte list \<times> byte list \<times> nat \<times> cmp_state" where
  "vers_main_loop (a # as) (b # bs) (Suc len) st =
     (if main_loop st \<and> a = b then vers_main_loop as bs len (vers_same st a) else (a # as, b # bs, Suc len, st))"
| "vers_main_loop as bs len st = (as, bs, len, st)"

text \<open>The state behind the first difference.\<close>

definition vers_diff :: "cmp_state \<Rightarrow> byte \<Rightarrow> byte \<Rightarrow> cmp_state" where
  "vers_diff st a b =
     (let st1 = (case st of
            CMP_NORM \<Rightarrow> if IS_ASCII_DIGIT a \<and> a \<noteq> 0x30 \<and> IS_ASCII_DIGIT b \<and> b \<noteq> 0x30 then CMP_NUMB else CMP_NORM
          | _ \<Rightarrow> if \<not> IS_ASCII_DIGIT a \<and> \<not> IS_ASCII_DIGIT b then CMP_NORM else st)
      in if st1 = CMP_NORM then CMP_DONE else if st1 = CMP_NUMB then CMP_LEN_POS else CMP_LEN_NEG)"

text \<open>The second loop, over digits both strings have.\<close>

fun vers_digits_loop :: "byte list \<Rightarrow> byte list \<Rightarrow> nat \<Rightarrow> byte list \<times> byte list \<times> nat" where
  "vers_digits_loop (a # as) (b # bs) (Suc len) =
     (if IS_ASCII_DIGIT a \<and> IS_ASCII_DIGIT b then vers_digits_loop as bs len else (a # as, b # bs, Suc len))"
| "vers_digits_loop as bs len = (as, bs, len)"

text \<open>
  \<^verbatim>\<open>vstr__cmp_vers()\<close>. The characters are compared as \<^verbatim>\<open>char\<close>, which is signed here. The numbers of the two states
  (4 and 8) give the value stored for the longer run of digits.
\<close>

definition vers_longer :: "cmp_state \<Rightarrow> byte \<Rightarrow> byte \<Rightarrow> int \<Rightarrow> int" where
  "vers_longer st a b diff =
     (let v = (if st = CMP_LEN_POS then 4 else 8) in
      if IS_ASCII_DIGIT b then v - 4 - 1 else if IS_ASCII_DIGIT a then (- v) + 4 + 1 else diff)"

definition vstr__cmp_vers :: "byte list \<Rightarrow> byte list \<Rightarrow> nat \<Rightarrow> cmp_state \<Rightarrow> int \<Rightarrow> cmp_state \<times> int" where
  "vstr__cmp_vers s1 s2 len state difference =
     (case vers_main_loop s1 s2 len state of (as, bs, l, st) \<Rightarrow>
        let (st1, d1) = (if main_loop st \<and> l \<noteq> 0 then (vers_diff st (hd as) (hd bs), sint (hd as) - sint (hd bs))
                         else (st, difference))
        in if st1 = CMP_DONE \<or> main_loop st1 then (st1, d1)
           else (case vers_digits_loop as bs l of (as', bs', l') \<Rightarrow>
                   if l' \<noteq> 0 then (CMP_DONE, vers_longer st1 (hd as') (hd bs') d1) else (st1, d1)))"

definition scan_1_longer :: "cmp_state \<Rightarrow> int" where
  "scan_1_longer st = (if st = CMP_FRAC \<or> st = CMP_LEN_NEG then -1 else 1)"

definition scan_2_longer :: "cmp_state \<Rightarrow> int" where
  "scan_2_longer st = (if st = CMP_FRAC \<or> st = CMP_LEN_NEG then 1 else -1)"

function cmp_vers_loop :: "cmp_state \<Rightarrow> int \<Rightarrow> vstr_iter \<Rightarrow> vstr_iter \<Rightarrow> int" where
  "cmp_vers_loop state ret iter1 iter2 =
     (let tmp = (if iter_len iter1 > iter_len iter2 then iter_len iter2 else iter_len iter1) in
      if iter_ptr iter1 \<noteq> None \<and> iter_ptr iter2 = None then scan_1_longer state
      else if iter_ptr iter1 = None \<and> iter_ptr iter2 \<noteq> None then scan_2_longer state
      else
        let (state', ret') = (if iter_ptr iter1 \<noteq> None
              then vstr__cmp_vers (the (iter_ptr iter1)) (the (iter_ptr iter2)) tmp state ret else (state, ret))
        in if state' = CMP_DONE then ret'
           else (case iter_more (iter_skip tmp iter1) of
                   (False, it1) \<Rightarrow> if vstr_iter_len (iter_skip tmp iter2) \<noteq> 0 then scan_2_longer state' else ret'
                 | (True, it1) \<Rightarrow>
                     (case iter_more (iter_skip tmp iter2) of
                        (False, it2) \<Rightarrow> scan_1_longer state'
                      | (True, it2) \<Rightarrow> cmp_vers_loop state' ret' it1 it2)))"
  by pat_completeness auto
termination
proof (relation "measure (\<lambda>(_, _, it1, it2). length (iter_node it1) + length (iter_node it2))", goal_cases)
  case (2 state ret iter1 iter2 tmp)
  then show ?case using more_both_shorter [of tmp iter1 _ iter2] by (simp split: if_splits)
qed simp

declare cmp_vers_loop.simps [simp del]

definition vstr_cmp_vers ::
    "vstr_base \<Rightarrow> nat \<Rightarrow> nat \<Rightarrow> vstr_base \<Rightarrow> nat \<Rightarrow> nat \<Rightarrow> int \<times> vstr_base \<times> vstr_base" where
  "vstr_cmp_vers = cmp_double (cmp_vers_loop CMP_NORM 0)"

function cmp_vers_buf_loop :: "cmp_state \<Rightarrow> int \<Rightarrow> vstr_iter \<Rightarrow> byte list option \<Rightarrow> nat \<Rightarrow> int" where
  "cmp_vers_buf_loop state ret iter buf buf_len =
     (let it = (if iter_len iter > buf_len
                then iter\<lparr>iter_len := buf_len, iter_remaining := iter_remaining iter + 1\<rparr> else iter) in
      if iter_ptr it = None \<and> buf \<noteq> None then scan_2_longer state
      else if iter_ptr it \<noteq> None \<and> buf = None then scan_1_longer state
      else
        let (state', ret') = (if buf \<noteq> None
              then vstr__cmp_vers (the (iter_ptr it)) (the buf) (iter_len it) state ret else (state, ret));
            left = buf_len - iter_len it
        in if state' = CMP_DONE then ret'
           else (case (if left \<noteq> 0 then vstr_iter_fwd_nxt it else (False, it)) of
                   (True, it') \<Rightarrow> cmp_vers_buf_loop state' ret' it' (map_option (drop (iter_len it)) buf) left
                 | (False, it') \<Rightarrow>
                     if iter_remaining it' \<noteq> 0 then scan_1_longer state'
                     else if left \<noteq> 0 then scan_2_longer state' else ret'))"
  by pat_completeness auto
termination
proof (relation "measure (\<lambda>(_, _, it, _). length (iter_node it))", goal_cases)
  case (2 state ret iter buf buf_len it x st' ret' left ok it')
  then have "vstr_iter_fwd_nxt it = (True, it')" "iter_node it = iter_node iter" by (auto split: if_splits)
  then show ?case using nxt_shorter [of it it'] by simp
qed simp

declare cmp_vers_buf_loop.simps [simp del]

definition vstr_cmp_vers_buf :: "vstr_base \<Rightarrow> nat \<Rightarrow> nat \<Rightarrow> byte list option \<Rightarrow> nat \<Rightarrow> int \<times> vstr_base" where
  "vstr_cmp_vers_buf = cmp_single (cmp_vers_buf_loop CMP_NORM 0)"

section \<open>Versions, character by character\<close>

text \<open>The reference: one step per position, with no regard to pieces.\<close>

definition vers_tail :: "cmp_state \<Rightarrow> int \<Rightarrow> byte \<Rightarrow> byte \<Rightarrow> cmp_state \<times> int" where
  "vers_tail st d a b = (if IS_ASCII_DIGIT a \<and> IS_ASCII_DIGIT b then (st, d) else (CMP_DONE, vers_longer st a b d))"

definition vers_char :: "cmp_state \<Rightarrow> int \<Rightarrow> byte \<Rightarrow> byte \<Rightarrow> cmp_state \<times> int" where
  "vers_char st d a b =
     (if \<not> main_loop st then vers_tail st d a b
      else if a = b then (vers_same st a, d)
      else let d1 = sint a - sint b in
        if vers_diff st a b = CMP_DONE then (CMP_DONE, d1) else vers_tail (vers_diff st a b) d1 a b)"

fun vers_ref :: "cmp_state \<Rightarrow> int \<Rightarrow> content \<Rightarrow> content \<Rightarrow> int" where
  "vers_ref st d [] [] = d"
| "vers_ref st d (x # xs) [] = scan_1_longer st"
| "vers_ref st d [] (y # ys) = scan_2_longer st"
| "vers_ref st d (Some a # xs) (None # ys) = scan_1_longer st"
| "vers_ref st d (None # xs) (Some b # ys) = scan_2_longer st"
| "vers_ref st d (None # xs) (None # ys) = vers_ref st d xs ys"
| "vers_ref st d (Some a # xs) (Some b # ys) =
     (case vers_char st d a b of (st', d') \<Rightarrow> if st' = CMP_DONE then d' else vers_ref st' d' xs ys)"

fun vers_run :: "cmp_state \<Rightarrow> int \<Rightarrow> byte list \<Rightarrow> byte list \<Rightarrow> cmp_state \<times> int" where
  "vers_run st d (a # as) (b # bs) =
     (case vers_char st d a b of (st', d') \<Rightarrow> if st' = CMP_DONE then (CMP_DONE, d') else vers_run st' d' as bs)"
| "vers_run st d _ _ = (st, d)"

lemma vers_digits_run:
  assumes "len \<le> length as" "len \<le> length bs" "\<not> main_loop st" "st \<noteq> CMP_DONE"
  shows "(case vers_digits_loop as bs len of (as', bs', l') \<Rightarrow>
      if l' \<noteq> 0 then (CMP_DONE, vers_longer st (hd as') (hd bs') d) else (st, d)) = vers_run st d (take len as) (take len bs)"
  using assms by (induction as bs len rule: vers_digits_loop.induct) (auto simp: vers_char_def vers_tail_def)

lemma vers_same_main: "main_loop st \<Longrightarrow> main_loop (vers_same st c)"
  by (auto simp: main_loop_def vers_same_def)

lemma vers_diff_not_main: "\<not> main_loop (vers_diff st a b)"
  by (simp add: main_loop_def vers_diff_def Let_def)

lemma cmp_vers_run:
  assumes "len \<le> length as" "len \<le> length bs" "st \<noteq> CMP_DONE"
  shows "vstr__cmp_vers as bs len st d = vers_run st d (take len as) (take len bs)"
  using assms
proof (induction as bs len st rule: vers_main_loop.induct)
  case (1 a as b bs len st)
  show ?case
  proof (cases "main_loop st")
    case main: True
    show ?thesis
    proof (cases "a = b")
      case True
      then have "vstr__cmp_vers (a # as) (b # bs) (Suc len) st d = vstr__cmp_vers as bs len (vers_same st a) d"
        using main by (simp add: vstr__cmp_vers_def)
      moreover have "vers_same st a \<noteq> CMP_DONE" using vers_same_main [OF main, of a] by (auto simp: main_loop_def)
      ultimately show ?thesis using "1.IH" "1.prems" main True by (simp add: vers_char_def)
    next
      case False
      let ?st = "vers_diff st a b"
      show ?thesis
      proof (cases "?st = CMP_DONE")
        case True
        then show ?thesis using main False by (simp add: vstr__cmp_vers_def vers_char_def)
      next
        case nd: False
        then have "vstr__cmp_vers (a # as) (b # bs) (Suc len) st d = vers_run ?st (sint a - sint b) (a # take len as) (b # take len bs)"
          using main False vers_diff_not_main [of st a b] "1.prems"
            vers_digits_run [of "Suc len" "a # as" "b # bs" ?st "sint a - sint b"]
          by (simp add: vstr__cmp_vers_def del: vers_run.simps vers_digits_loop.simps)
        then show ?thesis using main False nd vers_diff_not_main [of st a b] by (simp add: vers_char_def Let_def)
      qed
    qed
  next
    case False
    then show ?thesis
      using vers_digits_run [of "Suc len" "a # as" "b # bs" st d] "1.prems"
      by (simp add: vstr__cmp_vers_def del: vers_run.simps vers_digits_loop.simps)
  qed
qed (auto simp: vstr__cmp_vers_def)

lemma vers_ref_run:
  assumes "length as = length bs" "st \<noteq> CMP_DONE"
  shows "vers_ref st d (map Some as @ xs) (map Some bs @ ys) =
    (case vers_run st d as bs of (st', d') \<Rightarrow> if st' = CMP_DONE then d' else vers_ref st' d' xs ys)"
  using assms by (induction st d as bs rule: vers_run.induct) (auto split: prod.splits)

lemma vers_ref_none: "vers_ref st d (replicate k None @ xs) (replicate k None @ ys) = vers_ref st d xs ys"
  by (induction k) simp_all

text \<open>One turn of the loops.\<close>

definition vers_turn :: "cmp_state \<Rightarrow> int \<Rightarrow> byte list option \<Rightarrow> byte list option \<Rightarrow> nat \<Rightarrow> (cmp_state \<Rightarrow> int \<Rightarrow> int) \<Rightarrow> int" where
  "vers_turn st d p1 p2 k go =
     (if p1 \<noteq> None \<and> p2 = None then scan_1_longer st
      else if p1 = None \<and> p2 \<noteq> None then scan_2_longer st
      else let (st', d') = (if p1 \<noteq> None then vstr__cmp_vers (the p1) (the p2) k st d else (st, d))
           in if st' = CMP_DONE then d' else go st' d')"

lemma vers_turn_ref:
  assumes "buf_holds p1 k" "buf_holds p2 k" "0 < k" "st \<noteq> CMP_DONE"
  shows "vers_ref st d (buf_content p1 k @ xs) (buf_content p2 k @ ys) =
    vers_turn st d p1 p2 k (\<lambda>st' d'. vers_ref st' d' xs ys)"
proof -
  obtain k' where k': "k = Suc k'" using assms(3) by (cases k) auto
  show ?thesis
  proof (cases p1; cases p2)
    fix a b
    assume "p1 = Some a" "p2 = Some b"
    then show ?thesis
      using vers_ref_run [of "take k a" "take k b" st d xs ys] cmp_vers_run [of k a b st d] assms
      by (simp add: buf_content_def buf_holds_def vers_turn_def Let_def)
  next
    fix a
    assume p: "p1 = Some a" "p2 = None"
    then obtain x t where "a = x # t" using assms(1,3) by (cases a) (auto simp: buf_holds_def)
    then show ?thesis using p by (simp add: buf_content_def k' vers_turn_def)
  next
    fix b
    assume p: "p1 = None" "p2 = Some b"
    then obtain x t where "b = x # t" using assms(2,3) by (cases b) (auto simp: buf_holds_def)
    then show ?thesis using p by (simp add: buf_content_def k' vers_turn_def)
  qed (use assms(4) in \<open>simp add: buf_content_def vers_ref_none vers_turn_def\<close>)
qed

lemma vers_turn_cong:
  assumes "st \<noteq> CMP_DONE" "\<And>st' d'. st' \<noteq> CMP_DONE \<Longrightarrow>
      (st', d') = (if p1 \<noteq> None then vstr__cmp_vers (the p1) (the p2) k st d else (st, d)) \<Longrightarrow>
      \<not> (p1 \<noteq> None \<and> p2 = None) \<Longrightarrow> \<not> (p1 = None \<and> p2 \<noteq> None) \<Longrightarrow> f st' d' = g st' d'"
  shows "vers_turn st d p1 p2 k f = vers_turn st d p1 p2 k g"
  using assms unfolding vers_turn_def by (auto split: prod.splits)

lemma vers_ref_Nil: "vers_ref st d [] ys = (if ys = [] then d else scan_2_longer st)"
  "xs \<noteq> [] \<Longrightarrow> vers_ref st d xs [] = scan_1_longer st"
  by (cases ys; simp) (cases xs; simp)

lemma cmp_vers_loop_ref:
  assumes "iter_inv i1" "iter_inv i2" "iter_len i1 \<noteq> 0" "iter_len i2 \<noteq> 0" "st \<noteq> CMP_DONE"
  shows "cmp_vers_loop st d i1 i2 = vers_ref st d (iter_rest i1) (iter_rest i2)"
  using assms
proof (induction st d i1 i2 rule: cmp_vers_loop.induct)
  case (1 st d i1 i2)
  define tmp where "tmp = (if iter_len i1 > iter_len i2 then iter_len i2 else iter_len i1)"
  let ?go = "\<lambda>st' d'. case iter_more (iter_skip tmp i1) of
      (False, it1) \<Rightarrow> if vstr_iter_len (iter_skip tmp i2) \<noteq> 0 then scan_2_longer st' else d'
    | (True, it1) \<Rightarrow> (case iter_more (iter_skip tmp i2) of (False, it2) \<Rightarrow> scan_1_longer st'
        | (True, it2) \<Rightarrow> cmp_vers_loop st' d' it1 it2)"
  have tmp: "0 < tmp" "tmp \<le> iter_len i1" "tmp \<le> iter_len i2" using "1.prems"(3,4) by (auto simp: tmp_def)
  note s1 = iter_skip_spec [OF "1.prems"(1) tmp(2)] and s2 = iter_skip_spec [OF "1.prems"(2) tmp(3)]
  have "cmp_vers_loop st d i1 i2 = vers_turn st d (iter_ptr i1) (iter_ptr i2) tmp ?go"
    unfolding cmp_vers_loop.simps [of st d i1 i2] tmp_def [symmetric] vers_turn_def Let_def ..
  also have "\<dots> = vers_turn st d (iter_ptr i1) (iter_ptr i2) tmp
      (\<lambda>st' d'. vers_ref st' d' (iter_rest (iter_skip tmp i1)) (iter_rest (iter_skip tmp i2)))"
    using "1.prems"(5)
  proof (rule vers_turn_cong)
    fix st' d'
    assume nd: "st' \<noteq> CMP_DONE" and st': "\<not> (iter_ptr i1 \<noteq> None \<and> iter_ptr i2 = None)" "\<not> (iter_ptr i1 = None \<and> iter_ptr i2 \<noteq> None)"
      "(st', d') = (if iter_ptr i1 \<noteq> None then vstr__cmp_vers (the (iter_ptr i1)) (the (iter_ptr i2)) tmp st d else (st, d))"
    show "?go st' d' = vers_ref st' d' (iter_rest (iter_skip tmp i1)) (iter_rest (iter_skip tmp i2))"
      using s1(1)
    proof (cases rule: iter_more_cases)
      case (fin j)
      then show ?thesis using iter_rest_length [OF s2(1)] by (auto simp: vers_ref_Nil)
    next
      case more1: (more j1)
      show ?thesis using s2(1)
      proof (cases rule: iter_more_cases)
        case (fin j)
        then show ?thesis using more1 iter_rest_nonempty [OF more1(2,4)] by (simp add: vers_ref_Nil)
      next
        case more2: (more j2)
        show ?thesis
          using "1.IH" [OF tmp_def st'(1,2,3) refl nd more1(1) [symmetric] refl more2(1) [symmetric] refl]
            more1 more2 nd by simp
      qed
    qed
  qed
  also have "\<dots> = vers_ref st d (iter_rest i1) (iter_rest i2)"
    unfolding iter_rest_split [OF "1.prems"(1) tmp(2)] iter_rest_split [OF "1.prems"(2) tmp(3)]
    by (rule vers_turn_ref [symmetric])
      (use iter_rest_take(2) [OF "1.prems"(1) tmp(2)] iter_rest_take(2) [OF "1.prems"(2) tmp(3)] tmp "1.prems"(5) in simp_all)
  finally show ?case .
qed

lemma cmp_vers_buf_loop_ref:
  assumes "iter_inv it" "iter_len it \<noteq> 0" "n \<noteq> 0" "buf_holds buf n" "st \<noteq> CMP_DONE"
  shows "cmp_vers_buf_loop st d it buf n = vers_ref st d (iter_rest it) (buf_content buf n)"
  using assms
proof (induction st d it buf n rule: cmp_vers_buf_loop.induct)
  case (1 st d it buf n)
  define i1 where "i1 = (if iter_len it > n then it\<lparr>iter_len := n, iter_remaining := iter_remaining it + 1\<rparr> else it)"
  define k where "k = iter_len i1"
  define buf1 where "buf1 = map_option (drop k) buf"
  let ?go = "\<lambda>st' d'. case (if n - k \<noteq> 0 then vstr_iter_fwd_nxt i1 else (False, i1)) of
      (True, it') \<Rightarrow> cmp_vers_buf_loop st' d' it' buf1 (n - k)
    | (False, it') \<Rightarrow> if iter_remaining it' \<noteq> 0 then scan_1_longer st'
        else if n - k \<noteq> 0 then scan_2_longer st' else d'"
  have k: "0 < k" "k \<le> iter_len it" "k \<le> n" and ptr: "iter_ptr i1 = iter_ptr it"
    using "1.prems"(2,3) by (auto simp: i1_def k_def)
  have bk: "buf_holds buf k" "buf_holds buf1 (n - k)"
    using "1.prems"(4) k(3) by (auto simp: buf_holds_def buf1_def split: option.splits)
  have rl: "length (iter_rest it) = vstr_iter_len it" by (rule iter_rest_length [OF "1.prems"(1)])
  have b0: "buf_content buf1 0 = []" by (simp add: buf_content_def split: option.split)
  have sk: "iter_rest (iter_skip k it) = drop k (iter_rest it)" by (rule iter_skip_spec(2) [OF "1.prems"(1) k(2)])
  have "cmp_vers_buf_loop st d it buf n = vers_turn st d (iter_ptr i1) buf k ?go"
    unfolding cmp_vers_buf_loop.simps [of st d it buf n] i1_def [symmetric] k_def [symmetric] buf1_def [symmetric] vers_turn_def Let_def
    by (auto simp: k_def buf1_def)
  also have "\<dots> = vers_turn st d (iter_ptr i1) buf k (\<lambda>st' d'. vers_ref st' d' (iter_rest (iter_skip k it)) (buf_content buf1 (n - k)))"
    using "1.prems"(5)
  proof (rule vers_turn_cong)
    fix st' d'
    assume nd: "st' \<noteq> CMP_DONE" and st': "\<not> (iter_ptr i1 \<noteq> None \<and> buf = None)" "\<not> (iter_ptr i1 = None \<and> buf \<noteq> None)"
      "(st', d') = (if iter_ptr i1 \<noteq> None then vstr__cmp_vers (the (iter_ptr i1)) (the buf) k st d else (st, d))"
    show "?go st' d' = vers_ref st' d' (iter_rest (iter_skip k it)) (buf_content buf1 (n - k))"
    proof (cases "iter_len it > n")
      case True
      then have "k = n" "iter_remaining i1 \<noteq> 0" "drop k (iter_rest it) \<noteq> []"
        using rl by (auto simp: i1_def k_def vstr_iter_len_def)
      then show ?thesis using b0 sk by (simp add: vers_ref_Nil)
    next
      case False
      then have i1: "i1 = it" "k = iter_len it" by (simp_all add: i1_def k_def)
      have dk: "length (drop k (iter_rest it)) = iter_remaining it" using rl i1 by (simp add: vstr_iter_len_def)
      obtain ok j where nx: "vstr_iter_fwd_nxt it = (ok, j)" by (cases "vstr_iter_fwd_nxt it")
      note nr = nxt_rest [OF "1.prems"(1), unfolded nx, folded i1(2)]
      have ne: "buf_content buf1 (n - k) \<noteq> [] \<longleftrightarrow> n - k \<noteq> 0" using buf_content_length [OF bk(2)] by (metis length_0_conv)
      have IH: "cmp_vers_buf_loop st' d' j buf1 (n - k) = vers_ref st' d' (iter_rest j) (buf_content buf1 (n - k))"
        if "n - k \<noteq> 0" "ok"
        using "1.IH" [OF i1_def, of "(st', d')" st' d' "n - k" True j] st' nd that nx nr bk i1 by (auto simp: k_def buf1_def)
      show ?thesis
      proof (cases "n - k = 0")
        case True
        then show ?thesis using b0 sk dk i1 by (auto simp: vers_ref_Nil)
      next
        case nk: False
        then show ?thesis using nx nr ne sk IH i1 by (cases ok) (simp_all add: vers_ref_Nil)
      qed
    qed
  qed
  also have "\<dots> = vers_ref st d (iter_rest it) (buf_content buf n)"
  proof -
    have "buf_content buf n = buf_content buf k @ buf_content buf1 (n - k)"
      using buf_content_take [OF k(3), of buf] buf_content_drop [of k buf n] by (metis append_take_drop_id buf1_def)
    then show ?thesis
      using vers_turn_ref [OF _ bk(1) k(1) "1.prems"(5)] iter_rest_take(2) [OF "1.prems"(1) k(2)] iter_rest_split [OF "1.prems"(1) k(2)]
      by (simp add: ptr)
  qed
  finally show ?case .
qed

section \<open>Versions and numbers\<close>

text \<open>The number a string of decimal digits stands for.\<close>

primrec dec_value :: "byte list \<Rightarrow> int" where
  "dec_value [] = 0"
| "dec_value (a # as) = (uint a - 0x30) * 10 ^ length as + dec_value as"

lemma digit_range:
  assumes "IS_ASCII_DIGIT a"
  shows "0x30 \<le> uint a" "uint a \<le> 0x39" "sint a = uint a"
proof -
  show u: "0x30 \<le> uint a" "uint a \<le> 0x39" using assms by (simp_all add: IS_ASCII_DIGIT_def word_le_def)
  then show "sint a = uint a" by (simp add: sint_uint signed_take_bit_int_eq_self)
qed

lemma digit_eq: "uint a = 0x30 \<longleftrightarrow> a = 0x30" for a :: byte
  by (simp add: word_uint_eq_iff)

lemma dec_value_bounds:
  "\<forall>a \<in> set as. IS_ASCII_DIGIT a \<Longrightarrow> 0 \<le> dec_value as \<and> dec_value as < 10 ^ length as"
proof (induction as)
  case (Cons a as)
  then have d: "0 \<le> uint a - 0x30" "uint a - 0x30 \<le> 9" using digit_range [of a] by auto
  have "0 \<le> (uint a - 0x30) * 10 ^ length as" using d(1) by simp
  moreover have "(uint a - 0x30) * 10 ^ length as \<le> 9 * 10 ^ length as" using d(2) by (intro mult_right_mono) auto
  moreover have "0 \<le> dec_value as" "dec_value as < 10 ^ length as" using Cons by simp_all
  ultimately show ?case unfolding dec_value.simps length_Cons power_Suc by linarith
qed simp

text \<open>Behind a difference between two digits, the longer run decides, then the difference.\<close>

lemma vers_len_pos:
  assumes "\<forall>a \<in> set as. IS_ASCII_DIGIT a" "\<forall>b \<in> set bs. IS_ASCII_DIGIT b"
  shows "vers_ref CMP_LEN_POS d (map Some as) (map Some bs) =
    (if length as = length bs then d else if length as > length bs then 1 else -1)"
  using assms
proof (induction as arbitrary: bs)
  case Nil
  then show ?case by (cases bs) (simp_all add: scan_2_longer_def)
next
  case (Cons a as)
  then show ?case
    by (cases bs) (auto simp: scan_1_longer_def vers_char_def main_loop_def vers_tail_def)
qed

lemma vers_numb_step:
  assumes "IS_ASCII_DIGIT a" "IS_ASCII_DIGIT b"
  shows "vers_ref CMP_NUMB 0 (Some a # xs) (Some b # ys) =
    (if a = b then vers_ref CMP_NUMB 0 xs ys else vers_ref CMP_LEN_POS (uint a - uint b) xs ys)"
  using assms digit_range [OF assms(1)] digit_range [OF assms(2)]
  by (simp add: vers_char_def main_loop_def vers_same_def vers_diff_def vers_tail_def Let_def)

lemma vers_numb_length:
  assumes "\<forall>a \<in> set as. IS_ASCII_DIGIT a" "\<forall>b \<in> set bs. IS_ASCII_DIGIT b" "length as \<noteq> length bs"
  shows "vers_ref CMP_NUMB 0 (map Some as) (map Some bs) = (if length as > length bs then 1 else -1)"
  using assms
proof (induction as arbitrary: bs)
  case Nil
  then show ?case by (cases bs) (simp_all add: scan_2_longer_def)
next
  case (Cons a as)
  show ?case
  proof (cases bs)
    case (Cons b bs')
    then show ?thesis using Cons.IH [of bs'] Cons.prems vers_numb_step [of a b] vers_len_pos [of as bs'] by auto
  qed (simp add: scan_1_longer_def)
qed

lemma vers_numb_value:
  assumes "\<forall>a \<in> set as. IS_ASCII_DIGIT a" "\<forall>b \<in> set bs. IS_ASCII_DIGIT b" "length as = length bs"
  shows "sgn (vers_ref CMP_NUMB 0 (map Some as) (map Some bs)) = sgn (dec_value as - dec_value bs)"
  using assms
proof (induction as arbitrary: bs)
  case (Cons a as)
  then obtain b bs' where bs: "bs = b # bs'" "length as = length bs'" by (cases bs) auto
  show ?case
  proof (cases "a = b")
    case True
    then show ?thesis using Cons bs vers_numb_step [of a b] by simp
  next
    case False
    then have ne: "uint a \<noteq> uint b" by (simp add: word_uint_eq_iff)
    have r: "vers_ref CMP_NUMB 0 (map Some (a # as)) (map Some bs) = uint a - uint b"
      using False Cons.prems bs vers_numb_step [of a b] vers_len_pos [of as bs'] by simp
    have bd: "0 \<le> dec_value as" "dec_value as < 10 ^ length as" "0 \<le> dec_value bs'" "dec_value bs' < 10 ^ length as"
      using dec_value_bounds [of as] dec_value_bounds [of bs'] Cons.prems bs by auto
    have v: "dec_value (a # as) - dec_value bs = (uint a - uint b) * 10 ^ length as + (dec_value as - dec_value bs')"
      using bs by (simp add: algebra_simps)
    have "sgn ((uint a - uint b) * 10 ^ length as + (dec_value as - dec_value bs')) = sgn (uint a - uint b)"
    proof (cases "uint a > uint b")
      case True
      then have "1 * 10 ^ length as \<le> (uint a - uint b) * 10 ^ length as" by (intro mult_right_mono) auto
      then have "0 < (uint a - uint b) * 10 ^ length as + (dec_value as - dec_value bs')" using bd by linarith
      then show ?thesis using True by simp
    next
      case False
      then have "(uint a - uint b) * 10 ^ length as \<le> (-1) * 10 ^ length as" using ne by (intro mult_right_mono) auto
      then have "(uint a - uint b) * 10 ^ length as + (dec_value as - dec_value bs') < 0" using bd by linarith
      then show ?thesis using False ne by simp
    qed
    then show ?thesis unfolding r v by (rule sym)
  qed
qed simp

text \<open>Numbers without leading zeros.\<close>

definition is_number :: "byte list \<Rightarrow> bool" where
  "is_number as \<longleftrightarrow> as \<noteq> [] \<and> hd as \<noteq> 0x30 \<and> (\<forall>a \<in> set as. IS_ASCII_DIGIT a)"

lemma number_lower: "is_number as \<Longrightarrow> 10 ^ (length as - 1) \<le> dec_value as"
proof (cases as)
  case (Cons a as')
  assume n: "is_number as"
  then have "0x31 \<le> uint a" using Cons digit_range(1) [of a] digit_eq [of a] by (auto simp: is_number_def)
  then have "1 * 10 ^ length as' \<le> (uint a - 0x30) * 10 ^ length as'" by (intro mult_right_mono) auto
  moreover have "0 \<le> dec_value as'" using Cons n dec_value_bounds [of as'] by (simp add: is_number_def)
  ultimately have "10 ^ length as' \<le> (uint a - 0x30) * 10 ^ length as' + dec_value as'" by linarith
  then show ?thesis by (simp add: Cons)
qed (simp add: is_number_def)

lemma longer_number:
  assumes "is_number as" "\<forall>b \<in> set bs. IS_ASCII_DIGIT b" "length bs < length as"
  shows "dec_value bs < dec_value as"
proof -
  have "(10::int) ^ length bs \<le> 10 ^ (length as - 1)" using assms(3) by (intro power_increasing) auto
  then show ?thesis using number_lower [OF assms(1)] dec_value_bounds [OF assms(2)] by linarith
qed

lemma vers_numbers:
  assumes "is_number as" "is_number bs"
  shows "sgn (vers_ref CMP_NORM 0 (map Some as) (map Some bs)) = sgn (dec_value as - dec_value bs)"
proof -
  obtain a as' b bs' where ab: "as = a # as'" "bs = b # bs'" using assms by (auto simp: is_number_def neq_Nil_conv)
  have "vers_ref CMP_NORM 0 (map Some as) (map Some bs) = vers_ref CMP_NUMB 0 (map Some as) (map Some bs)"
    using assms by (simp add: ab is_number_def vers_char_def main_loop_def vers_same_def vers_diff_def vers_tail_def Let_def)
  moreover have d: "\<forall>a \<in> set as. IS_ASCII_DIGIT a" "\<forall>b \<in> set bs. IS_ASCII_DIGIT b" using assms by (simp_all add: is_number_def)
  moreover have "sgn (vers_ref CMP_NUMB 0 (map Some as) (map Some bs)) = sgn (dec_value as - dec_value bs)" if "length as \<noteq> length bs"
    using vers_numb_length [OF d that] longer_number [OF assms(1) d(2)] longer_number [OF assms(2) d(1)] that by (cases "length as < length bs") auto
  ultimately show ?thesis using vers_numb_value [of as bs] by metis
qed

lemma scan_longer_norm: "scan_1_longer CMP_NORM = 1" "scan_2_longer CMP_NORM = -1"
  by (simp_all add: scan_1_longer_def scan_2_longer_def)

lemma cmp_vers_double_ref:
  assumes "in_range b1 p1 l1" "in_range b2 p2 l2"
  shows "fst (vstr_cmp_vers b1 p1 l1 b2 p2 l2) = vers_ref CMP_NORM 0 (range_data b1 p1 l1) (range_data b2 p2 l2)"
  unfolding vstr_cmp_vers_def cmp_double_def
  using range_data_Nil [OF assms(1)] range_data_Nil [OF assms(2)]
  by - (rule fwd_beg_range [OF assms(1)]; rule fwd_beg_range [OF assms(2)]; simp add: vers_ref_Nil scan_longer_norm cmp_vers_loop_ref)

section \<open>Properties\<close>



text \<open>
  C23. Versions are numbers. On ranges that hold decimal numbers without leading zeros, of any length,
  \<^verbatim>\<open>vstr_cmp_vers()\<close> compares the numbers.
\<close>

theorem vstr_cmp_vers_numbers:
  assumes "in_range b1 p1 l1" "in_range b2 p2 l2" "range_data b1 p1 l1 = map Some as" "range_data b2 p2 l2 = map Some bs"
    and "is_number as" "is_number bs"
  shows "sgn (fst (vstr_cmp_vers b1 p1 l1 b2 p2 l2)) = sgn (dec_value as - dec_value bs)"
  using vers_numbers [OF assms(5,6)] cmp_vers_double_ref [OF assms(1,2)] assms(3,4) by simp

theorem vstr_cmp_vers_numbers_witness:
  "sgn (fst (vstr_cmp_vers (ex_base [Node_buf 1 [0x39], Node_buf 2 [0x39]]) 1 2 (ex_base [Node_buf 1 [0x31, 0x30, 0x31]]) 1 3)) =
     sgn (99 - 101)"
proof -
  have "in_range (ex_base [Node_buf 1 [0x39], Node_buf 2 [0x39]]) 1 2" "in_range (ex_base [Node_buf 1 [0x31, 0x30, 0x31]]) 1 3"
    by (rule ex_base_range; auto simp: node_simps)+
  from vstr_cmp_vers_numbers [OF this, of "[0x39, 0x39]" "[0x31, 0x30, 0x31]"] show ?thesis
    by (simp add: node_simps is_number_def IS_ASCII_DIGIT_def)
qed

end
