(* ===== verification/Vstr_Parse.thy ===== *)
theory Vstr_Parse
  imports Vstr_Srch_Case Vstr_Vers
begin

text \<open>
  Parsing numbers: \<^verbatim>\<open>src/vstr_parse.c\<close> up to \<^verbatim>\<open>vstr_parse_uintmax()\<close>. The characters of the host are ASCII, \<^verbatim>\<open>short\<close>, \<^verbatim>\<open>int\<close>
  and \<^verbatim>\<open>long\<close> have 16, 32 and 64 bits. A result is the value, the length of the number and the error code.
\<close>

section \<open>Error codes and flags\<close>

datatype num_err = NUM_ERR_NONE | NUM_ERR_ONLY_S | NUM_ERR_ONLY_SPM | NUM_ERR_ONLY_SPMX | NUM_ERR_OOB | NUM_ERR_OVERFLOW
  | NUM_ERR_NEGATIVE | NUM_ERR_BEG_ZERO

type_synonym flags = "32 word"

definition MASK_PARSE_NUM_BASE :: flags where "MASK_PARSE_NUM_BASE = 63"

text \<open>The number of the bit of each flag \<^verbatim>\<open>VSTR_FLAG_PARSE_NUM_*\<close>.\<close>

abbreviation (input) NUM_LOCAL :: nat where "NUM_LOCAL \<equiv> 6"
abbreviation (input) NUM_SEP :: nat where "NUM_SEP \<equiv> 7"
abbreviation (input) NUM_OVERFLOW :: nat where "NUM_OVERFLOW \<equiv> 8"
abbreviation (input) NUM_SPACE :: nat where "NUM_SPACE \<equiv> 9"
abbreviation (input) NUM_NO_BEG_ZERO :: nat where "NUM_NO_BEG_ZERO \<equiv> 10"
abbreviation (input) NUM_NO_BEG_PM :: nat where "NUM_NO_BEG_PM \<equiv> 11"
abbreviation (input) NUM_NO_NEGATIVE :: nat where "NUM_NO_NEGATIVE \<equiv> 12"

section \<open>The start of a number\<close>

text \<open>
  What \<^verbatim>\<open>vstr__parse_num_beg()\<close> returns: the base of the number, or 0 for an error and 1 for a number that is already known to be 0; and
  what it stores through its pointers.
\<close>

record num_beg =
  nb_base :: nat
  nb_pos :: nat
  nb_len :: nat
  nb_neg :: bool
  nb_zeroed :: bool
  nb_err :: num_err

text \<open>Spaces, then a sign. The left value is the error.\<close>

definition num_space :: "vstr_base \<Rightarrow> nat \<Rightarrow> nat \<Rightarrow> flags \<Rightarrow> (num_err + nat \<times> nat) \<times> vstr_base" where
  "num_space base pos len flags =
     (if bit flags NUM_SPACE then
        (case vstr_spn_chrs_fwd base pos len (Some [0x20]) 1 of
           (tmp, b1) \<Rightarrow> (if tmp \<ge> len then Inl NUM_ERR_ONLY_S else Inr (pos + tmp, len - tmp), b1))
      else (Inr (pos, len), base))"

definition num_sign :: "vstr_base \<Rightarrow> nat \<Rightarrow> nat \<Rightarrow> flags \<Rightarrow> (num_err + bool \<times> nat \<times> nat) \<times> vstr_base" where
  "num_sign base pos len flags =
     (if bit flags NUM_NO_BEG_PM then (Inr (False, pos, len), base)
      else
        (case vstr_spn_chrs_fwd base pos len (Some [0x2D]) 1 of
           (tmp, b1) \<Rightarrow>
             if tmp > 1 then (Inl NUM_ERR_OOB, b1)
             else if tmp = 0 then
               (case vstr_spn_chrs_fwd b1 pos len (Some [0x2B]) 1 of
                  (tmp, b2) \<Rightarrow> (if tmp > 1 then Inl NUM_ERR_OOB else Inr (False, pos + tmp, len - tmp), b2))
             else (Inr (True, pos + tmp, len - tmp), b1)))"

text \<open>Leading zeros behind the prefix, if any: \<open>tmp\<close> of them.\<close>

definition num_zeros :: "num_beg \<Rightarrow> nat \<Rightarrow> flags \<Rightarrow> num_beg" where
  "num_zeros nb tmp flags =
     (if tmp \<noteq> 0 \<and> bit flags NUM_NO_BEG_ZERO then
        nb\<lparr>nb_base := 1, nb_len := nb_len nb - 1,
           nb_err := (if tmp \<noteq> 1 \<or> nb_len nb \<noteq> 1 then NUM_ERR_BEG_ZERO else nb_err nb)\<rparr>
      else if tmp = nb_len nb then nb\<lparr>nb_base := 1, nb_len := 0\<rparr>
      else nb\<lparr>nb_pos := nb_pos nb + tmp, nb_len := nb_len nb - tmp\<rparr>)"

text \<open>One of the two letters of a prefix behind a 0: more than one of them make it the number 0.\<close>

definition num_letter ::
    "vstr_base \<Rightarrow> num_beg \<Rightarrow> flags \<Rightarrow> byte list \<Rightarrow> nat \<Rightarrow> bool \<Rightarrow> num_beg option \<times> vstr_base" where
  "num_letter base nb flags letters new_base auto_base =
     (case vstr_spn_chrs_fwd base (nb_pos nb) (nb_len nb) (Some letters) 2 of
        (tmp, b1) \<Rightarrow>
          if tmp > 1 then (Some (nb\<lparr>nb_base := 1, nb_err := NUM_ERR_OOB\<rparr>), b1)
          else if tmp = 1 then
            let nb1 = nb\<lparr>nb_base := (if auto_base then new_base else nb_base nb), nb_pos := nb_pos nb + 1, nb_len := nb_len nb - 1\<rparr> in
            if nb_len nb1 = 0 then (Some (nb1\<lparr>nb_base := 0, nb_err := NUM_ERR_ONLY_SPMX\<rparr>), b1)
            else (case vstr_spn_chrs_fwd b1 (nb_pos nb1) (nb_len nb1) (Some [0x30]) 1 of
                    (tmp, b2) \<Rightarrow> (Some (num_zeros nb1 tmp flags), b2))
          else (None, b1))"

definition num_prefix :: "vstr_base \<Rightarrow> num_beg \<Rightarrow> flags \<Rightarrow> bool \<Rightarrow> num_beg \<times> vstr_base" where
  "num_prefix base nb0 flags auto_base =
     (case vstr_spn_chrs_fwd base (nb_pos nb0) (nb_len nb0) (Some [0x30]) 1 of
        (tmp, b1) \<Rightarrow>
          let nb = nb0\<lparr>nb_zeroed := tmp \<noteq> 0\<rparr> in
          if tmp = 1 \<and> (auto_base \<or> nb_base nb = 16 \<or> nb_base nb = 2) then
            if tmp = nb_len nb then (nb\<lparr>nb_base := 1, nb_len := 0\<rparr>, b1)
            else
              let nb1 = nb\<lparr>nb_pos := nb_pos nb + 1, nb_len := nb_len nb - 1\<rparr> in
              (case num_letter b1 nb1 flags [0x78, 0x58] 16 auto_base of
                 (Some r, b2) \<Rightarrow> (r, b2)
               | (None, b2) \<Rightarrow>
                   (case num_letter b2 nb1 flags [0x62, 0x42] 2 auto_base of
                      (Some r, b3) \<Rightarrow> (r, b3)
                    | (None, b3) \<Rightarrow> (num_zeros (if auto_base then nb1\<lparr>nb_base := 8\<rparr> else nb1) 0 flags, b3)))
          else if tmp \<noteq> 0 \<and> auto_base then (num_zeros (nb\<lparr>nb_base := 8\<rparr>) (tmp - 1) flags, b1)
          else (num_zeros (if auto_base then nb\<lparr>nb_base := 10\<rparr> else nb) tmp flags, b1))"

definition vstr__parse_num_beg :: "vstr_base \<Rightarrow> nat \<Rightarrow> nat \<Rightarrow> flags \<Rightarrow> num_beg \<times> vstr_base" where
  "vstr__parse_num_beg base pos len flags =
     (let base_flag = unat (and flags MASK_PARSE_NUM_BASE);
          auto_base = (base_flag = 0);
          num_base = (if base_flag > 36 then 36 else if base_flag = 1 then 2 else base_flag);
          nb = \<lparr>nb_base = 0, nb_pos = pos, nb_len = len, nb_neg = False, nb_zeroed = False, nb_err = NUM_ERR_NONE\<rparr>
      in case num_space base pos len flags of
           (Inl e, b1) \<Rightarrow> (nb\<lparr>nb_err := e\<rparr>, b1)
         | (Inr (pos1, len1), b1) \<Rightarrow>
             (case num_sign b1 pos1 len1 flags of
                (Inl e, b2) \<Rightarrow> (nb\<lparr>nb_err := e\<rparr>, b2)
              | (Inr (neg, pos2, len2), b2) \<Rightarrow>
                  if len2 = 0 then (nb\<lparr>nb_neg := neg, nb_err := NUM_ERR_ONLY_SPM\<rparr>, b2)
                  else num_prefix b2 (nb\<lparr>nb_base := num_base, nb_pos := pos2, nb_len := len2, nb_neg := neg\<rparr>) flags auto_base))"

section \<open>The digits\<close>

text \<open>
  The value of a digit, and \<^const>\<open>None\<close> for a character that ends the number (\<^verbatim>\<open>VSTR__PARSE_NUM_ASCII\<close> and the middle of
  \<^verbatim>\<open>VSTR__PARSE_NUM_LOOP_BEG\<close>). \<^verbatim>\<open>char\<close> is signed. With \<^verbatim>\<open>VSTR_FLAG_PARSE_NUM_LOCAL\<close> the letters are looked up in the alphabet of
  the host.
\<close>

definition local_let_low :: "byte list" where
  "local_let_low = map (\<lambda>i. of_nat (0x61 + i)) [0..<26]"

definition local_let_high :: "byte list" where
  "local_let_high = map (\<lambda>i. of_nat (0x41 + i)) [0..<26]"

definition num_digit :: "flags \<Rightarrow> nat \<Rightarrow> byte \<Rightarrow> nat option" where
  "num_digit flags num_base c =
     (let scan = sint c;
          num_end = (if num_base \<le> 10 then 0x30 + int num_base - 1 else 0x39)
      in if bit flags NUM_LOCAL then
           (if scan \<ge> 0x30 \<and> scan \<le> num_end then Some (nat (scan - 0x30))
            else if num_base \<le> 10 then None
            else (case memchr local_let_low scan (num_base - 10) of
                    Some i \<Rightarrow> Some (10 + i)
                  | None \<Rightarrow> map_option ((+) 10) (memchr local_let_high scan (num_base - 10))))
         else
           (if scan < 0x30 then None
            else if scan \<le> num_end then Some (nat (scan - 0x30))
            else if num_base \<le> 10 then None
            else if scan \<ge> 0x41 \<and> scan \<le> 0x41 + (int num_base - 11) then Some (10 + nat (scan - 0x41))
            else if scan \<ge> 0x61 \<and> scan \<le> 0x61 + (int num_base - 11) then Some (10 + nat (scan - 0x61))
            else None))"

text \<open>
  The loop over the characters. \<open>calc\<close> takes one more digit into the result: it gives the new result, the new error code and whether
  the function returns at once. The value is the result, the length that is left, the error code and whether it returned.
\<close>

fun num_loop ::
    "(nat \<Rightarrow> nat \<Rightarrow> num_err \<Rightarrow> 'r \<Rightarrow> 'r \<times> num_err \<times> bool) \<Rightarrow> flags \<Rightarrow> nat \<Rightarrow> vstr_iter \<Rightarrow> nat \<Rightarrow> bool \<Rightarrow> 'r \<Rightarrow> num_err \<Rightarrow>
     'r \<times> nat \<times> num_err \<times> bool" where
  "num_loop calc flags num_base iter 0 done_once ret err = (ret, 0, err, False)"
| "num_loop calc flags num_base iter (Suc len) done_once ret err =
     (case vstr_iter_fwd_chr iter of (scan, _, it) \<Rightarrow>
        if done_once \<and> scan = 0x5F then
          if bit flags NUM_SEP then num_loop calc flags num_base it len done_once ret err else (ret, Suc len, err, False)
        else (case num_digit flags num_base scan of
                None \<Rightarrow> (ret, Suc len, err, False)
              | Some add_num \<Rightarrow>
                  (case calc num_base add_num err ret of (ret1, err1, stop) \<Rightarrow>
                     if stop then (ret1, Suc len, err1, True)
                     else num_loop calc flags num_base it len True ret1 err1)))"

text \<open>
  \<^verbatim>\<open>VSTR__PARSE_NUM_BIN_CALC_NUM\<close>: the overflow check looks whether the multiplication can be undone. Its \<^verbatim>\<open>break\<close> leaves only the
  macro, so the loop goes on after an overflow. The second definition is the one for \<^verbatim>\<open>unsigned short\<close>, which is computed as \<^verbatim>\<open>unsigned int\<close>.
\<close>

definition calc_num :: "flags \<Rightarrow> nat \<Rightarrow> nat \<Rightarrow> num_err \<Rightarrow> 'a::len word \<Rightarrow> 'a word \<times> num_err \<times> bool" where
  "calc_num flags num_base add_num err old_ret =
     (let ret = old_ret * of_nat num_base + of_nat add_num in
      (ret, if bit flags NUM_OVERFLOW \<and> (ret - of_nat add_num) div of_nat num_base \<noteq> old_ret then NUM_ERR_OVERFLOW else err, False))"

definition calc_short :: "flags \<Rightarrow> nat \<Rightarrow> nat \<Rightarrow> num_err \<Rightarrow> 16 word \<Rightarrow> 16 word \<times> num_err \<times> bool" where
  "calc_short flags num_base add_num err old_ret =
     (let wide = (ucast old_ret :: 32 word);
          ret = (ucast (wide * of_nat num_base + of_nat add_num) :: 16 word) in
      (ret, if bit flags NUM_OVERFLOW \<and> ((ucast ret :: 32 word) - of_nat add_num) div of_nat num_base \<noteq> wide then NUM_ERR_OVERFLOW else err,
       False))"

section \<open>The functions\<close>

text \<open>
  \<^verbatim>\<open>VSTR__PARSE_NUM_UFUNC\<close> and \<^verbatim>\<open>VSTR__PARSE_NUM_SFUNC\<close>. \<open>over\<close> is the check of the signed types, \<open>max_ret\<close> what it puts in; the
  result of a signed function is the two's complement of its unsigned variable.
\<close>

type_synonym 'r num_result = "'r \<times> nat \<times> num_err"

definition parse_unsigned ::
    "(flags \<Rightarrow> nat \<Rightarrow> nat \<Rightarrow> num_err \<Rightarrow> 'a::len word \<Rightarrow> 'a word \<times> num_err \<times> bool) \<Rightarrow> vstr_base \<Rightarrow> nat \<Rightarrow> nat \<Rightarrow> flags \<Rightarrow>
     'a word num_result \<times> vstr_base" where
  "parse_unsigned calc base pos len flags =
     (case vstr__parse_num_beg base pos len flags of (nb, b1) \<Rightarrow>
        if nb_base nb = 0 then ((0, 0, nb_err nb), b1)
        else if nb_base nb = 1 then ((0, len - nb_len nb, nb_err nb), b1)
        else if nb_neg nb then ((0, 0, NUM_ERR_NEGATIVE), b1)
        else (case vstr_iter_fwd_beg b1 (nb_pos nb) (nb_len nb) of
                (None, b2) \<Rightarrow> ((0, 0, nb_err nb), b2)
              | (Some it, b2) \<Rightarrow>
                  (case num_loop (calc flags) flags (nb_base nb) it (nb_len nb) (nb_zeroed nb) 0 (nb_err nb) of (ret, l, e, _) \<Rightarrow>
                     ((ret, len - l, if l \<noteq> 0 \<and> e = NUM_ERR_NONE then NUM_ERR_OOB else e), b2))))"

definition parse_signed ::
    "(flags \<Rightarrow> nat \<Rightarrow> nat \<Rightarrow> num_err \<Rightarrow> 'a::len word \<Rightarrow> 'a word \<times> num_err \<times> bool) \<Rightarrow> (bool \<Rightarrow> 'a word \<Rightarrow> bool) \<Rightarrow> 'a word \<Rightarrow>
     vstr_base \<Rightarrow> nat \<Rightarrow> nat \<Rightarrow> flags \<Rightarrow> int num_result \<times> vstr_base" where
  "parse_signed calc over num_max base pos len flags =
     (case vstr__parse_num_beg base pos len flags of (nb, b1) \<Rightarrow>
        if nb_base nb = 0 then ((0, 0, nb_err nb), b1)
        else if nb_base nb = 1 then ((0, len - nb_len nb, nb_err nb), b1)
        else if nb_neg nb \<and> bit flags NUM_NO_NEGATIVE then ((0, 0, NUM_ERR_NEGATIVE), b1)
        else (case vstr_iter_fwd_beg b1 (nb_pos nb) (nb_len nb) of
                (None, b2) \<Rightarrow> ((0, 0, nb_err nb), b2)
              | (Some it, b2) \<Rightarrow>
                  (case num_loop (calc flags) flags (nb_base nb) it (nb_len nb) (nb_zeroed nb) 0 (nb_err nb) of (ret, l, e, _) \<Rightarrow>
                     let (ret1, e1) = (if bit flags NUM_OVERFLOW \<and> over (nb_neg nb) ret then (num_max + of_bool (nb_neg nb), NUM_ERR_OVERFLOW)
                                       else (ret, e));
                         e2 = (if l \<noteq> 0 \<and> e1 = NUM_ERR_NONE then NUM_ERR_OOB else e1)
                     in ((sint (if nb_neg nb then - ret1 else ret1), len - l, e2), b2))))"

definition over_word :: "'a::len word \<Rightarrow> bool \<Rightarrow> 'a word \<Rightarrow> bool" where
  "over_word num_max is_neg ret \<longleftrightarrow> ret - of_bool is_neg > num_max"

definition over_short :: "bool \<Rightarrow> 16 word \<Rightarrow> bool" where
  "over_short is_neg ret \<longleftrightarrow> uint ret - of_bool is_neg > 0x7FFF"

definition vstr_parse_short :: "vstr_base \<Rightarrow> nat \<Rightarrow> nat \<Rightarrow> flags \<Rightarrow> int num_result \<times> vstr_base" where
  "vstr_parse_short = parse_signed calc_short over_short 0x7FFF"

definition vstr_parse_ushort :: "vstr_base \<Rightarrow> nat \<Rightarrow> nat \<Rightarrow> flags \<Rightarrow> 16 word num_result \<times> vstr_base" where
  "vstr_parse_ushort = parse_unsigned calc_short"

definition vstr_parse_int :: "vstr_base \<Rightarrow> nat \<Rightarrow> nat \<Rightarrow> flags \<Rightarrow> int num_result \<times> vstr_base" where
  "vstr_parse_int = parse_signed calc_num (over_word 0x7FFFFFFF) (0x7FFFFFFF :: 32 word)"

definition vstr_parse_uint :: "vstr_base \<Rightarrow> nat \<Rightarrow> nat \<Rightarrow> flags \<Rightarrow> 32 word num_result \<times> vstr_base" where
  "vstr_parse_uint = parse_unsigned calc_num"

definition vstr_parse_long :: "vstr_base \<Rightarrow> nat \<Rightarrow> nat \<Rightarrow> flags \<Rightarrow> int num_result \<times> vstr_base" where
  "vstr_parse_long = parse_signed calc_num (over_word 0x7FFFFFFFFFFFFFFF) (0x7FFFFFFFFFFFFFFF :: 64 word)"

definition vstr_parse_ulong :: "vstr_base \<Rightarrow> nat \<Rightarrow> nat \<Rightarrow> flags \<Rightarrow> 64 word num_result \<times> vstr_base" where
  "vstr_parse_ulong = parse_unsigned calc_num"

definition vstr_parse_intmax :: "vstr_base \<Rightarrow> nat \<Rightarrow> nat \<Rightarrow> flags \<Rightarrow> int num_result \<times> vstr_base" where
  "vstr_parse_intmax = parse_signed calc_num (over_word 0x7FFFFFFFFFFFFFFF) (0x7FFFFFFFFFFFFFFF :: 64 word)"

definition vstr_parse_uintmax :: "vstr_base \<Rightarrow> nat \<Rightarrow> nat \<Rightarrow> flags \<Rightarrow> 64 word num_result \<times> vstr_base" where
  "vstr_parse_uintmax = parse_unsigned calc_num"

text \<open>
  \<^verbatim>\<open>vstr_parse_num()\<close> passes the digits, negated for a negative number, to a function of the caller, with the result so far (a pointer, null
  is \<^const>\<open>None\<close>); a null result without an error ends the parsing.
\<close>

definition calc_func ::
    "(nat \<Rightarrow> int \<Rightarrow> num_err \<Rightarrow> 'd option \<Rightarrow> 'd option \<times> num_err) \<Rightarrow> bool \<Rightarrow> nat \<Rightarrow> nat \<Rightarrow> num_err \<Rightarrow> 'd option \<Rightarrow> 'd option \<times> num_err \<times> bool" where
  "calc_func func is_neg num_base add_num err ret =
     (case func num_base (if is_neg then - int add_num else int add_num) err ret of
        (ret1, err1) \<Rightarrow> (ret1, err1, ret1 = None \<and> err1 = NUM_ERR_NONE))"

definition vstr_parse_num ::
    "(nat \<Rightarrow> int \<Rightarrow> num_err \<Rightarrow> 'd option \<Rightarrow> 'd option \<times> num_err) \<Rightarrow> 'd option \<Rightarrow> vstr_base \<Rightarrow> nat \<Rightarrow> nat \<Rightarrow> flags \<Rightarrow>
     'd option num_result \<times> vstr_base" where
  "vstr_parse_num func data base pos len flags =
     (case vstr__parse_num_beg base pos len flags of (nb, b1) \<Rightarrow>
        if nb_base nb = 0 then ((None, 0, nb_err nb), b1)
        else if nb_base nb = 1 then ((None, len - nb_len nb, nb_err nb), b1)
        else if nb_neg nb \<and> bit flags NUM_NO_NEGATIVE then ((None, 0, NUM_ERR_NEGATIVE), b1)
        else (case vstr_iter_fwd_beg b1 (nb_pos nb) (nb_len nb) of
                (None, b2) \<Rightarrow> ((None, 0, nb_err nb), b2)
              | (Some it, b2) \<Rightarrow>
                  (case num_loop (calc_func func (nb_neg nb)) flags (nb_base nb) it (nb_len nb) (nb_zeroed nb) data (nb_err nb) of
                     (ret, l, e, stop) \<Rightarrow>
                       if stop then ((None, 0, e), b2)
                       else ((ret, len - l, if l \<noteq> 0 \<and> e = NUM_ERR_NONE then NUM_ERR_OOB else e), b2))))"

section \<open>The text of a number\<close>

text \<open>The digits of a text and the value they have, in any base.\<close>

definition num_value :: "flags \<Rightarrow> nat \<Rightarrow> byte list \<Rightarrow> nat" where
  "num_value flags b ds = foldl (\<lambda>v c. v * b + the (num_digit flags b c)) 0 ds"

definition num_text :: "flags \<Rightarrow> nat \<Rightarrow> byte list \<Rightarrow> bool" where
  "num_text flags b ds \<longleftrightarrow> ds \<noteq> [] \<and> hd ds \<noteq> 0x30 \<and> (\<forall>c \<in> set ds. num_digit flags b c \<noteq> None)"

lemma memchr_less: "memchr s c n = Some i \<Longrightarrow> i < n"
  unfolding memchr_def by (drule index_of_less) simp

lemma letters:
  "c \<in> set local_let_low \<Longrightarrow> 0x61 \<le> sint c" "c \<in> set local_let_high \<Longrightarrow> 0x41 \<le> sint c \<and> sint c \<le> 0x5A"
  by (auto simp: local_let_low_def local_let_high_def upt_rec)

lemma memchr_mem: "memchr s (sint c) n = Some i \<Longrightarrow> c \<in> set s" for c :: byte
  unfolding memchr_def by (drule index_of_less) (auto simp: set_conv_nth)

lemma num_digit_char:
  assumes "num_digit flags b c = Some d" "2 \<le> b" "b \<le> 36"
  shows "d < b" "0x30 \<le> sint c" "c \<noteq> 0x5F"
proof -
  show "d < b"
    using assms by (auto simp: num_digit_def Let_def dest!: memchr_less split: if_splits option.splits)
  show "0x30 \<le> sint c"
    using assms letters [of c]
    by (auto simp: num_digit_def Let_def dest!: memchr_mem split: if_splits option.splits)
  show "c \<noteq> 0x5F"
    using assms letters [of c]
    by (auto simp: num_digit_def Let_def dest!: memchr_mem split: if_splits option.splits)
qed

lemma spn_chrs_fwd_frame:
  assumes "in_range base pos len"
  shows "same_but_cache base (snd (vstr_spn_chrs_fwd base pos len chrs n))" "vstr_inv (snd (vstr_spn_chrs_fwd base pos len chrs n))"
  using assms by (cases rule: fwd_beg_range; use assms in \<open>auto simp: vstr_spn_chrs_fwd_def spn_fwd_def in_range_def\<close>)+

lemma spn_not_first:
  assumes "in_range base pos len" "range_data base pos len = map Some ds" "ds \<noteq> []" "hd ds \<notin> set (take n chrs)" "n \<le> length chrs"
  shows "\<exists>b1. vstr_spn_chrs_fwd base pos len (Some chrs) n = (0, b1) \<and> same_but_cache base b1 \<and> vstr_inv b1"
proof -
  have "fst (vstr_spn_chrs_fwd base pos len (Some chrs) n) = 0"
    using spn_chrs_fwd_eq(1) [OF assms(1), of "Some chrs" n] assms(2-5) by (cases ds) (auto simp: buf_holds_def chr_set_def)
  then show ?thesis using spn_chrs_fwd_frame [OF assms(1), of "Some chrs" n] by (metis prod.collapse)
qed

text \<open>A number that starts with a digit has no space and no sign in front.\<close>

lemma num_start:
  assumes rng: "in_range base pos len" and ds: "range_data base pos len = map Some ds" "ds \<noteq> []" "0x30 \<le> sint (hd ds)"
  obtains c1 c2 where "num_space base pos len flags = (Inr (pos, len), c1)" "num_sign c1 pos len flags = (Inr (False, pos, len), c2)"
    "same_but_cache base c2" "vstr_inv c2" "len \<noteq> 0"
proof -
  have len: "len \<noteq> 0" using ds(1,2) range_data_length [OF rng] by auto
  have hd: "hd ds \<notin> set [0x20]" "hd ds \<notin> set [0x2D]" "hd ds \<notin> set [0x2B]" using ds(3) by auto
  have skip: "\<exists>c1. vstr_spn_chrs_fwd c pos len (Some [x]) 1 = (0, c1) \<and> same_but_cache base c1 \<and> vstr_inv c1"
    if "same_but_cache base c" "vstr_inv c" "hd ds \<notin> set [x]" for c x
    using spn_not_first [of c pos len ds 1 "[x]"] reads_frame(1,2) [OF that(1,2)] rng ds(1,2) that same_but_cache_trans [OF that(1)] by fastforce
  have inv: "vstr_inv base" using rng by (simp add: in_range_def)
  obtain c0 where c0: "vstr_spn_chrs_fwd base pos len (Some [0x20]) 1 = (0, c0)" "same_but_cache base c0" "vstr_inv c0"
    using skip [OF same_but_cache_refl inv hd(1)] by blast
  obtain c1 where c1: "num_space base pos len flags = (Inr (pos, len), c1)" "same_but_cache base c1" "vstr_inv c1"
    using c0 inv len by (cases "bit flags NUM_SPACE") (auto simp: num_space_def)
  obtain c2 where c2: "vstr_spn_chrs_fwd c1 pos len (Some [0x2D]) 1 = (0, c2)" "same_but_cache base c2" "vstr_inv c2"
    using skip [OF c1(2,3) hd(2)] by blast
  obtain c3 where c3: "vstr_spn_chrs_fwd c2 pos len (Some [0x2B]) 1 = (0, c3)" "same_but_cache base c3" "vstr_inv c3"
    using skip [OF c2(2,3) hd(3)] by blast
  have "num_sign c1 pos len flags = (Inr (False, pos, len), if bit flags NUM_NO_BEG_PM then c1 else c3)"
    using c2 c3 by (simp add: num_sign_def)
  then show thesis using that c1 c3 len by (metis (full_types))
qed

lemma num_beg_text:
  assumes rng: "in_range base pos len" and tx: "range_data base pos len = map Some ds" "num_text flags b ds"
    and b: "unat (and flags MASK_PARSE_NUM_BASE) = b" "2 \<le> b" "b \<le> 36"
  shows "\<exists>b1. vstr__parse_num_beg base pos len flags =
    (\<lparr>nb_base = b, nb_pos = pos, nb_len = len, nb_neg = False, nb_zeroed = False, nb_err = NUM_ERR_NONE\<rparr>, b1) \<and>
    same_but_cache base b1 \<and> vstr_inv b1"
proof -
  have ds: "ds \<noteq> []" "hd ds \<noteq> 0x30" using tx by (auto simp: num_text_def)
  have "num_digit flags b (hd ds) \<noteq> None" using tx(2) ds(1) by (simp add: num_text_def)
  then have hd: "0x30 \<le> sint (hd ds)" using num_digit_char(2) b(2,3) by blast
  obtain c1 c2 where c: "num_space base pos len flags = (Inr (pos, len), c1)" "num_sign c1 pos len flags = (Inr (False, pos, len), c2)"
      "same_but_cache base c2" "vstr_inv c2" "len \<noteq> 0"
    using num_start [OF rng tx(1) ds(1) hd] by blast
  obtain c3 where "vstr_spn_chrs_fwd c2 pos len (Some [0x30]) 1 = (0, c3)" "same_but_cache c2 c3" "vstr_inv c3"
    using spn_not_first [of c2 pos len ds 1 "[0x30]"] reads_frame(1,2) [OF c(3,4)] rng tx(1) ds by fastforce
  then show ?thesis
    using c b same_but_cache_trans [OF c(3)] by (auto simp: vstr__parse_num_beg_def num_prefix_def num_zeros_def Let_def)
qed

section \<open>Taking digits into a word\<close>

text \<open>
  What a step promises: the new word is the sum, computed with wrap-around, and an overflow is reported exactly when \<open>detects\<close> says so, which
  it does only for an overflow.
\<close>

locale digit_calc =
  fixes calc :: "flags \<Rightarrow> nat \<Rightarrow> nat \<Rightarrow> num_err \<Rightarrow> 'a::len word \<Rightarrow> 'a word \<times> num_err \<times> bool"
    and detects :: "nat \<Rightarrow> nat \<Rightarrow> nat \<Rightarrow> bool"
  assumes calc_step: "2 \<le> b \<Longrightarrow> b \<le> 36 \<Longrightarrow> a < b \<Longrightarrow> calc flags b a err ret =
      (ret * of_nat b + of_nat a, if bit flags NUM_OVERFLOW \<and> detects (unat ret) b a then NUM_ERR_OVERFLOW else err, False)"
    and detects_over: "detects r b a \<Longrightarrow> 2 ^ LENGTH('a) \<le> r * b + a"
begin

text \<open>The digits one by one: the value of the word and whether an overflow has been seen.\<close>

fun digits_run :: "flags \<Rightarrow> nat \<Rightarrow> byte list \<Rightarrow> 'a word \<Rightarrow> num_err \<Rightarrow> 'a word \<times> num_err" where
  "digits_run flags b [] ret err = (ret, err)"
| "digits_run flags b (c # cs) ret err =
     (let a = the (num_digit flags b c) in
      digits_run flags b cs (ret * of_nat b + of_nat a)
        (if bit flags NUM_OVERFLOW \<and> detects (unat ret) b a then NUM_ERR_OVERFLOW else err))"

lemma loop_run:
  assumes "iter_inv it" "iter_rest it = map Some ds" "\<forall>c \<in> set ds. num_digit flags b c \<noteq> None" "2 \<le> b" "b \<le> 36"
  shows "num_loop (calc flags) flags b it (length ds) done ret err = (fst (digits_run flags b ds ret err), 0, snd (digits_run flags b ds ret err), False)"
  using assms(1-3)
proof (induction ds arbitrary: it "done" ret err)
  case (Cons c cs)
  obtain x t j where j: "vstr_iter_fwd_chr it = (x, t, j)" by (cases "vstr_iter_fwd_chr it")
  have x: "x = c" "iter_inv j" "iter_rest j = map Some cs" using iter_fwd_chr_spec [OF Cons.prems(1)] Cons.prems(2) j by simp_all
  obtain a where a: "num_digit flags b c = Some a" using Cons.prems(3) by auto
  have "a < b" "c \<noteq> 0x5F" using num_digit_char [OF a assms(4,5)] by simp_all
  then show ?case
    using x j a Cons.IH [OF x(2,3)] Cons.prems(3) by (simp add: calc_step [OF assms(4,5)])
qed simp

lemma run_exact:
  assumes "foldl (\<lambda>v c. v * b + the (num_digit flags b c)) (unat ret) ds < 2 ^ LENGTH('a)" "1 \<le> b"
  shows "digits_run flags b ds ret err = (of_nat (foldl (\<lambda>v c. v * b + the (num_digit flags b c)) (unat ret) ds), err)"
  using assms(1)
proof (induction ds arbitrary: ret)
  case (Cons c cs)
  let ?f = "\<lambda>v c. v * b + the (num_digit flags b c)" and ?a = "the (num_digit flags b c)"
  have mono: "v \<le> foldl ?f v cs" for v
  proof (induction cs arbitrary: v)
    case (Cons x xs)
    have "v \<le> ?f v x" using assms(2) by (cases b) simp_all
    then show ?case using Cons [of "?f v x"] by simp
  qed simp
  have lt: "?f (unat ret) c < 2 ^ LENGTH('a)" using mono [of "?f (unat ret) c"] Cons.prems by simp
  have e: "ret * of_nat b + of_nat ?a = of_nat (?f (unat ret) c)" by simp
  have "unat (ret * of_nat b + of_nat ?a) = ?f (unat ret) c" unfolding e using lt by (simp only: unat_of_nat mod_less)
  moreover have "\<not> detects (unat ret) b ?a" using detects_over [of "unat ret" b ?a] lt by auto
  ultimately show ?case using Cons.IH [of "ret * of_nat b + of_nat ?a"] Cons.prems by (simp add: Let_def)
qed simp

lemma parse_text:
  assumes rng: "in_range base pos len" and tx: "range_data base pos len = map Some ds" "num_text flags b ds"
    and b: "unat (and flags MASK_PARSE_NUM_BASE) = b" "2 \<le> b" "b \<le> 36"
  shows "fst (parse_unsigned calc base pos len flags) =
    (fst (digits_run flags b ds 0 NUM_ERR_NONE), len, snd (digits_run flags b ds 0 NUM_ERR_NONE))"
proof -
  obtain b1 where b1: "vstr__parse_num_beg base pos len flags =
      (\<lparr>nb_base = b, nb_pos = pos, nb_len = len, nb_neg = False, nb_zeroed = False, nb_err = NUM_ERR_NONE\<rparr>, b1)"
      "same_but_cache base b1" "vstr_inv b1"
    using num_beg_text [OF assms] by blast
  note fr = reads_frame(1,2) [OF b1(2,3)]
  have "length ds = len" using range_data_length [OF rng] unfolding tx(1) by simp
  then have len: "length ds = len" "0 < len" using tx(2) by (auto simp: num_text_def)
  obtain it b2 where it: "vstr_iter_fwd_beg b1 pos len = (Some it, b2)" "iter_inv it" "iter_rest it = range_data b1 pos len"
    using fwd_beg_range [OF fr(1) [OF rng]] len(2) by (metis not_gr_zero)
  have "num_loop (calc flags) flags b it len False 0 NUM_ERR_NONE =
      (fst (digits_run flags b ds 0 NUM_ERR_NONE), 0, snd (digits_run flags b ds 0 NUM_ERR_NONE), False)"
    using loop_run [OF it(2), of ds flags b] it(3) tx fr(2) b(2,3) len(1) by (auto simp: num_text_def)
  then show ?thesis using b1(1) it(1) b(2) by (simp add: parse_unsigned_def)
qed

lemma run_append: "digits_run flags b (cs @ ds) ret err = (case digits_run flags b cs ret err of (r, e) \<Rightarrow> digits_run flags b ds r e)"
  by (induction cs arbitrary: ret err) (simp_all add: Let_def)

lemma parse_exact:
  assumes "in_range base pos len" "range_data base pos len = map Some ds" "num_text flags b ds"
    and "unat (and flags MASK_PARSE_NUM_BASE) = b" "2 \<le> b" "b \<le> 36" "num_value flags b ds < 2 ^ LENGTH('a)"
  shows "fst (parse_unsigned calc base pos len flags) = (of_nat (num_value flags b ds), len, NUM_ERR_NONE)"
  using parse_text [OF assms(1-6)] run_exact [of b flags 0 ds] assms(5,7) by (simp add: num_value_def)

lemma parse_overflow:
  assumes "in_range base pos len" "range_data base pos len = map Some (ds @ [c])" "num_text flags b (ds @ [c])"
    and "unat (and flags MASK_PARSE_NUM_BASE) = b" "2 \<le> b" "b \<le> 36" "bit flags NUM_OVERFLOW" "num_value flags b ds < 2 ^ LENGTH('a)"
  shows "fst (parse_unsigned calc base pos len flags) = (of_nat (num_value flags b (ds @ [c])), len,
    if detects (num_value flags b ds) b (the (num_digit flags b c)) then NUM_ERR_OVERFLOW else NUM_ERR_NONE)"
proof -
  have "digits_run flags b ds 0 NUM_ERR_NONE = (of_nat (num_value flags b ds), NUM_ERR_NONE)"
    using run_exact [of b flags 0 ds] assms(5,8) by (simp add: num_value_def)
  moreover have "unat (of_nat (num_value flags b ds) :: 'a word) = num_value flags b ds"
    using assms(8) by (simp only: unat_of_nat mod_less)
  ultimately show ?thesis
    using parse_text [OF assms(1-6)] assms(7) by (simp add: run_append Let_def num_value_def)
qed

end

text \<open>The check by division sees an overflow of the multiplication, but not one of the addition.\<close>

lemma calc_num_step:
  fixes ret :: "'a::len word"
  assumes "2 \<le> b" "b < 2 ^ LENGTH('a)"
  shows "(ret * of_nat b) div of_nat b \<noteq> ret \<longleftrightarrow> 2 ^ LENGTH('a) \<le> unat ret * b"
proof -
  let ?M = "2 ^ LENGTH('a) :: nat"
  have b: "unat (of_nat b :: 'a word) = b" using assms(2) by (simp only: unat_of_nat mod_less)
  have m: "unat (ret * of_nat b) = unat ret * b mod ?M" by (simp add: unat_word_ariths(2) b)
  have "(ret * of_nat b) div of_nat b = ret \<longleftrightarrow> unat ret * b mod ?M div b = unat ret"
    by (simp add: word_unat_eq_iff unat_div m b)
  moreover have "unat ret * b mod ?M div b = unat ret \<longleftrightarrow> unat ret * b < ?M"
  proof (cases "unat ret * b < ?M")
    case False
    have "unat ret * b mod ?M < ?M" by simp
    then have "unat ret * b mod ?M < unat ret * b" using False by linarith
    then have "unat ret * b mod ?M div b < unat ret" using assms(1) by (simp add: less_mult_imp_div_less)
    then show ?thesis using False by simp
  qed (use assms(1) in simp)
  ultimately show ?thesis by auto
qed

interpretation uint: digit_calc "calc_num :: flags \<Rightarrow> nat \<Rightarrow> nat \<Rightarrow> num_err \<Rightarrow> 32 word \<Rightarrow> 32 word \<times> num_err \<times> bool" "\<lambda>r b a. 2 ^ 32 \<le> r * b"
  by unfold_locales (auto simp: calc_num_def calc_num_step Let_def)

interpretation ulong: digit_calc "calc_num :: flags \<Rightarrow> nat \<Rightarrow> nat \<Rightarrow> num_err \<Rightarrow> 64 word \<Rightarrow> 64 word \<times> num_err \<times> bool" "\<lambda>r b a. 2 ^ 64 \<le> r * b"
  by unfold_locales (auto simp: calc_num_def calc_num_step Let_def)

text \<open>For \<^verbatim>\<open>unsigned short\<close> the wider arithmetic makes the check exact.\<close>

lemma calc_short_step:
  fixes ret :: "16 word"
  assumes "2 \<le> b" "b \<le> 36" "a < b"
  defines "r \<equiv> ucast ((ucast ret :: 32 word) * of_nat b + of_nat a) :: 16 word"
  shows "r = ret * of_nat b + of_nat a"
    "((ucast r :: 32 word) - of_nat a) div of_nat b \<noteq> ucast ret \<longleftrightarrow> 2 ^ 16 \<le> unat ret * b + a"
proof -
  let ?t = "unat ret * b + a"
  have lt: "unat ret < 65536" using unsigned_less [of ret] by simp
  then have t: "?t < 4294967296"
    using mult_le_mono [of "unat ret" 65535 b 36] assms by linarith
  have up: "(ucast v :: 32 word) = of_nat (unat v)" for v :: "16 word" by (simp only: of_nat_unat)
  have down: "(ucast v :: 16 word) = of_nat (unat v)" for v :: "32 word" by (simp only: of_nat_unat)
  have wide: "(ucast ret :: 32 word) * of_nat b + of_nat a = of_nat ?t"
    by (simp only: up of_nat_add of_nat_mult)
  have nar: "ret * of_nat b + of_nat a = of_nat ?t" by simp
  have uw: "unat (of_nat ?t :: 32 word) = ?t" using t by (simp only: unat_of_nat) simp
  show r: "r = ret * of_nat b + of_nat a"
    unfolding r_def wide nar down uw ..
  have ur: "unat r = ?t mod 65536" unfolding r nar by (simp only: unat_of_nat) simp
  have ub: "unat (of_nat b :: 32 word) = b" "unat (of_nat a :: 32 word) = a" using assms by (simp_all add: unat_of_nat)
  let ?d = "(ucast r :: 32 word) - of_nat a"
  have ur32: "unat (ucast r :: 32 word) = ?t mod 65536" "unat (ucast ret :: 32 word) = unat ret"
    using lt ur by (simp_all add: up unat_of_nat del: of_nat_unat)
  have iff: "?d div of_nat b = ucast ret \<longleftrightarrow> unat ?d div b = unat ret"
    by (simp add: word_unat_eq_iff unat_div ub ur32)
  have "unat ?d div b = unat ret \<longleftrightarrow> ?t < 65536"
  proof (cases "?t < 65536")
    case True
    then have "unat ?d = unat ret * b" by (simp add: unat_sub_if_size ur32 ub)
    then show ?thesis using True assms(1) by simp
  next
    case False
    show ?thesis
    proof (cases "a \<le> ?t mod 65536")
      case True
      then have "unat ?d = ?t mod 65536 - a" by (simp add: unat_sub_if_size ur32 ub)
      moreover have "?t mod 65536 < ?t" using False by simp
      ultimately have "unat ?d < unat ret * b" using True by linarith
      then show ?thesis using False assms(1) less_mult_imp_div_less [of "unat ?d" "unat ret" b] by simp
    next
      case lo: False
      then have "unat ?d = ?t mod 65536 + 4294967296 - a" by (simp add: unat_sub_if_size ur32 ub word_size)
      then have "65536 * b \<le> unat ?d" using assms(2,3) by linarith
      then have "65536 \<le> unat ?d div b" using assms(1) by (simp add: less_eq_div_iff_mult_less_eq)
      then show ?thesis using False lt by linarith
    qed
  qed
  then show "?d div of_nat b \<noteq> ucast ret \<longleftrightarrow> 2 ^ 16 \<le> ?t" using iff by auto
qed

interpretation ushort: digit_calc calc_short "\<lambda>r b a. 2 ^ 16 \<le> r * b + a"
proof
  fix b a :: nat and flags err and ret :: "16 word"
  assume "2 \<le> b" "b \<le> 36" "a < b"
  note c = calc_short_step [OF this, of ret]
  show "calc_short flags b a err ret =
      (ret * of_nat b + of_nat a, if bit flags NUM_OVERFLOW \<and> 2 ^ 16 \<le> unat ret * b + a then NUM_ERR_OVERFLOW else err, False)"
    using c(2) unfolding calc_short_def Let_def c(1) by simp
qed simp

section \<open>Properties\<close>


lemma digit_10: "num_digit flags 10 c = (if 0x30 \<le> sint c \<and> sint c \<le> 0x39 then Some (nat (sint c - 0x30)) else None)"
  by (simp add: num_digit_def Let_def)


text \<open>
  C36. Overflow. When the digits up to the last but one fit and the number does not, \<^verbatim>\<open>vstr_parse_ushort()\<close> with
  \<^verbatim>\<open>VSTR_FLAG_PARSE_NUM_OVERFLOW\<close> reports an overflow, but \<^verbatim>\<open>vstr_parse_uint()\<close> does so only if already the multiplication overflows:
  otherwise it returns the wrapped number without an error.
\<close>

theorem parse_overflow_missed:
  assumes "in_range base pos len" "range_data base pos len = map Some (ds @ [c])" "num_text flags b (ds @ [c])"
    and "unat (and flags MASK_PARSE_NUM_BASE) = b" "2 \<le> b" "b \<le> 36" "bit flags NUM_OVERFLOW"
  shows "(num_value flags b ds < 2 ^ 16 \<longrightarrow> 2 ^ 16 \<le> num_value flags b (ds @ [c]) \<longrightarrow>
      snd (snd (fst (vstr_parse_ushort base pos len flags))) = NUM_ERR_OVERFLOW) \<and>
    (num_value flags b ds < 2 ^ 32 \<longrightarrow> 2 ^ 32 \<le> num_value flags b (ds @ [c]) \<longrightarrow>
      fst (vstr_parse_uint base pos len flags) = (of_nat (num_value flags b (ds @ [c])), len,
        if 2 ^ 32 \<le> num_value flags b ds * b then NUM_ERR_OVERFLOW else NUM_ERR_NONE))"
  using ushort.parse_overflow [OF assms] uint.parse_overflow [OF assms]
  unfolding vstr_parse_ushort_def vstr_parse_uint_def by (simp add: num_value_def)

theorem parse_overflow_missed_witness:
  "fst (vstr_parse_uint (ex_base [Node_buf 1 [0x34, 0x32, 0x39, 0x34], Node_buf 2 [0x39, 0x36, 0x37, 0x32], Node_buf 3 [0x39, 0x36]]) 1 10 (10 + 256))
     = (0, 10, NUM_ERR_NONE)"
proof -
  let ?b = "ex_base [Node_buf 1 [0x34, 0x32, 0x39, 0x34], Node_buf 2 [0x39, 0x36, 0x37, 0x32], Node_buf 3 [0x39, 0x36]]"
  let ?ds = "[0x34, 0x32, 0x39, 0x34, 0x39, 0x36, 0x37, 0x32, 0x39] :: byte list"
  have "in_range ?b 1 10" by (rule ex_base_range) (auto simp: node_simps)
  from parse_overflow_missed [OF this, where ds = ?ds and c = "0x36" and flags = "10 + 256" and b = 10] show ?thesis
    by (simp add: node_simps num_text_def num_value_def digit_10 MASK_PARSE_NUM_BASE_def)
qed

end
