(* ===== verification/Vstr_Parse_Ip.thy ===== *)
theory Vstr_Parse_Ip
  imports Vstr_Parse
begin

text \<open>
  Parsing IPv4 addresses with a netmask or a prefix length: \<^verbatim>\<open>vstr_parse_ipv4()\<close> of \<^verbatim>\<open>src/vstr_parse.c\<close>. The pointers of the caller are not
  null; a failed call gives the error, a successful one the address, the prefix length, the length that was used and an error code, which can be
  set for data that is left over.
\<close>

section \<open>The model\<close>

datatype ipv4_err = IPV4_ERR_NONE | IPV4_ERR_IPV4_OOB | IPV4_ERR_IPV4_FULL | IPV4_ERR_CIDR_OOB | IPV4_ERR_CIDR_FULL
  | IPV4_ERR_NETMASK_OOB | IPV4_ERR_NETMASK_FULL | IPV4_ERR_ONLY

abbreviation (input) IPV4_LOCAL :: nat where "IPV4_LOCAL \<equiv> 0"
abbreviation (input) IPV4_ZEROS :: nat where "IPV4_ZEROS \<equiv> 1"
abbreviation (input) IPV4_FULL :: nat where "IPV4_FULL \<equiv> 2"
abbreviation (input) IPV4_CIDR :: nat where "IPV4_CIDR \<equiv> 3"
abbreviation (input) IPV4_CIDR_FULL :: nat where "IPV4_CIDR_FULL \<equiv> 4"
abbreviation (input) IPV4_NETMASK :: nat where "IPV4_NETMASK \<equiv> 5"
abbreviation (input) IPV4_NETMASK_FULL :: nat where "IPV4_NETMASK_FULL \<equiv> 6"
abbreviation (input) IPV4_ONLY :: nat where "IPV4_ONLY \<equiv> 7"

text \<open>\<^verbatim>\<open>vstr_export_chr()\<close>: the byte at a position; 0 outside the string and in a \<^verbatim>\<open>NON\<close> node.\<close>

definition vstr_export_chr :: "vstr_base \<Rightarrow> nat \<Rightarrow> byte \<times> vstr_base" where
  "vstr_export_chr base pos =
     (if b_nodes base = [] \<or> pos > b_len base then (0, base)
      else (case vstr_base__pos base pos True of
              ((idx, p, _), b1) \<Rightarrow>
                (case node_bytes (b_nodes b1 ! idx) of
                   None \<Rightarrow> (0, b1)
                 | Some b \<Rightarrow> (b ! (p - 1), b1))))"

text \<open>The bits of the last part of a netmask that is not 255.\<close>

definition netmask_bits :: "nat \<Rightarrow> nat option" where
  "netmask_bits tmp = map_of [(254, 7), (252, 6), (248, 5), (240, 4), (224, 3), (192, 2), (128, 1), (0, 0)] tmp"

text \<open>
  The loop of \<^verbatim>\<open>vstr__parse_ipv4_netmask()\<close>. \<open>left\<close> is \<open>4 - scan\<close>, the number of parts that can follow. The result is an error or
  \<^verbatim>\<open>scan\<close>, \<^verbatim>\<open>zero_rest\<close>, \<^verbatim>\<open>*cidr\<close> and \<^verbatim>\<open>len\<close>.
\<close>

fun netmask_loop :: "nat \<Rightarrow> vstr_base \<Rightarrow> nat \<Rightarrow> nat \<Rightarrow> flags \<Rightarrow> bool \<Rightarrow> nat \<Rightarrow> (ipv4_err + nat \<times> bool \<times> nat \<times> nat) \<times> vstr_base" where
  "netmask_loop 0 base pos len num_flags zero_rest cidr = (Inr (4, zero_rest, cidr, len), base)"
| "netmask_loop (Suc left) base pos len num_flags zero_rest cidr =
     (if len = 0 then (Inr (3 - left, zero_rest, cidr, len), base)
      else (case vstr_parse_uint base pos (min 3 len) (or 10 num_flags) of ((val, num_len, _), b1) \<Rightarrow>
        let tmp = unat val; pos1 = pos + num_len; len1 = len - num_len in
        if num_len = 0 then (Inr (3 - left, zero_rest, cidr, len), b1)
        else if zero_rest \<and> tmp \<noteq> 0 then (Inl IPV4_ERR_NETMASK_OOB, b1)
        else if \<not> zero_rest \<and> tmp > 255 then (Inl IPV4_ERR_NETMASK_OOB, b1)
        else if \<not> zero_rest \<and> tmp \<noteq> 255 \<and> netmask_bits tmp = None then (Inl IPV4_ERR_NETMASK_OOB, b1)
        else
          let (zr, c) = (if \<not> zero_rest \<and> tmp \<noteq> 255 then (True, (3 - left) * 8 + the (netmask_bits tmp)) else (zero_rest, cidr)) in
          if left = 0 then (Inr (4, zr, c, len1), b1)
          else if len1 = 0 then netmask_loop left b1 pos1 0 num_flags zr c
          else (case vstr_export_chr b1 pos1 of (x, b2) \<Rightarrow>
            if x \<noteq> 0x2E then (Inr (4 - left, zr, c, len1), b2)
            else netmask_loop left b2 (pos1 + 1) (len1 - 1) num_flags zr c)))"

definition vstr__parse_ipv4_netmask ::
    "vstr_base \<Rightarrow> nat \<Rightarrow> nat \<Rightarrow> flags \<Rightarrow> flags \<Rightarrow> nat \<Rightarrow> (ipv4_err + nat \<times> nat) \<times> vstr_base" where
  "vstr__parse_ipv4_netmask base pos len flags num_flags cidr =
     (case netmask_loop 4 base pos len num_flags False cidr of
        (Inl e, b1) \<Rightarrow> (Inl e, b1)
      | (Inr (scan, zero_rest, c, l), b1) \<Rightarrow>
          let c1 = (if \<not> zero_rest then scan * 8 else c) in
          (if bit flags IPV4_NETMASK_FULL \<and> scan \<noteq> 4 then Inl IPV4_ERR_NETMASK_FULL else Inr (c1, l), b1))"

definition vstr__parse_ipv4_cidr ::
    "vstr_base \<Rightarrow> nat \<Rightarrow> nat \<Rightarrow> flags \<Rightarrow> flags \<Rightarrow> nat \<Rightarrow> (ipv4_err + nat \<times> nat) \<times> vstr_base" where
  "vstr__parse_ipv4_cidr base pos len flags num_flags cidr0 =
     (case (if len \<noteq> 0 then (case vstr_parse_uint base pos len (or 10 num_flags) of ((v, n, _), b1) \<Rightarrow> (unat v, n, b1))
            else (cidr0, 0, base)) of
        (cidr, num_len, b1) \<Rightarrow>
          if num_len \<noteq> 0 then
            (case (if bit flags IPV4_NETMASK \<and> cidr > 32 \<and> len > num_len then vstr_export_chr b1 (pos + num_len) else (0, b1)) of
               (x, b2) \<Rightarrow>
                 if bit flags IPV4_NETMASK \<and> cidr > 32 \<and> len > num_len \<and> x = 0x2E then vstr__parse_ipv4_netmask b2 pos len flags num_flags cidr
                 else if cidr \<le> 32 then (Inr (cidr, len - num_len), b2)
                 else (Inl IPV4_ERR_CIDR_OOB, b2))
          else if bit flags IPV4_CIDR_FULL then (Inl IPV4_ERR_CIDR_FULL, b1)
          else (Inr (32, len), b1))"

text \<open>The loop over the parts of the address; \<open>ips\<close> are those read so far.\<close>

fun ipv4_loop :: "nat \<Rightarrow> vstr_base \<Rightarrow> nat \<Rightarrow> nat \<Rightarrow> flags \<Rightarrow> byte list \<Rightarrow> (ipv4_err + byte list \<times> nat \<times> nat) \<times> vstr_base" where
  "ipv4_loop 0 base pos len num_flags ips = (Inr (ips, pos, len), base)"
| "ipv4_loop (Suc left) base pos len num_flags ips =
     (if len = 0 then (Inr (ips, pos, len), base)
      else (case vstr_parse_uint base pos (min 3 len) (or 10 num_flags) of ((tmp, num_len, _), b1) \<Rightarrow>
        let pos1 = pos + num_len; len1 = len - num_len; ips1 = ips @ [ucast tmp] in
        if num_len = 0 then (Inr (ips, pos, len), b1)
        else if tmp > 255 then (Inl IPV4_ERR_IPV4_OOB, b1)
        else if left = 0 \<or> len1 = 0 then (Inr (ips1, pos1, len1), b1)
        else (case vstr_export_chr b1 pos1 of (x, b2) \<Rightarrow>
          if x = 0x2F \<or> x \<noteq> 0x2E then (Inr (ips1, pos1, len1), b2)
          else if len1 - 1 = 0 then (Inr (ips1, pos1 + 1, 0), b2)
          else (case vstr_export_chr b2 (pos1 + 1) of (y, b3) \<Rightarrow>
            if y = 0x2F then (Inr (ips1, pos1 + 1, len1 - 1), b3)
            else ipv4_loop left b3 (pos1 + 1) (len1 - 1) num_flags ips1))))"

definition ipv4_num_flags :: "flags \<Rightarrow> flags" where
  "ipv4_num_flags flags =
     or (2 ^ NUM_NO_BEG_PM) (or (if bit flags IPV4_LOCAL then 2 ^ NUM_LOCAL else 0) (if bit flags IPV4_ZEROS then 0 else 2 ^ NUM_NO_BEG_ZERO))"

definition vstr_parse_ipv4 ::
    "vstr_base \<Rightarrow> nat \<Rightarrow> nat \<Rightarrow> flags \<Rightarrow> (ipv4_err + byte list \<times> nat \<times> nat \<times> ipv4_err) \<times> vstr_base" where
  "vstr_parse_ipv4 base pos len flags =
     (let num_flags = ipv4_num_flags flags
      in case ipv4_loop 4 base pos len num_flags [] of
           (Inl e, b1) \<Rightarrow> (Inl e, b1)
         | (Inr (ips, pos1, len1), b1) \<Rightarrow>
             if length ips \<noteq> 4 \<and> bit flags IPV4_FULL then (Inl IPV4_ERR_IPV4_FULL, b1)
             else
               let ips1 = ips @ replicate (4 - length ips) 0;
                   (slash, b2) = (if len1 = 0 then (False, b1) else (case vstr_export_chr b1 pos1 of (x, b2) \<Rightarrow> (x = 0x2F, b2)));
                   (r, b3) = (if slash \<and> bit flags IPV4_CIDR then vstr__parse_ipv4_cidr b2 (pos1 + 1) (len1 - 1) flags num_flags 32
                              else if slash \<and> bit flags IPV4_NETMASK then vstr__parse_ipv4_netmask b2 (pos1 + 1) (len1 - 1) flags num_flags 32
                              else (Inr (32, len1), b2))
               in case r of
                    Inl e \<Rightarrow> (Inl e, b3)
                  | Inr (cidr, len2) \<Rightarrow>
                      (Inr (ips1, cidr, len - len2, if len2 \<noteq> 0 \<and> bit flags IPV4_ONLY then IPV4_ERR_ONLY else IPV4_ERR_NONE), b3))"

section \<open>Bounds\<close>

lemma netmask_bits_le: "netmask_bits tmp = Some k \<Longrightarrow> k \<le> 7"
  by (auto simp: netmask_bits_def split: if_splits)

lemma netmask_loop_le:
  "fst (netmask_loop left base pos len num_flags zr cidr) = Inr (scan, zr', c, l) \<Longrightarrow> left \<le> 4 \<Longrightarrow> zr \<longrightarrow> cidr \<le> 32 \<Longrightarrow>
   scan \<le> 4 \<and> (zr' \<longrightarrow> c \<le> 32)"
proof (induction left arbitrary: base pos len zr cidr)
  case (Suc left)
  obtain val num_len e b1 where p: "vstr_parse_uint base pos (min 3 len) (or 10 num_flags) = ((val, num_len, e), b1)" by (metis surj_pair)
  obtain x b2 where x: "vstr_export_chr b1 (pos + num_len) = (x, b2)" by (metis surj_pair)
  define new where "new = (\<not> zr \<and> unat val \<noteq> 255)"
  define zr1 where "zr1 = (if new then True else zr)"
  define c1 where "c1 = (if new then (3 - left) * 8 + the (netmask_bits (unat val)) else cidr)"
  define bad where "bad = (zr \<and> unat val \<noteq> 0 \<or> \<not> zr \<and> unat val > 255 \<or> new \<and> netmask_bits (unat val) = None)"
  have step: "netmask_loop (Suc left) base pos len num_flags zr cidr =
      (if len = 0 then (Inr (3 - left, zr, cidr, len), base)
       else if num_len = 0 then (Inr (3 - left, zr, cidr, len), b1)
       else if bad then (Inl IPV4_ERR_NETMASK_OOB, b1)
       else if left = 0 then (Inr (4, zr1, c1, len - num_len), b1)
       else if len - num_len = 0 then netmask_loop left b1 (pos + num_len) 0 num_flags zr1 c1
       else if x \<noteq> 0x2E then (Inr (4 - left, zr1, c1, len - num_len), b2)
       else netmask_loop left b2 (pos + num_len + 1) (len - num_len - 1) num_flags zr1 c1)"
    by (simp add: p x bad_def new_def zr1_def c1_def Let_def)
  have c1: "zr1 \<longrightarrow> c1 \<le> 32" if "\<not> bad"
    using that Suc.prems(3) netmask_bits_le [of "unat val"] by (auto simp: bad_def c1_def zr1_def)
  show ?case
    using Suc.prems c1 Suc.IH [of b1 "pos + num_len" 0 zr1 c1] Suc.IH [of b2 "pos + num_len + 1" "len - num_len - 1" zr1 c1]
    unfolding step by (auto split: if_splits)
qed simp

lemma parse_netmask_le:
  "fst (vstr__parse_ipv4_netmask base pos len flags num_flags cidr) = Inr (c, l) \<Longrightarrow> c \<le> 32"
  using netmask_loop_le [of 4 base pos len num_flags False cidr]
  by (fastforce simp: vstr__parse_ipv4_netmask_def Let_def split: prod.splits sum.splits if_splits)

lemma parse_cidr_le: "fst (vstr__parse_ipv4_cidr base pos len flags num_flags cidr) = Inr (c, l) \<Longrightarrow> c \<le> 32"
  by (auto simp: vstr__parse_ipv4_cidr_def dest: parse_netmask_le split: prod.splits if_splits)

lemma ipv4_loop_length:
  "fst (ipv4_loop left base pos len num_flags ips) = Inr (r, p, l) \<Longrightarrow> length ips + left \<le> 4 \<Longrightarrow> length r \<le> 4"
proof (induction left arbitrary: base pos len ips)
  case (Suc left)
  show ?case
    using Suc.prems by (auto simp: Let_def dest: Suc.IH split: prod.splits if_splits)
qed simp

lemma netmask_loop_err: "fst (netmask_loop left base pos len num_flags zr cidr) = Inl e \<Longrightarrow> e = IPV4_ERR_NETMASK_OOB"
proof (induction left arbitrary: base pos len zr cidr)
  case (Suc left)
  show ?case using Suc.prems by (auto simp: Let_def dest: Suc.IH split: prod.splits if_splits)
qed simp

lemma ipv4_loop_err: "fst (ipv4_loop left base pos len num_flags ips) = Inl e \<Longrightarrow> e = IPV4_ERR_IPV4_OOB"
proof (induction left arbitrary: base pos len ips)
  case (Suc left)
  show ?case using Suc.prems by (auto simp: Let_def dest: Suc.IH split: prod.splits if_splits)
qed simp

lemma parse_netmask_err: "fst (vstr__parse_ipv4_netmask base pos len flags num_flags cidr) = Inl e \<Longrightarrow> e \<noteq> IPV4_ERR_NONE"
  using netmask_loop_err [of 4 base pos len num_flags False cidr]
  by (fastforce simp: vstr__parse_ipv4_netmask_def Let_def split: prod.splits sum.splits if_splits)

lemma parse_cidr_err: "fst (vstr__parse_ipv4_cidr base pos len flags num_flags cidr) = Inl e \<Longrightarrow> e \<noteq> IPV4_ERR_NONE"
  by (auto simp: vstr__parse_ipv4_cidr_def dest: parse_netmask_err split: prod.splits if_splits)


end
