(* ===== verification/Vstr_Frame.thy ===== *)
theory Vstr_Frame
  imports Vstr_Del
begin

text \<open>
  What additions and deletions leave alone: the configured size of a buffer, when allocations fail, and the flags that tell which kinds
  of nodes a string may have. A sequence of changes of a string of \<^verbatim>\<open>BUF\<close> nodes is reasoned about one change after the other with these lemmas.
\<close>

section \<open>Configurations\<close>

definition conf_stays :: "vstr_conf \<Rightarrow> vstr_conf \<Rightarrow> bool" where
  "conf_stays c c' \<longleftrightarrow> mk_fail (heap c') = mk_fail (heap c) \<and> buf_sz c' = buf_sz c"

lemma conf_stays_refl [simp]: "conf_stays c c"
  by (simp add: conf_stays_def)

lemma conf_stays_trans: "conf_stays a b \<Longrightarrow> conf_stays b c \<Longrightarrow> conf_stays a c"
  by (simp add: conf_stays_def)

lemma conf_stays_upd [simp]:
  "conf_stays c (spare_upd t k ids c') = conf_stays c c'" "conf_stays c (node_add_ref n c') = conf_stays c c'"
  "conf_stays c (vstr__del_node n c') = conf_stays c c'" "conf_stays c (vstr__relink_nodes c' run k) = conf_stays c c'"
  "conf_stays c (c'\<lparr>malloc_bad := m\<rparr>) = conf_stays c c'"
  by (cases t; cases n; simp add: conf_stays_def vstr__del_node_def vstr_ref_add_def vstr__relink_nodes_def Let_def split: list.split)+

lemma make_spare_node_stays: "vstr__make_spare_node c t = (ok, c') \<Longrightarrow> conf_stays c c'"
  by (erule make_spare_node_cases) (simp_all add: conf_stays_def)

lemma make_spare_nodes_stays: "vstr_make_spare_nodes k c t = (n, c') \<Longrightarrow> conf_stays c c'"
  by (induction k arbitrary: c n)
    (auto split: prod.splits bool.splits dest: make_spare_node_stays intro: conf_stays_trans)

lemma free_spare_nodes_stays: "conf_stays c (snd (vstr_free_spare_nodes k c t))"
proof (induction k arbitrary: c)
  case (Suc k)
  obtain ok c1 where 1: "vstr__free_spare_node c t = (ok, c1)" by fastforce
  then have "conf_stays c c1" by (auto simp: vstr__free_spare_node_def split: list.splits)
  then show ?case using Suc [of c1] 1 by (auto split: prod.splits bool.splits intro: conf_stays_trans)
qed simp

lemma range_spare_stays: "cntl_set_num_range_spare c t lo hi = (ok, c') \<Longrightarrow> conf_stays c c'"
  using free_spare_nodes_stays [of c] make_spare_nodes_stays [of _ c t]
  by (auto simp: cntl_set_num_range_spare_def cntl_set_num_spare_def Let_def split: if_splits prod.splits)

section \<open>Strings\<close>

definition stays :: "vstr_base \<Rightarrow> vstr_base \<Rightarrow> bool" where
  "stays a b \<longleftrightarrow> conf_stays (b_conf a) (b_conf b) \<and> (\<forall>t. t \<noteq> NODE_BUF \<longrightarrow> flag_of b t \<longrightarrow> flag_of a t)"

lemma stays_refl [simp]: "stays b b"
  by (simp add: stays_def)

lemma stays_mk: "stays a b \<Longrightarrow> mk_never_fails (b_conf a) \<Longrightarrow> mk_never_fails (b_conf b)"
  by (simp add: stays_def conf_stays_def mk_never_fails_def)

lemma data_len: "vstr_inv b \<Longrightarrow> length (vstr_data b) = b_len b"
  by (simp add: vstr_data_length vstr_inv_def)

lemma stays_trans: "stays a b \<Longrightarrow> stays b c \<Longrightarrow> stays a c"
  by (auto simp: stays_def intro: conf_stays_trans)

lemma stays_upd [simp]:
  "stays a (b\<lparr>b_nodes := x1\<rparr>) = stays a b" "stays a (b\<lparr>b_len := x2\<rparr>) = stays a b" "stays a (b\<lparr>b_num := x3\<rparr>) = stays a b"
  "stays a (b\<lparr>b_used := x4\<rparr>) = stays a b" "stays a (b\<lparr>b_cache := x5\<rparr>) = stays a b" "stays a (b\<lparr>iovec_upto_date := x6\<rparr>) = stays a b"
  by (simp_all add: stays_def)

lemma stays_conf_iff [simp]:
  "stays a (b\<lparr>b_conf := c\<rparr>) \<longleftrightarrow> conf_stays (b_conf a) c \<and> (\<forall>t. t \<noteq> NODE_BUF \<longrightarrow> flag_of b t \<longrightarrow> flag_of a t)"
  by (simp add: stays_def)

lemma stays_eq: "b_conf b' = b_conf b \<Longrightarrow> (\<And>t. flag_of b' t = flag_of b t) \<Longrightarrow> stays a b' = stays a b"
  by (simp add: stays_def)

lemma stays_iovec [simp]:
  "stays a (vec_map f b) = stays a b" "stays a (vstr__cache_iovec_maybe_add b n e l) = stays a b"
  "stays a (vstr__cache_iovec_add_node_end b k l) = stays a b" "stays a (vstr__cache_iovec_del_beg b k) = stays a b"
  "stays a (vstr__cache_iovec_del_node_beg b n k l) = stays a b" "stays a (vstr__cache_iovec_reset_node b n k) = stays a b"
  "stays a (vec_close_gap k d b) = stays a b" "stays a (vstr__cache_iovec_del_node_end b k l) = stays a b"
  "stays a (cstr_map g b) = stays a b" "stays a (pos_forget b) = stays a b"
  by (rule stays_eq; simp add: vstr__cache_iovec_del_beg_def)+

lemma stays_iovec_reset [simp]: "stays a (vstr__cache_iovec_reset b) = stays a b"
  by (simp add: vstr__cache_iovec_reset_def split: option.split)

lemma stays_cbs [simp]: "stays a (vstr__cache_cbs b pos len op) = stays a b"
proof -
  have "mk_fail (heap (b_conf (vstr__cache_cbs b pos len op))) = mk_fail (heap (b_conf b))"
    by (simp add: vstr__cache_cbs_def vstr__cache_cstr_cb_def Let_def split: prod.split option.split)
  moreover have "buf_sz (b_conf (vstr__cache_cbs b pos len op)) = buf_sz (b_conf b)"
    by (simp add: vstr__cache_cbs_def Let_def split: prod.split)
  ultimately show ?thesis by (simp add: stays_def conf_stays_def)
qed

lemma stays_cache [simp]: "stays a (vstr__cache_add b pos len) = stays a b" "stays a (vstr__cache_del b pos len) = stays a b"
  by (simp_all add: vstr__cache_add_def vstr__cache_del_def)

lemma same_but_cache_stays: "same_but_cache b b' \<Longrightarrow> stays a b' = stays a b"
  by (rule stays_eq) (auto simp: same_but_cache_frame flag_of_def split: ntype.split)

lemma base__pos_stays: "vstr_base__pos b pos c = (r, b') \<Longrightarrow> stays a b' = stays a b"
  by (cases r) (auto simp: vstr_base__pos_def Let_def same_but_cache_stays [OF cache__pos_same] split: if_splits prod.splits)

lemma split_node_stays: "vstr__base_split_node b idx p = (ok, b') \<Longrightarrow> stays a b \<Longrightarrow> stays a b'"
proof -
  assume res: "vstr__base_split_node b idx p = (ok, b')" and a: "stays a b"
  obtain r c where c: "cntl_set_num_range_spare (b_conf b) (node_type (b_nodes b ! idx)) 1 UINT_MAX = (r, c)" by fastforce
  have "conf_stays (b_conf a) c" using a conf_stays_trans range_spare_stays [OF c] by (auto simp: stays_def)
  then show ?thesis using res a c by (auto simp: vstr__base_split_node_def Let_def spare_pop_def stays_def split: bool.splits)
qed

section \<open>Additions\<close>

lemma add_setup_pos_stays: "vstr__add_setup_pos b pos = (r, b') \<Longrightarrow> stays a b \<Longrightarrow> stays a b'"
  by (auto simp: vstr__add_setup_pos_def split: prod.splits if_splits bool.splits dest: split_node_stays base__pos_stays)

lemma add_beg_stays: "VSTR__ADD_BEG b pos s = (ok, r, b') \<Longrightarrow> stays a b \<Longrightarrow> stays a b'"
  by (auto simp: VSTR__ADD_BEG_def split: prod.splits if_splits dest!: add_setup_pos_stays range_spare_stays simp: stays_def intro: conf_stays_trans)

lemma add_fill_stays: "vstr__add_fill b scan s = (s', b') \<Longrightarrow> stays a b \<Longrightarrow> stays a b' \<and> src_type s' = src_type s"
  by (cases s) (auto simp: vstr__add_fill_def Let_def split: option.splits prod.splits if_splits)

lemma add_loop_stays:
  "vstr__add_loop ids s e b = (ns, rest, b') \<Longrightarrow> src_type s = NODE_BUF \<Longrightarrow> stays a b \<Longrightarrow> stays a b'"
proof (induction ids arbitrary: s b ns rest b')
  case (Cons i ids)
  have set: "stays a (set_flag NODE_BUF b)" using Cons.prems by (simp add: stays_def)
  have nxt: "src_type (src_next k s) = NODE_BUF" for k using Cons.prems(2) by (cases s) auto
  show ?case
    using Cons set nxt by (auto simp: Let_def split: if_splits prod.splits simp: stays_def)
qed simp

lemma zero_used_stays [simp]: "stays a (vstr__base_zero_used b) = stays a b"
  by (auto simp: vstr__base_zero_used_def split: list.split vstr_node.split)

lemma add_link_stays:
  assumes "vstr__add_loop ids s e b = (new, rest, b3)" "src_type s = NODE_BUF" "stays a b"
  shows "stays a (vstr__cache_add (b3\<lparr>b_conf := spare_upd t k rest (b_conf b3), b_nodes := ns\<rparr>) pos len)"
proof -
  have "stays a b3" using add_loop_stays assms by blast
  then show ?thesis by (simp only: stays_cache stays_upd stays_conf_iff conf_stays_upd) (simp add: stays_def)
qed

lemma mid_end_stays:
  assumes "src_type s = NODE_BUF" "stays a b"
  shows "stays a (VSTR__ADD_MID_END b scan pos len s)"
proof -
  obtain b1 at e where b1: "(case scan of
      Some (idx, num) \<Rightarrow> ((if idx \<noteq> length (b_nodes b) - 1 then b\<lparr>iovec_upto_date := False\<rparr> else b), Suc idx, True)
    | None \<Rightarrow> if b_len b \<noteq> 0 then (vstr__base_zero_used b, 0, False) else (b, 0, True)) = (b1, at, e)" by (meson prod_cases3)
  then have st: "stays a (b1\<lparr>b_len := b_len b1 + src_len s\<rparr>)" using assms(2) by (auto split: option.splits prod.splits if_splits)
  obtain new rest b3 where l: "vstr__add_loop (spare_beg (src_type s) (b_conf (b1\<lparr>b_len := b_len b1 + src_len s\<rparr>))) s e
      (b1\<lparr>b_len := b_len b1 + src_len s\<rparr>) = (new, rest, b3)" by (meson prod_cases3)
  show ?thesis unfolding VSTR__ADD_MID_END_def b1 Let_def prod.case l by (rule add_link_stays [OF l assms(1) st])
qed

lemma add_stays: "vstr__add b pos s = (r, b') \<Longrightarrow> src_type s = NODE_BUF \<Longrightarrow> stays a b \<Longrightarrow> stays a b'"
  by (auto simp: vstr__add_def split: prod.splits bool.splits if_splits dest!: add_beg_stays add_fill_stays intro: mid_end_stays)

lemma add_buf_stays: "vstr_add_buf b pos buf = (r, b') \<Longrightarrow> stays b b'"
  by (auto simp: vstr_add_buf_def vstr_extern_inline_add_buf_def add_fast_def Let_def split: if_splits intro: add_stays)

section \<open>Deletions\<close>

lemma cleanup_stays [simp]: "stays a (vstr__del_beg_cleanup b run sc u) = stays a b"
  by (simp add: stays_def)

lemma del_all_loop_stays: "stays a b \<Longrightarrow> stays a (del_all_loop b t run ns)"
  by (induction b t run ns rule: del_all_loop.induct) (auto simp: Let_def stays_def)

lemma del_all_stays: "stays a b \<Longrightarrow> stays a (vstr__del_all b)"
  using del_all_loop_stays [of a "b\<lparr>b_len := 0\<rparr>" "node_type (hd (b_nodes b))" "[]" "b_nodes b"]
  by (simp add: vstr__del_all_def Let_def) (simp add: stays_def flag_of_def split: ntype.split)

lemma del_beg_loop_stays: "del_beg_loop b t run ns len = (b', r) \<Longrightarrow> stays a b \<Longrightarrow> stays a b'"
  by (induction b t run ns len arbitrary: b' r rule: del_beg_loop.induct) (auto simp: Let_def stays_def split: if_splits)

lemma del_beg_stays: "stays a b \<Longrightarrow> stays a (vstr__del_beg b len)"
  by (auto simp: vstr__del_beg_def Let_def split: prod.split dest!: del_beg_loop_stays)

lemma del_mid_loop_stays: "del_mid_loop c run ns len k = (c', r) \<Longrightarrow> conf_stays c0 c \<Longrightarrow> conf_stays c0 c'"
  by (induction c run ns len k arbitrary: c' r rule: del_mid_loop.induct) (auto simp: Let_def split: if_splits)

lemma del_behind_stays: "stays a b \<Longrightarrow> stays a (del_behind b idx k len)"
  by (auto simp: del_behind_def del_fix_last_def Let_def split: prod.split dest!: del_mid_loop_stays simp: stays_def)

lemma del_in_node_stays: "del_in_node b idx num p len = (r, b') \<Longrightarrow> stays a b \<Longrightarrow> stays a b'"
  by (auto simp: del_in_node_def Let_def split: vstr_node.splits if_splits prod.splits bool.splits dest: split_node_stays)

lemma extern_inline_del_stays: "vstr_extern_inline_del b pos len = (r, b') \<Longrightarrow> stays a b \<Longrightarrow> stays a b'"
  by (auto simp: vstr_extern_inline_del_def Let_def split: if_splits prod.splits bool.splits dest: del_in_node_stays
      intro!: del_all_stays del_beg_stays del_behind_stays dest!: base__pos_stays [of _ _ _ _ _ a])

lemma del_stays: "vstr_del b pos len = (r, b') \<Longrightarrow> stays b b'"
  by (auto simp: vstr_del_def del_fast_beg_def del_fast_end_def Let_def split: if_splits intro: extern_inline_del_stays)

end
