(* ===== verification/Vstr_Sub.thy ===== *)
theory Vstr_Sub
  imports Vstr_Frame Vstr_Range
begin

text \<open>
  Substitution (\<^verbatim>\<open>src/src/vstr_sub.c\<close>): replacing a range by a buffer, by positions without data and by repeated characters. A string made
  of \<^verbatim>\<open>BUF\<close> nodes is overwritten in place as far as the lengths agree; otherwise the new data is added and the old deleted.
\<close>

section \<open>Overwriting nodes\<close>

text \<open>
  The \<^verbatim>\<open>memcpy()\<close> through the pointer of an iterator: the node the iterator is at is the one with as many nodes behind it, the place in
  the node is where as many bytes are left as the pointer can read. The code asserts that the node is a \<^verbatim>\<open>BUF\<close> node.
\<close>

definition sub_write :: "vstr_base \<Rightarrow> vstr_iter \<Rightarrow> byte list \<Rightarrow> vstr_base" where
  "sub_write base it bs =
     (let k = length (b_nodes base) - length (iter_node it) in
      case b_nodes base ! k of
        Node_buf i b \<Rightarrow>
          base\<lparr>b_nodes := (b_nodes base)[k := Node_buf i (vec_write (length b - length (the (iter_ptr it))) bs b)]\<rparr>
      | _ \<Rightarrow> base)"

function sub_fast_loop :: "vstr_base \<Rightarrow> vstr_iter \<Rightarrow> byte list \<Rightarrow> vstr_base" where
  "sub_fast_loop base it buf =
     (let b1 = sub_write base it (take (iter_len it) buf) in
      case vstr_iter_fwd_nxt it of
        (False, _) \<Rightarrow> b1
      | (True, it1) \<Rightarrow> sub_fast_loop b1 it1 (drop (iter_len it) buf))"
  by pat_completeness auto
termination
  by (relation "measure (\<lambda>(_, it, _). length (iter_node it))") (auto dest: nxt_shorter sym)

declare sub_fast_loop.simps [simp del]

definition vstr__sub_buf_fast :: "vstr_base \<Rightarrow> nat \<Rightarrow> nat \<Rightarrow> byte list \<Rightarrow> bool \<times> vstr_base" where
  "vstr__sub_buf_fast base pos len buf =
     (case vstr_iter_fwd_beg base pos len of
        (None, b1) \<Rightarrow> (False, b1)
      | (Some it, b1) \<Rightarrow> (True, vstr_cache_cb_sub (sub_fast_loop b1 it buf) pos len))"

section \<open>Ranges of different lengths\<close>

text \<open>The bytes that are not in \<^verbatim>\<open>BUF\<close> nodes.\<close>

function sub_count_loop :: "vstr_iter \<Rightarrow> nat \<Rightarrow> nat \<Rightarrow> nat" where
  "sub_count_loop it buf_len sub_add_len =
     (let tmp = iter_len it;
          s1 = (if node_type (hd (iter_node it)) \<noteq> NODE_BUF then sub_add_len + tmp else sub_add_len)
      in if buf_len - tmp = 0 then s1
         else (case vstr_iter_fwd_nxt it of (False, _) \<Rightarrow> s1 | (True, it1) \<Rightarrow> sub_count_loop it1 (buf_len - tmp) s1))"
  by pat_completeness auto
termination
  by (relation "measure (\<lambda>(it, _, _). length (iter_node it))") (auto dest: nxt_shorter sym)

declare sub_count_loop.simps [simp del]

text \<open>
  Deleting the nodes that are not \<^verbatim>\<open>BUF\<close> nodes. The position moves on by the length of a node also when the node was deleted; the iterator
  is moved before the deletion and goes on in the nodes it was started on.
\<close>

function sub_remove_loop :: "vstr_base \<Rightarrow> vstr_iter \<Rightarrow> nat \<Rightarrow> nat \<Rightarrow> nat \<times> vstr_base" where
  "sub_remove_loop base it pos len =
     (let tmp_len = iter_len it;
          (len1, b1) = (if node_type (hd (iter_node it)) \<noteq> NODE_BUF then (len - tmp_len, snd (vstr_del base pos tmp_len)) else (len, base))
      in case vstr_iter_fwd_nxt it of
           (False, _) \<Rightarrow> (len1, b1)
         | (True, it1) \<Rightarrow> sub_remove_loop b1 it1 (pos + tmp_len) len1)"
  by pat_completeness auto
termination
  by (relation "measure (\<lambda>(_, it, _, _). length (iter_node it))") (auto dest: nxt_shorter sym)

declare sub_remove_loop.simps [simp del]

definition vstr__sub_buf_slow :: "vstr_base \<Rightarrow> nat \<Rightarrow> nat \<Rightarrow> byte list \<Rightarrow> bool \<times> vstr_base" where
  "vstr__sub_buf_slow base pos len0 buf =
     (let buf_len = length buf;
          del_len = (if len0 > buf_len then len0 - buf_len else 0);
          len = (if len0 > buf_len then buf_len else len0);
          add_len = (if len0 > buf_len then 0 else buf_len - len0)
      in case vstr_iter_fwd_beg base pos len of
           (None, b1) \<Rightarrow> (False, b1)
         | (Some it, b1) \<Rightarrow>
             let sub_add_len = sub_count_loop it buf_len 0 in
             if sub_add_len = buf_len \<or> sub_add_len = len then
               (case vstr_add_buf b1 (size_sub pos 1) buf of
                  (False, b2) \<Rightarrow> (False, b2)
                | (True, b2) \<Rightarrow> vstr_del b2 (pos + buf_len) (len + del_len))
             else
               let add_len1 = add_len + sub_add_len in
               (case (if add_len1 \<noteq> 0 then
                        (case cntl_set_num_range_spare (b_conf b1) NODE_BUF ((add_len1 div buf_sz (b_conf b1) + 2) mod (UINT_MAX + 1)) UINT_MAX of
                           (r, c) \<Rightarrow> (r, b1\<lparr>b_conf := c\<rparr>))
                      else (True, b1)) of
                  (False, b2) \<Rightarrow> (False, b2)
                | (True, b2) \<Rightarrow>
                    let (len1, b3) = (if sub_add_len \<noteq> 0 then
                                        (case vstr_iter_fwd_beg b2 pos len of
                                           (None, b) \<Rightarrow> (len, b)
                                         | (Some it1, b) \<Rightarrow> sub_remove_loop b it1 pos len)
                                      else (len, b2));
                        b4 = snd (vstr__sub_buf_fast b3 pos len1 buf);
                        real_pos = pos + len1;
                        rest = drop len1 buf;
                        b5 = (if del_len \<noteq> 0 then snd (vstr_del b4 real_pos del_len) else b4);
                        b6 = (if rest \<noteq> [] then snd (vstr_add_buf b5 (size_sub real_pos 1) rest) else b5)
                    in (True, b6)))"

definition vstr_sub_buf :: "vstr_base \<Rightarrow> nat \<Rightarrow> nat \<Rightarrow> byte list \<Rightarrow> bool \<times> vstr_base" where
  "vstr_sub_buf base pos len buf =
     (if len = 0 then vstr_add_buf base (size_sub pos 1) buf
      else if buf = [] then vstr_del base pos len
      else if len = length buf \<and> \<not> node_non_used base \<and> \<not> node_ptr_used base \<and> \<not> node_ref_used base then
        vstr__sub_buf_fast base pos len buf
      else vstr__sub_buf_slow base pos len buf)"

section \<open>Other data\<close>

definition vstr_sub_non :: "vstr_base \<Rightarrow> nat \<Rightarrow> nat \<Rightarrow> nat \<Rightarrow> bool \<times> vstr_base" where
  "vstr_sub_non base pos len non_len =
     (case vstr_add_non base (size_sub pos 1) non_len of
        (False, b1) \<Rightarrow> (False, b1)
      | (True, b1) \<Rightarrow> vstr_del b1 (pos + non_len) len)"

text \<open>The \<^verbatim>\<open>memset()\<close> of each piece writes what the loop above does from a buffer of equal bytes.\<close>

definition vstr_sub_rep_chr :: "vstr_base \<Rightarrow> nat \<Rightarrow> nat \<Rightarrow> byte \<Rightarrow> nat \<Rightarrow> bool \<times> vstr_base" where
  "vstr_sub_rep_chr base pos len chr rep_len =
     (if len = 0 \<and> rep_len = 0 then (True, base)
      else if rep_len = 1 then vstr_sub_buf base pos len [chr]
      else if len = rep_len \<and> \<not> node_non_used base \<and> \<not> node_ptr_used base \<and> \<not> node_ref_used base then
        (case vstr_iter_fwd_beg base pos len of
           (None, b1) \<Rightarrow> (False, b1)
         | (Some it, b1) \<Rightarrow> (True, vstr_cache_cb_sub (sub_fast_loop b1 it (replicate len chr)) pos rep_len))
      else
        (case vstr_add_rep_chr base (size_sub pos 1) chr rep_len of
           (False, b1) \<Rightarrow> (False, b1)
         | (True, b1) \<Rightarrow> vstr_del b1 (pos + rep_len) len))"

section \<open>Nodes of the same shape\<close>

text \<open>Overwriting bytes keeps the identity, the length and the type of every node, and with them the invariant.\<close>

definition same_shape :: "vstr_node list \<Rightarrow> vstr_node list \<Rightarrow> bool" where
  "same_shape ns ns1 \<longleftrightarrow> map (\<lambda>n. (node_id n, node_len n, node_type n)) ns1 = map (\<lambda>n. (node_id n, node_len n, node_type n)) ns"

lemma same_shape_maps:
  assumes "same_shape ns ns1"
  shows "map node_id ns1 = map node_id ns" "map node_len ns1 = map node_len ns" "map node_type ns1 = map node_type ns"
    "length ns1 = length ns"
proof -
  have eq: "map (\<lambda>n. (node_id n, node_len n, node_type n)) ns1 = map (\<lambda>n. (node_id n, node_len n, node_type n)) ns"
    using assms by (simp add: same_shape_def)
  show "map node_id ns1 = map node_id ns" "map node_len ns1 = map node_len ns" "map node_type ns1 = map node_type ns"
    using arg_cong [OF eq, of "map fst"] arg_cong [OF eq, of "map (\<lambda>x. fst (snd x))"] arg_cong [OF eq, of "map (\<lambda>x. snd (snd x))"]
    by (simp_all add: comp_def)
  then show "length ns1 = length ns" by (metis length_map)
qed

lemma same_shape_trans: "same_shape a b \<Longrightarrow> same_shape b c \<Longrightarrow> same_shape a c"
  by (simp add: same_shape_def)

lemma same_shape_update:
  "k < length ns \<Longrightarrow> ns ! k = Node_buf i b \<Longrightarrow> length b1 = length b \<Longrightarrow> same_shape ns (ns[k := Node_buf i b1])"
  by (auto simp: same_shape_def map_update intro!: list_update_same_conv [THEN iffD2])

lemma node_index_ids: "node_index i ns = length (takeWhile (\<lambda>j. j \<noteq> i) (map node_id ns))"
  by (simp add: node_index_def takeWhile_map comp_def)

lemma inv_same_shape:
  assumes inv: "vstr_inv base" and sh: "same_shape (b_nodes base) ns" and ok: "\<forall>n \<in> set ns. node_ok (buf_sz (b_conf base)) n"
  shows "vstr_inv (base\<lparr>b_nodes := ns\<rparr>)"
proof -
  note maps = same_shape_maps [OF sh]
  have wf: "wf_base base" using inv by (simp add: vstr_inv_def)
  have types: "node_type ` set ns = node_type ` set (b_nodes base)" using maps(3) by (metis image_set)
  have used: "used_ok (b_used base) ns"
  proof (cases "b_used base = 0")
    case False
    then obtain i bs ns1 where b: "b_nodes base = Node_buf i bs # ns1" "b_used base < length bs"
      using wf by (auto simp: wf_base_iff used_ok_def)
    then obtain n ns2 where n: "ns = n # ns2" "node_len n = length bs" "node_type n = NODE_BUF"
      using maps by (cases ns) auto
    then show ?thesis using b(2) by (cases n) (auto simp: used_ok_def)
  qed (simp add: used_ok_def)
  have "flag_of base (node_type n)" if "n \<in> set ns" for n
    using that types wf by (metis imageE imageI wf_base_iff)
  then have "wf_base (base\<lparr>b_nodes := ns\<rparr>)" using wf ok used maps by (simp add: wf_base_iff)
  moreover have "ids_ok (b_conf base) ns" using inv maps(1) by (simp add: vstr_inv_def ids_ok_def ids_of_def)
  moreover have "pos_entry_ok ns u d i = pos_entry_ok (b_nodes base) u d i" for u d i
    using maps by (simp add: pos_entry_ok_def node_index_ids take_map flip: take_map)
  then have "pos_cache_ok (base\<lparr>b_nodes := ns\<rparr>)"
    using inv by (auto simp: vstr_inv_def pos_cache_ok_def vstr_cache_get_pos_def split: option.splits if_splits)
  ultimately show ?thesis by (simp add: vstr_inv_def)
qed

section \<open>The loop overwrites the range\<close>

lemma vec_write_length: "k + length xs \<le> length ys \<Longrightarrow> length (vec_write k xs ys) = length ys"
  by (simp add: vec_write_def)

lemma vec_write_append: "k \<le> length zs \<Longrightarrow> vec_write (k + length xs) ys (vec_write k xs zs) = vec_write k (xs @ ys) zs"
  by (simp add: vec_write_def add.commute add.left_commute)

lemma vec_write_map: "map f (vec_write k xs ys) = vec_write k (map f xs) (map f ys)"
  by (simp add: vec_write_def take_map drop_map)

lemma vec_write_mid: "k + length xs \<le> length bs \<Longrightarrow> as @ vec_write k xs bs @ cs = vec_write (length as + k) xs (as @ bs @ cs)"
  by (simp add: vec_write_def)

lemma vec_write_drop: "u \<le> k \<Longrightarrow> k \<le> length ys \<Longrightarrow> drop u (vec_write k xs ys) = vec_write (k - u) xs (drop u ys)"
  by (auto simp: vec_write_def drop_take)

text \<open>The iterator is at byte \<open>off\<close> of node \<open>k\<close>, all nodes are \<^verbatim>\<open>BUF\<close> nodes.\<close>

definition at_write :: "vstr_base \<Rightarrow> vstr_iter \<Rightarrow> nat \<Rightarrow> nat \<Rightarrow> bool" where
  "at_write base it k off \<longleftrightarrow> k < length (b_nodes base) \<and> iter_node it = drop k (b_nodes base) \<and>
     (\<forall>n \<in> set (b_nodes base). node_type n = NODE_BUF \<and> node_ok (buf_sz (b_conf base)) n) \<and>
     (\<exists>i b. b_nodes base ! k = Node_buf i b \<and> iter_ptr it = Some (drop off b) \<and> off + iter_len it \<le> length b \<and>
        (iter_remaining it \<noteq> 0 \<longrightarrow> off + iter_len it = length b)) \<and>
     iter_remaining it \<le> nodes_len (drop (Suc k) (b_nodes base))"

lemma sub_write_spec:
  assumes at: "at_write base it k off" and bs: "length bs = iter_len it"
  shows "\<exists>ns. sub_write base it bs = base\<lparr>b_nodes := ns\<rparr> \<and> same_shape (b_nodes base) ns \<and> drop (Suc k) ns = drop (Suc k) (b_nodes base) \<and>
    (\<forall>n \<in> set ns. node_type n = NODE_BUF \<and> node_ok (buf_sz (b_conf base)) n) \<and>
    nodes_data ns = vec_write (nodes_len (take k (b_nodes base)) + off) (map Some bs) (nodes_data (b_nodes base))"
proof -
  let ?ns = "b_nodes base"
  obtain i b where b: "?ns ! k = Node_buf i b" "iter_ptr it = Some (drop off b)" "off + iter_len it \<le> length b" and k: "k < length ?ns"
    and ok: "\<forall>n \<in> set ?ns. node_type n = NODE_BUF \<and> node_ok (buf_sz (b_conf base)) n" and it: "iter_node it = drop k ?ns"
    using at by (auto simp: at_write_def)
  let ?b1 = "vec_write off bs b" and ?ns1 = "?ns[k := Node_buf i (vec_write off bs b)]"
  have len: "length ?b1 = length b" using b(3) bs by (simp add: vec_write_length)
  have w: "sub_write base it bs = base\<lparr>b_nodes := ?ns1\<rparr>" using b k it by (simp add: sub_write_def)
  have ok1: "node_ok (buf_sz (b_conf base)) (Node_buf i ?b1)" using bspec [OF ok nth_mem [OF k]] b(1) len by (auto simp: node_ok_simps)
  then have "\<forall>n \<in> set ?ns1. node_type n = NODE_BUF \<and> node_ok (buf_sz (b_conf base)) n"
    using ok set_update_subset_insert [of ?ns k "Node_buf i ?b1"] by auto
  moreover have "nodes_data ?ns1 = vec_write (nodes_len (take k ?ns) + off) (map Some bs) (nodes_data ?ns)"
  proof -
    have "length (nodes_data (take k ?ns)) = nodes_len (take k ?ns)" using nodes_len_take ok by blast
    then show ?thesis
      using nodes_split_nth [of k ?ns] nodes_split_nth [of k ?ns1] k b bs
        vec_write_mid [of off "map Some bs" "map Some b" "nodes_data (take k ?ns)"] by (simp add: vec_write_map)
  qed
  ultimately show ?thesis
    using w same_shape_update [OF k b(1) len] by (intro exI [of _ ?ns1]) (simp add: drop_update_cancel)
qed

lemma at_write_next:
  assumes at: "at_write base it k off" and nxt: "vstr_iter_fwd_nxt it = (True, it1)"
    and sh: "length ns = length (b_nodes base)" "drop (Suc k) ns = drop (Suc k) (b_nodes base)"
    and ok: "\<forall>n \<in> set ns. node_type n = NODE_BUF \<and> node_ok (buf_sz (b_conf base)) n"
  shows "at_write (base\<lparr>b_nodes := ns\<rparr>) it1 (Suc k) 0 \<and> vstr_iter_len it = iter_len it + vstr_iter_len it1 \<and> iter_remaining it \<noteq> 0"
proof -
  have tl: "tl (iter_node it) = drop (Suc k) ns" using at sh by (simp add: at_write_def drop_Suc tl_drop)
  then obtain n ns2 where n: "drop (Suc k) ns = n # ns2"
    using nxt by (cases "drop (Suc k) ns") (auto simp: vstr_iter_fwd_nxt_def)
  then have k: "Suc k < length ns" "ns ! Suc k = n" "drop (Suc (Suc k)) ns = ns2"
    by (metis drop_eq_Nil leI list.distinct(1), metis nth_via_drop, metis drop_Suc list.sel(3) tl_drop)
  then obtain i b where b: "n = Node_buf i b" using ok nth_mem [OF k(1)] by (cases n) auto
  have rem: "iter_remaining it \<le> nodes_len (drop (Suc k) ns)" using at sh by (simp add: at_write_def)
  have it1: "iter_remaining it \<noteq> 0" "it1 = \<lparr>iter_ptr = Some b, iter_len = min (length b) (iter_remaining it), iter_num = iter_num it + 1,
      iter_node = n # ns2, iter_remaining = iter_remaining it - min (length b) (iter_remaining it)\<rparr>"
    using nxt n b tl by (auto simp: vstr_iter_fwd_nxt_def Let_def node_bytes_def split: if_splits)
  then show ?thesis
    using k b n ok rem by (auto simp: at_write_def vstr_iter_len_def min_def)
qed

lemma sub_fast_loop_spec:
  assumes "at_write base it k off" "vstr_iter_len it \<le> length buf"
  shows "\<exists>ns. sub_fast_loop base it buf = base\<lparr>b_nodes := ns\<rparr> \<and> same_shape (b_nodes base) ns \<and>
    (\<forall>n \<in> set ns. node_ok (buf_sz (b_conf base)) n) \<and>
    nodes_data ns = vec_write (nodes_len (take k (b_nodes base)) + off) (map Some (take (vstr_iter_len it) buf)) (nodes_data (b_nodes base))"
  using assms
proof (induction base it buf arbitrary: k off rule: sub_fast_loop.induct)
  case (1 base it buf)
  let ?ns = "b_nodes base" and ?bs = "take (iter_len it) buf" and ?a = "nodes_len (take k (b_nodes base)) + off"
  have lbs: "length ?bs = iter_len it" using 1(3) by (simp add: vstr_iter_len_def)
  obtain ns where ns: "sub_write base it ?bs = base\<lparr>b_nodes := ns\<rparr>" "same_shape ?ns ns" "drop (Suc k) ns = drop (Suc k) ?ns"
      "\<forall>n \<in> set ns. node_type n = NODE_BUF \<and> node_ok (buf_sz (b_conf base)) n" "nodes_data ns = vec_write ?a (map Some ?bs) (nodes_data ?ns)"
    using sub_write_spec [OF 1(2) lbs] by blast
  obtain r it1 where nxt: "vstr_iter_fwd_nxt it = (r, it1)" by fastforce
  have step: "sub_fast_loop base it buf = (if r then sub_fast_loop (base\<lparr>b_nodes := ns\<rparr>) it1 (drop (iter_len it) buf) else base\<lparr>b_nodes := ns\<rparr>)"
    by (subst sub_fast_loop.simps) (simp add: nxt ns(1))
  show ?case
  proof (cases r)
    case False
    then have "iter_remaining it = 0"
      using nxt 1(2) by (auto simp: at_write_def vstr_iter_fwd_nxt_def drop_Suc tl_drop Let_def split: list.splits if_splits)
    then show ?thesis using ns False step by (intro exI [of _ ns]) (simp add: vstr_iter_len_def)
  next
    case True
    have at1: "at_write (base\<lparr>b_nodes := ns\<rparr>) it1 (Suc k) 0" and len: "vstr_iter_len it = iter_len it + vstr_iter_len it1" "iter_remaining it \<noteq> 0"
      using at_write_next [OF 1(2) _ same_shape_maps(4) [OF ns(2)] ns(3,4), of it1] nxt True by auto
    obtain ns2 where ns2: "sub_fast_loop (base\<lparr>b_nodes := ns\<rparr>) it1 (drop (iter_len it) buf) = base\<lparr>b_nodes := ns2\<rparr>" "same_shape ns ns2"
        "\<forall>n \<in> set ns2. node_ok (buf_sz (b_conf base)) n"
        "nodes_data ns2 = vec_write (nodes_len (take (Suc k) ns)) (map Some (take (vstr_iter_len it1) (drop (iter_len it) buf))) (nodes_data ns)"
    proof -
      have IH: "\<And>k off. at_write (base\<lparr>b_nodes := ns\<rparr>) it1 k off \<Longrightarrow> vstr_iter_len it1 \<le> length (drop (iter_len it) buf) \<Longrightarrow>
          \<exists>ns2. sub_fast_loop (base\<lparr>b_nodes := ns\<rparr>) it1 (drop (iter_len it) buf) = base\<lparr>b_nodes := ns2\<rparr> \<and> same_shape ns ns2 \<and>
            (\<forall>n \<in> set ns2. node_ok (buf_sz (b_conf base)) n) \<and> nodes_data ns2 =
              vec_write (nodes_len (take k ns) + off) (map Some (take (vstr_iter_len it1) (drop (iter_len it) buf))) (nodes_data ns)"
        using 1(1) [OF refl, of r it1] nxt True by (simp add: ns(1))
      have "vstr_iter_len it1 \<le> length (drop (iter_len it) buf)" using 1(3) len(1) by simp
      from IH [OF at1 this] show thesis using that by auto
    qed
    obtain i b where b: "k < length ?ns" "?ns ! k = Node_buf i b" "off + iter_len it = length b"
      using 1(2) len(2) by (auto simp: at_write_def)
    have "nodes_len (take (Suc k) ns) = ?a + iter_len it"
      using same_shape_maps(2) [OF ns(2)] b by (simp add: take_map [symmetric] take_Suc_conv_app_nth flip: take_map)
    moreover have "?a \<le> length (nodes_data ?ns)"
    proof -
      have "length (nodes_data (take k ?ns)) = nodes_len (take k ?ns)" using nodes_len_take 1(2) unfolding at_write_def by blast
      then show ?thesis using arg_cong [OF nodes_split_nth [OF b(1)], of length] b by simp
    qed
    ultimately have "nodes_data ns2 = vec_write ?a (map Some (take (vstr_iter_len it) buf)) (nodes_data ?ns)"
      using ns2(4) ns(5) lbs len(1) vec_write_append [of ?a "nodes_data ?ns" "map Some ?bs"] by (simp add: take_add)
    then show ?thesis
      using ns2 ns(2) same_shape_trans step True by (intro exI [of _ ns2]) auto
  qed
qed

definition only_buf :: "vstr_base \<Rightarrow> bool" where
  "only_buf base \<longleftrightarrow> \<not> node_non_used base \<and> \<not> node_ptr_used base \<and> \<not> node_ref_used base"

lemma only_buf_nodes:
  assumes "wf_base base" "only_buf base" "n \<in> set (b_nodes base)"
  shows "node_type n = NODE_BUF \<and> node_ok (buf_sz (b_conf base)) n"
  using assms by (cases "node_type n") (auto simp: wf_base_iff only_buf_def flag_of_def)

lemma iter_beg_at_write:
  assumes rng: "in_range base pos len" and len: "0 < len" and ob: "only_buf base"
  obtains it b1 k off where "vstr_iter_fwd_beg base pos len = (Some it, b1)" "same_but_cache base b1" "vstr_inv b1" "at_write b1 it k off"
    "vstr_iter_len it = len" "nodes_len (take k (b_nodes base)) + off = pos - 1 + b_used base"
proof -
  have inv: "vstr_inv base" and pos: "1 \<le> pos" "pos \<le> b_len base" "pos + len \<le> Suc (b_len base)" using rng len by (auto simp: in_range_def)
  have wf: "wf_base base" and ids: "ids_distinct base" and pc: "pos_cache_ok base"
    using inv ids_ok_distinct by (auto simp: vstr_inv_def ids_distinct_def)
  obtain idx p num b1 where 1: "vstr_base__pos base pos True = ((idx, p, num), b1)" by (metis surj_pair)
  have at: "at_pos base pos idx p" and same: "same_but_cache base b1" and pc1: "pos_cache_ok b1"
    using base__pos_at_pos [OF wf ids pc pos(1,2) 1] by auto
  note fr = same_but_cache_frame [OF same]
  let ?ns = "b_nodes base" and ?n = "b_nodes base ! idx"
  have idx: "idx < length ?ns" and p: "1 \<le> p" "p \<le> node_len ?n" and sum: "pos + b_used base = nodes_len (take idx ?ns) + p"
    using at by (simp_all add: at_pos_def)
  have all: "\<forall>n \<in> set ?ns. node_type n = NODE_BUF \<and> node_ok (buf_sz (b_conf base)) n" using only_buf_nodes [OF wf ob] by blast
  then obtain i b where b: "?n = Node_buf i b" using nth_mem [OF idx] by (cases ?n) auto
  have total: "nodes_len (take idx ?ns) + (length b + nodes_len (drop (Suc idx) ?ns)) = b_len base + b_used base"
    using wf idx b id_take_nth_drop [OF idx] by (simp add: wf_base_iff) (metis map_append sum_list.append list.simps(9) node_len.simps(1) sum_list.Cons)
  define l where "l = min (length b - (p - 1)) len"
  define it where "it = \<lparr>iter_ptr = Some (drop (p - 1) b), iter_len = l, iter_num = num, iter_node = drop idx ?ns, iter_remaining = len - l\<rparr>"
  have beg: "vstr_iter_fwd_beg base pos len = (Some it, b1)"
    using pos len 1 fr(1) b by (simp add: vstr_iter_fwd_beg_def vstr_sc_poslast_def it_def l_def Let_def)
  have "at_write b1 it idx (p - 1)"
    using idx all b p fr(1,4) pos sum total by (auto simp: at_write_def it_def l_def min_def)
  moreover have "vstr_inv b1" using inv pc1 fr(8) wf fr(1,4) by (simp add: vstr_inv_def)
  moreover have "vstr_iter_len it = len" by (simp add: it_def l_def vstr_iter_len_def)
  moreover have "nodes_len (take idx ?ns) + (p - 1) = pos - 1 + b_used base" using p pos sum by simp
  ultimately show thesis by (intro that [OF beg same])
qed

lemma cb_sub_frame [simp]:
  "b_nodes (vstr_cache_cb_sub b pos len) = b_nodes b" "b_len (vstr_cache_cb_sub b pos len) = b_len b"
  "b_used (vstr_cache_cb_sub b pos len) = b_used b" "vstr_data (vstr_cache_cb_sub b pos len) = vstr_data b"
  "flag_of (vstr_cache_cb_sub b pos len) t = flag_of b t"
  by (simp_all add: vstr_cache_cb_sub_def)

lemma cb_sub_inv:
  assumes "vstr_inv b"
  shows "vstr_inv (vstr_cache_cb_sub b pos len)"
proof (cases "cache_available b")
  case True
  let ?b = "vstr__cache_cbs b pos len CACHE_SUB"
  have "ids_step (b_conf b) (b_nodes b) (b_conf ?b) (b_nodes b)" by simp
  moreover have "vstr_cache_get_pos ?b = vstr_cache_get_pos b"
    by (simp add: cache_cbs_pos vstr__cache_pos_cb_def split: option.split)
  ultimately show ?thesis
    using True assms ids_ok_step by (auto simp: vstr_inv_def vstr_cache_cb_sub_def pos_cache_ok_def split: option.splits)
qed (use assms in \<open>simp add: vstr_cache_cb_sub_def\<close>)

lemma cb_sub_stays [simp]: "stays a (vstr_cache_cb_sub b pos len) = stays a b"
  by (simp add: vstr_cache_cb_sub_def)

lemma only_buf_flags: "only_buf b \<longleftrightarrow> (\<forall>t. t \<noteq> NODE_BUF \<longrightarrow> \<not> flag_of b t)"
proof -
  have "(\<forall>t. P t) \<longleftrightarrow> P NODE_BUF \<and> P NODE_NON \<and> P NODE_PTR \<and> P NODE_REF" for P
    by (metis ntype.exhaust)
  from this [of "\<lambda>t. t \<noteq> NODE_BUF \<longrightarrow> \<not> flag_of b t"] show ?thesis by (simp add: only_buf_def flag_of_def)
qed

lemma stays_only_buf: "stays a b \<Longrightarrow> only_buf a \<Longrightarrow> only_buf b"
  by (auto simp: stays_def only_buf_flags)

lemma sub_buf_fast_spec:
  assumes "in_range base pos len" "0 < len" "only_buf base" "len \<le> length buf"
  obtains b1 where "vstr__sub_buf_fast base pos len buf = (True, b1)" "vstr_inv b1" "b_len b1 = b_len base" "b_used b1 = b_used base"
    "vstr_data b1 = vec_write (pos - 1) (map Some (take len buf)) (vstr_data base)" "stays base b1"
proof -
  obtain it b1 k off where it: "vstr_iter_fwd_beg base pos len = (Some it, b1)" "same_but_cache base b1" "vstr_inv b1" "at_write b1 it k off"
      "vstr_iter_len it = len" "nodes_len (take k (b_nodes base)) + off = pos - 1 + b_used base"
    using iter_beg_at_write [OF assms(1-3)] .
  note fr = same_but_cache_frame [OF it(2)]
  obtain ns where ns: "sub_fast_loop b1 it buf = b1\<lparr>b_nodes := ns\<rparr>" "same_shape (b_nodes b1) ns"
      "\<forall>n \<in> set ns. node_ok (buf_sz (b_conf b1)) n"
      "nodes_data ns = vec_write (pos - 1 + b_used base) (map Some (take len buf)) (nodes_data (b_nodes base))"
    using sub_fast_loop_spec [OF it(4), of buf] assms(4) it(5,6) fr(1) by auto
  have wf: "wf_base base" using assms(1) by (simp add: in_range_def vstr_inv_def)
  have "pos - 1 + b_used base \<le> length (nodes_data (b_nodes base))"
    using assms(1,2) vstr_data_length [OF wf] by (auto simp: in_range_def vstr_data_def)
  then have "vstr_data (b1\<lparr>b_nodes := ns\<rparr>) = vec_write (pos - 1) (map Some (take len buf)) (vstr_data base)"
    using ns(4) fr(3) vec_write_drop [of "b_used base" "pos - 1 + b_used base"] by (simp add: vstr_data_def)
  moreover have "stays base (vstr_cache_cb_sub (b1\<lparr>b_nodes := ns\<rparr>) pos len)" using same_but_cache_stays [OF it(2)] by simp
  ultimately show thesis
    using that [of "vstr_cache_cb_sub (b1\<lparr>b_nodes := ns\<rparr>) pos len"] it(1) ns(1) fr cb_sub_inv [OF inv_same_shape [OF it(3) ns(2,3)]]
    by (simp add: vstr__sub_buf_fast_def)
qed

section \<open>Deletions that succeed\<close>

lemma del_in_node_succeeds: "mk_never_fails (b_conf base) \<Longrightarrow> fst (del_in_node base idx num p len)"
  by (auto simp: del_in_node_def Let_def split: vstr_node.split prod.split bool.split dest: split_node_succeeds)

lemma del_succeeds:
  assumes "mk_never_fails (b_conf base)" "1 \<le> pos" "pos + len \<le> Suc (b_len base)"
  shows "fst (vstr_del base pos len)"
proof (cases "len = 0")
  case False
  then have last: "pos \<noteq> 0" "pos \<le> b_len base" "vstr_sc_poslast pos len \<le> b_len base"
    using assms(2,3) by (auto simp: vstr_sc_poslast_def)
  have "fst (vstr_extern_inline_del base pos len)"
  proof (cases "pos \<le> 1")
    case False
    obtain idx p num where b: "vstr_base__pos base (pos - 1) False = ((idx, p, num), base)"
      using base__pos_nocache [of base "pos - 1"] by (metis surj_pair snd_conv)
    show ?thesis
      using last False b del_in_node_succeeds [of "base\<lparr>b_len := _\<rparr>"] assms(1)
      by (auto simp: vstr_extern_inline_del_def Let_def split: prod.split bool.split) (metis fst_conv)+
  qed (use last in \<open>simp add: vstr_extern_inline_del_def\<close>)
  then show ?thesis using last False by (simp add: vstr_del_def)
qed (simp add: vstr_del_def)

section \<open>Substitution by a buffer\<close>

lemma inv_range_spare:
  assumes "cntl_set_num_range_spare (b_conf base) t lo hi = (r, c)" "lo \<le> hi" "vstr_inv base"
  shows "vstr_inv (base\<lparr>b_conf := c\<rparr>)"
proof -
  have wf: "wf_base base" using assms(3) by (simp add: vstr_inv_def)
  then have "vstr__check_spare_nodes c" "conf_same (b_conf base) c"
    using set_num_range_spare_check [OF assms(1) _ assms(2)] by (auto simp: wf_base_iff)
  then show ?thesis
    using assms(3) conf_same_wf [OF wf] ids_ok_step [OF _ ids_step_range [OF assms(1)]] by (simp add: vstr_inv_def)
qed

lemma sub_count_loop_buf:
  "\<forall>n \<in> set (iter_node it). node_type n = NODE_BUF \<Longrightarrow> iter_node it \<noteq> [] \<Longrightarrow> sub_count_loop it n k = k"
proof (induction it n k rule: sub_count_loop.induct)
  case (1 it n k)
  have "iter_node it1 = tl (iter_node it)" "iter_node it1 \<noteq> []" if "vstr_iter_fwd_nxt it = (True, it1)" for it1
    using that by (auto simp: vstr_iter_fwd_nxt_def Let_def split: list.splits if_splits)
  moreover have "\<forall>n \<in> set (tl (iter_node it)). node_type n = NODE_BUF" using 1(2,3) by (cases "iter_node it") auto
  ultimately show ?case
    using 1 by (subst sub_count_loop.simps) (auto simp: Let_def split: prod.split bool.split)
qed

lemma ins_vec_write:
  "p + length xs \<le> length zs \<Longrightarrow> ins_at (p + length xs) ys (vec_write p xs zs) = take p zs @ xs @ ys @ drop (p + length xs) zs"
  by (simp add: ins_at_def vec_write_def)

lemma del_vec_write:
  "p + length xs + k \<le> length zs \<Longrightarrow> del_at (p + length xs) k (vec_write p xs zs) = take p zs @ xs @ drop (p + length xs + k) zs"
  by (simp add: del_at_def vec_write_def add.commute add.left_commute)

lemma add_sub_result:
  assumes "vstr_inv base" "mk_never_fails (b_conf base)" "pos \<le> b_len base" "length buf \<le> UINT_MAX"
  obtains b1 where "vstr_add_buf base pos buf = (True, b1)" "stays base b1" "vstr_inv b1" "vstr_data b1 = ins_at pos (map Some buf) (vstr_data base)"
  using add_buf_result [OF assms(1,3,4)] add_buf_succeeds [OF assms(2,3), of buf]
  by (cases "vstr_add_buf base pos buf") (auto simp: add_result_def dest: add_buf_stays)

lemma del_sub_result:
  assumes "vstr_inv base" "mk_never_fails (b_conf base)" "fits_mem base" "1 \<le> pos" "pos + len \<le> Suc (b_len base)"
  obtains b1 where "vstr_del base pos len = (True, b1)" "stays base b1" "vstr_inv b1" "vstr_data b1 = del_at (pos - 1) len (vstr_data base)"
  using vstr_del_spec [OF assms(1,3,4,5)] del_succeeds [OF assms(2,4,5)]
  by (cases "vstr_del base pos len") (auto simp: del_result_def dest: del_stays)

text \<open>On a string of \<^verbatim>\<open>BUF\<close> nodes the general routine overwrites what both have, then deletes or adds the rest.\<close>

lemma sub_buf_slow_buf:
  assumes rng: "in_range base pos len" "0 < len" and ob: "only_buf base" and mk: "mk_never_fails (b_conf base)"
    and buf: "buf \<noteq> []" "length buf \<le> UINT_MAX" and mem: "fits_mem base"
  shows "\<exists>b. vstr__sub_buf_slow base pos len buf = (True, b) \<and> stays base b \<and> vstr_inv b \<and>
    vstr_data b = take (pos - 1) (vstr_data base) @ map Some buf @ drop (pos - 1 + len) (vstr_data base)"
proof -
  let ?m = "min len (length buf)" and ?p = "pos - 1" and ?xs = "vstr_data base"
  have m: "0 < ?m" "?m \<le> length buf" "?m \<le> len" using rng(2) buf(1) by auto
  have pos: "1 \<le> pos" "pos + len \<le> Suc (b_len base)" and inv: "vstr_inv base" using rng by (auto simp: in_range_def)
  have rng1: "in_range base pos ?m" using rng m(3) by (auto simp: in_range_def)
  obtain it b1 k off where it: "vstr_iter_fwd_beg base pos ?m = (Some it, b1)" "same_but_cache base b1" "vstr_inv b1" "at_write b1 it k off"
    using iter_beg_at_write [OF rng1 m(1) ob] .
  have cnt: "sub_count_loop it n 0 = 0" for n
    using it(4) by (intro sub_count_loop_buf) (auto simp: at_write_def dest: in_set_dropD)
  note fr = same_but_cache_frame [OF it(2)]
  define num where "num = ((length buf - len) div buf_sz (b_conf b1) + 2) mod (UINT_MAX + 1)"
  obtain r c where c: "cntl_set_num_range_spare (b_conf b1) NODE_BUF num UINT_MAX = (r, c)" by fastforce
  define b2 where "b2 = (if len < length buf then b1\<lparr>b_conf := c\<rparr> else b1)"
  have "num \<le> UINT_MAX" by (simp add: num_def less_Suc_eq_le [symmetric])
  then have b2: "vstr_inv b2" "r" "mk_never_fails (b_conf b2)" "b_len b2 = b_len base" "vstr_data b2 = ?xs" "only_buf b2" "b_used b2 = b_used base"
    using range_spare_succeeds [OF _ c] mk fr inv_range_spare [OF c _ it(3)] it(3) ob
    by (auto simp: b2_def only_buf_def vstr_data_def)
  have st2: "stays base b2"
    using same_but_cache_stays [OF it(2), of base] range_spare_stays [OF c] conf_stays_trans by (auto simp: b2_def stays_def)
  have "in_range b2 pos ?m" using rng1 b2 by (simp add: in_range_def)
  then obtain b4 where b4: "vstr__sub_buf_fast b2 pos ?m buf = (True, b4)" "vstr_inv b4" "b_len b4 = b_len base" "b_used b4 = b_used base"
      "vstr_data b4 = vec_write ?p (map Some (take ?m buf)) ?xs" "stays b2 b4"
    using sub_buf_fast_spec [of b2 pos ?m buf] m(1,2) b2 by metis
  have st4: "stays base b4" and mk4: "mk_never_fails (b_conf b4)"
    using stays_trans [OF st2 b4(6)] stays_mk mk by auto
  have xs: "length ?xs = b_len base" using vstr_data_length inv by (simp add: vstr_inv_def)
  have slow: "vstr__sub_buf_slow base pos len buf =
      (True, let b5 = (if len > length buf then snd (vstr_del b4 (pos + length buf) (len - length buf)) else b4)
        in if len < length buf then snd (vstr_add_buf b5 (size_sub (pos + len) 1) (drop len buf)) else b5)"
  proof -
    consider "len > length buf" | "len = length buf" | "len < length buf" by linarith
    then show ?thesis
    proof cases
      case 1
      then show ?thesis using it(1) cnt b4(1) buf(1) rng(2) by (simp add: vstr__sub_buf_slow_def Let_def b2_def)
    next
      case 2
      then show ?thesis using it(1) cnt b4(1) buf(1) rng(2) by (simp add: vstr__sub_buf_slow_def Let_def b2_def)
    next
      case 3
      then show ?thesis using it(1) cnt b4(1) buf(1) rng(2) c b2(2) by (simp add: vstr__sub_buf_slow_def Let_def b2_def num_def)
    qed
  qed
  show ?thesis
  proof (cases "len > length buf")
    case True
    have "fits_mem b4" using mem b4(3,4) by (simp add: fits_mem_def)
    then obtain b5 where "vstr_del b4 (pos + length buf) (len - length buf) = (True, b5)" "stays b4 b5" "vstr_inv b5"
        "vstr_data b5 = del_at (pos + length buf - 1) (len - length buf) (vstr_data b4)"
      using del_sub_result [OF b4(2) mk4, of "pos + length buf" "len - length buf"] pos True b4(3) by auto
    then show ?thesis
      using slow True b4(5) del_vec_write [of ?p "map Some buf" "len - length buf" ?xs] pos xs stays_trans [OF st4] by (simp add: Let_def)
  next
    case False
    show ?thesis
    proof (cases "len < length buf")
      case True
      have sz: "size_sub (pos + len) 1 = pos + len - 1" using pos mem by (intro size_sub_le) (auto simp: fits_mem_def)
      obtain b5 where "vstr_add_buf b4 (pos + len - 1) (drop len buf) = (True, b5)" "stays b4 b5" "vstr_inv b5"
          "vstr_data b5 = ins_at (pos + len - 1) (map Some (drop len buf)) (vstr_data b4)"
      proof -
        have "pos + len - 1 \<le> b_len b4" "length (drop len buf) \<le> UINT_MAX" using pos b4(3) buf(2) by auto
        then show thesis using add_sub_result [OF b4(2) mk4] that by blast
      qed
      then show ?thesis
        using slow True sz b4(5) ins_vec_write [of ?p "map Some (take len buf)" ?xs "map Some (drop len buf)"] pos xs stays_trans [OF st4]
        by (simp add: Let_def flip: map_append)
    next
      case nless: False
      then show ?thesis using slow False b4(2,5) st4 by (simp add: Let_def vec_write_def)
    qed
  qed
qed

lemma sub_buf_spec:
  assumes "in_range base pos len" "only_buf base" "mk_never_fails (b_conf base)" "length buf \<le> UINT_MAX" "fits_mem base"
  shows "\<exists>b. vstr_sub_buf base pos len buf = (True, b) \<and> stays base b \<and> vstr_inv b \<and>
    vstr_data b = take (pos - 1) (vstr_data base) @ map Some buf @ drop (pos - 1 + len) (vstr_data base)"
proof -
  have inv: "vstr_inv base" and pos: "1 \<le> pos" "pos - 1 \<le> b_len base" "pos + len \<le> Suc (b_len base)"
    using assms(1) by (auto simp: in_range_def)
  have ne: "\<not> node_non_used base" "\<not> node_ptr_used base" "\<not> node_ref_used base" using assms(2) by (auto simp: only_buf_def)
  consider (add) "len = 0" | (del) "len \<noteq> 0" "buf = []" | (fast) "len \<noteq> 0" "buf \<noteq> []" "len = length buf"
    | (slow) "len \<noteq> 0" "buf \<noteq> []" "len \<noteq> length buf" by blast
  then show ?thesis
  proof cases
    case add
    have "size_sub pos 1 = pos - 1" using pos(1,2) assms(5) by (intro size_sub_le) (auto simp: fits_mem_def)
    then show ?thesis
      using add add_sub_result [OF inv assms(3) pos(2) assms(4)] by (auto simp: vstr_sub_buf_def ins_at_def)
  next
    case del
    then show ?thesis
      using del_sub_result [OF inv assms(3,5) pos(1,3)] by (auto simp: vstr_sub_buf_def del_at_def)
  next
    case fast
    then obtain b1 where "vstr__sub_buf_fast base pos len buf = (True, b1)" "stays base b1" "vstr_inv b1"
        "vstr_data b1 = vec_write (pos - 1) (map Some (take len buf)) (vstr_data base)"
      using sub_buf_fast_spec [OF assms(1) _ assms(2), of buf] by auto
    then show ?thesis using fast ne by (simp add: vstr_sub_buf_def vec_write_def)
  next
    case slow
    then show ?thesis
      using sub_buf_slow_buf [OF assms(1) _ assms(2,3) _ assms(4,5)] by (simp add: vstr_sub_buf_def)
  qed
qed

definition ex_buf :: vstr_base where
  "ex_buf = ex_abc\<lparr>node_non_used := False, node_ptr_used := False, node_ref_used := False\<rparr>"

lemma ex_buf_sel [simp]:
  "b_len ex_buf = 6" "vstr_data ex_buf = [Some 97, Some 98, Some 99, Some 100, Some 101, Some 102]" "b_conf ex_buf = ex_conf" "only_buf ex_buf"
  "fits_mem ex_buf"
  by (simp_all add: ex_buf_def ex_abc_def ex_base_def vstr_data_def only_buf_def fits_mem_def)

lemma ex_buf_inv [simp]: "vstr_inv ex_buf"
proof -
  have "wf_base ex_abc" using ex_abc_inv by (simp add: vstr_inv_def)
  then have "wf_base ex_buf" by (auto simp: wf_base_iff ex_buf_def flag_of_def ex_abc_def ex_base_def)
  then show ?thesis
    using ex_abc_inv by (simp add: vstr_inv_def ex_buf_def pos_cache_ok_def vstr_cache_get_pos_def ex_abc_def ex_base_def)
qed

section \<open>Properties\<close>

text \<open>
  C6. Substitution by a buffer. On a string of \<^verbatim>\<open>BUF\<close> nodes that satisfies the invariant, with a \<^verbatim>\<open>malloc()\<close> that does not fail,
  \<^verbatim>\<open>vstr_sub_buf()\<close> returns TRUE, keeps the invariant and leaves the bytes in front of the range, the bytes of the buffer and the bytes
  behind the range, in this order, whatever the lengths of the range and of the buffer are: it adds when the range is empty, deletes when
  the buffer is, overwrites the nodes in place when both have one length, and otherwise overwrites the common part and adds or deletes the rest.
\<close>

theorem sub_buf_correct:
  assumes "in_range base pos len" "only_buf base" "mk_never_fails (b_conf base)" "length buf \<le> UINT_MAX" "fits_mem base"
  shows "\<exists>b. vstr_sub_buf base pos len buf = (True, b) \<and> vstr_inv b \<and>
    vstr_data b = take (pos - 1) (vstr_data base) @ map Some buf @ drop (pos - 1 + len) (vstr_data base)"
  using sub_buf_spec [OF assms] by blast

theorem sub_buf_correct_witness:
  "vstr_data (snd (vstr_sub_buf ex_buf 2 4 [1, 2])) = [Some 97, Some 1, Some 2, Some 102]"
  using sub_buf_correct [of ex_buf 2 4 "[1, 2]"] by (auto simp: in_range_def UINT_MAX_def)

section \<open>Where the general routine goes wrong\<close>

lemmas sub_eval = vstr_sub_buf_def vstr__sub_buf_slow_def vstr__sub_buf_fast_def sub_write_def vstr_iter_fwd_beg_def vstr_iter_fwd_nxt_def
  vstr_base__pos_def vstr_cache__pos_def vstr_sc_poslast_def vstr_sc_posdiff_def ex_base_def ex_conf_def ex_heap_def
  vstr_cache_cb_sub_def vstr__cache_cbs_def vstr_del_def del_end_len_def size_sub_def SIZE_MOD_def vstr_extern_inline_del_def
  del_in_node_def vstr__base_split_node_def cntl_set_num_range_spare_def cntl_set_num_spare_def UINT_MAX_def vec_write_def Let_def

lemmas del_eval = vstr__cache_iovec_del_beg_def vstr__del_beg_def vstr__del_beg_cleanup_def vstr__del_node_def vstr__relink_nodes_def vstr__cache_del_def vstr__cache_pos_cb_def

lemmas spare_eval = vstr__make_spare_node_def VSTR_MK_def spare_pop_def

text \<open>
  When the range has nodes of both kinds, the position moves on behind a deleted node too, and a node without data behind it stays in
  the string though its length is taken off.
\<close>

lemma sub_remove_mixed:
  "(case vstr_iter_fwd_beg (ex_base [Node_non 1 1, Node_buf 2 [98], Node_non 3 1]) 1 3 of
      (it, b) \<Rightarrow> case sub_remove_loop b (the it) 1 3 of (len, b1) \<Rightarrow> (len, b_nodes b1)) = (1, [Node_buf 2 [98], Node_non 3 1])"
  apply (simp add: sub_eval)
  apply (subst sub_remove_loop.simps, simp add: sub_eval del_eval)
  apply (subst sub_remove_loop.simps, simp add: vstr_iter_fwd_nxt_def)
  apply (subst sub_remove_loop.simps, simp add: vstr_iter_fwd_nxt_def vstr_del_def)
  done

text \<open>
  The result of the deletion of the rest is not looked at: with \<^verbatim>\<open>malloc()\<close> failing, TRUE is returned though nothing was deleted.
\<close>

lemma sub_buf_del_ignored:
  "(let b = ex_base [Node_buf 1 [97, 98, 99, 100]];
        res = vstr_sub_buf (b\<lparr>b_conf := (b_conf b)\<lparr>split_buf_del := True, heap := ex_heap\<lparr>mk_fail := (\<lambda>_. True)\<rparr>\<rparr>\<rparr>) 1 2 [1]
    in (fst res, vstr_data (snd res))) = (True, [Some 1, Some 98, Some 99, Some 100])"
  by (simp add: sub_eval sub_count_loop.simps sub_fast_loop.simps) (simp add: spare_eval vstr_data_def)

end
