(* ===== verification/Vstr_Sects.thy ===== *)
theory Vstr_Sects
  imports Vstr_Base
begin

text \<open>
  Sections (\<^verbatim>\<open>src/src/vstr_sect.c\<close>): a growing array of position and length pairs, and the callback that keeps the pairs in step with
  the changes of a string. The allocator is passed along; the array is a list as long as the memory that was allocated for it.
\<close>

section \<open>Data\<close>

record sect_node =
  sect_pos :: nat
  sect_len :: nat

record vstr_sects =
  s_num :: nat
  s_sz :: nat
  s_malloc_bad :: bool
  s_free_ptr :: bool
  s_can_add_sz :: bool
  s_can_del_sz :: bool
  s_alloc_double :: bool
  s_ptr :: "sect_node list"

text \<open>Memory that has not been written to.\<close>

definition sect_null :: sect_node where
  "sect_null = \<lparr>sect_pos = 0, sect_len = 0\<rparr>"

definition SECTS_INIT :: "nat \<Rightarrow> sect_node list \<Rightarrow> bool \<Rightarrow> vstr_sects" where
  "SECTS_INIT p_sz p_ptr p_free_ptr =
     \<lparr>s_num = 0, s_sz = p_sz, s_malloc_bad = False, s_free_ptr = p_free_ptr, s_can_add_sz = p_free_ptr, s_can_del_sz = False,
      s_alloc_double = True, s_ptr = p_ptr\<rparr>"

section \<open>Operations\<close>

definition vstr_sects_make :: "nat \<Rightarrow> vstr_heap \<Rightarrow> vstr_sects option \<times> vstr_heap" where
  "vstr_sects_make beg_num h =
     (case VSTR_MK h of
        (None, h1) \<Rightarrow> (None, h1)
      | (Some _, h1) \<Rightarrow>
          if beg_num = 0 then (Some (SECTS_INIT 0 [] True), h1)
          else (case VSTR_MK h1 of
                  (None, h2) \<Rightarrow> (None, h2)
                | (Some _, h2) \<Rightarrow> (Some (SECTS_INIT beg_num (replicate beg_num sect_null) True), h2)))"

definition vstr__sects_mv :: "vstr_sects \<Rightarrow> nat \<Rightarrow> vstr_heap \<Rightarrow> bool \<times> vstr_sects \<times> vstr_heap" where
  "vstr__sects_mv sects sz h =
     (case VSTR_MK h of
        (None, h1) \<Rightarrow> (False, sects\<lparr>s_malloc_bad := True\<rparr>, h1)
      | (Some _, h1) \<Rightarrow> (True, sects\<lparr>s_sz := sz, s_ptr := realloc_list sz sect_null (s_ptr sects)\<rparr>, h1))"

text \<open>The size is computed in an \<^verbatim>\<open>unsigned int\<close>: doubling and incrementing wrap around.\<close>

definition vstr__sects_add :: "vstr_sects \<Rightarrow> vstr_heap \<Rightarrow> bool \<times> vstr_sects \<times> vstr_heap" where
  "vstr__sects_add sects h =
     (let sz = s_sz sects mod 2 ^ 32 in
      if sz = 0 then
        (case VSTR_MK h of
           (None, h1) \<Rightarrow> (False, sects\<lparr>s_ptr := [], s_malloc_bad := True\<rparr>, h1)
         | (Some _, h1) \<Rightarrow> (True, sects\<lparr>s_ptr := [sect_null], s_sz := 1\<rparr>, h1))
      else
        let sz1 = (if s_alloc_double sects then (sz * 2) mod 2 ^ 32 else sz);
            sz2 = (if sz1 \<le> s_sz sects then (s_sz sects + 1) mod 2 ^ 32 else sz1)
        in if sz2 \<le> s_sz sects then (False, sects\<lparr>s_malloc_bad := True\<rparr>, h)
           else vstr__sects_mv sects sz2 h)"

definition vstr__sects_del :: "vstr_sects \<Rightarrow> vstr_heap \<Rightarrow> bool \<times> vstr_sects \<times> vstr_heap" where
  "vstr__sects_del sects h = vstr__sects_mv sects ((s_sz sects mod 2 ^ 32) div 2) h"

definition vstr_sects_add :: "vstr_sects \<Rightarrow> nat \<Rightarrow> nat \<Rightarrow> vstr_heap \<Rightarrow> bool \<times> vstr_sects \<times> vstr_heap" where
  "vstr_sects_add sects pos len h =
     (case (if s_sz sects = 0 \<or> s_num sects \<ge> s_sz sects then
              if \<not> s_can_add_sz sects then (False, sects, h) else vstr__sects_add sects h
            else (True, sects, h)) of
        (False, s1, h1) \<Rightarrow> (False, s1, h1)
      | (True, s1, h1) \<Rightarrow>
          (True, s1\<lparr>s_ptr := (s_ptr s1)[s_num s1 := \<lparr>sect_pos = pos, sect_len = len\<rparr>], s_num := s_num s1 + 1\<rparr>, h1))"

text \<open>The loop that gives up deleted sections at the end.\<close>

fun shorten_num :: "sect_node list \<Rightarrow> nat \<Rightarrow> nat" where
  "shorten_num ptr 0 = 0"
| "shorten_num ptr (Suc n) = (if sect_pos (ptr ! n) = 0 then shorten_num ptr n else Suc n)"

definition sects_shorten :: "vstr_sects \<Rightarrow> vstr_heap \<Rightarrow> vstr_sects \<times> vstr_heap" where
  "sects_shorten sects h =
     (let s1 = sects\<lparr>s_num := shorten_num (s_ptr sects) (s_num sects)\<rparr> in
      if s_can_del_sz s1 \<and> s_num s1 < s_sz s1 div 2 then snd (vstr__sects_del s1 h) else (s1, h))"

definition vstr_sects_del :: "vstr_sects \<Rightarrow> nat \<Rightarrow> vstr_heap \<Rightarrow> bool \<times> vstr_sects \<times> vstr_heap" where
  "vstr_sects_del sects num h =
     (if s_sz sects = 0 \<or> num = 0 \<or> s_num sects < num then (False, sects, h)
      else if sect_pos (s_ptr sects ! (num - 1)) = 0 then (False, sects, h)
      else (True, sects_shorten (sects\<lparr>s_ptr := (s_ptr sects)[num - 1 := (s_ptr sects ! (num - 1))\<lparr>sect_pos := 0\<rparr>]\<rparr>) h))"

fun sects_srch_loop :: "sect_node list \<Rightarrow> nat \<Rightarrow> nat \<Rightarrow> nat \<Rightarrow> nat" where
  "sects_srch_loop [] cnt pos len = 0"
| "sects_srch_loop (s # ss) cnt pos len =
     (if sect_pos s = pos \<and> sect_len s = len then cnt + 1 else sects_srch_loop ss (cnt + 1) pos len)"

definition vstr_sects_srch :: "vstr_sects \<Rightarrow> nat \<Rightarrow> nat \<Rightarrow> nat" where
  "vstr_sects_srch sects pos len = (if s_sz sects = 0 then 0 else sects_srch_loop (take (s_num sects) (s_ptr sects)) 0 pos len)"

subsection \<open>Running a function on every section\<close>

datatype foreach_ret = SECTS_FOREACH_DEF | SECTS_FOREACH_DEL | SECTS_FOREACH_RET

text \<open>
  The function is a parameter: it gets a position, a length and the caller's data and returns what to do with the section, and the data.
  \<open>scans\<close> are the places the loop will visit.
\<close>

fun foreach_loop ::
    "bool \<Rightarrow> (nat \<Rightarrow> nat \<Rightarrow> 'd \<Rightarrow> foreach_ret \<times> 'd) \<Rightarrow> nat list \<Rightarrow> sect_node list \<Rightarrow> nat \<Rightarrow> 'd \<Rightarrow> nat \<times> sect_node list \<times> 'd" where
  "foreach_loop allow_null f [] ptr cnt data = (cnt, ptr, data)"
| "foreach_loop allow_null f (scan # scans) ptr cnt data =
     (let pos = sect_pos (ptr ! scan); len = sect_len (ptr ! scan) in
      if pos \<noteq> 0 \<and> (len \<noteq> 0 \<or> allow_null) then
        (case f pos len data of
           (SECTS_FOREACH_RET, d1) \<Rightarrow> (cnt + 1, ptr, d1)
         | (SECTS_FOREACH_DEL, d1) \<Rightarrow> foreach_loop allow_null f scans (ptr[scan := (ptr ! scan)\<lparr>sect_pos := 0\<rparr>]) (cnt + 1) d1
         | (SECTS_FOREACH_DEF, d1) \<Rightarrow> foreach_loop allow_null f scans ptr (cnt + 1) d1)
      else foreach_loop allow_null f scans ptr cnt data)"

definition vstr_sects_foreach ::
    "vstr_sects \<Rightarrow> bool \<Rightarrow> bool \<Rightarrow> (nat \<Rightarrow> nat \<Rightarrow> 'd \<Rightarrow> foreach_ret \<times> 'd) \<Rightarrow> 'd \<Rightarrow> vstr_heap \<Rightarrow> nat \<times> vstr_sects \<times> 'd \<times> vstr_heap" where
  "vstr_sects_foreach sects backward allow_null f data h =
     (if s_sz sects = 0 then (0, sects, data, h)
      else (case foreach_loop allow_null f (if backward then rev [0..<s_num sects] else [0..<s_num sects]) (s_ptr sects) 0 data of
              (cnt, ptr, d1) \<Rightarrow>
                (case sects_shorten (sects\<lparr>s_ptr := ptr\<rparr>) h of (s1, h1) \<Rightarrow> (cnt, s1, d1, h1))))"

section \<open>Following the changes of a string\<close>

text \<open>
  The callback \<^verbatim>\<open>vstr__sects_update_cb()\<close> for one section: \<open>len\<close> bytes were added behind \<open>pos\<close>, or deleted from \<open>pos\<close> on. A deletion that
  begins before the section changes the variable \<^verbatim>\<open>len\<close> of the callback itself, which is used for the sections that follow.
\<close>

definition sect_upd_add :: "nat \<Rightarrow> nat \<Rightarrow> sect_node \<Rightarrow> sect_node" where
  "sect_upd_add pos len s =
     (if sect_pos s \<noteq> 0 \<and> sect_len s \<noteq> 0 then
        let s1 = (if pos < sect_pos s then s\<lparr>sect_pos := sect_pos s + len\<rparr> else s)
        in if pos \<ge> sect_pos s1 \<and> pos < sect_pos s1 + sect_len s1 - 1 then s1\<lparr>sect_len := sect_len s1 + len\<rparr> else s1
      else s)"

definition sect_upd_del :: "nat \<Rightarrow> nat \<Rightarrow> sect_node \<Rightarrow> sect_node \<times> nat" where
  "sect_upd_del pos len s =
     (if sect_pos s \<noteq> 0 \<and> sect_len s \<noteq> 0 then
        if pos \<le> sect_pos s then
          let tmp = sect_pos s - pos in
          if tmp \<ge> len then (s\<lparr>sect_pos := sect_pos s - len\<rparr>, len)
          else
            let len1 = len - tmp in
            if len1 \<ge> sect_len s then (s\<lparr>sect_pos := 0\<rparr>, len1)
            else (s\<lparr>sect_pos := sect_pos s - tmp, sect_len := sect_len s - len1\<rparr>, len1)
        else if pos > sect_pos s \<and> pos \<le> sect_pos s + sect_len s - 1 then
          let tmp = pos - sect_pos s in
          (if len \<ge> sect_len s - tmp then s\<lparr>sect_len := tmp\<rparr> else s\<lparr>sect_len := sect_len s - len\<rparr>, len)
        else (s, len)
      else (s, len))"

fun sects_upd_del :: "nat \<Rightarrow> nat \<Rightarrow> sect_node list \<Rightarrow> sect_node list \<times> nat" where
  "sects_upd_del pos len [] = ([], len)"
| "sects_upd_del pos len (s # ss) =
     (case sect_upd_del pos len s of (s1, l1) \<Rightarrow> (case sects_upd_del pos l1 ss of (ss1, l2) \<Rightarrow> (s1 # ss1, l2)))"

definition sects_upd :: "cache_op \<Rightarrow> nat \<Rightarrow> nat \<Rightarrow> vstr_sects \<Rightarrow> vstr_sects \<times> nat" where
  "sects_upd op pos len sects =
     (let used = take (s_num sects) (s_ptr sects); rest = drop (s_num sects) (s_ptr sects) in
      if op = CACHE_ADD then (sects\<lparr>s_ptr := map (sect_upd_add pos len) used @ rest\<rparr>, len)
      else if op = CACHE_DEL then
        (case sects_upd_del pos len used of (ss, l1) \<Rightarrow> (sects\<lparr>s_ptr := ss @ rest\<rparr>, l1))
      else (sects, len))"

text \<open>
  What the cache of a string holds about its sections: the size of the allocation and the sections to update, which the callback finds in
  the store \<open>st\<close>.
\<close>

record sects_cache_data =
  scd_sz :: nat
  scd_updates :: "nat list"

fun sects_upd_all :: "cache_op \<Rightarrow> nat \<Rightarrow> nat \<Rightarrow> nat list \<Rightarrow> (nat \<Rightarrow> vstr_sects) \<Rightarrow> (nat \<Rightarrow> vstr_sects)" where
  "sects_upd_all op pos len [] st = st"
| "sects_upd_all op pos len (i # is) st =
     (case sects_upd op pos len (st i) of (s1, l1) \<Rightarrow> sects_upd_all op pos l1 is (st(i := s1)))"

definition vstr__sects_update_cb ::
    "nat \<Rightarrow> nat \<Rightarrow> cache_op \<Rightarrow> sects_cache_data \<Rightarrow> (nat \<Rightarrow> vstr_sects) \<Rightarrow> sects_cache_data option \<times> (nat \<Rightarrow> vstr_sects)" where
  "vstr__sects_update_cb pos len op data st =
     (if op = CACHE_FREE then (None, st)
      else if op = CACHE_SUB then (Some data, st)
      else (Some data, sects_upd_all op pos len (scd_updates data) st))"

fun sects_update_find :: "nat list \<Rightarrow> nat \<Rightarrow> nat \<Rightarrow> nat option" where
  "sects_update_find [] i n = None"
| "sects_update_find (x # xs) i n = (if x = i then Some n else sects_update_find xs i (n + 1))"

definition vstr__sects_update_srch :: "sects_cache_data \<Rightarrow> nat \<Rightarrow> nat option" where
  "vstr__sects_update_srch data i = sects_update_find (scd_updates data) i 0"

definition vstr__sects_update_del :: "sects_cache_data \<Rightarrow> nat \<Rightarrow> sects_cache_data" where
  "vstr__sects_update_del data n = data\<lparr>scd_updates := take n (scd_updates data) @ drop (n + 1) (scd_updates data)\<rparr>"

section \<open>The array\<close>

definition sects_ok :: "vstr_sects \<Rightarrow> bool" where
  "sects_ok s \<longleftrightarrow> length (s_ptr s) = s_sz s \<and> s_num s \<le> s_sz s \<and> s_sz s < 2 ^ 32"

text \<open>The sections in use.\<close>

definition sects_list :: "vstr_sects \<Rightarrow> sect_node list" where
  "sects_list s = take (s_num s) (s_ptr s)"

text \<open>Deleted sections at the end of the array are given up.\<close>

definition strip_deleted :: "sect_node list \<Rightarrow> sect_node list" where
  "strip_deleted ss = rev (dropWhile (\<lambda>s. sect_pos s = 0) (rev ss))"

lemma realloc_list_take: "n \<le> length xs \<Longrightarrow> n \<le> m \<Longrightarrow> take n (realloc_list m x xs) = take n xs"
  by (simp add: realloc_list_def min_def)

lemma length_realloc [simp]: "length (realloc_list n x xs) = n"
  by (simp add: realloc_list_def)

lemma sects_mv_ok:
  assumes "vstr__sects_mv s sz h = (r, s1, h1)" "sects_ok s" "s_num s \<le> sz" "sz < 2 ^ 32"
  shows "sects_ok s1 \<and> sects_list s1 = sects_list s \<and> s_num s1 = s_num s \<and> (r \<longrightarrow> s_sz s1 = sz)"
  using assms by (auto simp: vstr__sects_mv_def sects_ok_def sects_list_def realloc_list_take split: option.splits prod.splits)

lemma sects_grow_ok:
  assumes "vstr__sects_add s h = (r, s1, h1)" "sects_ok s"
  shows "sects_ok s1 \<and> sects_list s1 = sects_list s \<and> s_num s1 = s_num s \<and> (r \<longrightarrow> s_sz s < s_sz s1)"
proof (cases "s_sz s = 0")
  case True
  then show ?thesis
    using assms by (auto simp: vstr__sects_add_def sects_ok_def sects_list_def split: option.splits prod.splits)
next
  case False
  then show ?thesis
    using assms sects_mv_ok [OF _ assms(2), of _ h r s1 h1]
    by (fastforce simp: vstr__sects_add_def Let_def sects_ok_def sects_list_def split: if_splits)
qed

lemma take_Suc_update: "n < length xs \<Longrightarrow> take (Suc n) (xs[n := x]) = take n xs @ [x]"
  by (simp add: take_Suc_conv_app_nth)

lemma shorten_num_le: "shorten_num ptr n \<le> n"
  by (induction n) auto

lemma shorten_num_strip: "n \<le> length ptr \<Longrightarrow> take (shorten_num ptr n) ptr = strip_deleted (take n ptr)"
  by (induction n) (auto simp: strip_deleted_def take_Suc_conv_app_nth)

lemma sects_shorten_ok:
  assumes "sects_shorten s h = (s1, h1)" "sects_ok s"
  shows "sects_ok s1 \<and> sects_list s1 = strip_deleted (sects_list s)"
proof -
  let ?s = "s\<lparr>s_num := shorten_num (s_ptr s) (s_num s)\<rparr>"
  have 1: "sects_ok ?s" "sects_list ?s = strip_deleted (sects_list s)"
    using assms shorten_num_le [of "s_ptr s" "s_num s"] by (auto simp: sects_ok_def sects_list_def shorten_num_strip)
  obtain r s2 h2 where mv: "vstr__sects_mv ?s (s_sz s div 2) h = (r, s2, h2)"
    by (metis prod_cases3)
  have "s_sz s div 2 < 2 ^ 32" using assms(2) unfolding sects_ok_def by linarith
  then show ?thesis
    using assms 1 mv sects_mv_ok [OF mv 1(1)]
    by (auto simp: sects_shorten_def Let_def vstr__sects_del_def sects_ok_def split: if_splits)
qed

text \<open>A run of a function deletes sections and does nothing else to them.\<close>

definition marked :: "sect_node \<Rightarrow> sect_node \<Rightarrow> bool" where
  "marked s s1 \<longleftrightarrow> s1 = s \<or> s1 = s\<lparr>sect_pos := 0\<rparr>"

lemma marked_trans: "list_all2 marked xs ys \<Longrightarrow> list_all2 marked ys zs \<Longrightarrow> list_all2 marked xs zs"
  by (rule list_all2_trans) (auto simp: marked_def)

lemma marked_refl [simp]: "list_all2 marked xs xs"
  by (simp add: marked_def list_all2_refl)

lemma marked_update: "list_all2 marked xs (xs[i := (xs ! i)\<lparr>sect_pos := 0\<rparr>])"
  by (cases "i < length xs") (auto simp: list_all2_conv_all_nth marked_def nth_list_update)

lemma foreach_loop_marks:
  "foreach_loop a f scans ptr n d = (n1, ptr1, d1) \<Longrightarrow> list_all2 marked ptr ptr1 \<and> n1 \<le> n + length scans"
proof (induction scans arbitrary: ptr n d)
  case (Cons scan scans)
  let ?p = "sect_pos (ptr ! scan)" and ?l = "sect_len (ptr ! scan)"
  obtain r d2 where f: "f ?p ?l d = (r, d2)" by fastforce
  show ?case
    using Cons.prems Cons.IH [of ptr] Cons.IH [of "ptr[scan := (ptr ! scan)\<lparr>sect_pos := 0\<rparr>]"]
      marked_trans [OF marked_update [of ptr scan], of ptr1]
    by (cases r) (fastforce simp: f Let_def split: if_splits)+
qed simp

lemma sects_srch_loop_spec:
  "case sects_srch_loop ss cnt pos len of
     0 \<Rightarrow> \<lparr>sect_pos = pos, sect_len = len\<rparr> \<notin> set ss
   | Suc k \<Rightarrow> cnt \<le> k \<and> k - cnt < length ss \<and> ss ! (k - cnt) = \<lparr>sect_pos = pos, sect_len = len\<rparr> \<and>
       (\<forall>i < k - cnt. ss ! i \<noteq> \<lparr>sect_pos = pos, sect_len = len\<rparr>)"
proof (induction ss arbitrary: cnt)
  case (Cons s ss)
  have 1: "s = \<lparr>sect_pos = pos, sect_len = len\<rparr> \<longleftrightarrow> sect_pos s = pos \<and> sect_len s = len"
    by (cases s) auto
  show ?case
  proof (cases "s = \<lparr>sect_pos = pos, sect_len = len\<rparr>")
    case False
    then have 2: "sects_srch_loop (s # ss) cnt pos len = sects_srch_loop ss (Suc cnt) pos len"
      using 1 by auto
    show ?thesis
    proof (cases "sects_srch_loop ss (Suc cnt) pos len")
      case (Suc k)
      then show ?thesis
        using Cons [of "Suc cnt"] False by (auto simp: 2 nth_Cons' Suc_diff_le diff_Suc split: nat.splits)
    qed (use Cons [of "Suc cnt"] False in \<open>auto simp: 2\<close>)
  qed simp
qed simp

section \<open>Sections of a changing string\<close>

definition sect_of :: "'a list \<Rightarrow> sect_node \<Rightarrow> 'a list" where
  "sect_of xs s = take (sect_len s) (drop (sect_pos s - 1) xs)"

definition sect_within :: "'a list \<Rightarrow> sect_node \<Rightarrow> bool" where
  "sect_within xs s \<longleftrightarrow> sect_pos s \<noteq> 0 \<and> sect_len s \<noteq> 0 \<and> sect_pos s + sect_len s \<le> length xs + 1"

text \<open>
  What the section \<open>s\<close> of the string \<open>xs\<close> has to become when \<open>new\<close> is added behind \<open>pos\<close>: its content grows if the addition is inside and is
  the same otherwise. When \<open>len\<close> bytes are deleted from \<open>pos\<close> on, it keeps those of its bytes that are not deleted, and is deleted if there
  are none.
\<close>

definition follows_add :: "'a list \<Rightarrow> nat \<Rightarrow> 'a list \<Rightarrow> sect_node \<Rightarrow> sect_node \<Rightarrow> bool" where
  "follows_add xs pos new s s1 \<longleftrightarrow>
     (sect_within xs s \<longrightarrow> sect_within (ins_at pos new xs) s1 \<and>
        sect_of (ins_at pos new xs) s1 =
          (if sect_pos s \<le> pos \<and> pos < sect_pos s + sect_len s - 1 then ins_at (pos - (sect_pos s - 1)) new (sect_of xs s) else sect_of xs s))"

definition follows_del :: "'a list \<Rightarrow> nat \<Rightarrow> nat \<Rightarrow> sect_node \<Rightarrow> sect_node \<Rightarrow> bool" where
  "follows_del xs pos len s s1 \<longleftrightarrow>
     (sect_within xs s \<longrightarrow>
        (let beg = max pos (sect_pos s); n = min (pos + len) (sect_pos s + sect_len s) - beg in
         if n = sect_len s then sect_pos s1 = 0
         else sect_within (del_at (pos - 1) len xs) s1 \<and>
           sect_of (del_at (pos - 1) len xs) s1 = del_at (beg - sect_pos s) n (sect_of xs s)))"

text \<open>The deletion begins before the section and ends in or behind it.\<close>

definition cuts_start :: "nat \<Rightarrow> nat \<Rightarrow> sect_node \<Rightarrow> bool" where
  "cuts_start pos len s \<longleftrightarrow> sect_pos s \<noteq> 0 \<and> sect_len s \<noteq> 0 \<and> pos < sect_pos s \<and> sect_pos s < pos + len"

lemma slice_add:
  assumes "a \<le> length xs" "q + l \<le> length xs"
  shows "a \<le> q \<Longrightarrow> take l (drop (q + length new) (ins_at a new xs)) = take l (drop q xs)"
    and "q \<le> a \<Longrightarrow> a < q + l \<Longrightarrow> take (l + length new) (drop q (ins_at a new xs)) = ins_at (a - q) new (take l (drop q xs))"
    and "q + l \<le> a \<Longrightarrow> take l (drop q (ins_at a new xs)) = take l (drop q xs)"
  using assms by (auto simp: ins_at_def drop_take min_def)

lemma slice_del:
  assumes "a + n \<le> length xs" "q + l \<le> length xs"
  shows "a + n \<le> q \<Longrightarrow> take l (drop (q - n) (del_at a n xs)) = take l (drop q xs)"
    and "a \<le> q \<Longrightarrow> q \<le> a + n \<Longrightarrow> take (l - (n - (q - a))) (drop a (del_at a n xs)) = del_at 0 (n - (q - a)) (take l (drop q xs))"
    and "q \<le> a \<Longrightarrow> q + l \<le> a + n \<Longrightarrow> a \<le> q + l \<Longrightarrow> take (a - q) (drop q (del_at a n xs)) = del_at (a - q) (q + l - a) (take l (drop q xs))"
    and "q \<le> a \<Longrightarrow> a + n \<le> q + l \<Longrightarrow> take (l - n) (drop q (del_at a n xs)) = del_at (a - q) n (take l (drop q xs))"
    and "q + l \<le> a \<Longrightarrow> take l (drop q (del_at a n xs)) = take l (drop q xs)"
  using assms by (auto simp: del_at_def drop_take min_def add.commute dest: le_antisym intro: arg_cong2 [where f = take])

lemma sect_upd_add_follows:
  assumes "pos \<le> length xs"
  shows "follows_add xs pos new s (sect_upd_add pos (length new) s)"
proof (cases "sect_within xs s")
  case True
  obtain q l where s: "s = \<lparr>sect_pos = Suc q, sect_len = l\<rparr>" and l: "l \<noteq> 0" "q + l \<le> length xs"
    using True by (cases s) (auto simp: sect_within_def gr0_conv_Suc)
  note sl = slice_add [OF assms l(2), of new]
  consider "pos \<le> q" | "q < pos" "pos < q + l" | "q + l \<le> pos" by linarith
  then show ?thesis
    using assms s l sl by cases (simp_all add: follows_add_def sect_upd_add_def sect_within_def sect_of_def)
qed (simp add: follows_add_def)

lemma sect_upd_del_follows:
  assumes "0 < pos" "pos + len \<le> length xs + 1"
  shows "follows_del xs pos len s (fst (sect_upd_del pos len s))"
proof (cases "sect_within xs s")
  case True
  obtain q l where s: "s = \<lparr>sect_pos = Suc q, sect_len = l\<rparr>" and l: "l \<noteq> 0" "q + l \<le> length xs"
    using True by (cases s) (auto simp: sect_within_def gr0_conv_Suc)
  obtain a where a: "pos = Suc a" "a + len \<le> length xs" using assms by (cases pos) auto
  note sl = slice_del [OF a(2) l(2)]
  have fol: "follows_del xs pos len s \<lparr>sect_pos = p1, sect_len = l1\<rparr>"
    if "min (a + len) (q + l) - max a q = n" "if n = l then p1 = 0 else p1 \<noteq> 0 \<and> l1 \<noteq> 0 \<and> p1 + l1 \<le> length xs - len + 1 \<and>
        take l1 (drop (p1 - 1) (del_at a len xs)) = del_at (max a q - q) n (take l (drop q xs))" for n p1 l1
    using that a s by (auto simp: follows_del_def sect_within_def sect_of_def Let_def)
  consider "a + len \<le> q" | "a \<le> q" "q < a + len" "q + l \<le> a + len" | "a \<le> q" "q < a + len" "a + len < q + l"
    | "q < a" "a < q + l" "q + l \<le> a + len" | "q < a" "a + len < q + l" | "q + l \<le> a" by linarith
  then show ?thesis
  proof cases
    case 1
    then have "fst (sect_upd_del pos len s) = \<lparr>sect_pos = Suc q - len, sect_len = l\<rparr>"
      using a s l by (simp add: sect_upd_del_def Let_def)
    then show ?thesis using fol [of 0 "Suc q - len" l] sl(1) 1 l by (simp add: Suc_diff_le)
  next
    case 2
    then have "fst (sect_upd_del pos len s) = \<lparr>sect_pos = 0, sect_len = l\<rparr>"
      using a s l by (simp add: sect_upd_del_def Let_def)
    then show ?thesis using fol [of l 0 l] 2 by simp
  next
    case 3
    then have "fst (sect_upd_del pos len s) = \<lparr>sect_pos = Suc a, sect_len = l + q - (a + len)\<rparr>"
      using a s l by (auto simp: sect_upd_del_def Let_def)
    moreover have "l - (len - (q - a)) = l + q - (a + len)" "len - (q - a) = a + len - q" using 3 by auto
    moreover have "follows_del xs pos len s \<lparr>sect_pos = Suc a, sect_len = l + q - (a + len)\<rparr>"
      by (rule fol [of "a + len - q"]) (use sl(2) 3 l calculation in auto)
    ultimately show ?thesis by simp
  next
    case 4
    then have "fst (sect_upd_del pos len s) = \<lparr>sect_pos = Suc q, sect_len = a - q\<rparr>"
      using a s l by (simp add: sect_upd_del_def Let_def)
    then show ?thesis
      by (simp only:) (rule fol [of "q + l - a"], use sl(3) 4 l a in auto)
  next
    case 5
    then have "fst (sect_upd_del pos len s) = \<lparr>sect_pos = Suc q, sect_len = l - len\<rparr>"
      using a s l by (simp add: sect_upd_del_def Let_def)
    then show ?thesis
      by (simp only:) (rule fol [of len], use sl(4) 5 l a in auto)
  next
    case 6
    then have "fst (sect_upd_del pos len s) = \<lparr>sect_pos = Suc q, sect_len = l\<rparr>"
      using a s l by (simp add: sect_upd_del_def Let_def)
    then show ?thesis
      by (simp only:) (rule fol [of 0], use sl(5) 6 l a in auto)
  qed
qed (simp add: follows_del_def)

lemma sect_upd_del_len: "snd (sect_upd_del pos len s) = (if cuts_start pos len s then len - (sect_pos s - pos) else len)"
  by (auto simp: sect_upd_del_def cuts_start_def Let_def)

lemma sects_upd_del_eq:
  "\<forall>s \<in> set ss. \<not> cuts_start pos len s \<Longrightarrow> sects_upd_del pos len ss = (map (\<lambda>s. fst (sect_upd_del pos len s)) ss, len)"
proof (induction ss)
  case (Cons s ss)
  then obtain s1 where "sect_upd_del pos len s = (s1, len)"
    using sect_upd_del_len [of pos len s] by (cases "sect_upd_del pos len s") simp
  then show ?case using Cons by simp
qed simp

lemma sects_upd_list:
  assumes "sects_ok s"
  shows "sects_list (fst (sects_upd CACHE_ADD pos len s)) = map (sect_upd_add pos len) (sects_list s)"
    and "\<forall>n \<in> set (sects_list s). \<not> cuts_start pos len n \<Longrightarrow>
      sects_list (fst (sects_upd CACHE_DEL pos len s)) = map (\<lambda>s. fst (sect_upd_del pos len s)) (sects_list s)"
  using assms by (auto simp: sects_upd_def sects_list_def sects_ok_def sects_upd_del_eq min_def)

lemma sects_upd_len:
  "snd (sects_upd CACHE_ADD pos len s) = len"
  "\<forall>n \<in> set (sects_list s). \<not> cuts_start pos len n \<Longrightarrow> snd (sects_upd CACHE_DEL pos len s) = len"
  by (auto simp: sects_upd_def sects_list_def sects_upd_del_eq)

lemma sects_upd_all_eq:
  assumes "distinct is" "\<forall>i \<in> set is. snd (sects_upd op pos len (st i)) = len"
  shows "sects_upd_all op pos len is st = (\<lambda>i. if i \<in> set is then fst (sects_upd op pos len (st i)) else st i)"
  using assms
proof (induction "is" arbitrary: st)
  case (Cons i "is")
  obtain s1 where s1: "sects_upd op pos len (st i) = (s1, len)" using Cons.prems(2) by (cases "sects_upd op pos len (st i)") auto
  have "sects_upd_all op pos len is (st(i := s1)) =
      (\<lambda>j. if j \<in> set is then fst (sects_upd op pos len ((st(i := s1)) j)) else (st(i := s1)) j)"
    using Cons.prems by (intro Cons.IH) auto
  then show ?case using s1 Cons.prems(1) by auto
qed simp

lemma sects_srch_spec:
  assumes "sects_ok s"
  shows "case vstr_sects_srch s pos len of
       0 \<Rightarrow> \<lparr>sect_pos = pos, sect_len = len\<rparr> \<notin> set (sects_list s)
     | Suc k \<Rightarrow> k < length (sects_list s) \<and> sects_list s ! k = \<lparr>sect_pos = pos, sect_len = len\<rparr> \<and>
         (\<forall>i < k. sects_list s ! i \<noteq> \<lparr>sect_pos = pos, sect_len = len\<rparr>)"
proof (cases "s_sz s = 0")
  case True
  then show ?thesis using assms by (simp add: vstr_sects_srch_def sects_list_def sects_ok_def)
next
  case False
  then have "vstr_sects_srch s pos len = sects_srch_loop (sects_list s) 0 pos len" by (simp add: vstr_sects_srch_def sects_list_def)
  then show ?thesis using sects_srch_loop_spec [where ss = "sects_list s" and cnt = 0 and pos = pos and len = len] by (simp split: nat.splits)
qed

lemma sects_add_ok:
  assumes "vstr_sects_add s pos len h = (r, s1, h1)" "sects_ok s"
  shows "sects_ok s1 \<and> sects_list s1 = sects_list s @ (if r then [\<lparr>sect_pos = pos, sect_len = len\<rparr>] else [])"
proof -
  let ?full = "s_sz s = 0 \<or> s_num s \<ge> s_sz s"
  obtain r2 s2 h2 where g: "(if ?full then if \<not> s_can_add_sz s then (False, s, h) else vstr__sects_add s h else (True, s, h)) = (r2, s2, h2)"
    by (metis prod_cases3)
  then have 2: "sects_ok s2 \<and> sects_list s2 = sects_list s \<and> s_num s2 = s_num s \<and> (r2 \<longrightarrow> s_num s2 < s_sz s2)"
    using sects_grow_ok [of s h r2 s2 h2] assms(2) by (auto simp: sects_ok_def split: if_splits)
  have a: "vstr_sects_add s pos len h = (if r2 then (True, s2\<lparr>s_ptr := (s_ptr s2)[s_num s2 := \<lparr>sect_pos = pos, sect_len = len\<rparr>],
      s_num := s_num s2 + 1\<rparr>, h2) else (False, s2, h2))"
    unfolding vstr_sects_add_def g by simp
  show ?thesis
    using assms(1) 2 unfolding a by (auto simp: sects_ok_def sects_list_def take_Suc_update split: if_splits)
qed

lemma sects_del_ok:
  assumes "vstr_sects_del s num h = (r, s1, h1)" "sects_ok s"
  shows "sects_ok s1 \<and> sects_list s1 =
    (if r then strip_deleted ((sects_list s)[num - 1 := (sects_list s ! (num - 1))\<lparr>sect_pos := 0\<rparr>]) else sects_list s)"
proof (cases r)
  case True
  let ?s = "s\<lparr>s_ptr := (s_ptr s)[num - 1 := (s_ptr s ! (num - 1))\<lparr>sect_pos := 0\<rparr>]\<rparr>"
  have num: "num \<noteq> 0" "num \<le> s_num s" and sh: "sects_shorten ?s h = (s1, h1)"
    using assms(1) True by (auto simp: vstr_sects_del_def split: if_splits)
  have "sects_ok ?s" "sects_list ?s = (sects_list s)[num - 1 := (sects_list s ! (num - 1))\<lparr>sect_pos := 0\<rparr>]"
    using assms(2) num by (auto simp: sects_ok_def sects_list_def take_update_swap)
  then show ?thesis using sects_shorten_ok [OF sh] True by simp
next
  case False
  then show ?thesis using assms by (auto simp: vstr_sects_del_def split: if_splits prod.splits)
qed

lemma sects_foreach_ok:
  assumes "vstr_sects_foreach s backward allow_null f d h = (n, s1, d1, h1)" "sects_ok s"
  shows "sects_ok s1 \<and> n \<le> length (sects_list s) \<and> (\<exists>ss. list_all2 marked (sects_list s) ss \<and> sects_list s1 \<in> {ss, strip_deleted ss})"
proof (cases "s_sz s = 0")
  case False
  obtain n2 ptr d2 where l: "foreach_loop allow_null f (if backward then rev [0..<s_num s] else [0..<s_num s]) (s_ptr s) 0 d = (n2, ptr, d2)"
    by (metis prod_cases3)
  obtain s2 h2 where sh: "sects_shorten (s\<lparr>s_ptr := ptr\<rparr>) h = (s2, h2)" by fastforce
  have "list_all2 marked (s_ptr s) ptr" "n2 \<le> s_num s" using foreach_loop_marks [OF l] by (auto split: if_splits)
  then have "sects_ok (s\<lparr>s_ptr := ptr\<rparr>)" "list_all2 marked (sects_list s) (sects_list (s\<lparr>s_ptr := ptr\<rparr>))" "n2 \<le> length (sects_list s)"
    using assms(2) by (auto simp: sects_ok_def sects_list_def list_all2_lengthD intro: list_all2_takeI)
  then show ?thesis
    using sects_shorten_ok [OF sh] assms(1) False l sh by (auto simp: vstr_sects_foreach_def)
qed (use assms in \<open>auto simp: vstr_sects_foreach_def intro!: exI [of _ "sects_list s"]\<close>)

lemma sects_srch_added:
  assumes "vstr_sects_add s pos len h = (True, s1, h1)" "sects_ok s"
  shows "vstr_sects_srch s1 pos len \<in> {1..length (sects_list s) + 1}"
  using sects_add_ok [OF assms] sects_srch_spec [of s1 pos len] by (auto split: nat.splits)

section \<open>Properties\<close>

text \<open>
  C38. The array of sections. Every operation keeps the number of sections within the allocated size. Adding a section appends it or, if
  there is no room and no memory, changes nothing. Deleting marks one section and gives up the deleted ones at the end. A search gives the
  number of the first section that is equal, and finds a section that was added. Running a function on the sections visits each at most once
  and does nothing to them but deleting.
\<close>

theorem sects_array_correct:
  assumes "sects_ok s"
  shows "(case vstr_sects_add s pos len h of (r, s1, h1) \<Rightarrow>
      sects_ok s1 \<and> sects_list s1 = sects_list s @ (if r then [\<lparr>sect_pos = pos, sect_len = len\<rparr>] else []) \<and>
      (r \<longrightarrow> vstr_sects_srch s1 pos len \<in> {1..length (sects_list s) + 1})) \<and>
    (case vstr_sects_del s num h of (r, s1, h1) \<Rightarrow>
      sects_ok s1 \<and> sects_list s1 =
        (if r then strip_deleted ((sects_list s)[num - 1 := (sects_list s ! (num - 1))\<lparr>sect_pos := 0\<rparr>]) else sects_list s)) \<and>
    (case vstr_sects_foreach s backward allow_null f d h of (n, s1, d1, h1) \<Rightarrow>
      sects_ok s1 \<and> n \<le> length (sects_list s) \<and> (\<exists>ss. list_all2 marked (sects_list s) ss \<and> sects_list s1 \<in> {ss, strip_deleted ss})) \<and>
    (case vstr_sects_srch s pos len of
       0 \<Rightarrow> \<lparr>sect_pos = pos, sect_len = len\<rparr> \<notin> set (sects_list s)
     | Suc k \<Rightarrow> k < length (sects_list s) \<and> sects_list s ! k = \<lparr>sect_pos = pos, sect_len = len\<rparr> \<and>
         (\<forall>i < k. sects_list s ! i \<noteq> \<lparr>sect_pos = pos, sect_len = len\<rparr>))"
proof (intro conjI)
  show "case vstr_sects_foreach s backward allow_null f d h of (n, s1, d1, h1) \<Rightarrow>
      sects_ok s1 \<and> n \<le> length (sects_list s) \<and> (\<exists>ss. list_all2 marked (sects_list s) ss \<and> sects_list s1 \<in> {ss, strip_deleted ss})"
    using sects_foreach_ok [OF _ assms] by (fastforce split: prod.splits)
qed (use sects_srch_spec [OF assms] sects_add_ok [OF _ assms] sects_srch_added [OF _ assms] sects_del_ok [OF _ assms]
     in \<open>auto split: prod.splits\<close>)

definition ex_sects :: vstr_sects where
  "ex_sects = (SECTS_INIT 2 [\<lparr>sect_pos = 3, sect_len = 2\<rparr>, \<lparr>sect_pos = 9, sect_len = 4\<rparr>] True)\<lparr>s_num := 2\<rparr>"

theorem sects_array_correct_witness:
  "sects_list (fst (snd (vstr_sects_add ex_sects 7 0 ex_heap))) = sects_list ex_sects @ [\<lparr>sect_pos = 7, sect_len = 0\<rparr>]"
proof -
  have "sects_ok ex_sects" by (simp add: sects_ok_def ex_sects_def SECTS_INIT_def)
  moreover have "fst (vstr_sects_add ex_sects 7 0 ex_heap)"
    by (simp add: vstr_sects_add_def vstr__sects_add_def vstr__sects_mv_def ex_sects_def SECTS_INIT_def VSTR_MK_def ex_heap_def)
  ultimately show ?thesis
    using sects_array_correct [of ex_sects 7 0 ex_heap, THEN conjunct1] by (auto split: prod.splits)
qed

text \<open>
  C39. Sections follow the string. When bytes are added to a string, every section registered with it keeps denoting the same bytes, with
  the new ones if they were added inside. When bytes are deleted it keeps those of its bytes that are left, and is deleted if there are none,
  provided that no registered section begins inside the deleted range behind its first position.
\<close>

theorem sects_update_correct:
  assumes "distinct (scd_updates data)" "\<forall>i \<in> set (scd_updates data). sects_ok (st i)"
  shows "(pos \<le> length xs \<longrightarrow> (case vstr__sects_update_cb pos (length new) CACHE_ADD data st of (d1, st1) \<Rightarrow>
      d1 = Some data \<and> (\<forall>i \<in> set (scd_updates data). list_all2 (follows_add xs pos new) (sects_list (st i)) (sects_list (st1 i))))) \<and>
    (0 < pos \<and> pos + len \<le> length xs + 1 \<and> (\<forall>i \<in> set (scd_updates data). \<forall>s \<in> set (sects_list (st i)). \<not> cuts_start pos len s) \<longrightarrow>
      (case vstr__sects_update_cb pos len CACHE_DEL data st of (d1, st1) \<Rightarrow>
        d1 = Some data \<and> (\<forall>i \<in> set (scd_updates data). list_all2 (follows_del xs pos len) (sects_list (st i)) (sects_list (st1 i)))))"
  using assms
  by (auto simp: vstr__sects_update_cb_def sects_upd_all_eq sects_upd_len sects_upd_list list_all2_conv_all_nth sect_upd_add_follows
      sect_upd_del_follows)

theorem sects_update_correct_witness:
  "sects_list (snd (vstr__sects_update_cb 9 2 CACHE_DEL \<lparr>scd_sz = 1, scd_updates = [0]\<rparr> (\<lambda>_. ex_sects)) 0)
     = [\<lparr>sect_pos = 3, sect_len = 2\<rparr>, \<lparr>sect_pos = 9, sect_len = 2\<rparr>] \<and>
   list_all2 (follows_del [1..20] 9 2) (sects_list ex_sects)
     (sects_list (snd (vstr__sects_update_cb 9 2 CACHE_DEL \<lparr>scd_sz = 1, scd_updates = [0]\<rparr> (\<lambda>_. ex_sects)) 0))"
proof -
  have "sects_ok ex_sects" by (simp add: sects_ok_def ex_sects_def SECTS_INIT_def)
  moreover have l: "sects_list ex_sects = [\<lparr>sect_pos = 3, sect_len = 2\<rparr>, \<lparr>sect_pos = 9, sect_len = 4\<rparr>]"
    by (simp add: sects_list_def ex_sects_def SECTS_INIT_def)
  ultimately have 1: "list_all2 (follows_del [1..20] 9 2) (sects_list ex_sects)
     (sects_list (snd (vstr__sects_update_cb 9 2 CACHE_DEL \<lparr>scd_sz = 1, scd_updates = [0]\<rparr> (\<lambda>_. ex_sects)) 0))"
    using sects_update_correct [of "\<lparr>scd_sz = 1, scd_updates = [0]\<rparr>" "\<lambda>_. ex_sects" 9 "[1..20]" "[]" 2]
    by (auto simp: cuts_start_def split: prod.splits)
  show ?thesis
    using 1 by (simp add: vstr__sects_update_cb_def sects_upd_def sects_list_def ex_sects_def SECTS_INIT_def sect_upd_del_def)
qed

text \<open>
  A section that begins inside the deleted range makes the callback move the sections behind it by too little: after deleting positions 2
  to 4 the section at position 10 is expected at 7.
\<close>

lemma sects_update_del_wrong:
  "sects_upd_del 2 3 [\<lparr>sect_pos = 3, sect_len = 2\<rparr>, \<lparr>sect_pos = 10, sect_len = 1\<rparr>]
     = ([\<lparr>sect_pos = 0, sect_len = 2\<rparr>, \<lparr>sect_pos = 8, sect_len = 1\<rparr>], 2)"
  "\<not> follows_del [1..12] 2 3 \<lparr>sect_pos = 10, sect_len = 1\<rparr> \<lparr>sect_pos = 8, sect_len = 1\<rparr>"
  by (simp_all add: sect_upd_del_def follows_del_def sect_within_def sect_of_def del_at_def upto.simps eval_nat_numeral)

end
