(* ===== verification/Vstr_Split.thy ===== *)
theory Vstr_Split
  imports Vstr_Sects Vstr_Parse
begin

text \<open>
  Splitting a string into sections (\<^verbatim>\<open>src/src/vstr_split.c\<close>) at every occurrence of a buffer or at every character of a set. The two
  functions have the same loop, which here is one definition with the search and the count of adjacent separators as arguments. The sections
  are allocated by the allocator passed along; reading the string changes nothing but its position cache.
\<close>

section \<open>The operations\<close>

abbreviation (input) SPLIT_BEG_NULL :: nat where "SPLIT_BEG_NULL \<equiv> 0"
abbreviation (input) SPLIT_MID_NULL :: nat where "SPLIT_MID_NULL \<equiv> 1"
abbreviation (input) SPLIT_END_NULL :: nat where "SPLIT_END_NULL \<equiv> 2"
abbreviation (input) SPLIT_POST_NULL :: nat where "SPLIT_POST_NULL \<equiv> 3"
abbreviation (input) SPLIT_NO_RET :: nat where "SPLIT_NO_RET \<equiv> 4"
abbreviation (input) SPLIT_REMAIN :: nat where "SPLIT_REMAIN \<equiv> 5"

text \<open>The number of separators at the start of the range, and whether the range is made of them. The loop does not end for an empty one.\<close>

partial_function (option) null_end_loop ::
    "vstr_base \<Rightarrow> nat \<Rightarrow> nat \<Rightarrow> byte list option \<Rightarrow> nat \<Rightarrow> nat \<Rightarrow> (nat \<times> bool \<times> vstr_base) option" where
  "null_end_loop base pos len buf buf_len num =
     (if len \<ge> buf_len then
        (case vstr_cmp_buf base pos buf_len buf buf_len of
           (r, b1) \<Rightarrow> if r \<noteq> 0 then Some (num, False, b1) else null_end_loop b1 (pos + buf_len) (len - buf_len) buf buf_len (num + 1))
      else Some (num, len = 0, base))"

definition vstr__split_buf_null_end ::
    "vstr_base \<Rightarrow> nat \<Rightarrow> nat \<Rightarrow> byte list option \<Rightarrow> nat \<Rightarrow> (nat \<times> bool \<times> vstr_base) option" where
  "vstr__split_buf_null_end base pos len buf buf_len =
     (if len = buf_len then Some (1, True, base) else null_end_loop base (pos + buf_len) (len - buf_len) buf buf_len 1)"

text \<open>A section could not be added: the result, the sections and whether to return.\<close>

definition vstr__split_hdl_err :: "vstr_sects \<Rightarrow> flags \<Rightarrow> nat \<Rightarrow> nat \<times> vstr_sects \<times> bool" where
  "vstr__split_hdl_err sects flags added =
     (if s_malloc_bad sects then (0, sects\<lparr>s_num := s_num sects - added\<rparr>, True) else (1, sects, bit flags SPLIT_NO_RET))"

text \<open>
  \<^verbatim>\<open>vstr_sects_add()\<close> with \<^verbatim>\<open>VSTR__SPLIT_HDL_ERR\<close> behind it: on the left what the split function returns at once, on the right the new
  number of sections. A section there is no room for is counted.
\<close>

type_synonym split_result = "nat \<times> vstr_sects \<times> vstr_heap"

definition split_add :: "flags \<Rightarrow> nat \<Rightarrow> nat \<Rightarrow> split_result \<Rightarrow> split_result + split_result" where
  "split_add flags pos len st =
     (case st of (added, sects, h) \<Rightarrow>
       (case vstr_sects_add sects pos len h of
          (True, s1, h1) \<Rightarrow> Inr (added + 1, s1, h1)
        | (False, s1, h1) \<Rightarrow>
            (case vstr__split_hdl_err s1 flags added of
               (err_ret, s2, bad) \<Rightarrow> if bad then Inl (err_ret, s2, h1) else Inr (added + 1, s2, h1))))"

definition split_count :: "nat \<Rightarrow> flags \<Rightarrow> nat \<Rightarrow> nat \<Rightarrow> nat" where
  "split_count limit flags added num =
     (if limit \<noteq> 0 \<and> num \<ge> limit - added then (limit - (if bit flags SPLIT_REMAIN then 1 else 0)) - added else num)"

fun split_nulls ::
    "bool \<Rightarrow> flags \<Rightarrow> nat \<Rightarrow> nat \<Rightarrow> nat \<Rightarrow> nat \<Rightarrow> split_result \<Rightarrow> split_result + nat \<times> nat \<times> split_result" where
  "split_nulls null flags buf_len 0 pos len st = Inr (pos, len, st)"
| "split_nulls null flags buf_len (Suc n) pos len st =
     (case (if null then split_add flags pos 0 st else Inr st) of
        Inl e \<Rightarrow> Inl e
      | Inr st1 \<Rightarrow> split_nulls null flags buf_len n (pos + buf_len) (len - buf_len) st1)"

definition vstr__split_hdl_null_beg ::
    "nat \<Rightarrow> nat \<Rightarrow> nat \<Rightarrow> flags \<Rightarrow> nat \<Rightarrow> nat \<Rightarrow> split_result \<Rightarrow> split_result + nat \<times> nat \<times> split_result" where
  "vstr__split_hdl_null_beg pos len buf_len flags num limit st =
     split_nulls (bit flags SPLIT_BEG_NULL) flags buf_len (split_count limit flags (fst st) num) pos len st"

definition vstr__split_hdl_null_mid ::
    "nat \<Rightarrow> nat \<Rightarrow> nat \<Rightarrow> flags \<Rightarrow> nat \<Rightarrow> nat \<Rightarrow> split_result \<Rightarrow> split_result + nat \<times> nat \<times> split_result" where
  "vstr__split_hdl_null_mid pos len buf_len flags num limit st =
     split_nulls (bit flags SPLIT_MID_NULL) flags buf_len (split_count limit flags (fst st) num) pos len st"

definition vstr__split_hdl_null_end :: "nat \<Rightarrow> nat \<Rightarrow> nat \<Rightarrow> flags \<Rightarrow> nat \<Rightarrow> nat \<Rightarrow> split_result \<Rightarrow> split_result" where
  "vstr__split_hdl_null_end pos len buf_len flags num limit st =
     (case (if \<not> bit flags SPLIT_END_NULL then Inr (pos, len, st)
            else split_nulls True flags buf_len (split_count limit flags (fst st) num) pos len st) of
        Inl e \<Rightarrow> e
      | Inr (pos1, len1, st1) \<Rightarrow>
          if len1 \<noteq> 0 \<and> bit flags SPLIT_REMAIN \<or> len1 = 0 \<and> bit flags SPLIT_POST_NULL then
            (case split_add flags pos1 len1 st1 of Inl e \<Rightarrow> e | Inr st2 \<Rightarrow> st2)
          else st1)"

definition vstr__split_hdl_end :: "nat \<Rightarrow> nat \<Rightarrow> nat \<Rightarrow> nat \<Rightarrow> flags \<Rightarrow> split_result \<Rightarrow> split_result" where
  "vstr__split_hdl_end pos len split_pos limit flags st =
     (if len \<noteq> 0 then
        if bit flags SPLIT_REMAIN \<or> split_pos = 0 then (case split_add flags pos len st of Inl e \<Rightarrow> e | Inr st1 \<Rightarrow> st1) else st
      else if bit flags SPLIT_POST_NULL \<and> (limit = 0 \<or> fst st < limit) then
        (case split_add flags pos 0 st of Inl e \<Rightarrow> e | Inr st1 \<Rightarrow> st1)
      else st)"

definition vstr__split_hdl_def ::
    "nat \<Rightarrow> nat \<Rightarrow> nat \<Rightarrow> nat \<Rightarrow> flags \<Rightarrow> split_result \<Rightarrow> split_result + nat \<times> nat \<times> split_result" where
  "vstr__split_hdl_def pos len split_pos buf_len flags st =
     (let split_len = split_pos - pos in
      case split_add flags pos split_len st of
        Inl e \<Rightarrow> Inl e
      | Inr st1 \<Rightarrow> Inr (pos + (split_len + buf_len), len - (split_len + buf_len), st1))"

text \<open>
  The loop of the two functions. \<open>srch\<close> finds the next separator, \<open>run\<close> counts the separators at the start of a range and tells whether it
  is made of them, as \<^const>\<open>vstr__split_buf_null_end\<close> does.
\<close>

partial_function (option) split_loop ::
    "(vstr_base \<Rightarrow> nat \<Rightarrow> nat \<Rightarrow> nat \<times> vstr_base) \<Rightarrow> (vstr_base \<Rightarrow> nat \<Rightarrow> nat \<Rightarrow> (nat \<times> bool \<times> vstr_base) option) \<Rightarrow> nat \<Rightarrow> nat \<Rightarrow> nat \<Rightarrow>
      flags \<Rightarrow> vstr_base \<Rightarrow> nat \<Rightarrow> nat \<Rightarrow> nat \<Rightarrow> split_result \<Rightarrow> (split_result \<times> vstr_base) option" where
  "split_loop srch run buf_len orig_pos limit flags base pos len split_pos st =
     (if len \<noteq> 0 \<and> (limit = 0 \<or> fst st < limit - (if bit flags SPLIT_REMAIN then 1 else 0)) then
        (case srch base pos len of (sp, b1) \<Rightarrow>
          if sp = 0 then Some (vstr__split_hdl_end pos len sp limit flags st, b1)
          else if sp = orig_pos \<or> sp = pos then
            Option.bind (run b1 pos len) (\<lambda>(num, all, b2).
              if all then
                Some (if sp = orig_pos \<and> \<not> bit flags SPLIT_BEG_NULL then (0, snd st)
                      else vstr__split_hdl_null_end pos len buf_len flags num limit st, b2)
              else
                (case (if sp = orig_pos then vstr__split_hdl_null_beg pos len buf_len flags num limit st
                       else vstr__split_hdl_null_mid pos len buf_len flags num limit st) of
                   Inl e \<Rightarrow> Some (e, b2)
                 | Inr (pos1, len1, st1) \<Rightarrow> split_loop srch run buf_len orig_pos limit flags b2 pos1 len1 sp st1))
          else
            (case vstr__split_hdl_def pos len sp buf_len flags st of
               Inl e \<Rightarrow> Some (e, b1)
             | Inr (pos1, len1, st1) \<Rightarrow> split_loop srch run buf_len orig_pos limit flags b1 pos1 len1 sp st1))
      else Some (vstr__split_hdl_end pos len split_pos limit flags st, base))"

definition vstr_split_buf ::
    "vstr_base \<Rightarrow> nat \<Rightarrow> nat \<Rightarrow> byte list option \<Rightarrow> nat \<Rightarrow> vstr_sects \<Rightarrow> nat \<Rightarrow> flags \<Rightarrow> vstr_heap \<Rightarrow> (split_result \<times> vstr_base) option" where
  "vstr_split_buf base pos len buf buf_len sects limit flags h =
     split_loop (\<lambda>b p l. vstr_srch_buf_fwd b p l buf buf_len) (\<lambda>b p l. vstr__split_buf_null_end b p l buf buf_len)
       buf_len pos limit flags base pos len 0 (0, sects, h)"

definition vstr_split_chrs ::
    "vstr_base \<Rightarrow> nat \<Rightarrow> nat \<Rightarrow> byte list option \<Rightarrow> nat \<Rightarrow> vstr_sects \<Rightarrow> nat \<Rightarrow> flags \<Rightarrow> vstr_heap \<Rightarrow> (split_result \<times> vstr_base) option" where
  "vstr_split_chrs base pos len chrs chrs_len sects limit flags h =
     split_loop (\<lambda>b p l. vstr_srch_chrs_fwd b p l chrs chrs_len)
       (\<lambda>b p l. case vstr_spn_chrs_fwd b p l chrs chrs_len of (num, b1) \<Rightarrow> Some (num, num = l, b1))
       1 pos limit flags base pos len 0 (0, sects, h)"

section \<open>The fields of a list\<close>

text \<open>
  The reference: \<open>fnd\<close> gives the place of the first separator, which has \<open>bl\<close> elements. The fields are what is before, between and behind
  the separators; they may be empty.
\<close>

function fields :: "('a list \<Rightarrow> nat option) \<Rightarrow> nat \<Rightarrow> nat \<Rightarrow> 'a list \<Rightarrow> sect_node list" where
  "fields fnd bl p xs =
     (case fnd xs of
        None \<Rightarrow> [\<lparr>sect_pos = p, sect_len = length xs\<rparr>]
      | Some i \<Rightarrow> \<lparr>sect_pos = p, sect_len = i\<rparr> # (if bl = 0 \<or> xs = [] then [] else fields fnd bl (p + (i + bl)) (drop (i + bl) xs)))"
  by pat_completeness auto
termination by (relation "measure (\<lambda>(_, _, _, xs). length xs)") auto

declare fields.simps [simp del]

section \<open>Adding sections\<close>

text \<open>\<open>ss\<close> have been added to \<open>s0\<close>; or an allocation failed and the added ones are given up again.\<close>

definition grown :: "vstr_sects \<Rightarrow> sect_node list \<Rightarrow> split_result \<Rightarrow> bool" where
  "grown s0 ss st \<longleftrightarrow> (case st of (added, s, h) \<Rightarrow>
     sects_ok s \<and> s_can_add_sz s \<and> \<not> s_malloc_bad s \<and> sects_list s = sects_list s0 @ ss \<and> added = length ss)"

definition split_failed :: "vstr_sects \<Rightarrow> split_result \<Rightarrow> bool" where
  "split_failed s0 st \<longleftrightarrow> (case st of (added, s, h) \<Rightarrow> sects_ok s \<and> s_malloc_bad s \<and> sects_list s = sects_list s0 \<and> added = 0)"

definition split_done :: "vstr_sects \<Rightarrow> sect_node list \<Rightarrow> split_result \<Rightarrow> bool" where
  "split_done s0 ss st \<longleftrightarrow> grown s0 ss st \<or> split_failed s0 st"

lemma sects_mv_flags:
  "vstr__sects_mv s sz h = (r, s1, h1) \<Longrightarrow> s_can_add_sz s1 = s_can_add_sz s \<and> s_malloc_bad s1 = (s_malloc_bad s \<or> \<not> r)"
  by (auto simp: vstr__sects_mv_def split: option.splits prod.splits)

lemma sects_grow_flags:
  assumes "vstr__sects_add s h = (r, s1, h1)"
  shows "s_can_add_sz s1 = s_can_add_sz s \<and> s_malloc_bad s1 = (s_malloc_bad s \<or> \<not> r)"
proof (cases "s_sz s mod 2 ^ 32 = 0")
  case True
  then show ?thesis using assms by (auto simp: vstr__sects_add_def split: option.splits prod.splits)
next
  case False
  then show ?thesis using assms sects_mv_flags [of s _ h r s1 h1] by (auto simp: vstr__sects_add_def Let_def split: if_splits)
qed

lemma sects_add_flags:
  assumes "vstr_sects_add s pos len h = (r, s1, h1)" "s_can_add_sz s"
  shows "s_can_add_sz s1 \<and> s_malloc_bad s1 = (s_malloc_bad s \<or> \<not> r)"
proof (cases "s_sz s = 0 \<or> s_num s \<ge> s_sz s")
  case True
  obtain r2 s2 h2 where g: "vstr__sects_add s h = (r2, s2, h2)" by (metis prod_cases3)
  show ?thesis using assms True sects_grow_flags [OF g] by (cases r2) (auto simp: vstr_sects_add_def g)
qed (use assms in \<open>auto simp: vstr_sects_add_def\<close>)

lemma sects_list_length: "sects_ok s \<Longrightarrow> length (sects_list s) = s_num s"
  by (simp add: sects_ok_def sects_list_def)

lemma split_add_cases:
  assumes "grown s0 ss st"
  obtains st1 where "split_add flags pos len st = Inr st1" "grown s0 (ss @ [\<lparr>sect_pos = pos, sect_len = len\<rparr>]) st1"
  | e where "split_add flags pos len st = Inl e" "split_failed s0 e"
proof -
  obtain s h where st: "st = (length ss, s, h)" using assms by (auto simp: grown_def)
  obtain r s1 h1 where a: "vstr_sects_add s pos len h = (r, s1, h1)" by (metis prod_cases3)
  have s: "sects_ok s" "s_can_add_sz s" "\<not> s_malloc_bad s" "sects_list s = sects_list s0 @ ss"
    using assms by (simp_all add: grown_def st)
  note ok = sects_add_ok [OF a s(1)] and fl = sects_add_flags [OF a s(2)]
  show thesis
  proof (cases r)
    case True
    then show thesis using that(1) ok fl s a by (simp add: split_add_def st grown_def)
  next
    case False
    have l1: "sects_list s1 = sects_list s0 @ ss" using ok False s(4) by simp
    then have num: "s_num s1 = length (sects_list s0) + length ss"
      using sects_list_length [of s1] ok by (metis length_append)
    have "sects_list (s1\<lparr>s_num := s_num s1 - length ss\<rparr>) = sects_list s0"
      using arg_cong [OF l1, of "take (length (sects_list s0))"] num by (auto simp: sects_list_def min_def split: if_splits)
    then show thesis
      using that(2) ok fl False a num by (simp add: split_add_def st split_failed_def vstr__split_hdl_err_def sects_ok_def)
  qed
qed

lemma split_add_done:
  "grown s0 ss st \<Longrightarrow> split_done s0 (ss @ [\<lparr>sect_pos = pos, sect_len = len\<rparr>]) (case split_add flags pos len st of Inl e \<Rightarrow> e | Inr st1 \<Rightarrow> st1)"
  by (rule split_add_cases [of s0 ss st flags pos len]) (auto simp: split_done_def)

lemma nulls_Suc:
  "map (\<lambda>i. \<lparr>sect_pos = p + i * bl, sect_len = 0\<rparr>) [0..<Suc n] =
     \<lparr>sect_pos = p, sect_len = 0\<rparr> # map (\<lambda>i. \<lparr>sect_pos = p + bl + i * bl, sect_len = 0\<rparr>) [0..<n]"
  by (simp add: upt_conv_Cons map_Suc_upt [symmetric] add.assoc del: upt_Suc)

lemma split_nulls_cases:
  assumes "grown s0 ss st"
  obtains st1 where "split_nulls null flags bl n pos len st = Inr (pos + n * bl, len - n * bl, st1)"
    "grown s0 (ss @ (if null then map (\<lambda>i. \<lparr>sect_pos = pos + i * bl, sect_len = 0\<rparr>) [0..<n] else [])) st1"
  | e where "split_nulls null flags bl n pos len st = Inl e" "split_failed s0 e"
  using assms
proof (induction n arbitrary: ss pos len st thesis)
  case (Suc n)
  show ?case
  proof (cases null)
    case True
    show ?thesis
    proof (rule split_add_cases [OF Suc.prems(3), of flags pos 0])
      fix st1 assume st1: "split_add flags pos 0 st = Inr st1" "grown s0 (ss @ [\<lparr>sect_pos = pos, sect_len = 0\<rparr>]) st1"
      show ?thesis
        by (rule Suc.IH [OF _ _ st1(2), of "pos + bl" "len - bl"])
          (use Suc.prems(1,2) True st1(1) in \<open>simp_all add: nulls_Suc add.assoc del: upt_Suc\<close>)
    qed (use Suc.prems(2) True in simp)
  next
    case False
    show ?thesis
      by (rule Suc.IH [OF _ _ Suc.prems(3), of "pos + bl" "len - bl"]) (use Suc.prems(1,2) False in \<open>simp_all add: add.assoc\<close>)
  qed
qed auto

text \<open>All four flags for empty sections together.\<close>

lemma bit_null_flags: "bit (15 :: flags) n \<longleftrightarrow> n < 4"
proof -
  have "(15 :: flags) = mask 4" by (simp add: mask_eq_exp_minus_1)
  moreover have "bit (mask 4 :: flags) n \<longleftrightarrow> n < 4" by (simp only: bit_mask_iff possible_bit_def) auto
  ultimately show ?thesis by simp
qed

lemma bits_keep: "(flags :: flags) = (if keep then 15 else 0) \<Longrightarrow> bit flags n \<longleftrightarrow> keep \<and> n < 4"
  using bit_null_flags [of n] by (cases keep) simp_all

lemma split_count_unlimited [simp]: "split_count 0 flags added n = n"
  by (simp add: split_count_def)

lemma nulls_kept:
  "filter (\<lambda>s. keep \<or> sect_len s \<noteq> 0) (map (\<lambda>i. \<lparr>sect_pos = p + i * bl, sect_len = 0\<rparr>) [0..<n]) =
     (if keep then map (\<lambda>i. \<lparr>sect_pos = p + i * bl, sect_len = 0\<rparr>) [0..<n] else [])"
  by (auto simp: filter_empty_conv)

text \<open>Separators up to the end of the range.\<close>

lemma null_end_done:
  assumes "grown s0 ss st" "pos = orig \<Longrightarrow> ss = []" "flags = (if keep then 15 else 0)" "n * bl = len" "len \<noteq> 0"
    and cnt: "split_count limit flags (fst st) n = n"
  shows "split_done s0 (ss @ filter (\<lambda>s. keep \<or> sect_len s \<noteq> 0)
      (map (\<lambda>i. \<lparr>sect_pos = pos + i * bl, sect_len = 0\<rparr>) [0..<n] @ [\<lparr>sect_pos = pos + len, sect_len = 0\<rparr>]))
    (if pos = orig \<and> \<not> keep then (0, snd st) else vstr__split_hdl_null_end pos len bl flags n limit st)"
proof (cases keep)
  case True
  let ?nulls = "map (\<lambda>i. \<lparr>sect_pos = pos + i * bl, sect_len = 0\<rparr>) [0..<n]"
  note bits = bits_keep [OF assms(3)]
  show ?thesis
  proof (rule split_nulls_cases [OF assms(1), of True flags bl n pos len])
    fix st1
    assume "split_nulls True flags bl n pos len st = Inr (pos + n * bl, len - n * bl, st1)" "grown s0 (ss @ (if True then ?nulls else [])) st1"
    then show ?thesis
      using split_add_done [of s0 "ss @ ?nulls" st1 "pos + len" 0 flags] True assms(4) nulls_kept [of keep pos bl n]
      by (simp add: vstr__split_hdl_null_end_def bits cnt)
  qed (use True in \<open>simp add: vstr__split_hdl_null_end_def bits cnt split_done_def\<close>)
next
  case False
  then have "fst st = 0" if "pos = orig" using assms(1,2) that by (auto simp: grown_def)
  then show ?thesis
    using False assms nulls_kept [of keep pos bl n]
    by (cases st) (auto simp: vstr__split_hdl_null_end_def bits_keep [OF assms(3)] split_done_def)
qed

section \<open>The loop\<close>

text \<open>The rest of a range that a search has looked at.\<close>

lemma in_range_rest:
  assumes "in_range base pos len" "same_but_cache base b1" "vstr_inv b1" "k \<le> len"
  shows "in_range b1 (pos + k) (len - k)" "range_data b1 (pos + k) (len - k) = drop k (range_data base pos len)"
proof -
  have "in_range b1 pos len" "vstr_data b1 = vstr_data base"
    using reads_frame [OF assms(2,3)] assms(1) same_but_cache_frame(7) [OF assms(2)] by auto
  then show "in_range b1 (pos + k) (len - k)" "range_data b1 (pos + k) (len - k) = drop k (range_data base pos len)"
    using assms(4) by (auto simp: in_range_def drop_take add.commute)
qed

text \<open>What the loop needs of the search and of the count of separators.\<close>

locale splitter =
  fixes srch :: "'p \<Rightarrow> vstr_base \<Rightarrow> nat \<Rightarrow> nat \<Rightarrow> nat \<times> vstr_base"
    and run :: "'p \<Rightarrow> vstr_base \<Rightarrow> nat \<Rightarrow> nat \<Rightarrow> (nat \<times> bool \<times> vstr_base) option"
    and valid :: "'p \<Rightarrow> bool"
    and fnd :: "'p \<Rightarrow> content \<Rightarrow> nat option"
    and bl :: "'p \<Rightarrow> nat"
  assumes bl_pos: "valid p \<Longrightarrow> 0 < bl p"
    and fnd_len: "valid p \<Longrightarrow> fnd p xs = Some i \<Longrightarrow> i + bl p \<le> length xs"
    and srch_reads: "valid p \<Longrightarrow> in_range base pos len \<Longrightarrow> len \<noteq> 0 \<Longrightarrow>
      reads base (srch p base pos len) (found_at pos (fnd p (range_data base pos len)))"
    and run_reads: "valid p \<Longrightarrow> in_range base pos len \<Longrightarrow> fnd p (range_data base pos len) = Some 0 \<Longrightarrow>
      \<exists>n b1. run p base pos len = Some (n, n * bl p = len, b1) \<and> same_but_cache base b1 \<and> vstr_inv b1 \<and> 0 < n \<and> n * bl p \<le> len \<and>
        (\<forall>i < n. fnd p (drop (i * bl p) (range_data base pos len)) = Some 0)"
begin

lemma fields_nulls:
  assumes v: "valid p"
  shows "\<forall>i < n. fnd p (drop (i * bl p) xs) = Some 0 \<Longrightarrow>
   fields (fnd p) (bl p) q xs = map (\<lambda>i. \<lparr>sect_pos = q + i * bl p, sect_len = 0\<rparr>) [0..<n] @ fields (fnd p) (bl p) (q + n * bl p) (drop (n * bl p) xs)"
proof (induction n arbitrary: q xs)
  case (Suc n)
  have first: "fnd p xs = Some 0" using Suc.prems by auto
  then have "xs \<noteq> []" using fnd_len [OF v, of xs 0] bl_pos [OF v] by auto
  have "\<forall>i < n. fnd p (drop (i * bl p) (drop (bl p) xs)) = Some 0"
    using Suc.prems by (metis (no_types, opaque_lifting) Suc_less_eq add.commute drop_drop mult_Suc)
  then have "fields (fnd p) (bl p) (q + bl p) (drop (bl p) xs) =
      map (\<lambda>i. \<lparr>sect_pos = q + bl p + i * bl p, sect_len = 0\<rparr>) [0..<n] @ fields (fnd p) (bl p) (q + bl p + n * bl p) (drop (n * bl p) (drop (bl p) xs))"
    by (rule Suc.IH)
  moreover have "fields (fnd p) (bl p) q xs = \<lparr>sect_pos = q, sect_len = 0\<rparr> # fields (fnd p) (bl p) (q + bl p) (drop (bl p) xs)"
    using first \<open>xs \<noteq> []\<close> bl_pos [OF v] by (subst fields.simps) simp
  ultimately show ?case by (simp only: nulls_Suc append_Cons drop_drop mult_Suc add.assoc add.commute [of "n * bl p" "bl p"])
qed simp

lemma fields_end:
  assumes v: "valid p"
  shows "fields (fnd p) (bl p) q [] = [\<lparr>sect_pos = q, sect_len = 0\<rparr>]"
  using fnd_len [OF v, of "[]"] bl_pos [OF v] by (subst fields.simps) (auto split: option.split)

lemma fields_last: "fnd p xs = None \<Longrightarrow> fields (fnd p) (bl p) q xs = [\<lparr>sect_pos = q, sect_len = length xs\<rparr>]"
  by (subst fields.simps) simp

lemma fields_next:
  assumes v: "valid p" and "fnd p xs = Some i"
  shows "fields (fnd p) (bl p) q xs = \<lparr>sect_pos = q, sect_len = i\<rparr> # fields (fnd p) (bl p) (q + (i + bl p)) (drop (i + bl p) xs)"
  using assms fnd_len [OF assms] bl_pos [OF v] by (subst fields.simps) auto

lemma split_loop_done:
  assumes v: "valid p" and "in_range base pos len" "grown s0 ss st" "orig \<le> pos" "pos = orig \<Longrightarrow> ss = []" "flags = (if keep then 15 else 0)"
  shows "\<exists>st1 b1. split_loop (srch p) (run p) (bl p) orig 0 flags base pos len sp st = Some (st1, b1) \<and>
    split_done s0 (ss @ filter (\<lambda>s. keep \<or> sect_len s \<noteq> 0) (fields (fnd p) (bl p) pos (range_data base pos len))) st1"
  using assms(2-)
proof (induction len arbitrary: base pos sp ss st rule: less_induct)
  case (less len)
  let ?xs = "range_data base pos len" and ?kept = "filter (\<lambda>s. keep \<or> sect_len s \<noteq> 0)"
  have st: "split_done s0 ss st" using less.prems(2) by (simp add: split_done_def)
  have pos: "pos \<noteq> 0" and xlen: "length ?xs = len" using less.prems(1) range_data_length [of base pos len] by (auto simp: in_range_def)
  note bits = bits_keep [OF less.prems(5)]
  note add_done = split_add_done [OF less.prems(2), of _ _ flags]
  show ?case
  proof (cases "len = 0")
    case True
    then show ?thesis
      using add_done [of pos 0] st by (subst split_loop.simps) (auto simp: vstr__split_hdl_end_def bits fields_end [OF v])
  next
    case False
    obtain b1 where b1: "srch p base pos len = (found_at pos (fnd p ?xs), b1)" "same_but_cache base b1" "vstr_inv b1"
      using srch_reads [OF v less.prems(1) False] by (cases "srch p base pos len") (auto simp: reads_def)
    note loop = split_loop.simps [of "srch p" "run p" "bl p" orig 0 flags base pos len sp st]
    consider "fnd p ?xs = None" | "fnd p ?xs = Some 0" | i where "fnd p ?xs = Some (Suc i)" by (metis not0_implies_Suc option.exhaust)
    then show ?thesis
    proof cases
      case 1
      then show ?thesis
        using add_done [of pos len] False b1 xlen fields_last [OF 1, of pos]
        by (subst loop) (simp add: vstr__split_hdl_end_def found_at_def)
    next
      case 3
      have le: "Suc i + bl p \<le> len" using fnd_len [OF v 3] xlen by simp
      note rest = in_range_rest [OF less.prems(1) b1(2,3) le]
      show ?thesis
      proof (rule split_add_cases [OF less.prems(2), of flags pos "Suc i"])
        fix st1 assume st1: "split_add flags pos (Suc i) st = Inr st1" "grown s0 (ss @ [\<lparr>sect_pos = pos, sect_len = Suc i\<rparr>]) st1"
        have "\<exists>st2 b2. split_loop (srch p) (run p) (bl p) orig 0 flags b1 (pos + (Suc i + bl p)) (len - (Suc i + bl p)) (pos + Suc i) st1 = Some (st2, b2) \<and>
            split_done s0 ((ss @ [\<lparr>sect_pos = pos, sect_len = Suc i\<rparr>]) @ ?kept (fields (fnd p) (bl p) (pos + (Suc i + bl p)) (drop (Suc i + bl p) ?xs))) st2"
          unfolding rest(2) [symmetric] using less.prems False bl_pos [OF v] st1(2) rest(1) by (intro less.IH) auto
        then show ?thesis
          using 3 False b1 st1(1) less.prems(3) fields_next [OF v 3, of pos]
          by (subst loop) (simp add: found_at_def vstr__split_hdl_def_def)
      next
        fix e assume e: "split_add flags pos (Suc i) st = Inl e" "split_failed s0 e"
        then show ?thesis
          using 3 False b1 less.prems(3) by (subst loop) (simp add: found_at_def vstr__split_hdl_def_def split_done_def)
      qed
    next
      case 2
      let ?nulls = "\<lambda>n. map (\<lambda>i. \<lparr>sect_pos = pos + i * bl p, sect_len = 0\<rparr>) [0..<n]"
      have in1: "in_range b1 pos len" "range_data b1 pos len = ?xs" using reads_frame [OF b1(2,3)] less.prems(1) by auto
      then obtain n b2 where b2: "run p b1 pos len = Some (n, n * bl p = len, b2)" "same_but_cache b1 b2" "vstr_inv b2" "0 < n" "n * bl p \<le> len"
        and nulls: "\<forall>i < n. fnd p (drop (i * bl p) ?xs) = Some 0"
        using run_reads [OF v, of b1 pos len] 2 by auto
      note fl = fields_nulls [OF v nulls, of pos]
      note kn = nulls_kept [of keep pos "bl p" n]
      show ?thesis
      proof (cases "n * bl p = len")
        case True
        have fields: "fields (fnd p) (bl p) pos ?xs = ?nulls n @ [\<lparr>sect_pos = pos + len, sect_len = 0\<rparr>]"
          using fl True xlen by (simp add: fields_end [OF v])
        have "split_done s0 (ss @ ?kept (?nulls n @ [\<lparr>sect_pos = pos + len, sect_len = 0\<rparr>]))
            (if pos = orig \<and> \<not> keep then (0, snd st) else vstr__split_hdl_null_end pos len (bl p) flags n 0 st)"
          by (rule null_end_done) (use less.prems False True in auto)
        then show ?thesis using 2 False b1 b2(1) True fields by (subst loop) (simp add: found_at_def pos bits)
      next
        case more: False
        note rest = in_range_rest [OF less.prems(1) same_but_cache_trans [OF b1(2) b2(2)] b2(3,5)]
        have nl: "(if pos = orig then vstr__split_hdl_null_beg pos len (bl p) flags n 0 st else vstr__split_hdl_null_mid pos len (bl p) flags n 0 st) =
            split_nulls keep flags (bl p) n pos len st"
          by (simp add: vstr__split_hdl_null_beg_def vstr__split_hdl_null_mid_def bits)
        show ?thesis
        proof (rule split_nulls_cases [OF less.prems(2), of keep flags "bl p" n pos len])
          fix st1
          assume st1: "split_nulls keep flags (bl p) n pos len st = Inr (pos + n * bl p, len - n * bl p, st1)"
            "grown s0 (ss @ (if keep then ?nulls n else [])) st1"
          have "\<exists>st2 b3. split_loop (srch p) (run p) (bl p) orig 0 flags b2 (pos + n * bl p) (len - n * bl p) pos st1 = Some (st2, b3) \<and>
              split_done s0 ((ss @ (if keep then ?nulls n else [])) @ ?kept (fields (fnd p) (bl p) (pos + n * bl p) (drop (n * bl p) ?xs))) st2"
            unfolding rest(2) [symmetric] using less.prems bl_pos [OF v] b2(4,5) False st1(2) rest(1) by (intro less.IH) auto
          then show ?thesis
            using 2 False b1 b2(1) more st1(1) fl nl kn by (subst loop) (simp add: found_at_def pos)
        next
          fix e assume "split_nulls keep flags (bl p) n pos len st = Inl e" "split_failed s0 e"
          then show ?thesis
            using 2 False b1 b2(1) more nl by (subst loop) (simp add: found_at_def pos split_done_def)
        qed
      qed
    qed
  qed
qed

end

section \<open>Splitting at characters\<close>

text \<open>The place of the first element of a set.\<close>

definition first_in :: "'a set \<Rightarrow> 'a list \<Rightarrow> nat option" where
  "first_in S xs = (let k = length (takeWhile (\<lambda>e. e \<notin> S) xs) in if k < length xs then Some k else None)"

lemma first_in_0: "first_in S xs = Some 0 \<longleftrightarrow> xs \<noteq> [] \<and> hd xs \<in> S"
  by (cases xs) (auto simp: first_in_def Let_def)

lemma cspn_chrs_fwd_frame:
  assumes "in_range base pos len"
  shows "same_but_cache base (snd (vstr_cspn_chrs_fwd base pos len chrs n)) \<and> vstr_inv (snd (vstr_cspn_chrs_fwd base pos len chrs n))"
proof (cases "chrs \<noteq> None \<and> n = 1")
  case True
  then show ?thesis
    using srch_chr_fwd_eq(2) [OF assms, of "hd (the chrs)"] by (auto simp: vstr_cspn_chrs_fwd_def case_prod_beta)
next
  case False
  show ?thesis
    using assms by (cases rule: fwd_beg_range; use assms False in \<open>auto simp: vstr_cspn_chrs_fwd_def spn_fwd_def in_range_def\<close>)
qed

lemma run_in_set: "i < length (takeWhile (\<lambda>e. e \<in> S) xs) \<Longrightarrow> first_in S (drop i xs) = Some 0"
proof (induction xs arbitrary: i)
  case (Cons x xs)
  then show ?case by (cases i) (auto simp: first_in_0 split: if_splits)
qed simp

lemma run_nonempty: "first_in S xs = Some 0 \<Longrightarrow> 0 < length (takeWhile (\<lambda>e. e \<in> S) xs)"
  by (cases xs) (auto simp: first_in_0)

interpretation chrs: splitter "\<lambda>(chrs, n) base pos len. vstr_srch_chrs_fwd base pos len chrs n"
    "\<lambda>(chrs, n) base pos len. case vstr_spn_chrs_fwd base pos len chrs n of (num, b1) \<Rightarrow> Some (num, num = len, b1)"
    "\<lambda>(chrs, n). buf_holds chrs n" "\<lambda>(chrs, n). first_in (chr_set chrs n)" "\<lambda>_. 1"
proof
  fix p :: "byte list option \<times> nat" and xs i
  assume "(case p of (chrs, n) \<Rightarrow> first_in (chr_set chrs n)) xs = Some i"
  then show "i + 1 \<le> length xs" by (auto simp: first_in_def Let_def split: prod.splits if_splits)
next
  fix p :: "byte list option \<times> nat" and base pos len
  assume a: "case p of (chrs, n) \<Rightarrow> buf_holds chrs n" "in_range base pos len" "len \<noteq> 0"
  obtain chrs n where p: "p = (chrs, n)" by (cases p)
  show "reads base ((case p of (chrs, n) \<Rightarrow> \<lambda>base pos len. vstr_srch_chrs_fwd base pos len chrs n) base pos len)
      (found_at pos ((case p of (chrs, n) \<Rightarrow> first_in (chr_set chrs n)) (range_data base pos len)))"
    using spn_chrs_fwd_eq(2) [OF a(2), of chrs n] cspn_chrs_fwd_frame [OF a(2), of chrs n] a(1) range_data_length [OF a(2)]
      length_takeWhile_le [of "\<lambda>e. e \<notin> chr_set chrs n" "range_data base pos len"]
    by (auto simp: p reads_def vstr_srch_chrs_fwd_def srch_of_spn_def found_at_def first_in_def Let_def simp del: length_take length_drop)
next
  fix p :: "byte list option \<times> nat" and base pos len
  assume a: "case p of (chrs, n) \<Rightarrow> buf_holds chrs n" "in_range base pos len"
    "(case p of (chrs, n) \<Rightarrow> first_in (chr_set chrs n)) (range_data base pos len) = Some 0"
  obtain chrs n where p: "p = (chrs, n)" by (cases p)
  let ?xs = "range_data base pos len" and ?k = "length (takeWhile (\<lambda>e. e \<in> chr_set chrs n) (range_data base pos len))"
  have "0 < ?k" using a(3) run_nonempty [of "chr_set chrs n" ?xs] by (simp add: p)
  moreover have "?k \<le> len" using length_takeWhile_le [of "\<lambda>e. e \<in> chr_set chrs n" ?xs] range_data_length [OF a(2)] by simp
  moreover have "fst (vstr_spn_chrs_fwd base pos len chrs n) = ?k"
    using spn_chrs_fwd_eq(1) [OF a(2), of chrs n] a(1) by (simp add: p)
  ultimately show "\<exists>n b1. (case p of (chrs, n) \<Rightarrow> \<lambda>base pos len. case vstr_spn_chrs_fwd base pos len chrs n of (num, b1) \<Rightarrow> Some (num, num = len, b1)) base pos len =
      Some (n, n * 1 = len, b1) \<and> same_but_cache base b1 \<and> vstr_inv b1 \<and> 0 < n \<and> n * 1 \<le> len \<and>
      (\<forall>i < n. (case p of (chrs, n) \<Rightarrow> first_in (chr_set chrs n)) (drop (i * 1) ?xs) = Some 0)"
    using spn_chrs_fwd_frame [OF a(2), of chrs n] run_in_set [of _ "chr_set chrs n" ?xs]
    by (intro exI [of _ ?k] exI [of _ "snd (vstr_spn_chrs_fwd base pos len chrs n)"]) (simp add: p case_prod_beta)
qed simp

section \<open>Splitting at a buffer\<close>

lemma null_end_loop_spec:
  assumes "buf_holds buf n" "0 < n" "in_range base pos len"
  shows "\<exists>m b1. null_end_loop base pos len buf n num = Some (num + m, m * n = len, b1) \<and> same_but_cache base b1 \<and> vstr_inv b1 \<and>
    m * n \<le> len \<and> (\<forall>i < m. match_at (range_data base pos len) (i * n) (buf_content buf n))"
  using assms(3)
proof (induction len arbitrary: base pos num rule: less_induct)
  case (less len)
  let ?ys = "buf_content buf n"
  have ylen: "length ?ys = n" using assms(1) by (rule buf_content_length)
  have inv: "vstr_inv base" using less.prems by (simp add: in_range_def)
  show ?case
  proof (cases "n \<le> len")
    case False
    then show ?thesis using inv by (subst null_end_loop.simps) auto
  next
    case True
    obtain r b1 where c: "vstr_cmp_buf base pos n buf n = (r, b1)" by fastforce
    have in_n: "in_range base pos n" using less.prems True by (simp add: in_range_def)
    have b1: "same_but_cache base b1" "vstr_inv b1" and r: "r = 0 \<longleftrightarrow> range_data base pos n = ?ys"
      using cmp_buf_reads [OF in_n assms(1)] c by simp_all
    have first: "r = 0 \<longleftrightarrow> match_at (range_data base pos len) 0 ?ys"
      using r True ylen range_data_length [OF less.prems] by (simp add: match_at_def min_def)
    show ?thesis
    proof (cases "r = 0")
      case r0: False
      then show ?thesis using c b1 True assms(2) by (subst null_end_loop.simps) auto
    next
      case r0: True
      note rest = in_range_rest [OF less.prems b1 True]
      have "len - n < len" using True assms(2) by simp
      from less.IH [OF this rest(1), of "Suc num"] obtain m b2
        where m: "null_end_loop b1 (pos + n) (len - n) buf n (Suc num) = Some (Suc num + m, m * n = len - n, b2)" "same_but_cache b1 b2"
          "vstr_inv b2" "m * n \<le> len - n" "\<forall>i < m. match_at (drop n (range_data base pos len)) (i * n) ?ys"
        unfolding rest(2) by blast
      have "match_at (range_data base pos len) (i * n) ?ys" if "i < Suc m" for i
        using m(5) that r0 first match_at_drop [of n "range_data base pos len"] True range_data_length [OF less.prems]
        by (cases i) (auto simp del: length_take length_drop)
      moreover have "null_end_loop base pos len buf n num = Some (num + Suc m, Suc m * n = len, b2)"
        using c r0 m(1) True by (subst null_end_loop.simps) auto
      ultimately show ?thesis
        using m b1 True same_but_cache_trans by (intro exI [of _ "Suc m"] exI [of _ b2]) auto
    qed
  qed
qed

lemma null_end_reads:
  assumes "buf_holds buf n" "0 < n" "in_range base pos len" "find_sub (buf_content buf n) (range_data base pos len) = Some 0"
  shows "\<exists>m b1. vstr__split_buf_null_end base pos len buf n = Some (m, m * n = len, b1) \<and> same_but_cache base b1 \<and> vstr_inv b1 \<and> 0 < m \<and>
    m * n \<le> len \<and> (\<forall>i < m. find_sub (buf_content buf n) (drop (i * n) (range_data base pos len)) = Some 0)"
proof -
  let ?xs = "range_data base pos len" and ?ys = "buf_content buf n"
  have ylen: "length ?ys = n" using assms(1) by (rule buf_content_length)
  have first: "match_at ?xs 0 ?ys" using assms(4) by (simp add: find_sub_Some)
  then have n: "n \<le> len" using ylen range_data_length [OF assms(3)] by (simp add: match_at_def del: length_take length_drop)
  have inv: "vstr_inv base" using assms(3) by (simp add: in_range_def)
  note rest = in_range_rest [OF assms(3) same_but_cache_refl inv n]
  obtain m b1 where m: "null_end_loop base (pos + n) (len - n) buf n 1 = Some (1 + m, m * n = len - n, b1)" "same_but_cache base b1"
      "vstr_inv b1" "m * n \<le> len - n" "\<forall>i < m. match_at (drop n ?xs) (i * n) ?ys"
    using null_end_loop_spec [OF assms(1,2) rest(1), of 1] unfolding rest(2) by blast
  have at: "match_at ?xs (i * n) ?ys" if "i < Suc m" for i
    using m(5) that first match_at_drop [of n ?xs] n range_data_length [OF assms(3)] by (cases i) (auto simp del: length_take length_drop)
  have sub: "find_sub ?ys (drop (i * n) ?xs) = Some 0" if "i < Suc m" for i
    using at [OF that] match_at_drop [of "i * n" ?xs 0 ?ys] by (simp add: find_sub_Some match_at_def del: length_take length_drop)
  show ?thesis
  proof (cases "len = n")
    case True
    then show ?thesis
      using inv sub [of 0] assms(4) by (intro exI [of _ 1] exI [of _ base]) (simp add: vstr__split_buf_null_end_def)
  next
    case False
    then show ?thesis
      using m sub n by (intro exI [of _ "Suc m"] exI [of _ b1]) (auto simp: vstr__split_buf_null_end_def)
  qed
qed

interpretation buf: splitter "\<lambda>(buf, n) base pos len. vstr_srch_buf_fwd base pos len buf n"
    "\<lambda>(buf, n) base pos len. vstr__split_buf_null_end base pos len buf n"
    "\<lambda>(buf, n). buf_holds buf n \<and> 0 < n" "\<lambda>(buf, n). find_sub (buf_content buf n)" snd
proof
  fix p :: "byte list option \<times> nat" and xs i
  assume "case p of (buf, n) \<Rightarrow> buf_holds buf n \<and> 0 < n" "(case p of (buf, n) \<Rightarrow> find_sub (buf_content buf n)) xs = Some i"
  then show "i + snd p \<le> length xs" by (auto simp: find_sub_Some match_at_def buf_content_length split: prod.splits)
next
  fix p :: "byte list option \<times> nat" and base pos len
  assume "case p of (buf, n) \<Rightarrow> buf_holds buf n \<and> 0 < n" "in_range base pos len"
    "(case p of (buf, n) \<Rightarrow> find_sub (buf_content buf n)) (range_data base pos len) = Some 0"
  then show "\<exists>n b1. (case p of (buf, n) \<Rightarrow> \<lambda>base pos len. vstr__split_buf_null_end base pos len buf n) base pos len =
      Some (n, n * snd p = len, b1) \<and> same_but_cache base b1 \<and> vstr_inv b1 \<and> 0 < n \<and> n * snd p \<le> len \<and>
      (\<forall>i < n. (case p of (buf, n) \<Rightarrow> find_sub (buf_content buf n)) (drop (i * snd p) (range_data base pos len)) = Some 0)"
    using null_end_reads [of "fst p" "snd p" base pos len] by (cases p) simp
qed (auto dest: srch_buf_fwd_reads split: prod.splits)

section \<open>Properties\<close>



text \<open>An empty buffer to split at: the loop that counts separators does not end.\<close>

lemma null_end_loop_empty:
  assumes "in_range base pos 0" "buf_holds buf 0"
  shows "null_end_loop base pos len buf 0 num = None"
proof -
  have "in_range base pos 0 \<longrightarrow> n = 0 \<longrightarrow> buf_holds buf 0 \<longrightarrow> False" if "null_end_loop base pos len buf n num = Some y"
    for base pos len buf n num y
    using that
  proof (rule null_end_loop.raw_induct [where P = "\<lambda>base pos len buf n num y. in_range base pos 0 \<longrightarrow> n = 0 \<longrightarrow> buf_holds buf 0 \<longrightarrow> False", rotated])
    fix loop base pos len buf n num y
    assume 1: "\<And>base pos len buf n num y. loop base pos len buf n num = Some y \<Longrightarrow> in_range base pos 0 \<longrightarrow> n = 0 \<longrightarrow> buf_holds buf 0 \<longrightarrow> False"
      "(if n \<le> len then case vstr_cmp_buf base pos n buf n of (r, b1) \<Rightarrow>
          if r \<noteq> 0 then Some (num, False, b1) else loop b1 (pos + n) (len - n) buf n (num + 1)
        else Some (num, len = 0, base)) = Some y"
    show "in_range base pos 0 \<longrightarrow> n = 0 \<longrightarrow> buf_holds buf 0 \<longrightarrow> False"
    proof (intro impI)
      assume a: "in_range base pos 0" "n = 0" "buf_holds buf 0"
      have c: "fst (vstr_cmp_buf base pos 0 buf 0) = 0" "same_but_cache base (snd (vstr_cmp_buf base pos 0 buf 0))"
          "vstr_inv (snd (vstr_cmp_buf base pos 0 buf 0))"
        using cmp_buf_reads [OF a(1,3)] by (auto simp: buf_content_def split: option.splits)
      then have "in_range (snd (vstr_cmp_buf base pos 0 buf 0)) pos 0" using reads_frame(1) [OF c(2,3) a(1)] by simp
      then show False using 1 a c(1) by (auto simp: case_prod_beta)
    qed
  qed
  then show ?thesis using assms by (metis not_None_eq)
qed

lemma split_at_nothing:
  assumes "in_range base pos len" "len \<noteq> 0" "buf_holds buf 0"
  shows "vstr_split_buf base pos len buf 0 sects 0 flags h = None"
proof -
  have "in_range base pos 0" "pos \<noteq> 0" using assms(1) by (auto simp: in_range_def)
  then show ?thesis
    using assms null_end_loop_empty [of base pos buf]
    by (simp add: vstr_split_buf_def split_loop.simps vstr_srch_buf_fwd_def vstr__split_buf_null_end_def)
qed

text \<open>
  A range made of \<open>len\<close> separators, split with all empty sections and the limit \<open>len\<close>: the final section is added although the limit is
  reached.
\<close>

lemma split_exceeds_limit:
  assumes "in_range base pos len" "len \<noteq> 0" "buf_holds chrs k" "\<forall>e \<in> set (range_data base pos len). e \<in> chr_set chrs k"
    and "sects_ok s" "s_can_add_sz s" "\<not> s_malloc_bad s"
  shows "\<exists>st b1. vstr_split_chrs base pos len chrs k s len 15 h = Some (st, b1) \<and>
    split_done s (map (\<lambda>i. \<lparr>sect_pos = pos + i, sect_len = 0\<rparr>) [0..<Suc len]) st"
proof -
  let ?xs = "range_data base pos len" and ?S = "chr_set chrs k"
  have g: "grown s [] (0, s, h)" using assms(5-7) by (simp add: grown_def)
  have len: "length ?xs = len" by (rule range_data_length [OF assms(1)])
  have pos: "pos \<noteq> 0" using assms(1) by (simp add: in_range_def)
  have "takeWhile (\<lambda>e. e \<notin> ?S) ?xs = []" using assms(2,4) len by (cases ?xs) auto
  then obtain b1 where b1: "vstr_srch_chrs_fwd base pos len chrs k = (pos, b1)" "same_but_cache base b1" "vstr_inv b1"
    using spn_chrs_fwd_eq(2) [OF assms(1,3)] cspn_chrs_fwd_frame [OF assms(1), of chrs k] assms(2)
    by (cases "vstr_cspn_chrs_fwd base pos len chrs k") (auto simp: vstr_srch_chrs_fwd_def srch_of_spn_def)
  have in1: "in_range b1 pos len" "range_data b1 pos len = ?xs" using reads_frame [OF b1(2,3)] assms(1) by auto
  have "takeWhile (\<lambda>e. e \<in> ?S) ?xs = ?xs" using assms(4) by (simp only: takeWhile_eq_all_conv)
  then have "length (takeWhile (\<lambda>e. e \<in> ?S) ?xs) = len" using len by (simp only:)
  then obtain b2 where b2: "vstr_spn_chrs_fwd b1 pos len chrs k = (len, b2)"
    using spn_chrs_fwd_eq(1) [OF in1(1) assms(3)] in1(2) by (cases "vstr_spn_chrs_fwd b1 pos len chrs k") simp
  have bits: "bit (15 :: flags) n \<longleftrightarrow> n < 4" for n by (rule bit_null_flags)
  have "split_done s (map (\<lambda>i. \<lparr>sect_pos = pos + i, sect_len = 0\<rparr>) [0..<Suc len])
      (vstr__split_hdl_null_end pos len 1 15 len len (0, s, h))"
    using null_end_done [OF g, of pos pos 15 True len 1 len len] assms(2) by (simp add: split_count_def bits)
  then show ?thesis
    using b1(1) b2 pos assms(2) by (simp add: vstr_split_chrs_def split_loop.simps bits)
qed

end
