(* ===== verification/Vstr_Conv.thy ===== *)
theory Vstr_Conv
  imports Vstr_Sub Vstr_Parse_Ip Vstr_Split Vstr_Srch_Case
begin

text \<open>
  Conversion of the data of a string in place (\<^verbatim>\<open>src/src/vstr_conv.c\<close>): upper and lower case, characters that cannot be printed, and the
  encoding of characters in an URI. Every conversion first reserves the nodes it can need, then changes one position after the other.
\<close>

section \<open>Reserving nodes\<close>

text \<open>
  The counters \<^verbatim>\<open>extra_nodes\<close> of \<^verbatim>\<open>VSTR__BUF_NEEDED\<close> are 32 bit; the one of \<^verbatim>\<open>NON\<close> nodes stays 0, they are passed over. \<open>test\<close> is the
  condition for a character that is left as it is, \<open>sub\<close> tells substitutions from deletions.
\<close>

record extra_nodes =
  x_buf :: nat
  x_ptr :: nat
  x_ref :: nat

definition uint_inc :: "nat \<Rightarrow> nat" where
  "uint_inc n = (n + 1) mod (UINT_MAX + 1)"

definition extra_inc :: "ntype \<Rightarrow> extra_nodes \<Rightarrow> extra_nodes" where
  "extra_inc t x =
     (case t of NODE_BUF \<Rightarrow> x\<lparr>x_buf := uint_inc (x_buf x)\<rparr> | NODE_NON \<Rightarrow> x
      | NODE_PTR \<Rightarrow> x\<lparr>x_ptr := uint_inc (x_ptr x)\<rparr> | NODE_REF \<Rightarrow> x\<lparr>x_ref := uint_inc (x_ref x)\<rparr>)"

text \<open>The inner \<^verbatim>\<open>do\<close> loop: the rest behind a run of characters to change, for a substitution of at most as many as fit a node.\<close>

fun needed_run :: "(byte \<Rightarrow> bool) \<Rightarrow> bool \<Rightarrow> nat \<Rightarrow> nat \<Rightarrow> byte list \<Rightarrow> byte list" where
  "needed_run test sub bsz start [] = []"
| "needed_run test sub bsz start (c # cs) =
     (if cs \<noteq> [] \<and> (\<not> sub \<or> start - length cs \<le> bsz) \<and> \<not> test (hd cs) then needed_run test sub bsz start cs else cs)"

lemma needed_run_le: "length (needed_run test sub n k cs) \<le> length cs"
  by (induction cs) auto

function needed_node :: "(byte \<Rightarrow> bool) \<Rightarrow> bool \<Rightarrow> nat \<Rightarrow> ntype \<Rightarrow> bool \<Rightarrow> bool \<Rightarrow> byte list \<Rightarrow> extra_nodes \<Rightarrow> extra_nodes" where
  "needed_node test sub bsz t done first_pass [] x = x"
| "needed_node test sub bsz t done first_pass (c # cs) x =
     (if test c then needed_node test sub bsz t True True cs x
      else if sub \<or> done then
        let x1 = (if done \<and> first_pass then extra_inc t x else x);
            x2 = (if sub then extra_inc NODE_BUF x1 else x1)
        in needed_node test sub bsz t done False (needed_run test sub bsz (length (c # cs)) (c # cs)) x2
      else needed_node test sub bsz t done first_pass cs x)"
  by pat_completeness auto
termination
  by (relation "measure (\<lambda>(_, _, _, _, _, _, cs, _). length cs)") (auto intro: le_imp_less_Suc needed_run_le)

function needed_loop :: "(byte \<Rightarrow> bool) \<Rightarrow> bool \<Rightarrow> vstr_conf \<Rightarrow> vstr_iter \<Rightarrow> extra_nodes \<Rightarrow> extra_nodes" where
  "needed_loop test sub c it x =
     (let t = node_type (hd (iter_node it));
          x1 = (if t = NODE_BUF \<and> (sub \<or> \<not> split_buf_del c) then x
                else if t = NODE_NON then x
                else needed_node test sub (buf_sz c) t False True (take (iter_len it) (the (iter_ptr it))) x)
      in case vstr_iter_fwd_nxt it of (False, _) \<Rightarrow> x1 | (True, it1) \<Rightarrow> needed_loop test sub c it1 x1)"
  by pat_completeness auto
termination
  by (relation "measure (\<lambda>(_, _, _, it, _). length (iter_node it))") (auto dest: nxt_shorter sym)

declare needed_loop.simps [simp del]

text \<open>Reserving spare nodes of several kinds; the first that fails ends it.\<close>

fun reserve_spares :: "vstr_conf \<Rightarrow> (ntype \<times> nat) list \<Rightarrow> bool \<times> vstr_conf" where
  "reserve_spares c [] = (True, c)"
| "reserve_spares c ((t, n) # ts) =
     (case cntl_set_num_range_spare c t (n mod (UINT_MAX + 1)) UINT_MAX of
        (False, c1) \<Rightarrow> (False, c1)
      | (True, c1) \<Rightarrow> reserve_spares c1 ts)"

definition VSTR__BUF_NEEDED :: "(byte \<Rightarrow> bool) \<Rightarrow> bool \<Rightarrow> vstr_base \<Rightarrow> nat \<Rightarrow> nat \<Rightarrow> bool \<times> vstr_base" where
  "VSTR__BUF_NEEDED test sub base pos len =
     (case vstr_iter_fwd_beg base pos len of
        (None, b1) \<Rightarrow> (False, b1)
      | (Some it, b1) \<Rightarrow>
          let x0 = \<lparr>x_buf = 0, x_ptr = 0, x_ref = 0\<rparr>;
              x = (if node_ptr_used b1 \<or> node_ref_used b1 \<or> (sub \<and> node_non_used b1) \<or> (\<not> sub \<and> \<not> split_buf_del (b_conf b1))
                   then needed_loop test sub (b_conf b1) it x0 else x0)
          in if (node_ptr_used b1 \<or> node_ref_used b1) \<and> (sub \<or> split_buf_del (b_conf b1)) \<and> x = x0 then (True, b1)
             else (case reserve_spares (b_conf b1) [(NODE_BUF, uint_inc (x_buf x)), (NODE_PTR, x_ptr x), (NODE_REF, x_ref x)] of
                     (ok, c) \<Rightarrow> (ok, b1\<lparr>b_conf := c\<rparr>)))"

section \<open>Upper and lower case\<close>

text \<open>The loop of \<^verbatim>\<open>vstr_conv_lowercase()\<close>. The iterator is started again behind every character that was changed.\<close>

primrec conv_lower_loop :: "nat \<Rightarrow> vstr_base \<Rightarrow> nat \<Rightarrow> vstr_iter \<Rightarrow> vstr_base" where
  "conv_lower_loop 0 base pos miter = base"
| "conv_lower_loop (Suc len) base pos miter =
     (case vstr_iter_fwd_chr miter of
        (tmp, _, it) \<Rightarrow>
          if IS_ASCII_UPPER tmp then
            (case vstr_sub_buf base pos 1 [TO_ASCII_LOWER tmp] of
               (_, b1) \<Rightarrow> (case vstr_iter_fwd_beg b1 (pos + 1) len of
                  (r, b2) \<Rightarrow> conv_lower_loop len b2 (pos + 1) (case r of Some it1 \<Rightarrow> it1 | None \<Rightarrow> it)))
          else conv_lower_loop len base (pos + 1) it)"

definition vstr_conv_lowercase :: "vstr_base \<Rightarrow> nat \<Rightarrow> nat \<Rightarrow> bool \<times> vstr_base" where
  "vstr_conv_lowercase base pos len =
     (case VSTR__BUF_NEEDED (\<lambda>c. \<not> IS_ASCII_UPPER c) True base pos len of
        (False, b1) \<Rightarrow> (False, b1)
      | (True, b1) \<Rightarrow> (case vstr_iter_fwd_beg b1 pos len of
            (None, b2) \<Rightarrow> (True, b2)
          | (Some it, b2) \<Rightarrow> (True, conv_lower_loop len b2 pos it)))"

primrec conv_upper_loop :: "nat \<Rightarrow> vstr_base \<Rightarrow> nat \<Rightarrow> vstr_base" where
  "conv_upper_loop 0 base pos = base"
| "conv_upper_loop (Suc len) base pos =
     (case vstr_export_chr base pos of
        (tmp, b1) \<Rightarrow>
          conv_upper_loop len (if IS_ASCII_LOWER tmp then snd (vstr_sub_buf b1 pos 1 [TO_ASCII_UPPER tmp]) else b1) (pos + 1))"

definition vstr_conv_uppercase :: "vstr_base \<Rightarrow> nat \<Rightarrow> nat \<Rightarrow> bool \<times> vstr_base" where
  "vstr_conv_uppercase base pos len =
     (case VSTR__BUF_NEEDED (\<lambda>c. \<not> IS_ASCII_LOWER c) True base pos len of
        (False, b1) \<Rightarrow> (False, b1)
      | (True, b1) \<Rightarrow> (True, conv_upper_loop len b1 pos))"

section \<open>Characters that cannot be printed\<close>

abbreviation (input) ALLOW_NUL :: nat where "ALLOW_NUL \<equiv> 0"
abbreviation (input) ALLOW_BEL :: nat where "ALLOW_BEL \<equiv> 1"
abbreviation (input) ALLOW_BS :: nat where "ALLOW_BS \<equiv> 2"
abbreviation (input) ALLOW_HT :: nat where "ALLOW_HT \<equiv> 3"
abbreviation (input) ALLOW_LF :: nat where "ALLOW_LF \<equiv> 4"
abbreviation (input) ALLOW_VT :: nat where "ALLOW_VT \<equiv> 5"
abbreviation (input) ALLOW_FF :: nat where "ALLOW_FF \<equiv> 6"
abbreviation (input) ALLOW_CR :: nat where "ALLOW_CR \<equiv> 7"
abbreviation (input) ALLOW_SP :: nat where "ALLOW_SP \<equiv> 8"
abbreviation (input) ALLOW_COMMA :: nat where "ALLOW_COMMA \<equiv> 9"
abbreviation (input) ALLOW_DOT :: nat where "ALLOW_DOT \<equiv> 9"
abbreviation (input) ALLOW_UNDERSCORE :: nat where "ALLOW_UNDERSCORE \<equiv> 10"
abbreviation (input) ALLOW_ESC :: nat where "ALLOW_ESC \<equiv> 11"
abbreviation (input) ALLOW_DEL :: nat where "ALLOW_DEL \<equiv> 12"
abbreviation (input) ALLOW_HSP :: nat where "ALLOW_HSP \<equiv> 13"
abbreviation (input) ALLOW_HIGH :: nat where "ALLOW_HIGH \<equiv> 14"

definition IS_ASCII_PRINTABLE :: "byte \<Rightarrow> flags \<Rightarrow> bool" where
  "IS_ASCII_PRINTABLE x flags \<longleftrightarrow>
     (if x = 0x00 then bit flags ALLOW_NUL else if x = 0x07 then bit flags ALLOW_BEL else if x = 0x08 then bit flags ALLOW_BS
      else if x = 0x09 then bit flags ALLOW_HT else if x = 0x0A then bit flags ALLOW_LF else if x = 0x0B then bit flags ALLOW_VT
      else if x = 0x0C then bit flags ALLOW_FF else if x = 0x0D then bit flags ALLOW_CR else if x = 0x1B then bit flags ALLOW_ESC
      else if x = 0x20 then bit flags ALLOW_SP else if x = 0x2C then bit flags ALLOW_COMMA else if x = 0x2E then bit flags ALLOW_DOT
      else if x = 0x5F then bit flags ALLOW_UNDERSCORE else if x = 0x7F then bit flags ALLOW_DEL else if x = 0xA0 then bit flags ALLOW_HSP
      else if x \<ge> 0xA1 then bit flags ALLOW_HIGH else x \<ge> 0x21 \<and> x \<le> 0x7E)"

function conv_unprintable_loop :: "flags \<Rightarrow> byte \<Rightarrow> vstr_base \<Rightarrow> nat \<Rightarrow> nat \<Rightarrow> vstr_base" where
  "conv_unprintable_loop flags swp base pos len =
     (if len = 0 then base
      else (case vstr_spn_chrs_fwd base pos len None 1 of (skip_non, b1) \<Rightarrow>
        if skip_non \<noteq> 0 then conv_unprintable_loop flags swp b1 (pos + skip_non) (len - skip_non)
        else (case vstr_export_chr b1 pos of (tmp, b2) \<Rightarrow>
          conv_unprintable_loop flags swp (if \<not> IS_ASCII_PRINTABLE tmp flags then snd (vstr_sub_buf b2 pos 1 [swp]) else b2) (pos + 1) (len - 1))))"
  by pat_completeness auto
termination
  by (relation "measure (\<lambda>(_, _, _, _, len). len)") auto

declare conv_unprintable_loop.simps [simp del]

definition vstr_conv_unprintable_chr :: "vstr_base \<Rightarrow> nat \<Rightarrow> nat \<Rightarrow> flags \<Rightarrow> byte \<Rightarrow> bool \<times> vstr_base" where
  "vstr_conv_unprintable_chr base pos len flags swp =
     (case VSTR__BUF_NEEDED (\<lambda>c. IS_ASCII_PRINTABLE c flags) True base pos len of
        (False, b1) \<Rightarrow> (False, b1)
      | (True, b1) \<Rightarrow> (True, conv_unprintable_loop flags swp b1 pos len))"

text \<open>
  The loop of \<^verbatim>\<open>vstr_conv_unprintable_del()\<close>: a run that starts at \<open>del_pos\<close> is deleted when a character that can be printed follows, or at
  the end. The result is the string, the position and \<open>del_pos\<close>.
\<close>

function conv_del_loop :: "flags \<Rightarrow> vstr_base \<Rightarrow> nat \<Rightarrow> nat \<Rightarrow> nat \<Rightarrow> vstr_base \<times> nat \<times> nat" where
  "conv_del_loop flags base pos len del_pos =
     (if len = 0 then (base, pos, del_pos)
      else (case vstr_spn_chrs_fwd base pos len None 1 of (skip_non, b1) \<Rightarrow>
        if skip_non \<noteq> 0 then conv_del_loop flags b1 (pos + skip_non) (len - skip_non) del_pos
        else (case vstr_export_chr b1 pos of (tmp, b2) \<Rightarrow>
          if \<not> IS_ASCII_PRINTABLE tmp flags then conv_del_loop flags b2 (pos + 1) (len - 1) (if del_pos = 0 then pos else del_pos)
          else if del_pos \<noteq> 0 then conv_del_loop flags (snd (vstr_del b2 del_pos (pos - del_pos))) (del_pos + 1) (len - 1) 0
          else conv_del_loop flags b2 (pos + 1) (len - 1) del_pos)))"
  by pat_completeness auto
termination
  by (relation "measure (\<lambda>(_, _, _, len, _). len)") auto

declare conv_del_loop.simps [simp del]

definition vstr_conv_unprintable_del :: "vstr_base \<Rightarrow> nat \<Rightarrow> nat \<Rightarrow> flags \<Rightarrow> bool \<times> vstr_base" where
  "vstr_conv_unprintable_del base pos passed_len flags =
     (case VSTR__BUF_NEEDED (\<lambda>c. IS_ASCII_PRINTABLE c flags) False base pos passed_len of
        (False, b1) \<Rightarrow> (False, b1)
      | (True, b1) \<Rightarrow> (case conv_del_loop flags b1 pos passed_len 0 of
           (b2, pos1, del_pos) \<Rightarrow> (True, if del_pos \<noteq> 0 then snd (vstr_del b2 del_pos (pos1 - del_pos)) else b2)))"

section \<open>Strings that can be converted\<close>

text \<open>
  A string of \<^verbatim>\<open>BUF\<close> nodes with room for \<open>n\<close> more bytes in the memory, and a \<^verbatim>\<open>malloc()\<close> that does not fail.
\<close>

definition conv_ready :: "nat \<Rightarrow> vstr_base \<Rightarrow> bool" where
  "conv_ready n b \<longleftrightarrow> vstr_inv b \<and> only_buf b \<and> mk_never_fails (b_conf b) \<and> b_len b + n + buf_sz (b_conf b) < 2 ^ 63"

lemma ready_mem:
  assumes "conv_ready n b"
  shows "fits_mem b"
proof -
  have "b_used b \<le> buf_sz (b_conf b)"
  proof (cases "b_used b = 0")
    case False
    then obtain i bs ns where "b_nodes b = Node_buf i bs # ns" "b_used b < length bs"
      using assms by (auto simp: conv_ready_def vstr_inv_def wf_base_iff used_ok_def)
    moreover have "node_ok (buf_sz (b_conf b)) (Node_buf i bs)"
      using assms calculation by (auto simp: conv_ready_def vstr_inv_def wf_base_iff)
    ultimately show ?thesis by (simp add: node_ok_simps)
  qed simp
  then show ?thesis using assms by (simp add: conv_ready_def fits_mem_def)
qed

lemma ready_stays: "conv_ready n a \<Longrightarrow> stays a b \<Longrightarrow> vstr_inv b \<Longrightarrow> b_len b + m \<le> b_len a + n \<Longrightarrow> conv_ready m b"
  using stays_only_buf [of a b] stays_mk [of a b] by (auto simp: conv_ready_def stays_def conf_stays_def)

lemma ready_same: "conv_ready n a \<Longrightarrow> same_but_cache a b \<Longrightarrow> vstr_inv b \<Longrightarrow> conv_ready n b"
  using ready_stays [of n a b n] same_but_cache_stays [of a b a] same_but_cache_frame [of a b] by simp

lemma inv_data_len: "vstr_inv a \<Longrightarrow> vstr_inv b \<Longrightarrow> vstr_data b = vstr_data a \<Longrightarrow> b_len b = b_len a"
  using data_len [of a] data_len [of b] by simp

lemma sub_ready:
  assumes "conv_ready (n + length buf) b" "1 \<le> pos" "pos + len \<le> Suc (b_len b)" "length buf \<le> 1000"
  obtains b1 where "vstr_sub_buf b pos len buf = (True, b1)" "conv_ready (n + len) b1"
    "vstr_data b1 = take (pos - 1) (vstr_data b) @ map Some buf @ drop (pos - 1 + len) (vstr_data b)"
proof -
  have inv: "vstr_inv b" using assms(1) by (simp add: conv_ready_def)
  have "length buf \<le> UINT_MAX" using assms(4) by (rule UINT_MAX_large)
  then obtain b1 where b1: "vstr_sub_buf b pos len buf = (True, b1)" "stays b b1" "vstr_inv b1"
    "vstr_data b1 = take (pos - 1) (vstr_data b) @ map Some buf @ drop (pos - 1 + len) (vstr_data b)"
    using sub_buf_spec [of b pos len buf] assms(1-3) ready_mem [OF assms(1)] by (auto simp: conv_ready_def in_range_def)
  then have "b_len b1 + len = b_len b + length buf"
    using arg_cong [OF b1(4), of length] data_len [OF inv] data_len [OF b1(3)] assms(2,3) by simp
  then have "conv_ready (n + len) b1" by (intro ready_stays [OF assms(1) b1(2,3)]) simp
  with b1 that show thesis by blast
qed

lemma set_byte:
  assumes "p < length xs"
  shows "take p xs @ map Some [c] @ drop (p + 1) xs = xs[p := Some c]"
  using assms by (simp add: upd_conv_take_nth_drop)

lemma sub_one_ready:
  assumes "conv_ready (Suc n) b" "1 \<le> pos" "pos \<le> b_len b"
  obtains b1 where "vstr_sub_buf b pos 1 [c] = (True, b1)" "conv_ready (Suc n) b1" "vstr_data b1 = (vstr_data b)[pos - 1 := Some c]"
proof -
  have "length (vstr_data b) = b_len b" using data_len assms(1) by (simp add: conv_ready_def)
  then show thesis
    using sub_ready [of n "[c]" b pos 1] set_byte [of "pos - 1" "vstr_data b" c] assms that by fastforce
qed

section \<open>Reading one character\<close>

definition chr_of :: "byte option \<Rightarrow> byte" where
  "chr_of e = (case e of None \<Rightarrow> 0 | Some c \<Rightarrow> c)"

lemma export_chr_spec:
  assumes "vstr_inv b" "1 \<le> pos" "pos \<le> b_len b"
  obtains b1 where "vstr_export_chr b pos = (chr_of (vstr_data b ! (pos - 1)), b1)" "same_but_cache b b1" "vstr_inv b1"
proof -
  have wf: "wf_base b" and ids: "ids_distinct b" and pc: "pos_cache_ok b"
    using assms(1) ids_ok_distinct by (auto simp: vstr_inv_def ids_distinct_def)
  obtain idx p num b1 where 1: "vstr_base__pos b pos True = ((idx, p, num), b1)" by (metis surj_pair)
  have at: "at_pos b pos idx p" and same: "same_but_cache b b1" and pc1: "pos_cache_ok b1"
    using base__pos_at_pos [OF wf ids pc assms(2,3) 1] by auto
  note fr = same_but_cache_frame [OF same]
  have inv1: "vstr_inv b1" using assms(1) pc1 fr by (simp add: vstr_inv_def)
  let ?n = "b_nodes b ! idx"
  have p: "1 \<le> p" "p \<le> node_len ?n" and ok: "node_ok (buf_sz (b_conf b)) ?n" using at wf by (auto simp: at_pos_def wf_base_iff)
  have "vstr_data b ! (pos - 1) = node_data ?n ! (p - 1)"
  proof -
    let ?L = "nodes_data (take idx (b_nodes b)) @ take p (node_data ?n)"
    have t: "take pos (vstr_data b) = drop (b_used b) ?L" by (rule at_pos_take_drop(1) [OF wf at])
    have ne: "take pos (vstr_data b) \<noteq> []" using assms data_len [OF assms(1)] by auto
    then have "vstr_data b ! (pos - 1) = last (take pos (vstr_data b))"
      using assms data_len [OF assms(1)] by (simp add: last_conv_nth)
    also have "\<dots> = last ?L" using ne t by (metis last_drop drop_eq_Nil not_le)
    also have "\<dots> = node_data ?n ! (p - 1)"
      using p node_data_length [OF ok] by (auto simp: last_append last_conv_nth)
    finally show ?thesis .
  qed
  moreover have "b_nodes b \<noteq> []" using at by (auto simp: at_pos_def)
  ultimately have "vstr_export_chr b pos = (chr_of (vstr_data b ! (pos - 1)), b1)"
    using 1 fr(1) assms(3) p ok by (cases ?n) (auto simp: vstr_export_chr_def chr_of_def node_ok_simps cptr_read_length)
  then show thesis using that same inv1 by blast
qed

section \<open>Reserving succeeds\<close>

lemma reserve_spares_ready:
  "mk_never_fails c \<Longrightarrow> \<exists>c1. reserve_spares c ts = (True, c1) \<and> conf_stays c c1 \<and>
     (\<forall>b. b_conf b = c \<longrightarrow> vstr_inv b \<longrightarrow> vstr_inv (b\<lparr>b_conf := c1\<rparr>))"
proof (induction ts arbitrary: c)
  case Nil
  have "b\<lparr>b_conf := b_conf b\<rparr> = b" for b :: vstr_base by (cases b) simp
  then show ?case by auto
next
  case (Cons tn ts)
  obtain t n where tn: "tn = (t, n)" by fastforce
  obtain r c1 where c1: "cntl_set_num_range_spare c t (n mod (UINT_MAX + 1)) UINT_MAX = (r, c1)" by fastforce
  then have r: "r" "mk_never_fails c1" using range_spare_succeeds Cons.prems by blast+
  have "n mod (UINT_MAX + 1) \<le> UINT_MAX" by (simp add: less_Suc_eq_le [symmetric])
  then have inv: "vstr_inv (b\<lparr>b_conf := c1\<rparr>)" if "b_conf b = c" "vstr_inv b" for b
    using inv_range_spare [of b] c1 that by simp
  obtain c2 where c2: "reserve_spares c1 ts = (True, c2)" "conf_stays c1 c2"
      "\<forall>b. b_conf b = c1 \<longrightarrow> vstr_inv b \<longrightarrow> vstr_inv (b\<lparr>b_conf := c2\<rparr>)"
    using Cons.IH [OF r(2)] by blast
  have "vstr_inv (b\<lparr>b_conf := c2\<rparr>)" if "b_conf b = c" "vstr_inv b" for b
    using spec [OF c2(3), of "b\<lparr>b_conf := c1\<rparr>"] inv [OF that] by simp
  then show ?case
    using tn c1 r(1) c2(1,2) conf_stays_trans [OF range_spare_stays [OF c1]] by simp
qed

lemma ready_conf:
  assumes "conv_ready n b" "conf_stays (b_conf b) c" "vstr_inv (b\<lparr>b_conf := c\<rparr>)"
  shows "conv_ready n (b\<lparr>b_conf := c\<rparr>)"
  using ready_stays [OF assms(1) _ assms(3), of n] assms(2) by (auto simp: stays_def)

lemma buf_needed_ready:
  assumes "conv_ready n b" "1 \<le> pos" "pos + len \<le> Suc (b_len b)" "0 < len"
  obtains b1 where "VSTR__BUF_NEEDED test True b pos len = (True, b1)" "conv_ready n b1" "vstr_data b1 = vstr_data b"
proof -
  have inv: "vstr_inv b" using assms(1) by (simp add: conv_ready_def)
  obtain it b1 where b1: "vstr_iter_fwd_beg b pos len = (Some it, b1)" "same_but_cache b b1" "vstr_inv b1"
    using iter_fwd_beg_spec [OF inv assms(2-4)] by metis
  have rdy: "conv_ready n b1" by (rule ready_same [OF assms(1) b1(2,3)])
  obtain c where c: "reserve_spares (b_conf b1) [(NODE_BUF, uint_inc 0), (NODE_PTR, 0), (NODE_REF, 0)] = (True, c)"
      "conf_stays (b_conf b1) c" "vstr_inv (b1\<lparr>b_conf := c\<rparr>)"
    using reserve_spares_ready [of "b_conf b1"] rdy b1(3) by (fastforce simp: conv_ready_def)
  have "VSTR__BUF_NEEDED test True b pos len = (True, b1\<lparr>b_conf := c\<rparr>)"
    using b1(1) rdy c(1) by (simp add: VSTR__BUF_NEEDED_def conv_ready_def only_buf_def Let_def)
  then show thesis
    using that ready_conf [OF rdy c(2,3)] same_but_cache_frame(7) [OF b1(2)] by (simp add: vstr_data_def)
qed

section \<open>Changing every byte of a range\<close>

definition upd_range :: "('a \<Rightarrow> 'a) \<Rightarrow> nat \<Rightarrow> nat \<Rightarrow> 'a list \<Rightarrow> 'a list" where
  "upd_range f p n xs = take p xs @ map f (take n (drop p xs)) @ drop (p + n) xs"

lemma upd_range_0 [simp]: "upd_range f p 0 xs = xs"
  by (simp add: upd_range_def)

lemma upd_range_Suc:
  assumes "p < length xs"
  shows "upd_range f p (Suc n) xs = upd_range f (Suc p) n (xs[p := f (xs ! p)])"
  using assms by (simp add: upd_range_def take_Suc_conv_app_nth upd_conv_take_nth_drop add.commute flip: Cons_nth_drop_Suc)

lemma only_buf_bytes:
  assumes "conv_ready n b"
  shows "None \<notin> set (vstr_data b)"
proof -
  have "None \<notin> set (nodes_data (b_nodes b))"
    using only_buf_nodes [of b] assms by (auto simp: conv_ready_def vstr_inv_def) (case_tac x; force)
  then show ?thesis by (auto simp: vstr_data_def dest: in_set_dropD)
qed

lemma conv_step:
  assumes "conv_ready (Suc n) b" "1 \<le> pos" "pos \<le> b_len b"
  obtains c b1 b2 where "vstr_data b ! (pos - 1) = Some c" "vstr_export_chr b pos = (c, b1)"
    "(if hit c then snd (vstr_sub_buf b1 pos 1 [g c]) else b1) = b2" "conv_ready (Suc n) b2" "b_len b2 = b_len b"
    "vstr_data b2 = (vstr_data b)[pos - 1 := Some (if hit c then g c else c)]"
proof -
  have inv: "vstr_inv b" using assms(1) by (simp add: conv_ready_def)
  have p: "pos - 1 < length (vstr_data b)" using assms(2,3) data_len [OF inv] by auto
  then obtain c where c: "vstr_data b ! (pos - 1) = Some c" using only_buf_bytes [OF assms(1)] by (metis nth_mem not_None_eq)
  then obtain b1 where b1: "vstr_export_chr b pos = (c, b1)" "same_but_cache b b1" "vstr_inv b1"
    using export_chr_spec [OF inv assms(2,3)] by (auto simp: chr_of_def)
  note fr = same_but_cache_frame [OF b1(2)]
  have rdy: "conv_ready (Suc n) b1" by (rule ready_same [OF assms(1) b1(2,3)])
  obtain b3 where b3: "vstr_sub_buf b1 pos 1 [g c] = (True, b3)" "conv_ready (Suc n) b3" "vstr_data b3 = (vstr_data b1)[pos - 1 := Some (g c)]"
    using sub_one_ready [OF rdy assms(2), of "g c"] assms(3) fr(2) by auto
  then have "b_len b3 = b_len b"
    using fr(7) data_len [OF inv] data_len [of b3] by (auto simp: conv_ready_def)
  moreover have "(vstr_data b)[pos - 1 := Some c] = vstr_data b" using c by (metis list_update_id)
  ultimately show thesis
    using that [OF c b1(1) refl] b3 rdy fr(2,7) by (cases "hit c") auto
qed

lemma upper_loop_spec:
  "conv_ready (Suc n) b \<Longrightarrow> 1 \<le> pos \<Longrightarrow> pos + len \<le> Suc (b_len b) \<Longrightarrow>
   conv_ready (Suc n) (conv_upper_loop len b pos) \<and> vstr_data (conv_upper_loop len b pos) =
     upd_range (map_option fold_upper) (pos - 1) len (vstr_data b)"
proof (induction len arbitrary: b pos)
  case (Suc len)
  have p: "pos \<le> b_len b" "pos - 1 < length (vstr_data b)" using Suc.prems data_len [of b] by (auto simp: conv_ready_def)
  obtain c b1 b2 where s: "vstr_data b ! (pos - 1) = Some c" "vstr_export_chr b pos = (c, b1)"
    "(if IS_ASCII_LOWER c then snd (vstr_sub_buf b1 pos 1 [TO_ASCII_UPPER c]) else b1) = b2" "conv_ready (Suc n) b2" "b_len b2 = b_len b"
    "vstr_data b2 = (vstr_data b)[pos - 1 := Some (if IS_ASCII_LOWER c then TO_ASCII_UPPER c else c)]"
    using conv_step [OF Suc.prems(1,2) p(1)] .
  have "vstr_data b2 = (vstr_data b)[pos - 1 := Some (fold_upper c)]" using s(6) by (simp add: fold_upper_def)
  then show ?case
    using Suc.IH [OF s(4), of "pos + 1"] Suc.prems(2,3) upd_range_Suc [OF p(2), of "map_option fold_upper" len] s(1-5) by simp
qed simp

lemma unprintable_loop_spec:
  "conv_ready (Suc n) b \<Longrightarrow> 1 \<le> pos \<Longrightarrow> pos + len \<le> Suc (b_len b) \<Longrightarrow>
   conv_ready (Suc n) (conv_unprintable_loop flags swp b pos len) \<and> vstr_data (conv_unprintable_loop flags swp b pos len) =
     upd_range (map_option (\<lambda>c. if IS_ASCII_PRINTABLE c flags then c else swp)) (pos - 1) len (vstr_data b)"
proof (induction len arbitrary: b pos)
  case 0
  then show ?case by (simp add: conv_unprintable_loop.simps)
next
  case (Suc len)
  let ?f = "\<lambda>c. if IS_ASCII_PRINTABLE c flags then c else swp"
  have p: "pos \<le> b_len b" "pos - 1 < length (vstr_data b)" using Suc.prems data_len [of b] by (auto simp: conv_ready_def)
  obtain c b1 b2 where s: "vstr_data b ! (pos - 1) = Some c" "vstr_export_chr b pos = (c, b1)"
    "(if \<not> IS_ASCII_PRINTABLE c flags then snd (vstr_sub_buf b1 pos 1 [swp]) else b1) = b2" "conv_ready (Suc n) b2" "b_len b2 = b_len b"
    "vstr_data b2 = (vstr_data b)[pos - 1 := Some (if \<not> IS_ASCII_PRINTABLE c flags then swp else c)]"
    using conv_step [OF Suc.prems(1,2) p(1), of "\<lambda>c. \<not> IS_ASCII_PRINTABLE c flags" "\<lambda>_. swp"] .
  have "vstr_spn_chrs_fwd b pos (Suc len) None 1 = (0, b)"
    using Suc.prems(1) by (simp add: vstr_spn_chrs_fwd_def conv_ready_def only_buf_def)
  then have "conv_unprintable_loop flags swp b pos (Suc len) = conv_unprintable_loop flags swp b2 (pos + 1) len"
    using s(2,3) by (subst conv_unprintable_loop.simps) simp
  then show ?case
    using Suc.IH [OF s(4), of "pos + 1"] Suc.prems(2,3) s upd_range_Suc [OF p(2), of "map_option ?f" len] by simp
qed

lemma lower_loop_spec:
  "conv_ready (Suc n) b \<Longrightarrow> 1 \<le> pos \<Longrightarrow> pos + len \<le> Suc (b_len b) \<Longrightarrow> iter_inv it \<Longrightarrow> iter_rest it = take len (drop (pos - 1) (vstr_data b)) \<Longrightarrow>
   conv_ready (Suc n) (conv_lower_loop len b pos it) \<and> vstr_data (conv_lower_loop len b pos it) =
     upd_range (map_option fold_case) (pos - 1) len (vstr_data b)"
proof (induction len arbitrary: b pos it)
  case (Suc len)
  have inv: "vstr_inv b" using Suc.prems(1) by (simp add: conv_ready_def)
  have p: "pos \<le> b_len b" "pos - 1 < length (vstr_data b)" using Suc.prems data_len [OF inv] by auto
  then obtain c where c: "vstr_data b ! (pos - 1) = Some c" using only_buf_bytes [OF Suc.prems(1)] by (metis nth_mem not_None_eq)
  have "drop (pos - 1) (vstr_data b) = Some c # drop pos (vstr_data b)"
    using Cons_nth_drop_Suc [OF p(2)] Suc.prems(2) c by simp
  then have rest: "iter_rest it = Some c # take len (drop pos (vstr_data b))" using Suc.prems(5) by simp
  obtain t it1 where it1: "vstr_iter_fwd_chr it = (c, t, it1)" "iter_inv it1" "iter_rest it1 = take len (drop pos (vstr_data b))"
    using iter_fwd_chr_spec [OF Suc.prems(4)] by (cases "vstr_iter_fwd_chr it") (auto simp: rest)
  note step = upd_range_Suc [OF p(2), of "map_option fold_case" len]
  show ?case
  proof (cases "IS_ASCII_UPPER c")
    case True
    obtain b1 where b1: "vstr_sub_buf b pos 1 [TO_ASCII_LOWER c] = (True, b1)" "conv_ready (Suc n) b1"
        "vstr_data b1 = (vstr_data b)[pos - 1 := Some (fold_case c)]"
      using sub_one_ready [OF Suc.prems(1,2) p(1)] True by (auto simp: fold_case_def)
    have inv1: "vstr_inv b1" and len1: "b_len b1 = b_len b"
      using b1(2) arg_cong [OF b1(3), of length] data_len [OF inv] data_len [of b1] by (auto simp: conv_ready_def)
    show ?thesis
    proof (cases "len = 0")
      case True
      then show ?thesis using it1(1) b1 \<open>IS_ASCII_UPPER c\<close> step c by simp
    next
      case False
      have rng: "1 \<le> pos + 1" "pos + 1 + len \<le> Suc (b_len b1)" "0 < len" using Suc.prems(3) len1 False by auto
      obtain it2 b2 where b2: "vstr_iter_fwd_beg b1 (pos + 1) len = (Some it2, b2)" "iter_inv it2"
          "iter_rest it2 = take len (drop (pos + 1 - 1) (vstr_data b1))" "same_but_cache b1 b2" "vstr_inv b2"
        using iter_fwd_beg_spec [OF inv1 rng] by metis
      note fr = same_but_cache_frame [OF b2(4)]
      show ?thesis
        using Suc.IH [OF ready_same [OF b1(2) b2(4,5)] rng(1), of it2] rng(2) fr(2,7) b2(1-3) it1(1) b1(1,3) \<open>IS_ASCII_UPPER c\<close> step c
          Suc.prems(2) by simp
    qed
  next
    case False
    then have "fold_case c = c" by (simp add: fold_case_def)
    moreover have "(vstr_data b)[pos - 1 := Some c] = vstr_data b" using c by (metis list_update_id)
    ultimately show ?thesis
      using Suc.IH [OF Suc.prems(1), of "pos + 1" it1] Suc.prems(2,3) it1 False step c by simp
  qed
qed simp

section \<open>Properties\<close>

text \<open>
  C8. Conversions of characters. On a string of \<^verbatim>\<open>BUF\<close> nodes, with a \<^verbatim>\<open>malloc()\<close> that does not fail, \<^verbatim>\<open>vstr_conv_lowercase()\<close>,
  \<^verbatim>\<open>vstr_conv_uppercase()\<close> and \<^verbatim>\<open>vstr_conv_unprintable_chr()\<close> return TRUE for a range that is not empty, keep the invariant, and change exactly the
  ASCII capitals, the ASCII small letters and the characters that cannot be printed in the range.
\<close>

theorem conv_chars_correct:
  assumes "conv_ready 1 base" "1 \<le> pos" "pos + len \<le> Suc (b_len base)" "0 < len"
  shows "(case vstr_conv_lowercase base pos len of (r, b) \<Rightarrow>
      r \<and> vstr_inv b \<and> vstr_data b = upd_range (map_option fold_case) (pos - 1) len (vstr_data base)) \<and>
    (case vstr_conv_uppercase base pos len of (r, b) \<Rightarrow>
      r \<and> vstr_inv b \<and> vstr_data b = upd_range (map_option fold_upper) (pos - 1) len (vstr_data base)) \<and>
    (case vstr_conv_unprintable_chr base pos len flags swp of (r, b) \<Rightarrow> r \<and> vstr_inv b \<and>
      vstr_data b = upd_range (map_option (\<lambda>c. if IS_ASCII_PRINTABLE c flags then c else swp)) (pos - 1) len (vstr_data base))"
proof (intro conjI)
  have inv: "vstr_inv base" using assms(1) by (simp add: conv_ready_def)
  have need: "\<exists>b1. VSTR__BUF_NEEDED test True base pos len = (True, b1) \<and> conv_ready 1 b1 \<and> vstr_data b1 = vstr_data base \<and> b_len b1 = b_len base" for test
    using buf_needed_ready [OF assms, of test] inv_data_len [OF inv] by (metis conv_ready_def)
  show "case vstr_conv_lowercase base pos len of (r, b) \<Rightarrow>
      r \<and> vstr_inv b \<and> vstr_data b = upd_range (map_option fold_case) (pos - 1) len (vstr_data base)"
  proof -
    obtain b1 where b1: "VSTR__BUF_NEEDED (\<lambda>c. \<not> IS_ASCII_UPPER c) True base pos len = (True, b1)" "conv_ready 1 b1"
        "vstr_data b1 = vstr_data base" "b_len b1 = b_len base" using need by blast
    have inv1: "vstr_inv b1" using b1(2) by (simp add: conv_ready_def)
    obtain it b2 where b2: "vstr_iter_fwd_beg b1 pos len = (Some it, b2)" "iter_inv it"
        "iter_rest it = take len (drop (pos - 1) (vstr_data b1))" "same_but_cache b1 b2" "vstr_inv b2"
      using iter_fwd_beg_spec [OF inv1 assms(2), of len] assms(3,4) b1(4) by metis
    note fr = same_but_cache_frame [OF b2(4)]
    show ?thesis
      using lower_loop_spec [of 0 b2 pos len it] ready_same [OF b1(2) b2(4,5)] b1 b2 fr(2,7) assms(2,3)
      by (simp add: vstr_conv_lowercase_def conv_ready_def)
  qed
  show "case vstr_conv_uppercase base pos len of (r, b) \<Rightarrow>
      r \<and> vstr_inv b \<and> vstr_data b = upd_range (map_option fold_upper) (pos - 1) len (vstr_data base)"
    using need [of "\<lambda>c. \<not> IS_ASCII_LOWER c"] upper_loop_spec [of 0 _ pos len] assms(2,3)
    by (auto simp: vstr_conv_uppercase_def conv_ready_def)
  show "case vstr_conv_unprintable_chr base pos len flags swp of (r, b) \<Rightarrow> r \<and> vstr_inv b \<and>
      vstr_data b = upd_range (map_option (\<lambda>c. if IS_ASCII_PRINTABLE c flags then c else swp)) (pos - 1) len (vstr_data base)"
    using need [of "\<lambda>c. IS_ASCII_PRINTABLE c flags"] unprintable_loop_spec [of 0 _ pos len flags swp] assms(2,3)
    by (auto simp: vstr_conv_unprintable_chr_def conv_ready_def)
qed

lemma ex_buf_ready: "n \<le> 1000 \<Longrightarrow> conv_ready n ex_buf"
  by (simp add: conv_ready_def) (simp add: ex_conf_def)

theorem conv_chars_correct_witness:
  "vstr_data (snd (vstr_conv_uppercase ex_buf 2 3)) = [Some 97, Some 66, Some 67, Some 68, Some 101, Some 102]"
proof -
  have "vstr_data (snd (vstr_conv_uppercase ex_buf 2 3)) = upd_range (map_option fold_upper) 1 3 (vstr_data ex_buf)"
    using conv_chars_correct [of ex_buf 2 3 0 0] ex_buf_ready [of 1] by (auto split: prod.splits)
  then show ?thesis by (simp add: upd_range_def fold_upper_def case_defs)
qed

end
