(* ===== verification/Vstr_Uri.thy ===== *)
theory Vstr_Uri
  imports Vstr_Conv
begin

text \<open>
  Encoding and decoding of the characters an URI cannot have (\<^verbatim>\<open>vstr_conv_encode_uri()\<close> and \<^verbatim>\<open>vstr_conv_decode_uri()\<close> of
  \<^verbatim>\<open>src/src/vstr_conv.c\<close>). Both collect the places to change in an array of sections and then substitute them one after the other.
\<close>

section \<open>The model\<close>

abbreviation (input) SECTS_SZ :: nat where "SECTS_SZ \<equiv> 8"

definition chrs_disallowed :: "byte list" where
  "chrs_disallowed = map word_of_nat ([0x00..<0x21] @
     [0x22, 0x23, 0x24, 0x25, 0x26, 0x27, 0x2B, 0x2C, 0x2F, 0x3A, 0x3B, 0x3C, 0x3D, 0x3E, 0x3F, 0x40,
      0x5B, 0x5C, 0x5D, 0x5E, 0x60, 0x7B, 0x7C, 0x7D] @ [0x7F..<0x100])"

definition conf_heap :: "vstr_heap \<Rightarrow> vstr_base \<Rightarrow> vstr_base" where
  "conf_heap h base = base\<lparr>b_conf := (b_conf base)\<lparr>heap := h\<rparr>\<rparr>"

definition conf_malloc_bad :: "vstr_base \<Rightarrow> vstr_base" where
  "conf_malloc_bad base = base\<lparr>b_conf := (b_conf base)\<lparr>malloc_bad := True\<rparr>\<rparr>"

text \<open>The first loop of \<^verbatim>\<open>vstr_conv_encode_uri()\<close>: a section for every character to encode. \<^const>\<open>None\<close> is the jump to \<^verbatim>\<open>sects_malloc_bad\<close>.\<close>

function encode_sects :: "vstr_base \<Rightarrow> nat \<Rightarrow> nat \<Rightarrow> vstr_sects \<Rightarrow> vstr_sects option \<times> vstr_base" where
  "encode_sects base pos len sects =
     (if len = 0 then (Some sects, base)
      else (case vstr_cspn_chrs_fwd base pos len (Some chrs_disallowed) (length chrs_disallowed) of
        (n, b1) \<Rightarrow>
          if len - n = 0 then (Some sects, b1)
          else (case vstr_sects_add sects (pos + n) 1 (heap (b_conf b1)) of
                  (False, _, h) \<Rightarrow> (None, conf_heap h b1)
                | (True, s1, h) \<Rightarrow> encode_sects (conf_heap h b1) (pos + n + 1) (len - n - 1) s1)))"
  by pat_completeness auto
termination
  by (relation "measure (\<lambda>(_, _, len, _). len)") auto

declare encode_sects.simps [simp del]

definition uri_digit :: "byte \<Rightarrow> byte" where
  "uri_digit x = (if x < 10 then 0x30 + x else 0x61 + (x - 10))"

definition uri_sub :: "byte \<Rightarrow> byte list" where
  "uri_sub bad = [0x25, uri_digit (and (drop_bit 4 bad) 0x0F), uri_digit (and bad 0x0F)]"

text \<open>The last loop: \<open>scan * 2\<close> is computed in 32 bits.\<close>

fun encode_loop :: "vstr_base \<Rightarrow> nat \<Rightarrow> sect_node list \<Rightarrow> vstr_base" where
  "encode_loop base scan [] = base"
| "encode_loop base scan (s # ss) =
     (let tpos = sect_pos s + (scan * 2) mod 2 ^ 32 in
      case vstr_export_chr base tpos of
        (bad, b1) \<Rightarrow> encode_loop (snd (vstr_sub_buf b1 tpos 1 (uri_sub bad))) (scan + 1) ss)"

text \<open>The four calls that reserve nodes; \<^verbatim>\<open>vstr_cntl_conf()\<close> takes the low 32 bits of a number.\<close>

definition uri_reserve :: "vstr_base \<Rightarrow> nat \<Rightarrow> nat \<Rightarrow> bool \<times> vstr_base" where
  "uri_reserve base bufs num =
     (case reserve_spares (b_conf base) [(NODE_BUF, bufs), (NODE_NON, num), (NODE_PTR, num), (NODE_REF, num)] of
        (ok, c) \<Rightarrow> (ok, base\<lparr>b_conf := c\<rparr>))"

definition vstr_conv_encode_uri :: "vstr_base \<Rightarrow> nat \<Rightarrow> nat \<Rightarrow> bool \<times> vstr_base" where
  "vstr_conv_encode_uri base pos len =
     (case vstr_sects_make SECTS_SZ (heap (b_conf base)) of
        (None, h) \<Rightarrow> (False, conf_malloc_bad (conf_heap h base))
      | (Some sects, h) \<Rightarrow>
         (case encode_sects (conf_heap h base) pos len sects of
            (None, b1) \<Rightarrow> (False, conf_malloc_bad b1)
          | (Some s1, b1) \<Rightarrow>
              let multi = (if buf_sz (b_conf b1) \<ge> 3 then 1 else 3) in
              (case uri_reserve b1 (s_num s1 * multi + 2) (s_num s1) of
                 (False, b2) \<Rightarrow> (False, conf_malloc_bad b2)
               | (True, b2) \<Rightarrow> (True, encode_loop b2 0 (take (s_num s1) (s_ptr s1))))))"

definition uri_num_flags :: flags where
  "uri_num_flags = or 16 (push_bit NUM_NO_BEG_PM 1)"

text \<open>
  The first loop of \<^verbatim>\<open>vstr_conv_decode_uri()\<close>. A percent sign that no number follows is passed over. The search finds a position in the
  range; the model also stops where it would not.
\<close>

function decode_sects :: "vstr_base \<Rightarrow> nat \<Rightarrow> nat \<Rightarrow> vstr_sects \<Rightarrow> vstr_sects option \<times> vstr_base" where
  "decode_sects base pos len sects =
     (case vstr_srch_chr_fwd base pos len 0x25 of
        (srch_pos, b1) \<Rightarrow>
          let left = len - (srch_pos - pos) in
          if srch_pos = 0 \<or> left < 3 then (Some sects, b1)
          else (case vstr_parse_ushort b1 (srch_pos + 1) 2 uri_num_flags of
                  ((_, _, err), b2) \<Rightarrow>
                    if err \<noteq> NUM_ERR_NONE then decode_sects b2 (srch_pos + 1) (left - 1) sects
                    else (case vstr_sects_add sects srch_pos 3 (heap (b_conf b2)) of
                            (False, _, h) \<Rightarrow> (None, conf_heap h b2)
                          | (True, s1, h) \<Rightarrow> decode_sects (conf_heap h b2) (srch_pos + 3) (left - 3) s1)))"
  by pat_completeness auto
termination
  by (relation "measure (\<lambda>(_, _, len, _). len)") auto

declare decode_sects.simps [simp del]

fun decode_loop :: "vstr_base \<Rightarrow> nat \<Rightarrow> sect_node list \<Rightarrow> vstr_base" where
  "decode_loop base scan [] = base"
| "decode_loop base scan (s # ss) =
     (let tpos = size_sub (sect_pos s) ((scan * 2) mod 2 ^ 32) in
      case vstr_parse_ushort base (tpos + 1) 2 uri_num_flags of
        ((num, _, _), b1) \<Rightarrow> decode_loop (snd (vstr_sub_buf b1 tpos 3 [ucast num])) (scan + 1) ss)"

definition vstr_conv_decode_uri :: "vstr_base \<Rightarrow> nat \<Rightarrow> nat \<Rightarrow> bool \<times> vstr_base" where
  "vstr_conv_decode_uri base pos len =
     (case vstr_sects_make SECTS_SZ (heap (b_conf base)) of
        (None, h) \<Rightarrow> (False, conf_malloc_bad (conf_heap h base))
      | (Some sects, h) \<Rightarrow>
         (case decode_sects (conf_heap h base) pos len sects of
            (None, b1) \<Rightarrow> (False, conf_malloc_bad b1)
          | (Some s1, b1) \<Rightarrow>
              (case uri_reserve b1 (s_num s1 + 2) (s_num s1) of
                 (False, b2) \<Rightarrow> (False, conf_malloc_bad b2)
               | (True, b2) \<Rightarrow> (True, decode_loop b2 0 (take (s_num s1) (s_ptr s1))))))"

section \<open>Allocations of sections\<close>

lemma ready_heap:
  assumes "conv_ready n b" "mk_fail h = mk_fail (heap (b_conf b))" "mk_cnt (heap (b_conf b)) \<le> mk_cnt h"
  shows "conv_ready n (conf_heap h b)" "vstr_data (conf_heap h b) = vstr_data b" "b_len (conf_heap h b) = b_len b"
proof -
  have "vstr_inv (conf_heap h b)"
  proof -
    have "wf_base (conf_heap h b)" using assms(1) by (simp add: conf_heap_def conv_ready_def vstr_inv_def wf_base_iff check_spare_iff)
    moreover have "ids_ok ((b_conf b)\<lparr>heap := h\<rparr>) (b_nodes b)"
    proof -
      have "ids_of ((b_conf b)\<lparr>heap := h\<rparr>) (b_nodes b) = ids_of (b_conf b) (b_nodes b)" by (simp add: ids_of_def)
      then show ?thesis using assms(1,3) by (auto simp: conv_ready_def vstr_inv_def ids_ok_def)
    qed
    ultimately show ?thesis using assms(1) by (simp add: conf_heap_def conv_ready_def vstr_inv_def)
  qed
  then show "conv_ready n (conf_heap h b)"
    using assms(1,2) by (simp add: conv_ready_def conf_heap_def only_buf_def mk_never_fails_def)
  show "vstr_data (conf_heap h b) = vstr_data b" "b_len (conf_heap h b) = b_len b" by (simp_all add: conf_heap_def vstr_data_def)
qed

lemma mk_some: "\<forall>k. \<not> mk_fail h k \<Longrightarrow> \<exists>h1. VSTR_MK h = (Some (mk_cnt h), h1) \<and> mk_fail h1 = mk_fail h \<and> mk_cnt h \<le> mk_cnt h1"
  by (simp add: VSTR_MK_def)

lemma sects_grow_succeeds:
  assumes "\<forall>k. \<not> mk_fail h k" "s_sz s < 2 ^ 31"
  shows "\<exists>s1 h1. vstr__sects_add s h = (True, s1, h1) \<and> mk_fail h1 = mk_fail h \<and> mk_cnt h \<le> mk_cnt h1"
proof -
  obtain h1 where "VSTR_MK h = (Some (mk_cnt h), h1)" "mk_fail h1 = mk_fail h" "mk_cnt h \<le> mk_cnt h1" using mk_some [OF assms(1)] by blast
  moreover have "s_sz s mod 2 ^ 32 = s_sz s" "(s_sz s * 2) mod 2 ^ 32 = s_sz s * 2" "(s_sz s + 1) mod 2 ^ 32 = s_sz s + 1"
    using assms(2) by simp_all
  ultimately show ?thesis by (simp add: vstr__sects_add_def vstr__sects_mv_def Let_def)
qed

lemma sects_add_succeeds:
  assumes "\<forall>k. \<not> mk_fail h k" "s_can_add_sz s" "s_num s < 2 ^ 31" "sects_ok s"
  obtains s1 h1 where "vstr_sects_add s pos len h = (True, s1, h1)" "s_can_add_sz s1" "sects_ok s1" "s_num s1 = Suc (s_num s)"
    "sects_list s1 = sects_list s @ [\<lparr>sect_pos = pos, sect_len = len\<rparr>]" "mk_fail h1 = mk_fail h" "mk_cnt h \<le> mk_cnt h1"
proof -
  have "\<exists>s1 h1. vstr_sects_add s pos len h = (True, s1, h1) \<and> mk_fail h1 = mk_fail h \<and> mk_cnt h \<le> mk_cnt h1"
  proof (cases "s_sz s = 0 \<or> s_num s \<ge> s_sz s")
    case True
    then have "s_sz s < 2 ^ 31" using assms(3) by auto
    then obtain s1 h1 where "vstr__sects_add s h = (True, s1, h1)" "mk_fail h1 = mk_fail h" "mk_cnt h \<le> mk_cnt h1"
      using sects_grow_succeeds [OF assms(1)] by blast
    then show ?thesis using True assms(2) by (simp add: vstr_sects_add_def)
  qed (simp add: vstr_sects_add_def)
  then obtain s1 h1 where a: "vstr_sects_add s pos len h = (True, s1, h1)" "mk_fail h1 = mk_fail h" "mk_cnt h \<le> mk_cnt h1" by blast
  moreover have l: "sects_ok s1" "sects_list s1 = sects_list s @ [\<lparr>sect_pos = pos, sect_len = len\<rparr>]"
    using sects_add_ok [OF a(1) assms(4)] by auto
  moreover have "s_num s1 = Suc (s_num s)"
    using arg_cong [OF l(2), of length] sects_list_length [OF l(1)] sects_list_length [OF assms(4)] by simp
  ultimately show thesis using that sects_add_flags [OF a(1) assms(2)] by blast
qed

section \<open>Encoding\<close>

definition uri_bad :: "byte \<Rightarrow> bool" where
  "uri_bad c \<longleftrightarrow> c \<in> set chrs_disallowed"

definition uri_enc :: "byte \<Rightarrow> byte list" where
  "uri_enc c = (if uri_bad c then uri_sub c else [c])"

fun bad_sects :: "nat \<Rightarrow> byte list \<Rightarrow> sect_node list" where
  "bad_sects q [] = []"
| "bad_sects q (c # cs) = (if uri_bad c then [\<lparr>sect_pos = q, sect_len = 1\<rparr>] else []) @ bad_sects (Suc q) cs"

lemma bad_sects_skip: "\<forall>c \<in> set cs. \<not> uri_bad c \<Longrightarrow> bad_sects q (cs @ ds) = bad_sects (q + length cs) ds"
  by (induction cs arbitrary: q) auto

lemma bad_sects_length: "length (bad_sects q cs) \<le> length cs"
  by (induction cs arbitrary: q) (auto intro: le_SucI)

lemma cspn_bad:
  assumes "in_range b pos len" "range_data b pos len = map Some cs"
  obtains b1 where "vstr_cspn_chrs_fwd b pos len (Some chrs_disallowed) (length chrs_disallowed) = (length (takeWhile (\<lambda>c. \<not> uri_bad c) cs), b1)"
    "same_but_cache b b1" "vstr_inv b1"
proof -
  have "(\<lambda>c. Some c \<notin> chr_set (Some chrs_disallowed) (length chrs_disallowed)) = (\<lambda>c. \<not> uri_bad c)"
    by (auto simp: chr_set_def uri_bad_def)
  then have "fst (vstr_cspn_chrs_fwd b pos len (Some chrs_disallowed) (length chrs_disallowed)) = length (takeWhile (\<lambda>c. \<not> uri_bad c) cs)"
    using spn_chrs_fwd_eq(2) [OF assms(1), of "Some chrs_disallowed" "length chrs_disallowed"] assms(2)
    by (simp add: buf_holds_def takeWhile_map comp_def)
  then show thesis using cspn_chrs_fwd_frame [OF assms(1)] that by (metis prod.collapse)
qed

lemma range_rest:
  assumes "take len (drop p xs) = as @ bs" "len = length as + length bs"
  shows "take (length bs) (drop (p + length as) xs) = bs"
  using arg_cong [OF assms(1), of "drop (length as)"] assms(2) by (simp add: drop_take add.commute)

lemma encode_sects_spec:
  assumes "conv_ready n b" "1 \<le> pos" "pos + len \<le> Suc (b_len b)" "range_data b pos len = map Some cs"
    and "sects_ok s" "s_can_add_sz s" "s_num s + len < 2 ^ 31"
  shows "\<exists>s1 b1. encode_sects b pos len s = (Some s1, b1) \<and> conv_ready n b1 \<and> vstr_data b1 = vstr_data b \<and>
    sects_list s1 = sects_list s @ bad_sects pos cs"
  using assms
proof (induction len arbitrary: b pos cs s rule: less_induct)
  case (less len)
  have rng: "in_range b pos len" using less.prems(1-3) by (simp add: in_range_def conv_ready_def)
  have len: "length cs = len" using range_data_length [OF rng] unfolding less.prems(4) by simp
  let ?g = "takeWhile (\<lambda>c. \<not> uri_bad c) cs"
  have skip: "bad_sects pos cs = bad_sects (pos + length ?g) (dropWhile (\<lambda>c. \<not> uri_bad c) cs)"
    using bad_sects_skip [of ?g pos "dropWhile (\<lambda>c. \<not> uri_bad c) cs"] by (auto dest: set_takeWhileD)
  obtain b1 where b1: "vstr_cspn_chrs_fwd b pos len (Some chrs_disallowed) (length chrs_disallowed) = (length ?g, b1)"
      "same_but_cache b b1" "vstr_inv b1"
    using cspn_bad [OF rng less.prems(4)] .
  note fr = same_but_cache_frame [OF b1(2)]
  have rdy: "conv_ready n b1" by (rule ready_same [OF less.prems(1) b1(2,3)])
  consider (zero) "len = 0" | (none) "len \<noteq> 0" "dropWhile (\<lambda>c. \<not> uri_bad c) cs = []"
    | (bad) c ds where "len \<noteq> 0" "dropWhile (\<lambda>c. \<not> uri_bad c) cs = c # ds" by (metis list.exhaust)
  then show ?case
  proof cases
    case zero
    then show ?thesis using less.prems(1) len by (auto simp: encode_sects.simps)
  next
    case none
    have "cs = ?g" using none(2) by (metis append_Nil2 takeWhile_dropWhile_id)
    then have "length ?g = len" using len by simp
    then have "encode_sects b pos len s = (Some s, b1)" using b1(1) none(1) by (subst encode_sects.simps) simp
    then show ?thesis using rdy fr(7) skip none(2) by simp
  next
    case bad
    have cs: "cs = ?g @ c # ds" using takeWhile_dropWhile_id [of "\<lambda>c. \<not> uri_bad c" cs] bad(2) by simp
    have c: "uri_bad c" using bad(2) by (metis dropWhile_eq_Cons_conv)
    have l: "length ?g + Suc (length ds) = len" using arg_cong [OF cs, of length] len by simp
    obtain s1 h where a: "vstr_sects_add s (pos + length ?g) 1 (heap (b_conf b1)) = (True, s1, h)" "s_can_add_sz s1" "sects_ok s1"
        "s_num s1 = Suc (s_num s)" "sects_list s1 = sects_list s @ [\<lparr>sect_pos = pos + length ?g, sect_len = 1\<rparr>]"
        "mk_fail h = mk_fail (heap (b_conf b1))" "mk_cnt (heap (b_conf b1)) \<le> mk_cnt h"
      using sects_add_succeeds [of "heap (b_conf b1)" s "pos + length ?g" 1] rdy less.prems(5-7) l
      by (auto simp: conv_ready_def mk_never_fails_def)
    note hp = ready_heap [OF rdy a(6,7)]
    have step: "encode_sects b pos len s = encode_sects (conf_heap h b1) (pos + length ?g + 1) (length ds) s1"
    proof -
      have "len - length ?g = Suc (length ds)" "\<not> len \<le> length ?g" using l by simp_all
      then show ?thesis using b1(1) bad(1) a(1) by (subst encode_sects.simps) simp
    qed
    have all: "range_data b pos len = (map Some ?g @ [Some c]) @ map Some ds"
      unfolding less.prems(4) by (subst cs) simp
    have "len = length (map Some ?g @ [Some c]) + length (map Some ds)" using l by simp
    from range_rest [OF all this] have "take (length ds) (drop (pos - 1 + Suc (length ?g)) (vstr_data b)) = map Some ds" by simp
    moreover have "pos + length ?g + 1 - 1 = pos - 1 + Suc (length ?g)" using less.prems(2) by simp
    ultimately have dat: "range_data (conf_heap h b1) (pos + length ?g + 1) (length ds) = map Some ds"
      unfolding hp(2) fr(7) by metis
    show ?thesis
      unfolding step using less.IH [OF _ hp(1) _ _ dat a(3,2)] l a(4,5) less.prems(2,3,7) hp(2,3) fr(2,7) skip bad(2) c by simp
  qed
qed

lemma ready_mono: "conv_ready n b \<Longrightarrow> m \<le> n \<Longrightarrow> conv_ready m b"
  by (simp add: conv_ready_def)

lemma encode_loop_spec:
  assumes "conv_ready (2 * length cs + 3) b" "vstr_data b = pre @ map Some cs @ post" "Suc (length pre) = q + 2 * scan" "scan + length cs < 2 ^ 31"
  shows "conv_ready 3 (encode_loop b scan (bad_sects q cs)) \<and>
    vstr_data (encode_loop b scan (bad_sects q cs)) = pre @ map Some (concat (map uri_enc cs)) @ post"
  using assms
proof (induction cs arbitrary: b pre q scan)
  case (Cons c cs)
  have inv: "vstr_inv b" using Cons.prems(1) by (simp add: conv_ready_def)
  show ?case
  proof (cases "uri_bad c")
    case True
    let ?p = "q + (scan * 2) mod 2 ^ 32"
    have p: "?p = Suc (length pre)" using Cons.prems(3,4) by simp
    have le: "1 \<le> ?p" "?p \<le> b_len b" "vstr_data b ! (?p - 1) = Some c"
      using p Cons.prems(2) arg_cong [OF Cons.prems(2), of length] data_len [OF inv] by (auto simp: nth_append)
    obtain b1 where b1: "vstr_export_chr b ?p = (c, b1)" "same_but_cache b b1" "vstr_inv b1"
      using export_chr_spec [OF inv le(1,2)] le(3) by (auto simp: chr_of_def)
    note fr = same_but_cache_frame [OF b1(2)]
    have rdy: "conv_ready (2 * length cs + 2 + length (uri_sub c)) b1"
      using ready_mono [OF ready_same [OF Cons.prems(1) b1(2,3)]] by (simp add: uri_sub_def)
    obtain b2 where b2: "vstr_sub_buf b1 ?p 1 (uri_sub c) = (True, b2)" "conv_ready (2 * length cs + 2 + 1) b2"
        "vstr_data b2 = take (?p - 1) (vstr_data b1) @ map Some (uri_sub c) @ drop (?p - 1 + 1) (vstr_data b1)"
      using sub_ready [OF rdy le(1), of 1] le(2) fr(2) by (auto simp: uri_sub_def)
    have rdy2: "conv_ready (2 * length cs + 3) b2" by (rule ready_mono [OF b2(2)]) simp
    have dat: "vstr_data b2 = (pre @ map Some (uri_sub c)) @ map Some cs @ post"
      using b2(3) p fr(7) Cons.prems(2) by simp
    have "Suc (length (pre @ map Some (uri_sub c))) = Suc q + 2 * Suc scan" using Cons.prems(3) by (simp add: uri_sub_def)
    then show ?thesis
      using Cons.IH [OF rdy2 dat, of "Suc q" "Suc scan"] b2(1) b1(1) Cons.prems(4) True by (simp add: uri_enc_def add.commute)
  next
    case False
    have "conv_ready (2 * length cs + 3) b" using ready_mono [OF Cons.prems(1)] by simp
    then show ?thesis
      using Cons.IH [of b "pre @ [Some c]" "Suc q" scan] Cons.prems(2-4) False by (simp add: uri_enc_def)
  qed
qed (simp add: ready_mono)

section \<open>Pairs of hexadecimal digits\<close>

lemma uri_sub_digits: "uri_sub c = [0x25, uri_digit (of_nat (unat c div 16)), uri_digit (of_nat (unat c mod 16))]"
proof -
  have id: "x = of_nat n" if "unat x = n" for x :: byte and n using that by auto
  have "unat c < 2 ^ LENGTH(8)" by (rule unsigned_less)
  then have lt: "unat c < 256" by simp
  have m: "(0x0F :: byte) = mask 4" by (simp add: mask_eq_exp_minus_1)
  have "unat (and c 0x0F) = unat c mod 16" unfolding m by (simp flip: take_bit_eq_mask add: unsigned_take_bit_eq take_bit_eq_mod unat_mod_distrib unat_div_distrib)
  then have lo: "and c 0x0F = of_nat (unat c mod 16)" by (rule id)
  have "unat (and (drop_bit 4 c) 0x0F) = unat c div 16"
    unfolding m using lt by (simp flip: take_bit_eq_mask add: unsigned_take_bit_eq unat_drop_bit_eq take_bit_eq_mod unat_mod_distrib unat_div_distrib drop_bit_eq_div)
  then have "and (drop_bit 4 c) 0x0F = of_nat (unat c div 16)" by (rule id)
  then show ?thesis using lo by (simp add: uri_sub_def)
qed

definition hex_facts :: "nat \<Rightarrow> bool" where
  "hex_facts v \<longleftrightarrow> (let d = uri_digit (of_nat v) in num_digit uri_num_flags 16 d = Some v \<and> d \<noteq> 0x25 \<and> (d = 0x30 \<longleftrightarrow> v = 0) \<and>
     (d = 0x62 \<longleftrightarrow> v = 11) \<and> d \<noteq> 0x78 \<and> d \<noteq> 0x58 \<and> d \<noteq> 0x42)"

lemma uri_flag_bits: "bit uri_num_flags n \<longleftrightarrow> n = 4 \<or> n = 11"
proof -
  have f: "uri_num_flags = or (2 ^ 4) (2 ^ 11)" by (simp add: uri_num_flags_def push_bit_of_1)
  have b: "bit (2 ^ m :: flags) n \<longleftrightarrow> m < 32 \<and> n = m" for m
    by (auto simp: bit_exp_iff possible_bit_def)
  show ?thesis unfolding f bit_or_iff b by auto
qed

lemma hex_digit: "v < 16 \<Longrightarrow> hex_facts v"
proof -
  have "\<forall>v \<in> set [0..<16]. hex_facts v" by code_simp
  then show "v < 16 \<Longrightarrow> hex_facts v" by simp
qed

lemma digits_pair:
  assumes beg: "vstr__parse_num_beg b pos 2 F = (\<lparr>nb_base = 16, nb_pos = p, nb_len = length ds, nb_neg = False, nb_zeroed = z, nb_err = NUM_ERR_NONE\<rparr>, b1)"
    and b1: "same_but_cache b b1" "vstr_inv b1" and rng: "in_range b p (length ds)" "range_data b p (length ds) = map Some ds" "ds \<noteq> []"
    and dig: "\<forall>c \<in> set ds. num_digit F 16 c \<noteq> None" "num_value F 16 ds < 2 ^ 16"
  shows "\<exists>b2. vstr_parse_ushort b pos 2 F = ((of_nat (num_value F 16 ds), 2, NUM_ERR_NONE), b2) \<and> same_but_cache b b2 \<and> vstr_inv b2"
proof -
  note fr = reads_frame(1,2) [OF b1]
  obtain it b2 where it: "vstr_iter_fwd_beg b1 p (length ds) = (Some it, b2)" "iter_inv it" "iter_rest it = range_data b1 p (length ds)"
      "same_but_cache b1 b2" "vstr_inv b2"
    using fwd_beg_range [OF fr(1) [OF rng(1)]] rng(3) by (metis length_0_conv)
  have "num_loop (calc_short F) F 16 it (length ds) z 0 NUM_ERR_NONE = (of_nat (num_value F 16 ds), 0, NUM_ERR_NONE, False)"
    using ushort.loop_run [OF it(2) _ dig(1), of z 0 NUM_ERR_NONE] it(3) rng(2) fr(2) ushort.run_exact [of 16 F 0 ds NUM_ERR_NONE] dig(2)
    by (simp add: num_value_def)
  then have "vstr_parse_ushort b pos 2 F = ((of_nat (num_value F 16 ds), 2, NUM_ERR_NONE), b2)"
    using beg it(1) by (simp add: vstr_parse_ushort_def parse_unsigned_def)
  then show ?thesis using same_but_cache_trans [OF b1(1) it(4)] it(5) by blast
qed

lemma spn_pair:
  assumes "in_range b p l" "range_data b p l = map Some ds" "n \<le> length chrs"
  obtains b1 where "vstr_spn_chrs_fwd b p l (Some chrs) n = (length (takeWhile (\<lambda>c. c \<in> set (take n chrs)) ds), b1)"
    "same_but_cache b b1" "vstr_inv b1"
proof -
  have "(\<lambda>c. Some c \<in> chr_set (Some chrs) n) = (\<lambda>c. c \<in> set (take n chrs))" by (auto simp: chr_set_def)
  then have "fst (vstr_spn_chrs_fwd b p l (Some chrs) n) = length (takeWhile (\<lambda>c. c \<in> set (take n chrs)) ds)"
    using spn_chrs_fwd_eq(1) [OF assms(1), of "Some chrs" n] assms(2,3) by (simp add: buf_holds_def takeWhile_map comp_def)
  then show thesis using spn_chrs_fwd_frame [OF assms(1)] that by (metis prod.collapse)
qed

text \<open>
  The two digits of an encoded character are read back. The exception is \<^verbatim>\<open>0b\<close>, which is taken for the prefix of a binary number.
\<close>

lemma parse_pair:
  assumes rng: "in_range b pos 2" and dat: "range_data b pos 2 = map Some [uri_digit (of_nat v), uri_digit (of_nat w)]"
    and vw: "v < 16" "w < 16" "\<not> (v = 0 \<and> w = 11)"
  shows "\<exists>b2. vstr_parse_ushort b pos 2 uri_num_flags = ((of_nat (v * 16 + w), 2, NUM_ERR_NONE), b2) \<and> same_but_cache b b2 \<and> vstr_inv b2"
proof -
  let ?F = uri_num_flags and ?v = "uri_digit (of_nat v)" and ?w = "uri_digit (of_nat w)"
  have dv: "num_digit ?F 16 ?v = Some v" "?v = 0x30 \<longleftrightarrow> v = 0" and dw: "num_digit ?F 16 ?w = Some w" "?w = 0x30 \<longleftrightarrow> w = 0"
      "?w = 0x62 \<longleftrightarrow> w = 11" "?w \<noteq> 0x78" "?w \<noteq> 0x58" "?w \<noteq> 0x42"
    using hex_digit [OF vw(1)] hex_digit [OF vw(2)] by (simp_all add: hex_facts_def Let_def)
  let ?nb = "\<lparr>nb_base = 16, nb_pos = pos, nb_len = 2, nb_neg = False, nb_zeroed = False, nb_err = NUM_ERR_NONE\<rparr>"
  have "and ?F MASK_PARSE_NUM_BASE = 16" by (simp add: uri_num_flags_def MASK_PARSE_NUM_BASE_def push_bit_of_1)
  then have beg: "vstr__parse_num_beg b pos 2 ?F = num_prefix b ?nb ?F False"
    by (simp add: vstr__parse_num_beg_def num_space_def num_sign_def uri_flag_bits Let_def)
  obtain b1 where b1: "vstr_spn_chrs_fwd b pos 2 (Some [0x30]) 1 = (length (takeWhile (\<lambda>c. c \<in> set (take 1 [0x30])) [?v, ?w]), b1)"
      "same_but_cache b b1" "vstr_inv b1"
    using spn_pair [OF rng dat, of 1 "[0x30]"] by auto
  consider (no) "v \<noteq> 0" | (two) "v = 0" "w = 0" | (one) "v = 0" "w \<noteq> 0" "w \<noteq> 11" using vw(3) by (cases "v = 0"; cases "w = 0") auto
  then show ?thesis
  proof cases
    case no
    then have "vstr__parse_num_beg b pos 2 ?F =
        (\<lparr>nb_base = 16, nb_pos = pos, nb_len = length [?v, ?w], nb_neg = False, nb_zeroed = False, nb_err = NUM_ERR_NONE\<rparr>, b1)"
      using b1(1) dv(2) unfolding beg by (simp add: num_prefix_def num_zeros_def Let_def)
    from digits_pair [OF this b1(2,3)] show ?thesis
      using rng dat dv(1) dw(1) vw(1,2) by (simp add: num_value_def flip: numeral_2_eq_2)
  next
    case two
    then have "vstr__parse_num_beg b pos 2 ?F = (?nb\<lparr>nb_zeroed := True, nb_base := 1, nb_len := 0\<rparr>, b1)"
      using b1(1) dv(2) dw(2) unfolding beg by (simp add: num_prefix_def num_zeros_def uri_flag_bits Let_def)
    then show ?thesis using b1(2,3) two by (simp add: vstr_parse_ushort_def parse_unsigned_def)
  next
    case one
    have rng1: "in_range b (pos + 1) 1" using rng by (auto simp: in_range_def)
    have dat1: "range_data b (pos + 1) 1 = map Some [?w]"
    proof -
      have "range_data b pos 2 = [Some ?v] @ [Some ?w]" using dat by simp
      then have "take (length [Some ?w]) (drop (pos - 1 + length [Some ?v]) (vstr_data b)) = [Some ?w]" by (rule range_rest) simp
      then show ?thesis using rng by (simp add: in_range_def)
    qed
    have none: "num_letter c (?nb\<lparr>nb_zeroed := True, nb_pos := pos + 1, nb_len := 1\<rparr>) ?F ls m False = (None, c1)"
        if "vstr_spn_chrs_fwd c (pos + 1) 1 (Some ls) 2 = (0, c1)" for c c1 ls m
      using that by (simp add: num_letter_def)
    have spn: "\<exists>c1. vstr_spn_chrs_fwd c (pos + 1) 1 (Some ls) 2 = (0, c1) \<and> same_but_cache b c1 \<and> vstr_inv c1"
        if "same_but_cache b c" "vstr_inv c" "length ls = 2" "?w \<notin> set ls" for c ls
      using spn_pair [of c "pos + 1" 1 "[?w]" 2 ls] reads_frame(1,2) [OF that(1,2)] rng1 dat1 that(3,4) same_but_cache_trans [OF that(1)]
      by (metis (no_types, lifting) take_all_iff order_refl takeWhile.simps(2) list.size(3))
    obtain c1 where c1: "vstr_spn_chrs_fwd b1 (pos + 1) 1 (Some [0x78, 0x58]) 2 = (0, c1)" "same_but_cache b c1" "vstr_inv c1"
      using spn [OF b1(2,3), of "[0x78, 0x58]"] dw by auto
    obtain c2 where c2: "vstr_spn_chrs_fwd c1 (pos + 1) 1 (Some [0x62, 0x42]) 2 = (0, c2)" "same_but_cache b c2" "vstr_inv c2"
      using spn [OF c1(2,3), of "[0x62, 0x42]"] dw one(3) by auto
    have "vstr__parse_num_beg b pos 2 ?F =
        (\<lparr>nb_base = 16, nb_pos = pos + 1, nb_len = length [?w], nb_neg = False, nb_zeroed = True, nb_err = NUM_ERR_NONE\<rparr>, c2)"
      using b1(1) dv(2) dw(2) one none [OF c1(1)] none [OF c2(1)] unfolding beg by (simp add: num_prefix_def num_zeros_def Let_def)
    from digits_pair [OF this c2(2,3)] show ?thesis using rng1 dat1 dw(1) vw(2) one(1) by (simp add: num_value_def)
  qed
qed

section \<open>Decoding\<close>

fun enc_sects :: "nat \<Rightarrow> byte list \<Rightarrow> sect_node list" where
  "enc_sects q [] = []"
| "enc_sects q (c # cs) = (if uri_bad c then \<lparr>sect_pos = q, sect_len = 3\<rparr> # enc_sects (q + 3) cs else enc_sects (Suc q) cs)"

abbreviation uri_text :: "byte list \<Rightarrow> byte list" where
  "uri_text cs \<equiv> concat (map uri_enc cs)"

lemma percent_bad: "uri_bad 0x25"
  by (simp add: uri_bad_def chrs_disallowed_def)

lemma enc_sects_skip: "\<forall>c \<in> set cs. \<not> uri_bad c \<Longrightarrow> enc_sects q (cs @ ds) = enc_sects (q + length cs) ds"
  by (induction cs arbitrary: q) auto

lemma uri_text_good: "\<forall>c \<in> set cs. \<not> uri_bad c \<Longrightarrow> uri_text cs = cs"
  by (induction cs) (auto simp: uri_enc_def)

lemma index_of_skip: "\<forall>x \<in> set xs. \<not> P x \<Longrightarrow> index_of P (xs @ ys) = map_option ((+) (length xs)) (index_of P ys)"
proof (induction xs)
  case Nil
  then show ?case by (cases "index_of P ys") auto
next
  case (Cons x xs)
  then show ?case by (cases "index_of P ys") auto
qed

lemma srch_percent:
  assumes "in_range b pos len" "range_data b pos len = map Some (uri_text cs)"
  obtains b1 where "vstr_srch_chr_fwd b pos len 0x25 = (if \<forall>c \<in> set cs. \<not> uri_bad c then 0 else pos + length (takeWhile (\<lambda>c. \<not> uri_bad c) cs), b1)"
    "same_but_cache b b1" "vstr_inv b1"
proof -
  let ?g = "takeWhile (\<lambda>c. \<not> uri_bad c) cs"
  have good: "\<forall>c \<in> set ?g. \<not> uri_bad c" by (auto dest: set_takeWhileD)
  then have np: "\<forall>x \<in> set (map Some ?g). x \<noteq> Some (0x25 :: byte)" using percent_bad by auto
  have "fst (vstr_srch_chr_fwd b pos len 0x25) = (if \<forall>c \<in> set cs. \<not> uri_bad c then 0 else pos + length ?g)"
  proof (cases "\<forall>c \<in> set cs. \<not> uri_bad c")
    case True
    then have "\<forall>x \<in> set (map Some cs). x \<noteq> Some (0x25 :: byte)" using percent_bad by auto
    from index_of_skip [OF this, of "[]"] have "index_of (\<lambda>x. x = Some 0x25) (map Some (uri_text cs)) = None"
      using uri_text_good [OF True] by simp
    then show ?thesis using True srch_chr_fwd_eq(1) [OF assms(1), of "0x25"] assms(2) by (simp add: found_at_def)
  next
    case False
    then obtain c ds where d: "dropWhile (\<lambda>c. \<not> uri_bad c) cs = c # ds" by (metis dropWhile_eq_Nil_conv list.exhaust)
    then have c: "uri_bad c" by (metis dropWhile_eq_Cons_conv)
    have cs: "cs = ?g @ c # ds" using takeWhile_dropWhile_id [of "\<lambda>c. \<not> uri_bad c" cs] d by simp
    have "uri_text cs = ?g @ uri_sub c @ uri_text ds" by (subst cs) (simp add: uri_text_good [OF good] uri_enc_def c)
    then have "index_of (\<lambda>x. x = Some 0x25) (map Some (uri_text cs)) = Some (length ?g)"
      using index_of_skip [OF np, of "map Some (uri_sub c @ uri_text ds)"] by (simp add: uri_sub_def)
    then show ?thesis using False srch_chr_fwd_eq(1) [OF assms(1), of "0x25"] assms(2) by (auto simp: found_at_def)
  qed
  then have "vstr_srch_chr_fwd b pos len 0x25 =
      (if \<forall>c \<in> set cs. \<not> uri_bad c then 0 else pos + length ?g, snd (vstr_srch_chr_fwd b pos len 0x25))"
    by (intro prod_eqI) (simp_all only: fst_conv snd_conv)
  then show thesis by (rule that) (use srch_chr_fwd_eq(2) [OF assms(1), of "0x25"] in auto)
qed

text \<open>The digits of a character in the range are read back as the character.\<close>

lemma parse_sub:
  assumes "vstr_inv b" "vstr_data b = pre @ map Some (uri_sub c) @ post" "c \<noteq> 0x0B" "p = Suc (length pre)"
  obtains b1 where "vstr_parse_ushort b (p + 1) 2 uri_num_flags = ((of_nat (unat c), 2, NUM_ERR_NONE), b1)" "same_but_cache b b1" "vstr_inv b1"
proof -
  have "unat c < 2 ^ LENGTH(8)" by (rule unsigned_less)
  then have vw: "unat c div 16 < 16" "unat c mod 16 < 16" "unat c div 16 * 16 + unat c mod 16 = unat c" by simp_all
  have "unat c \<noteq> 11"
  proof
    assume "unat c = 11"
    then have "(of_nat (unat c) :: byte) = of_nat 11" by (rule arg_cong)
    then show False using assms(3) by simp
  qed
  then have nb: "\<not> (unat c div 16 = 0 \<and> unat c mod 16 = 11)" using vw(3) by auto
  have "in_range b (p + 1) 2"
    using assms(1,4) arg_cong [OF assms(2), of length] data_len [OF assms(1)] by (simp add: in_range_def uri_sub_def)
  moreover have "range_data b (p + 1) 2 = map Some [uri_digit (of_nat (unat c div 16)), uri_digit (of_nat (unat c mod 16))]"
    using assms(2,4) by (simp add: uri_sub_digits)
  ultimately show thesis using parse_pair [OF _ _ vw(1,2) nb, of b "p + 1"] vw(3) that by metis
qed

lemma uri_text_cons: "uri_text (gs @ c # ds) = uri_text gs @ uri_enc c @ uri_text ds"
  by simp

lemma decode_sects_spec:
  assumes "conv_ready n b" "vstr_data b = pre @ map Some (uri_text cs) @ post" "0x0B \<notin> set cs"
    and "sects_ok s" "s_can_add_sz s" "s_num s + length (uri_text cs) < 2 ^ 31"
  shows "\<exists>s1 b1. decode_sects b (Suc (length pre)) (length (uri_text cs)) s = (Some s1, b1) \<and> conv_ready n b1 \<and> vstr_data b1 = vstr_data b \<and>
    sects_list s1 = sects_list s @ enc_sects (Suc (length pre)) cs"
  using assms
proof (induction cs arbitrary: b pre s rule: length_induct)
  case (1 cs)
  note IH = 1(1) and prems = 1(2-)
  let ?g = "takeWhile (\<lambda>c. \<not> uri_bad c) cs" and ?len = "length (uri_text cs)" and ?pos = "Suc (length pre)"
  have inv: "vstr_inv b" using prems(1) by (simp add: conv_ready_def)
  have rng: "in_range b ?pos ?len" "range_data b ?pos ?len = map Some (uri_text cs)"
    using inv prems(2) arg_cong [OF prems(2), of length] data_len [OF inv] by (simp_all add: in_range_def)
  obtain b1 where b1: "vstr_srch_chr_fwd b ?pos ?len 0x25 = (if \<forall>c \<in> set cs. \<not> uri_bad c then 0 else ?pos + length ?g, b1)"
      "same_but_cache b b1" "vstr_inv b1"
    using srch_percent [OF rng] .
  note fr = same_but_cache_frame [OF b1(2)]
  have rdy: "conv_ready n b1" by (rule ready_same [OF prems(1) b1(2,3)])
  show ?case
  proof (cases "\<forall>c \<in> set cs. \<not> uri_bad c")
    case True
    then have "decode_sects b ?pos ?len s = (Some s, b1)" using b1(1) by (subst decode_sects.simps) simp
    moreover have "enc_sects ?pos cs = []" using enc_sects_skip [OF True, of ?pos "[]"] by simp
    ultimately show ?thesis using rdy fr(7) by simp
  next
    case False
    then obtain c ds where d: "dropWhile (\<lambda>c. \<not> uri_bad c) cs = c # ds" by (metis dropWhile_eq_Nil_conv list.exhaust)
    define gs where "gs = ?g"
    have c: "uri_bad c" using d by (metis dropWhile_eq_Cons_conv)
    have cs: "cs = gs @ c # ds" using takeWhile_dropWhile_id [of "\<lambda>c. \<not> uri_bad c" cs] d by (simp add: gs_def)
    have good: "\<forall>c \<in> set gs. \<not> uri_bad c" by (auto simp: gs_def dest: set_takeWhileD)
    have tx: "uri_text cs = gs @ uri_sub c @ uri_text ds" by (subst cs) (simp add: uri_text_good [OF good] uri_enc_def c)
    have len: "?len = length gs + 3 + length (uri_text ds)" unfolding tx by (simp add: uri_sub_def)
    have dat1: "vstr_data b1 = (pre @ map Some gs) @ map Some (uri_sub c) @ (map Some (uri_text ds) @ post)"
      using prems(2) fr(7) unfolding tx by simp
    have nb: "c \<noteq> 0x0B" "0x0B \<notin> set ds" using prems(3) by (auto simp: cs)
    obtain b2 where b2: "vstr_parse_ushort b1 (?pos + length gs + 1) 2 uri_num_flags = ((of_nat (unat c), 2, NUM_ERR_NONE), b2)"
        "same_but_cache b1 b2" "vstr_inv b2"
      using parse_sub [OF b1(3) dat1 nb(1), of "?pos + length gs"] by auto
    have rdy2: "conv_ready n b2" by (rule ready_same [OF rdy b2(2,3)])
    obtain s1 h where a: "vstr_sects_add s (?pos + length gs) 3 (heap (b_conf b2)) = (True, s1, h)" "s_can_add_sz s1" "sects_ok s1"
        "s_num s1 = Suc (s_num s)" "sects_list s1 = sects_list s @ [\<lparr>sect_pos = ?pos + length gs, sect_len = 3\<rparr>]"
        "mk_fail h = mk_fail (heap (b_conf b2))" "mk_cnt (heap (b_conf b2)) \<le> mk_cnt h"
      using sects_add_succeeds [of "heap (b_conf b2)" s "?pos + length gs" 3] rdy2 prems(4-6) len
      by (auto simp: conv_ready_def mk_never_fails_def)
    note hp = ready_heap [OF rdy2 a(6,7)]
    have dat2: "vstr_data (conf_heap h b2) = (pre @ map Some (gs @ uri_sub c)) @ map Some (uri_text ds) @ post"
      using hp(2) dat1 same_but_cache_frame(7) [OF b2(2)] by simp
    have p2: "Suc (length (pre @ map Some (gs @ uri_sub c))) = ?pos + length gs + 3" by (simp add: uri_sub_def)
    have step: "decode_sects b ?pos ?len s = decode_sects (conf_heap h b2) (?pos + length gs + 3) (length (uri_text ds)) s1"
    proof -
      have "?len - (?pos + length gs - ?pos) = length (uri_text ds) + 3" using len by simp
      moreover have "vstr_srch_chr_fwd b ?pos ?len 0x25 = (?pos + length gs, b1)" using b1(1) False by (auto simp: gs_def)
      ultimately show ?thesis using b2(1) a(1) by (subst decode_sects.simps) (simp add: Let_def del: add_Suc)
    qed
    have e: "enc_sects ?pos cs = \<lparr>sect_pos = ?pos + length gs, sect_len = 3\<rparr> # enc_sects (?pos + length gs + 3) ds"
      unfolding cs enc_sects_skip [OF good] by (simp add: c)
    have "length ds < length cs" by (simp add: cs)
    note ih = IH [rule_format, OF this hp(1) dat2 nb(2) a(3,2)]
    obtain s2 b3 where "decode_sects (conf_heap h b2) (?pos + length gs + 3) (length (uri_text ds)) s1 = (Some s2, b3)" "conv_ready n b3"
        "vstr_data b3 = vstr_data (conf_heap h b2)" "sects_list s2 = sects_list s1 @ enc_sects (?pos + length gs + 3) ds"
      using ih a(4) prems(6) len unfolding p2 by auto
    then show ?thesis
      unfolding step e using a(5) hp(2) fr(7) same_but_cache_frame(7) [OF b2(2)] by simp
  qed
qed

lemma decode_loop_spec:
  assumes "conv_ready 3 b" "vstr_data b = pre @ map Some (uri_text cs) @ post" "Suc (length pre) + 2 * scan = q" "scan + length cs < 2 ^ 31"
    and "0x0B \<notin> set cs"
  shows "conv_ready 3 (decode_loop b scan (enc_sects q cs)) \<and> vstr_data (decode_loop b scan (enc_sects q cs)) = pre @ map Some cs @ post"
  using assms
proof (induction cs arbitrary: b pre q scan)
  case (Cons c cs)
  have inv: "vstr_inv b" using Cons.prems(1) by (simp add: conv_ready_def)
  show ?case
  proof (cases "uri_bad c")
    case True
    let ?p = "size_sub q ((scan * 2) mod 2 ^ 32)"
    have dat: "vstr_data b = pre @ map Some (uri_sub c) @ (map Some (uri_text cs) @ post)" using Cons.prems(2) True by (simp add: uri_enc_def [of c])
    have len: "length pre + 3 \<le> b_len b" using arg_cong [OF dat, of length] data_len [OF inv] by (simp add: uri_sub_def)
    then have "q < 2 ^ 64" using Cons.prems(1,3,4) by (simp add: conv_ready_def)
    then have p: "?p = Suc (length pre)" using Cons.prems(3,4) by (simp add: size_sub_le)
    obtain b1 where b1: "vstr_parse_ushort b (?p + 1) 2 uri_num_flags = ((of_nat (unat c), 2, NUM_ERR_NONE), b1)" "same_but_cache b b1" "vstr_inv b1"
      using parse_sub [OF inv dat _ p] Cons.prems(5) by auto
    note fr = same_but_cache_frame [OF b1(2)]
    have x: "ucast (of_nat (unat c) :: 16 word) = c" by (simp, rule bit_word_eqI) (auto simp: bit_simps)
    have rdy: "conv_ready (2 + length [c]) b1" using ready_same [OF Cons.prems(1) b1(2,3)] by simp
    obtain b2 where b2: "vstr_sub_buf b1 ?p 3 [c] = (True, b2)" "conv_ready (2 + 3) b2"
        "vstr_data b2 = take (?p - 1) (vstr_data b1) @ map Some [c] @ drop (?p - 1 + 3) (vstr_data b1)"
    proof -
      have "1 \<le> ?p" "?p + 3 \<le> Suc (b_len b1)" "length [c] \<le> 1000" unfolding p using len fr(2) by simp_all
      from sub_ready [OF rdy this] show thesis using that by blast
    qed
    have dat2: "vstr_data b2 = (pre @ [Some c]) @ map Some (uri_text cs) @ post"
      using b2(3) p fr(7) dat by (simp add: uri_sub_def)
    have rdy2: "conv_ready 3 b2" by (rule ready_mono [OF b2(2)]) simp
    have "Suc (length (pre @ [Some c])) + 2 * Suc scan = q + 3" using Cons.prems(3) by simp
    from Cons.IH [OF rdy2 dat2 this] show ?thesis
      using Cons.prems(4,5) True b1(1) b2(1) x by simp
  next
    case False
    then show ?thesis
      using Cons.IH [of b "pre @ [Some c]" scan "Suc q"] Cons.prems by (simp add: uri_enc_def)
  qed
qed simp

section \<open>The two functions\<close>

lemma sects_make_ready:
  assumes "conv_ready n b"
  obtains s h where "vstr_sects_make 8 (heap (b_conf b)) = (Some s, h)" "sects_ok s" "s_can_add_sz s" "sects_list s = []" "s_num s = 0"
    "conv_ready n (conf_heap h b)" "vstr_data (conf_heap h b) = vstr_data b" "b_len (conf_heap h b) = b_len b"
proof -
  let ?h0 = "heap (b_conf b)"
  obtain h1 where h1: "VSTR_MK ?h0 = (Some (mk_cnt ?h0), h1)" "mk_fail h1 = mk_fail ?h0" "mk_cnt ?h0 \<le> mk_cnt h1"
    using mk_some [of ?h0] assms by (auto simp: conv_ready_def mk_never_fails_def)
  obtain h2 where h2: "VSTR_MK h1 = (Some (mk_cnt h1), h2)" "mk_fail h2 = mk_fail h1" "mk_cnt h1 \<le> mk_cnt h2"
    using mk_some [of h1] assms h1(2) by (auto simp: conv_ready_def mk_never_fails_def)
  have "vstr_sects_make 8 ?h0 = (Some (SECTS_INIT 8 (replicate 8 sect_null) True), h2)" using h1(1) h2(1) by (simp add: vstr_sects_make_def)
  then show thesis
    by (rule that) (use ready_heap [OF assms, of h2] h1 h2 in \<open>simp_all add: SECTS_INIT_def sects_ok_def sects_list_def\<close>)
qed

lemma uri_reserve_ready:
  assumes "conv_ready n b"
  obtains b1 where "uri_reserve b k m = (True, b1)" "conv_ready n b1" "vstr_data b1 = vstr_data b"
proof -
  obtain c where c: "reserve_spares (b_conf b) [(NODE_BUF, k), (NODE_NON, m), (NODE_PTR, m), (NODE_REF, m)] = (True, c)"
      "conf_stays (b_conf b) c" "vstr_inv (b\<lparr>b_conf := c\<rparr>)"
    using reserve_spares_ready [of "b_conf b"] assms by (fastforce simp: conv_ready_def)
  then show thesis
    using that [of "b\<lparr>b_conf := c\<rparr>"] ready_conf [OF assms c(2,3)] by (simp add: uri_reserve_def vstr_data_def)
qed

lemma encode_uri_ready:
  assumes "conv_ready (2 * length cs + 3) b" "vstr_data b = pre @ map Some cs @ post" "length cs < 2 ^ 31"
  obtains b1 where "vstr_conv_encode_uri b (Suc (length pre)) (length cs) = (True, b1)" "conv_ready 3 b1"
    "vstr_data b1 = pre @ map Some (uri_text cs) @ post"
proof -
  let ?pos = "Suc (length pre)" and ?len = "length cs"
  obtain s h where m: "vstr_sects_make 8 (heap (b_conf b)) = (Some s, h)" "sects_ok s" "s_can_add_sz s" "sects_list s = []" "s_num s = 0"
      "conv_ready (2 * length cs + 3) (conf_heap h b)" "vstr_data (conf_heap h b) = vstr_data b" "b_len (conf_heap h b) = b_len b"
    using sects_make_ready [OF assms(1)] .
  have inv: "vstr_inv b" using assms(1) by (simp add: conv_ready_def)
  have rng: "?pos + ?len \<le> Suc (b_len b)" using arg_cong [OF assms(2), of length] data_len [OF inv] by simp
  obtain s1 b1 where e: "encode_sects (conf_heap h b) ?pos ?len s = (Some s1, b1)" "conv_ready (2 * length cs + 3) b1"
      "vstr_data b1 = vstr_data b" "sects_list s1 = bad_sects ?pos cs"
    using encode_sects_spec [OF m(6), of ?pos ?len cs s] m(2-5,7,8) rng assms(2,3) by auto
  obtain b2 where r: "uri_reserve b1 (s_num s1 * (if buf_sz (b_conf b1) \<ge> 3 then 1 else 3) + 2) (s_num s1) = (True, b2)"
      "conv_ready (2 * length cs + 3) b2" "vstr_data b2 = vstr_data b1"
    using uri_reserve_ready [OF e(2)] .
  have "vstr_conv_encode_uri b ?pos ?len = (True, encode_loop b2 0 (bad_sects ?pos cs))"
    using m(1) e(1,4) r(1) by (simp add: vstr_conv_encode_uri_def sects_list_def Let_def)
  then show thesis
    using that encode_loop_spec [OF r(2), of pre post ?pos 0] r(3) e(3) assms(2,3) by simp
qed

lemma decode_uri_ready:
  assumes "conv_ready 3 b" "vstr_data b = pre @ map Some (uri_text cs) @ post" "length cs < 2 ^ 29" "0x0B \<notin> set cs"
  obtains b1 where "vstr_conv_decode_uri b (Suc (length pre)) (length (uri_text cs)) = (True, b1)" "conv_ready 3 b1"
    "vstr_data b1 = pre @ map Some cs @ post"
proof -
  let ?pos = "Suc (length pre)" and ?len = "length (uri_text cs)"
  obtain s h where m: "vstr_sects_make 8 (heap (b_conf b)) = (Some s, h)" "sects_ok s" "s_can_add_sz s" "sects_list s = []" "s_num s = 0"
      "conv_ready 3 (conf_heap h b)" "vstr_data (conf_heap h b) = vstr_data b"
    using sects_make_ready [OF assms(1)] .
  have "?len \<le> 3 * length cs"
    by (induction cs) (auto simp: uri_enc_def uri_sub_def)
  then have "s_num s + ?len < 2 ^ 31" using assms(3) m(5) by simp
  then obtain s1 b1 where e: "decode_sects (conf_heap h b) ?pos ?len s = (Some s1, b1)" "conv_ready 3 b1"
      "vstr_data b1 = vstr_data b" "sects_list s1 = enc_sects ?pos cs"
    using decode_sects_spec [OF m(6), of pre cs post s] m(2-4,7) assms(2,4) by auto
  obtain b2 where r: "uri_reserve b1 (s_num s1 + 2) (s_num s1) = (True, b2)" "conv_ready 3 b2" "vstr_data b2 = vstr_data b1"
    using uri_reserve_ready [OF e(2)] .
  have "vstr_conv_decode_uri b ?pos ?len = (True, decode_loop b2 0 (enc_sects ?pos cs))"
    using m(1) e(1,4) r(1) by (simp add: vstr_conv_decode_uri_def sects_list_def)
  then show thesis
    using that decode_loop_spec [OF r(2), of pre cs post 0 ?pos] r(3) e(3) assms(2-4) by simp
qed

section \<open>Properties\<close>



section \<open>Where decoding goes wrong\<close>

text \<open>
  The vertical tab is encoded as \<^verbatim>\<open>%0b\<close>, and the two digits are refused as a number: \<^verbatim>\<open>0b\<close> is read as the prefix of a binary number also when
  the base is 16.
\<close>

lemma uri_vertical_tab:
  "uri_enc 0x0B = [0x25, 0x30, 0x62] \<and>
   snd (snd (fst (vstr_parse_ushort (ex_base [Node_buf 1 [0x25, 0x30, 0x62]]) 2 2 uri_num_flags))) = NUM_ERR_ONLY_SPMX"
  by code_simp

end
