(* ===== verification/Vstr_Fmt_Num.thy ===== *)
theory Vstr_Fmt_Num
  imports Vstr_Frame
begin

text \<open>
  Formatted output, the writing of one conversion (\<^verbatim>\<open>src/src/vstr_add_fmt.c\<close>): numbers with grouping, sign, prefix, precision and field
  width, characters and C strings. The bits of the member \<^verbatim>\<open>flags\<close> of \<^verbatim>\<open>struct Vstr__fmt_spec\<close> are fields of their own. The library is
  configured without \<^verbatim>\<open>USE_WIDE_CHAR_T\<close>.
\<close>

section \<open>Locales\<close>

text \<open>
  \<^verbatim>\<open>struct Vstr_locale_num_base\<close> without the decimal point. The list of the locale ends with the entry for base 0, \<open>num_def\<close>, which is always
  there; \<open>num_beg\<close> are the entries in front of it. A list of bytes stands for a C string, the end of the list for its null byte.
\<close>

record loc_num_base =
  ln_num_base :: nat
  ln_grouping :: "byte list"
  ln_thousands_sep :: "byte list"

record vstr_locale =
  num_beg :: "loc_num_base list"
  num_def :: loc_num_base
  null_ref :: "byte list"

definition vstr__loc_num_srch :: "vstr_locale \<Rightarrow> nat \<Rightarrow> loc_num_base" where
  "vstr__loc_num_srch loc num_base =
     (case find (\<lambda>n. ln_num_base n = num_base) (num_beg loc) of Some n \<Rightarrow> n | None \<Rightarrow> num_def loc)"

text \<open>The group sizes from the right; the last one is repeated, a size of \<^verbatim>\<open>SCHAR_MAX\<close> or more ends the grouping.\<close>

function grouping_loop :: "byte list \<Rightarrow> nat \<Rightarrow> nat \<Rightarrow> nat" where
  "grouping_loop grouping num tmp =
     (case grouping of [] \<Rightarrow> tmp
      | g # gs \<Rightarrow>
          if g \<noteq> 0 \<and> unat g < 127 \<and> tmp + unat g < num
          then grouping_loop (if gs \<noteq> [] \<and> hd gs \<noteq> 0 then gs else grouping) num (tmp + unat g)
          else tmp)"
  by pat_completeness auto
termination
  by (relation "measure (\<lambda>(_, num, tmp). num - tmp)") (auto simp: unat_gt_0 intro!: diff_less_mono2)

declare grouping_loop.simps [simp del]

definition vstr__add_fmt_grouping_mod :: "byte list \<Rightarrow> nat \<Rightarrow> nat" where
  "vstr__add_fmt_grouping_mod grouping num =
     (if grouping = [] \<or> hd grouping = 0 then num else num - grouping_loop grouping num 0)"

lemma grouping_loop_less: "0 < num \<Longrightarrow> tmp < num \<Longrightarrow> grouping_loop grouping num tmp < num"
  by (induction grouping num tmp rule: grouping_loop.induct) (subst grouping_loop.simps, simp split: list.split)

lemma grouping_mod_pos: "0 < num \<Longrightarrow> 0 < vstr__add_fmt_grouping_mod grouping num"
  by (simp add: vstr__add_fmt_grouping_mod_def grouping_loop_less)

lemma grouping_mod_le: "vstr__add_fmt_grouping_mod grouping num \<le> num"
  by (simp add: vstr__add_fmt_grouping_mod_def)

function grouping_sz_loop :: "byte list \<Rightarrow> nat \<Rightarrow> bool \<Rightarrow> nat \<Rightarrow> nat \<Rightarrow> nat" where
  "grouping_sz_loop grouping sep_len done len ret =
     (if len = 0 then ret
      else let num = vstr__add_fmt_grouping_mod grouping len in
           grouping_sz_loop grouping sep_len True (len - num) (ret + (if done then sep_len else 0) + num))"
  by pat_completeness auto
termination
  by (relation "measure (\<lambda>(_, _, _, len, _). len)") (auto simp: grouping_mod_pos)

declare grouping_sz_loop.simps [simp del]

definition vstr__add_fmt_grouping_num_sz :: "vstr_locale \<Rightarrow> nat \<Rightarrow> nat \<Rightarrow> nat" where
  "vstr__add_fmt_grouping_num_sz loc num_base len =
     (let srch = vstr__loc_num_srch loc num_base in
      grouping_sz_loop (ln_grouping srch) (length (ln_thousands_sep srch)) False len 0)"

section \<open>Conversions\<close>

datatype fmt_type = FMT_UCHAR | FMT_USHORT | FMT_UINT | FMT_ULONG | FMT_ULONG_LONG | FMT_SIZE_T | FMT_UINTMAX_T | FMT_PTRDIFF_T | FMT_PTR_VOID

text \<open>
  The union of \<^verbatim>\<open>struct Vstr__fmt_spec\<close>: nothing stored yet, a number or an address in the member of its type, a character, a C string (or
  the null pointer), the variable a \<^verbatim>\<open>%n\<close> stores to, a floating point number (which is not looked into).
\<close>

datatype fmt_data = Data_undef | Data_num nat | Data_chr byte | Data_str "byte list option" | Data_out nat | Data_dbl nat

record fmt_spec =
  sp_u :: fmt_data
  fmt_code :: byte
  sp_num_base :: nat
  int_type :: fmt_type
  fl_ZEROPAD :: bool
  fl_SIGN :: bool
  fl_PLUS :: bool
  fl_SPACE :: bool
  fl_LEFT :: bool
  fl_SPECIAL :: bool
  fl_LARGE :: bool
  fl_THOUSAND_SEP :: bool
  fl_ALT_DIGITS :: bool
  fl_PREC_USR :: bool
  fl_NUM_IS_ZERO :: bool
  fl_NUM_IS_NEGATIVE :: bool
  field_width :: nat
  precision :: nat
  main_param :: nat
  field_width_param :: nat
  precision_param :: nat
  field_width_usr :: bool

definition vstr__fmt_init_spec :: fmt_spec where
  "vstr__fmt_init_spec =
     \<lparr>sp_u = Data_undef, fmt_code = 0, sp_num_base = 10, int_type = FMT_UINT, fl_ZEROPAD = False, fl_SIGN = False, fl_PLUS = False,
      fl_SPACE = False, fl_LEFT = False, fl_SPECIAL = False, fl_LARGE = False, fl_THOUSAND_SEP = False, fl_ALT_DIGITS = False,
      fl_PREC_USR = False, fl_NUM_IS_ZERO = False, fl_NUM_IS_NEGATIVE = False, field_width = 0, precision = 0, main_param = 0,
      field_width_param = 0, precision_param = 0, field_width_usr = False\<rparr>"

text \<open>The position for the next text: everything behind the first position stays behind the text.\<close>

definition VSTR__FMT_ADD :: "nat \<Rightarrow> vstr_base \<Rightarrow> byte list \<Rightarrow> bool \<times> vstr_base" where
  "VSTR__FMT_ADD pos_diff base buf = vstr_add_buf base (size_sub (b_len base) pos_diff) buf"

definition VSTR__FMT_ADD_REP_CHR :: "nat \<Rightarrow> vstr_base \<Rightarrow> byte \<Rightarrow> nat \<Rightarrow> bool \<times> vstr_base" where
  "VSTR__FMT_ADD_REP_CHR pos_diff base chr len = vstr_add_rep_chr base (size_sub (b_len base) pos_diff) chr len"

text \<open>What follows a step that can fail with \<^verbatim>\<open>goto failed_alloc\<close>.\<close>

definition fmt_then :: "bool \<times> vstr_base \<Rightarrow> (vstr_base \<Rightarrow> bool \<times> vstr_base) \<Rightarrow> bool \<times> vstr_base" where
  "fmt_then r f = (case r of (ok, b) \<Rightarrow> if ok then f b else (False, b))"

function grpbasenum_loop :: "loc_num_base \<Rightarrow> vstr_base \<Rightarrow> nat \<Rightarrow> nat \<Rightarrow> byte list \<Rightarrow> bool \<Rightarrow> bool \<times> vstr_base" where
  "grpbasenum_loop srch base orig_pos pos buf done =
     (if buf = [] then (True, base)
      else
        let num = vstr__add_fmt_grouping_mod (ln_grouping srch) (length buf);
            failed = (\<lambda>b p. (False, snd (vstr_del b (orig_pos + 1) (p - orig_pos))));
            sep = ln_thousands_sep srch
        in case (if done then vstr_add_buf base pos sep else (True, base)) of
             (False, b1) \<Rightarrow> failed b1 pos
           | (True, b1) \<Rightarrow>
               let pos1 = (if done then pos + length sep else pos) in
               (case vstr_add_buf b1 pos1 (take num buf) of
                  (False, b2) \<Rightarrow> failed b2 pos1
                | (True, b2) \<Rightarrow> grpbasenum_loop srch b2 orig_pos (pos1 + num) (drop num buf) True))"
  by pat_completeness auto
termination
  by (relation "measure (\<lambda>(_, _, _, _, buf, _). length buf)") (auto simp: grouping_mod_pos)

declare grpbasenum_loop.simps [simp del]

definition vstr_sc_add_grpbasenum_buf :: "vstr_locale \<Rightarrow> vstr_base \<Rightarrow> nat \<Rightarrow> nat \<Rightarrow> byte list \<Rightarrow> bool \<times> vstr_base" where
  "vstr_sc_add_grpbasenum_buf loc base pos num_base buf =
     grpbasenum_loop (vstr__loc_num_srch loc num_base) base pos pos buf False"

section \<open>Numbers\<close>

text \<open>\<^verbatim>\<open>VSTR__ADD_FMT_NUM\<close>; the base is 8, 10 or 16.\<close>

function fmt_num_loop :: "byte list \<Rightarrow> nat \<Rightarrow> nat \<Rightarrow> byte list \<Rightarrow> byte list" where
  "fmt_num_loop chrs_base num_base num buf =
     (if num = 0 \<or> num_base < 2 then buf
      else fmt_num_loop chrs_base num_base (num div num_base) (chrs_base ! (num mod num_base) # buf))"
  by pat_completeness auto
termination
  by (relation "measure (\<lambda>(_, _, num, _). num)") auto

declare fmt_num_loop.simps [simp del]

definition chrs_base :: "bool \<Rightarrow> byte list" where
  "chrs_base large = map (\<lambda>i. of_nat (0x30 + i)) [0..<10] @ map (\<lambda>i. of_nat ((if large then 0x41 else 0x61) + i)) [0..<26]"

definition fmt_sign :: "fmt_spec \<Rightarrow> nat \<Rightarrow> byte \<times> nat" where
  "fmt_sign spec fw =
     (if fl_SIGN spec then
        (case (if fl_NUM_IS_NEGATIVE spec then (0x2D, fw)
               else if fl_PLUS spec then (0x2B, fw)
               else if fl_SPACE spec then (0x20, fw)
               else (0, (fw + 1) mod (UINT_MAX + 1))) of
           (sign, fw1) \<Rightarrow> (sign, if fw1 \<noteq> 0 then fw1 - 1 else fw1))
      else (0, fw))"

text \<open>The prefix of \<^verbatim>\<open>#\<close>: whether 0x is written, the width that is left and the precision.\<close>

definition fmt_special :: "fmt_spec \<Rightarrow> nat \<Rightarrow> nat \<Rightarrow> nat \<Rightarrow> bool \<times> nat \<times> nat" where
  "fmt_special spec real_i fw prec =
     (if fl_SPECIAL spec then
        if sp_num_base spec = 16 \<and> \<not> fl_NUM_IS_ZERO spec then
          let fw1 = (if fw \<noteq> 0 then fw - 1 else fw) in (True, if fw1 \<noteq> 0 then fw1 - 1 else fw1, prec)
        else if sp_num_base spec = 8 \<and> (fl_NUM_IS_ZERO spec \<and> prec = 0 \<or> prec \<le> real_i) then (False, fw, real_i + 1)
        else (False, fw, prec)
      else (False, fw, prec))"

text \<open>
  The local variables of \<^verbatim>\<open>vstr__add_fmt_number()\<close> when the writing begins: the flags \<^verbatim>\<open>ZEROPAD\<close> and \<^verbatim>\<open>THOUSAND_SEP\<close> as far as they
  still count, the sign, the digits, their length with the separators, whether 0x is written, the precision and the width that is left to fill.
\<close>

record num_layout =
  nl_zeropad :: bool
  nl_sep :: bool
  nl_sign :: byte
  nl_buf :: "byte list"
  nl_real_i :: nat
  nl_wr_hex_0x :: bool
  nl_precision :: nat
  nl_field_width :: nat

text \<open>The switch on \<^verbatim>\<open>int_type\<close> has no case for \<^verbatim>\<open>ptrdiff_t\<close>, which is changed to \<^verbatim>\<open>uintmax_t\<close> when the argument is taken.\<close>

definition fmt_value :: "fmt_spec \<Rightarrow> nat" where
  "fmt_value spec = (case sp_u spec of Data_num n \<Rightarrow> if int_type spec = FMT_PTRDIFF_T then 0 else n | _ \<Rightarrow> 0)"

definition fmt_layout :: "vstr_locale \<Rightarrow> fmt_spec \<Rightarrow> num_layout" where
  "fmt_layout loc spec =
     (let (sign, fw1) = fmt_sign spec (if field_width_usr spec then field_width spec else 0);
          srch = vstr__loc_num_srch loc (sp_num_base spec);
          grp_num = (case ln_grouping srch of [] \<Rightarrow> 0 | g # _ \<Rightarrow> unat g);
          thousand_sep = (fl_THOUSAND_SEP spec \<and> ln_thousands_sep srch \<noteq> [] \<and> grp_num < 127 \<and> 0 < grp_num);
          buf = fmt_num_loop (chrs_base (fl_LARGE spec)) (sp_num_base spec) (fmt_value spec) [];
          real_i = (if thousand_sep then vstr__add_fmt_grouping_num_sz loc (sp_num_base spec) (length buf) else length buf);
          (wr_hex_0x, fw2, prec) = fmt_special spec real_i fw1 (if fl_PREC_USR spec then precision spec else 1);
          max_p_i = (if real_i > prec then real_i else prec)
      in \<lparr>nl_zeropad = fl_ZEROPAD spec \<and> \<not> fl_PREC_USR spec \<and> \<not> fl_LEFT spec, nl_sep = thousand_sep, nl_sign = sign, nl_buf = buf,
          nl_real_i = real_i, nl_wr_hex_0x = wr_hex_0x, nl_precision = prec, nl_field_width = (if fw2 < max_p_i then 0 else fw2 - max_p_i)\<rparr>)"

definition vstr__add_fmt_number :: "vstr_locale \<Rightarrow> nat \<Rightarrow> fmt_spec \<Rightarrow> vstr_base \<Rightarrow> bool \<times> vstr_base" where
  "vstr__add_fmt_number loc pos_diff spec base =
     (let l = fmt_layout loc spec;
          fw = nl_field_width l;
          spaces = (\<not> nl_zeropad l \<and> \<not> fl_LEFT spec);
          rep = VSTR__FMT_ADD_REP_CHR pos_diff
      in fmt_then (if spaces \<and> fw > 0 then rep base 0x20 fw else (True, base)) (\<lambda>b1.
         fmt_then (if nl_sign l \<noteq> 0 then rep b1 (nl_sign l) 1 else (True, b1)) (\<lambda>b2.
         fmt_then (if nl_wr_hex_0x l then rep b2 0x30 1 else (True, b2)) (\<lambda>b3.
         fmt_then (if nl_wr_hex_0x l then rep b3 (chrs_base (fl_LARGE spec) ! 33) 1 else (True, b3)) (\<lambda>b4.
         fmt_then (if \<not> fl_LEFT spec \<and> \<not> spaces \<and> fw > 0 then rep b4 0x30 fw else (True, b4)) (\<lambda>b5.
         fmt_then (if nl_precision l > nl_real_i l then rep b5 0x30 (nl_precision l - nl_real_i l) else (True, b5)) (\<lambda>b6.
         fmt_then (if nl_buf l \<noteq> [] then
                     if nl_sep l then vstr_sc_add_grpbasenum_buf loc b6 (size_sub (b_len b6) pos_diff) (sp_num_base spec) (nl_buf l)
                     else VSTR__FMT_ADD pos_diff b6 (nl_buf l)
                   else (True, b6)) (\<lambda>b7.
         if fl_LEFT spec \<and> fw > 0 then rep b7 0x20 fw else (True, b7)))))))))"

section \<open>Characters and strings\<close>

definition vstr__add_fmt_char :: "nat \<Rightarrow> fmt_spec \<Rightarrow> vstr_base \<Rightarrow> bool \<times> vstr_base" where
  "vstr__add_fmt_char pos_diff spec base =
     (let fw = field_width spec - 1;
          in_front = (field_width_usr spec \<and> \<not> fl_LEFT spec \<and> fw > 0);
          rep = VSTR__FMT_ADD_REP_CHR pos_diff
      in fmt_then (if in_front then rep base 0x20 fw else (True, base)) (\<lambda>b1.
         fmt_then (rep b1 (case sp_u spec of Data_chr c \<Rightarrow> c | _ \<Rightarrow> 0) 1) (\<lambda>b2.
         if field_width_usr spec \<and> \<not> in_front \<and> fw > 0 then rep b2 0x20 fw else (True, b2))))"

definition strnlen :: "byte list \<Rightarrow> nat \<Rightarrow> nat" where
  "strnlen s n = length (takeWhile (\<lambda>c. c \<noteq> 0) (take n s))"

definition strlen :: "byte list \<Rightarrow> nat" where
  "strlen s = length (takeWhile (\<lambda>c. c \<noteq> 0) s)"

definition vstr__add_fmt_cstr :: "vstr_locale \<Rightarrow> nat \<Rightarrow> fmt_spec \<Rightarrow> vstr_base \<Rightarrow> bool \<times> vstr_base" where
  "vstr__add_fmt_cstr loc pos_diff spec base =
     (let (str, len) = (case sp_u spec of
            Data_str (Some s) \<Rightarrow> (s, if fl_PREC_USR spec then strnlen s (precision spec) else strlen s)
          | _ \<Rightarrow> (null_ref loc, if fl_PREC_USR spec \<and> length (null_ref loc) > precision spec then precision spec else length (null_ref loc)));
          fw = (if fl_PREC_USR spec \<and> field_width_usr spec \<and> field_width spec > precision spec then precision spec else field_width spec);
          in_front = (field_width_usr spec \<and> \<not> fl_LEFT spec \<and> fw > len);
          rep = VSTR__FMT_ADD_REP_CHR pos_diff
      in fmt_then (if in_front then rep base 0x20 (fw - len) else (True, base)) (\<lambda>b1.
         fmt_then (VSTR__FMT_ADD pos_diff b1 (take len str)) (\<lambda>b2.
         if field_width_usr spec \<and> \<not> in_front \<and> fw > len then rep b2 0x20 (fw - len) else (True, b2))))"

text \<open>Wide characters and strings, which this configuration does not have; a null pointer is written as for \<^verbatim>\<open>%s\<close>.\<close>

definition vstr__add_fmt_wide_char :: "vstr_base \<Rightarrow> bool \<times> vstr_base" where
  "vstr__add_fmt_wide_char base = (False, base)"

definition vstr__add_fmt_wide_cstr :: "vstr_locale \<Rightarrow> nat \<Rightarrow> fmt_spec \<Rightarrow> vstr_base \<Rightarrow> bool \<times> vstr_base" where
  "vstr__add_fmt_wide_cstr loc pos_diff spec base =
     (if sp_u spec = Data_str None then vstr__add_fmt_cstr loc pos_diff spec base else (False, base))"

section \<open>Writers\<close>

text \<open>
  A string to which \<open>n\<close> more bytes can be added in front of its last \<open>pos_diff\<close> ones, and a step that adds a text there.
\<close>

definition fmt_ready :: "nat \<Rightarrow> nat \<Rightarrow> vstr_base \<Rightarrow> bool" where
  "fmt_ready pos_diff n b \<longleftrightarrow> vstr_inv b \<and> mk_never_fails (b_conf b) \<and> pos_diff \<le> b_len b \<and> b_len b + n < 2 ^ 63"

definition writes :: "nat \<Rightarrow> byte list \<Rightarrow> (vstr_base \<Rightarrow> bool \<times> vstr_base) \<Rightarrow> bool" where
  "writes pos_diff txt f \<longleftrightarrow>
     (\<forall>n b. fmt_ready pos_diff (length txt + n) b \<longrightarrow>
        (\<exists>b1. f b = (True, b1) \<and> fmt_ready pos_diff n b1 \<and> b_len b1 = b_len b + length txt \<and> stays b b1 \<and>
           vstr_data b1 = ins_at (b_len b - pos_diff) (map Some txt) (vstr_data b)))"

lemma writesI:
  assumes "\<And>n b. fmt_ready pos_diff (length txt + n) b \<Longrightarrow>
    \<exists>b1. f b = (True, b1) \<and> vstr_inv b1 \<and> stays b b1 \<and> vstr_data b1 = ins_at (b_len b - pos_diff) (map Some txt) (vstr_data b)"
  shows "writes pos_diff txt f"
  unfolding writes_def
proof (intro allI impI)
  fix n b
  assume rdy: "fmt_ready pos_diff (length txt + n) b"
  obtain b1 where b1: "f b = (True, b1)" "vstr_inv b1" "stays b b1" "vstr_data b1 = ins_at (b_len b - pos_diff) (map Some txt) (vstr_data b)"
    using assms [OF rdy] by blast
  have len: "b_len b1 = b_len b + length txt"
    using arg_cong [OF b1(4), of length] data_len b1(2) rdy by (simp add: fmt_ready_def)
  have "mk_never_fails (b_conf b1)" using rdy b1(3) stays_mk by (simp add: fmt_ready_def)
  then have "fmt_ready pos_diff n b1" using rdy b1(2) len by (simp add: fmt_ready_def)
  then show "\<exists>b1. f b = (True, b1) \<and> fmt_ready pos_diff n b1 \<and> b_len b1 = b_len b + length txt \<and> stays b b1 \<and>
      vstr_data b1 = ins_at (b_len b - pos_diff) (map Some txt) (vstr_data b)"
    using b1 len by blast
qed

lemma writes_none: "writes pos_diff [] (Pair True)"
  by (rule writesI) (auto simp: fmt_ready_def)

lemma ins_at_twice: "p \<le> length ys \<Longrightarrow> ins_at (p + length xs) zs (ins_at p xs ys) = ins_at p (xs @ zs) ys"
  by (simp add: ins_at_def)

lemma writes_then:
  assumes f: "writes pos_diff t1 f" and g: "writes pos_diff t2 g" and t: "txt = t1 @ t2"
  shows "writes pos_diff txt (\<lambda>b. fmt_then (f b) g)"
proof (rule writesI)
  fix n b
  assume rdy: "fmt_ready pos_diff (length txt + n) b"
  then have "fmt_ready pos_diff (length t1 + (length t2 + n)) b" by (simp add: t add.assoc)
  then obtain b1 where b1: "f b = (True, b1)" "fmt_ready pos_diff (length t2 + n) b1" "b_len b1 = b_len b + length t1" "stays b b1"
      "vstr_data b1 = ins_at (b_len b - pos_diff) (map Some t1) (vstr_data b)"
    using f unfolding writes_def by blast
  obtain b2 where b2: "g b1 = (True, b2)" "fmt_ready pos_diff n b2" "stays b1 b2"
      "vstr_data b2 = ins_at (b_len b1 - pos_diff) (map Some t2) (vstr_data b1)"
    using g b1(2) unfolding writes_def by blast
  have "b_len b1 - pos_diff = b_len b - pos_diff + length (map Some t1)" using b1(3) rdy by (simp add: fmt_ready_def)
  then have "vstr_data b2 = ins_at (b_len b - pos_diff) (map Some txt) (vstr_data b)"
    using b2(4) b1(5) ins_at_twice [of "b_len b - pos_diff" "vstr_data b" "map Some t1" "map Some t2"] data_len [of b] rdy
    by (simp add: t fmt_ready_def)
  then show "\<exists>b1. fmt_then (f b) g = (True, b1) \<and> vstr_inv b1 \<and> stays b b1 \<and>
      vstr_data b1 = ins_at (b_len b - pos_diff) (map Some txt) (vstr_data b)"
    using b1(1,4) b2(1,2,3) stays_trans by (auto simp: fmt_then_def fmt_ready_def)
qed

lemma writes_if:
  assumes "c \<Longrightarrow> writes pos_diff t f"
  shows "writes pos_diff (if c then t else []) (\<lambda>b. if c then f b else (True, b))"
  using assms writes_none by auto

lemma add_rep_chr_stays: "vstr_add_rep_chr b pos c k = (r, b') \<Longrightarrow> stays b b'"
  by (auto simp: vstr_add_rep_chr_def vstr_extern_inline_add_rep_chr_def add_fast_def Let_def split: if_splits intro: add_stays)

lemma add_rep_chr_succeeds:
  "mk_never_fails (b_conf base) \<Longrightarrow> pos \<le> b_len base \<Longrightarrow> fst (vstr_add_rep_chr base pos chr len)"
  by (simp add: vstr_add_rep_chr_def vstr_extern_inline_add_rep_chr_def add_succeeds)

lemma writes_rep:
  assumes "k \<le> UINT_MAX"
  shows "writes pos_diff (replicate k c) (\<lambda>b. VSTR__FMT_ADD_REP_CHR pos_diff b c k)"
proof (rule writesI)
  fix n b
  assume rdy: "fmt_ready pos_diff (length (replicate k c) + n) b"
  let ?p = "b_len b - pos_diff"
  have p: "size_sub (b_len b) pos_diff = ?p" using rdy by (intro size_sub_le) (auto simp: fmt_ready_def)
  obtain r b1 where b1: "vstr_add_rep_chr b ?p c k = (r, b1)" by fastforce
  have "r" using add_rep_chr_succeeds [of b ?p c k] rdy b1 by (simp add: fmt_ready_def)
  then show "\<exists>b1. VSTR__FMT_ADD_REP_CHR pos_diff b c k = (True, b1) \<and> vstr_inv b1 \<and> stays b b1 \<and>
      vstr_data b1 = ins_at ?p (map Some (replicate k c)) (vstr_data b)"
    using add_rep_chr_result [of b ?p k c] rdy assms b1 add_rep_chr_stays [OF b1] p
    by (auto simp: add_result_def VSTR__FMT_ADD_REP_CHR_def fmt_ready_def)
qed

lemma writes_buf:
  assumes "length buf \<le> UINT_MAX"
  shows "writes pos_diff buf (\<lambda>b. VSTR__FMT_ADD pos_diff b buf)"
proof (rule writesI)
  fix n b
  assume rdy: "fmt_ready pos_diff (length buf + n) b"
  let ?p = "b_len b - pos_diff"
  have p: "size_sub (b_len b) pos_diff = ?p" using rdy by (intro size_sub_le) (auto simp: fmt_ready_def)
  obtain r b1 where b1: "vstr_add_buf b ?p buf = (r, b1)" by fastforce
  have "r" using add_buf_succeeds [of b ?p buf] rdy b1 by (simp add: fmt_ready_def)
  then show "\<exists>b1. VSTR__FMT_ADD pos_diff b buf = (True, b1) \<and> vstr_inv b1 \<and> stays b b1 \<and>
      vstr_data b1 = ins_at ?p (map Some buf) (vstr_data b)"
    using add_buf_result [of b ?p buf] rdy assms b1 add_buf_stays [OF b1] p
    by (auto simp: add_result_def VSTR__FMT_ADD_def fmt_ready_def)
qed

section \<open>Grouped digits\<close>

function grouped :: "loc_num_base \<Rightarrow> bool \<Rightarrow> byte list \<Rightarrow> byte list" where
  "grouped srch done buf =
     (if buf = [] then []
      else let num = vstr__add_fmt_grouping_mod (ln_grouping srch) (length buf) in
           (if done then ln_thousands_sep srch else []) @ take num buf @ grouped srch True (drop num buf))"
  by pat_completeness auto
termination
  by (relation "measure (\<lambda>(_, _, buf). length buf)") (auto simp: grouping_mod_pos)

declare grouped.simps [simp del]

lemma grouping_sz:
  "grouping_sz_loop (ln_grouping srch) (length (ln_thousands_sep srch)) done (length buf) ret = ret + length (grouped srch done buf)"
proof (induction srch "done" buf arbitrary: ret rule: grouped.induct)
  case (1 srch "done" buf)
  show ?case
  proof (cases "buf = []")
    case False
    then show ?thesis
      using 1 [OF False refl] grouping_mod_le [of "ln_grouping srch" "length buf"]
      by (subst grouping_sz_loop.simps, subst grouped.simps) (simp add: Let_def)
  qed (simp add: grouping_sz_loop.simps grouped.simps)
qed

lemma writes_add_at:
  assumes "fmt_ready pos_diff (length buf + n) b" "length buf \<le> UINT_MAX" "pos = b_len b - pos_diff"
  obtains b1 where "vstr_add_buf b pos buf = (True, b1)" "fmt_ready pos_diff n b1" "b_len b1 = b_len b + length buf" "stays b b1"
    "vstr_data b1 = ins_at pos (map Some buf) (vstr_data b)"
proof -
  have "size_sub (b_len b) pos_diff = pos" using assms(1,3) size_sub_le [of pos_diff "b_len b"] by (simp add: fmt_ready_def)
  then show thesis
    using writes_buf [OF assms(2), of pos_diff] assms that unfolding writes_def VSTR__FMT_ADD_def by metis
qed

lemma grpbasenum_loop_writes:
  assumes "length (ln_thousands_sep srch) \<le> UINT_MAX" "length buf \<le> UINT_MAX"
    "fmt_ready pos_diff (length (grouped srch done buf) + n) b" "pos = b_len b - pos_diff"
  shows "\<exists>b1. grpbasenum_loop srch b orig pos buf done = (True, b1) \<and> vstr_inv b1 \<and> stays b b1 \<and>
    vstr_data b1 = ins_at pos (map Some (grouped srch done buf)) (vstr_data b)"
  using assms
proof (induction srch "done" buf arbitrary: b pos rule: grouped.induct)
  case (1 srch "done" buf)
  show ?case
  proof (cases "buf = []")
    case True
    then show ?thesis using 1(4) by (simp add: grpbasenum_loop.simps grouped.simps fmt_ready_def)
  next
    case False
    let ?num = "vstr__add_fmt_grouping_mod (ln_grouping srch) (length buf)"
    let ?sep = "if done then ln_thousands_sep srch else []"
    let ?rest = "grouped srch True (drop ?num buf)"
    have g: "grouped srch done buf = ?sep @ take ?num buf @ ?rest" using False by (subst grouped.simps) (simp add: Let_def)
    have r1: "fmt_ready pos_diff (length ?sep + (length (take ?num buf) + (length ?rest + n))) b"
      using 1(4) unfolding g by (simp only: length_append add.assoc)
    obtain b1 where b1: "(if done then vstr_add_buf b pos (ln_thousands_sep srch) else (True, b)) = (True, b1)"
        "fmt_ready pos_diff (length (take ?num buf) + (length ?rest + n)) b1" "b_len b1 = b_len b + length ?sep" "stays b b1"
        "vstr_data b1 = ins_at pos (map Some ?sep) (vstr_data b)"
    proof (cases "done")
      case True
      then show thesis using writes_add_at [of pos_diff ?sep _ b pos] r1 1(2,5) that by auto
    next
      case False
      then show thesis using r1 that by simp
    qed
    let ?pos1 = "if done then pos + length (ln_thousands_sep srch) else pos"
    have p1: "?pos1 = b_len b1 - pos_diff" using 1(5) b1(3) r1 by (auto simp: fmt_ready_def)
    have tk: "length (take ?num buf) \<le> UINT_MAX" using 1(3) by simp
    obtain b2 where b2: "vstr_add_buf b1 ?pos1 (take ?num buf) = (True, b2)" "fmt_ready pos_diff (length ?rest + n) b2"
        "b_len b2 = b_len b1 + length (take ?num buf)" "stays b1 b2" "vstr_data b2 = ins_at ?pos1 (map Some (take ?num buf)) (vstr_data b1)"
      by (rule writes_add_at [OF b1(2) tk p1])
    have num: "length (take ?num buf) = ?num" using grouping_mod_le [of "ln_grouping srch" "length buf"] by simp
    have p2: "?pos1 + ?num = b_len b2 - pos_diff" using p1 b2(3) b1(2) num by (simp add: fmt_ready_def)
    have dr: "length (drop ?num buf) \<le> UINT_MAX" using 1(3) by simp
    obtain b3 where b3: "grpbasenum_loop srch b2 orig (?pos1 + ?num) (drop ?num buf) True = (True, b3)" "vstr_inv b3" "stays b2 b3"
        "vstr_data b3 = ins_at (?pos1 + ?num) (map Some ?rest) (vstr_data b2)"
      using 1(1) [OF False refl 1(2) dr b2(2) p2] by blast
    have len: "pos \<le> length (vstr_data b)" "?pos1 \<le> length (vstr_data b1)"
      using 1(4,5) b1(2) p1 data_len [of b] data_len [of b1] by (simp_all add: fmt_ready_def)
    have "?pos1 = pos + length (map Some ?sep)" by simp
    then have "vstr_data b3 = ins_at pos (map Some (grouped srch done buf)) (vstr_data b)"
      using b3(4) b2(5) b1(5) ins_at_twice [OF len(2), of "map Some (take ?num buf)" "map Some ?rest"]
        ins_at_twice [OF len(1), of "map Some ?sep" "map Some (take ?num buf @ ?rest)"] num unfolding g by simp
    moreover have "grpbasenum_loop srch b orig pos buf done = (True, b3)"
      using False b1(1) b2(1) b3(1) by (subst grpbasenum_loop.simps) (simp add: Let_def)
    ultimately show ?thesis using b3(2,3) b1(4) b2(4) stays_trans by blast
  qed
qed

lemma writes_grouped:
  assumes "length (ln_thousands_sep (vstr__loc_num_srch loc nb)) \<le> UINT_MAX" "length buf \<le> UINT_MAX"
  shows "writes pos_diff (grouped (vstr__loc_num_srch loc nb) False buf)
    (\<lambda>b. vstr_sc_add_grpbasenum_buf loc b (size_sub (b_len b) pos_diff) nb buf)"
proof (rule writesI)
  fix n b
  assume rdy: "fmt_ready pos_diff (length (grouped (vstr__loc_num_srch loc nb) False buf) + n) b"
  have p: "size_sub (b_len b) pos_diff = b_len b - pos_diff" using rdy by (intro size_sub_le) (auto simp: fmt_ready_def)
  show "\<exists>b1. vstr_sc_add_grpbasenum_buf loc b (size_sub (b_len b) pos_diff) nb buf = (True, b1) \<and> vstr_inv b1 \<and> stays b b1 \<and>
      vstr_data b1 = ins_at (b_len b - pos_diff) (map Some (grouped (vstr__loc_num_srch loc nb) False buf)) (vstr_data b)"
    using grpbasenum_loop_writes [OF assms rdy refl] unfolding vstr_sc_add_grpbasenum_buf_def p by blast
qed

section \<open>The text of a number\<close>

text \<open>
  What C99 says of the integer conversions: the digits, with the grouping of the locale, filled up with zeros to the precision (1 if there
  is none); one more 0 in front for \<^verbatim>\<open>#\<close> in base 8 if there is no 0 yet; the sign and the prefix 0x in front; and, up to the field width,
  spaces on the right, zeros behind the prefix or spaces on the left.
\<close>

function digits_of :: "byte list \<Rightarrow> nat \<Rightarrow> nat \<Rightarrow> byte list" where
  "digits_of chrs nb n = (if n = 0 \<or> nb < 2 then [] else digits_of chrs nb (n div nb) @ [chrs ! (n mod nb)])"
  by pat_completeness auto
termination
  by (relation "measure (\<lambda>(_, _, n). n)") auto

declare digits_of.simps [simp del]

lemma fmt_num_loop_digits: "fmt_num_loop chrs nb n buf = digits_of chrs nb n @ buf"
proof (induction chrs nb n arbitrary: buf rule: digits_of.induct)
  case (1 chrs nb n)
  then show ?case by (subst fmt_num_loop.simps, subst digits_of.simps) simp
qed

definition fmt_uses_sep :: "vstr_locale \<Rightarrow> fmt_spec \<Rightarrow> bool" where
  "fmt_uses_sep loc spec \<longleftrightarrow>
     (let srch = vstr__loc_num_srch loc (sp_num_base spec) in
      fl_THOUSAND_SEP spec \<and> ln_thousands_sep srch \<noteq> [] \<and> ln_grouping srch \<noteq> [] \<and> 0 < unat (hd (ln_grouping srch)) \<and> unat (hd (ln_grouping srch)) < 127)"

definition fmt_body :: "vstr_locale \<Rightarrow> fmt_spec \<Rightarrow> byte list" where
  "fmt_body loc spec =
     (let ds = digits_of (chrs_base (fl_LARGE spec)) (sp_num_base spec) (fmt_value spec) in
      if fmt_uses_sep loc spec then grouped (vstr__loc_num_srch loc (sp_num_base spec)) False ds else ds)"

definition fmt_core :: "vstr_locale \<Rightarrow> fmt_spec \<Rightarrow> byte list" where
  "fmt_core loc spec =
     (let body = fmt_body loc spec;
          prec = (if fl_PREC_USR spec then precision spec else 1);
          core = replicate (prec - length body) 0x30 @ body
      in if fl_SPECIAL spec \<and> sp_num_base spec = 8 \<and> prec \<le> length body then 0x30 # core else core)"

definition fmt_prefix :: "fmt_spec \<Rightarrow> byte list" where
  "fmt_prefix spec =
     (if \<not> fl_SIGN spec then [] else if fl_NUM_IS_NEGATIVE spec then [0x2D]
      else if fl_PLUS spec then [0x2B] else if fl_SPACE spec then [0x20] else []) @
     (if fl_SPECIAL spec \<and> sp_num_base spec = 16 \<and> \<not> fl_NUM_IS_ZERO spec then [0x30, if fl_LARGE spec then 0x58 else 0x78] else [])"

definition fmt_number_text :: "vstr_locale \<Rightarrow> fmt_spec \<Rightarrow> byte list" where
  "fmt_number_text loc spec =
     (let prefix = fmt_prefix spec; core = fmt_core loc spec;
          pad = (if field_width_usr spec then field_width spec else 0) - (length prefix + length core)
      in if fl_LEFT spec then prefix @ core @ replicate pad 0x20
         else if fl_ZEROPAD spec \<and> \<not> fl_PREC_USR spec then prefix @ replicate pad 0x30 @ core
         else replicate pad 0x20 @ prefix @ core)"

text \<open>A specification as the code makes it: a number with its base and its flag for zero, widths that fit an \<^verbatim>\<open>int\<close>.\<close>

definition num_spec_ok :: "vstr_locale \<Rightarrow> fmt_spec \<Rightarrow> bool" where
  "num_spec_ok loc spec \<longleftrightarrow>
     (\<exists>n. sp_u spec = Data_num n \<and> (fl_NUM_IS_ZERO spec \<longrightarrow> n = 0)) \<and> sp_num_base spec \<in> {8, 10, 16} \<and>
     field_width spec < 2 ^ 31 \<and> precision spec < 2 ^ 31 \<and> length (fmt_body loc spec) < 2 ^ 31 \<and>
     (fmt_uses_sep loc spec \<longrightarrow> length (ln_thousands_sep (vstr__loc_num_srch loc (sp_num_base spec))) \<le> UINT_MAX)"

lemma fmt_sign_eq:
  assumes "field_width spec < 2 ^ 31"
  shows "fmt_sign spec (if field_width_usr spec then field_width spec else 0) =
    (if fl_SIGN spec \<and> fl_NUM_IS_NEGATIVE spec then 0x2D else if fl_SIGN spec \<and> fl_PLUS spec then 0x2B
      else if fl_SIGN spec \<and> fl_SPACE spec then 0x20 else 0,
     (if field_width_usr spec then field_width spec else 0) -
       (if fl_SIGN spec \<and> (fl_NUM_IS_NEGATIVE spec \<or> fl_PLUS spec \<or> fl_SPACE spec) then 1 else 0))"
  using assms by (auto simp: fmt_sign_def UINT_MAX_def)

lemma chrs_base_x: "chrs_base large ! 33 = (if large then 0x58 else 0x78)"
  by (simp add: chrs_base_def nth_append)

lemma grouped_length_le: "length buf \<le> length (grouped srch done buf)"
proof (induction srch "done" buf rule: grouped.induct)
  case (1 srch "done" buf)
  show ?case
  proof (cases "buf = []")
    case False
    then show ?thesis using 1 [OF False refl] by (subst grouped.simps) (simp add: Let_def)
  qed simp
qed

lemma fmt_layout_body:
  assumes "num_spec_ok loc spec"
  shows "nl_sep (fmt_layout loc spec) = fmt_uses_sep loc spec" "nl_real_i (fmt_layout loc spec) = length (fmt_body loc spec)"
    "(if nl_sep (fmt_layout loc spec) then grouped (vstr__loc_num_srch loc (sp_num_base spec)) False (nl_buf (fmt_layout loc spec))
      else nl_buf (fmt_layout loc spec)) = fmt_body loc spec" "length (nl_buf (fmt_layout loc spec)) \<le> UINT_MAX"
proof -
  let ?l = "fmt_layout loc spec" and ?srch = "vstr__loc_num_srch loc (sp_num_base spec)"
  show sep: "nl_sep ?l = fmt_uses_sep loc spec"
    by (cases "ln_grouping ?srch") (auto simp: fmt_layout_def fmt_uses_sep_def Let_def case_prod_beta)
  have buf: "nl_buf ?l = digits_of (chrs_base (fl_LARGE spec)) (sp_num_base spec) (fmt_value spec)"
    by (simp add: fmt_layout_def Let_def fmt_num_loop_digits case_prod_beta)
  show body: "(if nl_sep ?l then grouped ?srch False (nl_buf ?l) else nl_buf ?l) = fmt_body loc spec"
    unfolding sep by (simp add: fmt_body_def Let_def buf)
  have "nl_real_i ?l = (if nl_sep ?l then vstr__add_fmt_grouping_num_sz loc (sp_num_base spec) (length (nl_buf ?l)) else length (nl_buf ?l))"
    by (simp add: fmt_layout_def Let_def case_prod_beta)
  then show "nl_real_i ?l = length (fmt_body loc spec)"
    using grouping_sz [of ?srch False "nl_buf ?l" 0] body by (auto simp: vstr__add_fmt_grouping_num_sz_def Let_def split: if_splits)
  have "length (nl_buf ?l) \<le> length (fmt_body loc spec)" using grouped_length_le [of "nl_buf ?l" ?srch False] body by (auto split: if_splits)
  then show "length (nl_buf ?l) \<le> UINT_MAX" using assms by (simp add: num_spec_ok_def UINT_MAX_def)
qed

lemma writes_put:
  assumes ok: "num_spec_ok loc spec" and l: "l = fmt_layout loc spec" "nl_precision l \<le> UINT_MAX" "nl_field_width l \<le> UINT_MAX"
  shows "writes pos_diff
    ((if \<not> nl_zeropad l \<and> \<not> fl_LEFT spec \<and> nl_field_width l > 0 then replicate (nl_field_width l) 0x20 else []) @
     (if nl_sign l \<noteq> 0 then replicate 1 (nl_sign l) else []) @
     (if nl_wr_hex_0x l then replicate 1 0x30 else []) @ (if nl_wr_hex_0x l then replicate 1 (chrs_base (fl_LARGE spec) ! 33) else []) @
     (if \<not> fl_LEFT spec \<and> \<not> (\<not> nl_zeropad l \<and> \<not> fl_LEFT spec) \<and> nl_field_width l > 0 then replicate (nl_field_width l) 0x30 else []) @
     (if nl_precision l > nl_real_i l then replicate (nl_precision l - nl_real_i l) 0x30 else []) @
     (if nl_buf l \<noteq> [] then fmt_body loc spec else []) @
     (if fl_LEFT spec \<and> nl_field_width l > 0 then replicate (nl_field_width l) 0x20 else []))
    (vstr__add_fmt_number loc pos_diff spec)"
proof -
  have b: "writes pos_diff (fmt_body loc spec) (\<lambda>b. if nl_sep l then vstr_sc_add_grpbasenum_buf loc b (size_sub (b_len b) pos_diff) (sp_num_base spec) (nl_buf l)
      else VSTR__FMT_ADD pos_diff b (nl_buf l))"
    using fmt_layout_body(1,3,4) [OF ok] writes_grouped [of loc "sp_num_base spec" "nl_buf l" pos_diff] writes_buf [of "nl_buf l" pos_diff] ok
    by (cases "nl_sep l") (auto simp: l(1) num_spec_ok_def)
  have one: "(1::nat) \<le> UINT_MAX" by (simp add: UINT_MAX_def)
  have p: "nl_precision l - k \<le> UINT_MAX" for k using l(2) by simp
  show ?thesis
    unfolding vstr__add_fmt_number_def [abs_def] Let_def conj_assoc l(1) [symmetric]
    by (intro writes_then [OF _ _ refl] writes_if writes_rep b one p l(3))
qed

lemma fmt_layout_vals:
  assumes ok: "num_spec_ok loc spec"
  shows "nl_zeropad (fmt_layout loc spec) = (fl_ZEROPAD spec \<and> \<not> fl_PREC_USR spec \<and> \<not> fl_LEFT spec)"
    "(if nl_sign (fmt_layout loc spec) \<noteq> 0 then replicate 1 (nl_sign (fmt_layout loc spec)) else []) @
      (if nl_wr_hex_0x (fmt_layout loc spec) then replicate 1 0x30 else []) @
      (if nl_wr_hex_0x (fmt_layout loc spec) then replicate 1 (chrs_base (fl_LARGE spec) ! 33) else []) = fmt_prefix spec"
    "nl_precision (fmt_layout loc spec) \<le> UINT_MAX"
    "replicate (nl_precision (fmt_layout loc spec) - nl_real_i (fmt_layout loc spec)) 0x30 @ fmt_body loc spec = fmt_core loc spec"
    "nl_field_width (fmt_layout loc spec) =
      (if field_width_usr spec then field_width spec else 0) - (length (fmt_prefix spec) + length (fmt_core loc spec))"
proof -
  let ?l = "fmt_layout loc spec" and ?n = "length (fmt_body loc spec)"
  have fw: "field_width spec < 2 ^ 31" "precision spec < 2 ^ 31" "?n < 2 ^ 31" using ok by (auto simp: num_spec_ok_def)
  obtain sign fw1 where sg: "fmt_sign spec (if field_width_usr spec then field_width spec else 0) = (sign, fw1)" by fastforce
  obtain hx fw2 prec where sp: "fmt_special spec ?n fw1 (if fl_PREC_USR spec then precision spec else 1) = (hx, fw2, prec)"
    using prod_cases3 by blast
  have real: "(let srch = vstr__loc_num_srch loc (sp_num_base spec); grp_num = (case ln_grouping srch of [] \<Rightarrow> 0 | g # _ \<Rightarrow> unat g);
      buf = fmt_num_loop (chrs_base (fl_LARGE spec)) (sp_num_base spec) (fmt_value spec) [] in
      if fl_THOUSAND_SEP spec \<and> ln_thousands_sep srch \<noteq> [] \<and> grp_num < 127 \<and> 0 < grp_num
      then vstr__add_fmt_grouping_num_sz loc (sp_num_base spec) (length buf) else length buf) = ?n"
    using fmt_layout_body(2) [OF ok] by (simp add: fmt_layout_def Let_def case_prod_beta)
  have l: "nl_sign ?l = sign" "nl_wr_hex_0x ?l = hx" "nl_precision ?l = prec" "nl_field_width ?l = fw2 - max ?n prec" "nl_real_i ?l = ?n"
    using real sg sp by (simp_all add: fmt_layout_def Let_def max_def)
  show "nl_zeropad ?l = (fl_ZEROPAD spec \<and> \<not> fl_PREC_USR spec \<and> \<not> fl_LEFT spec)"
    by (simp add: fmt_layout_def Let_def case_prod_beta)
  have hx: "hx = (fl_SPECIAL spec \<and> sp_num_base spec = 16 \<and> \<not> fl_NUM_IS_ZERO spec)" "fw2 = fw1 - (if hx then 2 else 0)"
    using sp by (auto simp: fmt_special_def Let_def split: if_splits)
  have prec: "prec = (if fl_SPECIAL spec \<and> sp_num_base spec = 8 \<and> (if fl_PREC_USR spec then precision spec else 1) \<le> ?n then ?n + 1
      else if fl_PREC_USR spec then precision spec else 1)"
    using sp by (auto simp: fmt_special_def Let_def split: if_splits)
  note sgn = trans [OF sg [symmetric] fmt_sign_eq [OF fw(1)], unfolded prod.inject]
  show pre: "(if nl_sign ?l \<noteq> 0 then replicate 1 (nl_sign ?l) else []) @ (if nl_wr_hex_0x ?l then replicate 1 0x30 else []) @
      (if nl_wr_hex_0x ?l then replicate 1 (chrs_base (fl_LARGE spec) ! 33) else []) = fmt_prefix spec"
    unfolding l hx conjunct1 [OF sgn] by (auto simp: fmt_prefix_def chrs_base_x)
  show "nl_precision ?l \<le> UINT_MAX" unfolding l prec using fw by (simp add: UINT_MAX_def)
  show core: "replicate (nl_precision ?l - nl_real_i ?l) 0x30 @ fmt_body loc spec = fmt_core loc spec"
    unfolding l prec by (auto simp: fmt_core_def Let_def)
  have lc: "length (fmt_core loc spec) = max ?n prec" unfolding core [symmetric] l by auto
  have lp: "length (fmt_prefix spec) + fw1 = (if hx then 2 else 0) + (if field_width_usr spec then field_width spec else 0) \<or>
      (if field_width_usr spec then field_width spec else 0) = (0 :: nat) \<and> fw1 = 0"
    unfolding conjunct2 [OF sgn] hx(1) by (auto simp: fmt_prefix_def)
  show "nl_field_width ?l = (if field_width_usr spec then field_width spec else 0) - (length (fmt_prefix spec) + length (fmt_core loc spec))"
    unfolding lc l hx(2) using lp by auto
qed

lemma writes_number:
  assumes ok: "num_spec_ok loc spec"
  shows "writes pos_diff (fmt_number_text loc spec) (vstr__add_fmt_number loc pos_diff spec)"
proof -
  let ?l = "fmt_layout loc spec"
  note v = fmt_layout_vals [OF ok] and b = fmt_layout_body [OF ok]
  let ?pre = "(if nl_sign ?l \<noteq> 0 then replicate 1 (nl_sign ?l) else []) @ (if nl_wr_hex_0x ?l then replicate 1 0x30 else []) @
      (if nl_wr_hex_0x ?l then replicate 1 (chrs_base (fl_LARGE spec) ! 33) else [])"
  have fw: "nl_field_width ?l \<le> UINT_MAX" unfolding v(5) using ok by (auto simp: num_spec_ok_def UINT_MAX_def)
  have core: "(if nl_precision ?l > nl_real_i ?l then replicate (nl_precision ?l - nl_real_i ?l) 0x30 else []) @
      (if nl_buf ?l \<noteq> [] then fmt_body loc spec else []) = fmt_core loc spec"
    unfolding v(4) [symmetric] using b(3) by (auto simp: grouped.simps split: if_splits)
  have eq: "s1 @ a1 @ a2 @ a3 @ s2 @ a4 @ a5 @ s3 = s1 @ (a1 @ a2 @ a3) @ s2 @ (a4 @ a5) @ s3" for s1 a1 a2 a3 s2 a4 a5 s3 :: "byte list"
    by simp
  show ?thesis
    using writes_put [OF ok refl v(3) fw, of pos_diff] unfolding eq core v(2)
    by (cases "fl_LEFT spec"; cases "fl_ZEROPAD spec"; cases "fl_PREC_USR spec") (auto simp: fmt_number_text_def Let_def v(1,5) split: if_splits)
qed

section \<open>The texts of characters and strings\<close>

definition padded :: "fmt_spec \<Rightarrow> nat \<Rightarrow> byte list \<Rightarrow> byte list" where
  "padded spec width txt =
     (let pad = replicate ((if field_width_usr spec then width else 0) - length txt) 0x20 in if fl_LEFT spec then txt @ pad else pad @ txt)"

definition fmt_char_text :: "fmt_spec \<Rightarrow> byte list" where
  "fmt_char_text spec = padded spec (field_width spec) [case sp_u spec of Data_chr c \<Rightarrow> c | _ \<Rightarrow> 0]"

definition cstr_chars :: "vstr_locale \<Rightarrow> fmt_spec \<Rightarrow> byte list" where
  "cstr_chars loc spec =
     (let s = (case sp_u spec of Data_str (Some s) \<Rightarrow> takeWhile (\<lambda>c. c \<noteq> 0) s | _ \<Rightarrow> null_ref loc) in
      if fl_PREC_USR spec then take (precision spec) s else s)"

text \<open>The width is cut to the precision too, where C pads the cut string to the full width.\<close>

definition fmt_cstr_text :: "vstr_locale \<Rightarrow> fmt_spec \<Rightarrow> byte list" where
  "fmt_cstr_text loc spec =
     padded spec (if fl_PREC_USR spec then min (field_width spec) (precision spec) else field_width spec) (cstr_chars loc spec)"

lemma takeWhile_take_min: "takeWhile P (take n xs) = take n (takeWhile P xs)"
  by (induction xs arbitrary: n) (simp_all add: take_Cons' split: nat.split)

lemma take_min_takeWhile: "take (min (length (takeWhile P xs)) n) xs = take n (takeWhile P xs)"
  by (metis takeWhile_eq_take take_take min.commute)

lemma writes_char:
  assumes "field_width spec < 2 ^ 31"
  shows "writes pos_diff (fmt_char_text spec) (vstr__add_fmt_char pos_diff spec)"
proof -
  let ?fw = "field_width spec - 1" and ?c = "case sp_u spec of Data_chr c \<Rightarrow> c | _ \<Rightarrow> 0"
  let ?in_front = "field_width_usr spec \<and> \<not> fl_LEFT spec \<and> ?fw > 0"
  have le: "?fw \<le> UINT_MAX" "(1::nat) \<le> UINT_MAX" using assms by (simp_all add: UINT_MAX_def)
  have "writes pos_diff ((if ?in_front then replicate ?fw 0x20 else []) @ replicate 1 ?c @
      (if field_width_usr spec \<and> \<not> ?in_front \<and> ?fw > 0 then replicate ?fw 0x20 else [])) (vstr__add_fmt_char pos_diff spec)"
    unfolding vstr__add_fmt_char_def [abs_def] Let_def by (intro writes_then [OF _ _ refl] writes_if writes_rep le)
  then show ?thesis
    by (cases "field_width_usr spec"; cases "fl_LEFT spec") (auto simp: fmt_char_text_def padded_def Let_def split: if_splits)
qed

lemma writes_cstr:
  assumes "field_width spec < 2 ^ 31" "length (cstr_chars loc spec) \<le> UINT_MAX"
  shows "writes pos_diff (fmt_cstr_text loc spec) (vstr__add_fmt_cstr loc pos_diff spec)"
proof -
  let ?s = "case sp_u spec of
            Data_str (Some s) \<Rightarrow> (s, if fl_PREC_USR spec then strnlen s (precision spec) else strlen s)
          | _ \<Rightarrow> (null_ref loc, if fl_PREC_USR spec \<and> length (null_ref loc) > precision spec then precision spec else length (null_ref loc))"
  let ?fw = "if fl_PREC_USR spec \<and> field_width_usr spec \<and> field_width spec > precision spec then precision spec else field_width spec"
  obtain str len where s: "?s = (str, len)" by fastforce
  have chs: "take len str = cstr_chars loc spec" "length (cstr_chars loc spec) = len"
    using s by (auto simp: cstr_chars_def strlen_def strnlen_def takeWhile_take_min take_min_takeWhile takeWhile_eq_take [symmetric] Let_def
        split: fmt_data.splits option.splits if_splits)
  let ?in_front = "field_width_usr spec \<and> \<not> fl_LEFT spec \<and> ?fw > len"
  have le: "?fw - len \<le> UINT_MAX" "length (take len str) \<le> UINT_MAX" using assms chs by (auto simp: UINT_MAX_def)
  have "writes pos_diff ((if ?in_front then replicate (?fw - len) 0x20 else []) @ take len str @
      (if field_width_usr spec \<and> \<not> ?in_front \<and> ?fw > len then replicate (?fw - len) 0x20 else [])) (vstr__add_fmt_cstr loc pos_diff spec)"
    unfolding vstr__add_fmt_cstr_def [abs_def] Let_def s prod.case by (intro writes_then [OF _ _ refl] writes_if writes_rep writes_buf le)
  then show ?thesis
    using chs by (cases "field_width_usr spec"; cases "fl_LEFT spec") (auto simp: fmt_cstr_text_def padded_def min_def Let_def split: if_splits)
qed

end
