(* ===== verification/Vstr_Fmt.thy ===== *)
theory Vstr_Fmt
  imports Vstr_Fmt_Num
begin

text \<open>
  Formatted output (\<^verbatim>\<open>src/src/vstr_add_fmt.c\<close>): reading the format, taking the arguments and writing all conversions, for
  \<^verbatim>\<open>vstr_add_sysfmt()\<close>, which knows no formatters of the user. Floating point numbers are written by the function \<^verbatim>\<open>vstr__add_fmt_dbl()\<close> of
  the file chosen by the configuration, a parameter \<open>dbl\<close> of the model. Bytes are written as their ASCII codes.
\<close>

section \<open>Reading a conversion\<close>

definition VSTR__ADD_FMT_ISDIGIT :: "byte \<Rightarrow> bool" where
  "VSTR__ADD_FMT_ISDIGIT x \<longleftrightarrow> 0x30 \<le> x \<and> x \<le> 0x39"

text \<open>The first character, with the null byte at the end.\<close>

definition fmt_hd :: "byte list \<Rightarrow> byte" where
  "fmt_hd fmt = (case fmt of [] \<Rightarrow> 0 | c # _ \<Rightarrow> c)"

definition dec_digits :: "byte list \<Rightarrow> nat" where
  "dec_digits ds = foldl (\<lambda>n c. n * 10 + unat (c - 0x30)) 0 ds"

text \<open>
  \<^verbatim>\<open>VSTR__ADD_FMT_STRTOL\<close> at a digit. With more than two digits \<^verbatim>\<open>strtol()\<close> reads them all, up to \<^verbatim>\<open>LONG_MAX\<close>; the result is stored in
  an \<^verbatim>\<open>int\<close>.
\<close>

definition VSTR__ADD_FMT_STRTOL :: "byte list \<Rightarrow> 32 word \<times> byte list" where
  "VSTR__ADD_FMT_STRTOL x =
     (if VSTR__ADD_FMT_ISDIGIT (fmt_hd (drop 1 x)) then
        if VSTR__ADD_FMT_ISDIGIT (fmt_hd (drop 2 x)) then
          (of_nat (min (dec_digits (takeWhile VSTR__ADD_FMT_ISDIGIT x)) (2 ^ 63 - 1)), dropWhile VSTR__ADD_FMT_ISDIGIT x)
        else (of_nat (dec_digits (take 2 x)), drop 2 x)
      else (of_nat (dec_digits (take 1 x)), drop 1 x))"

fun fmt_flags :: "byte list \<Rightarrow> fmt_spec \<Rightarrow> byte list \<times> fmt_spec" where
  "fmt_flags [] spec = ([], spec)"
| "fmt_flags (c # fmt) spec =
     (if c = 0x2D then fmt_flags fmt (spec\<lparr>fl_LEFT := True\<rparr>)
      else if c = 0x2B then fmt_flags fmt (spec\<lparr>fl_PLUS := True\<rparr>)
      else if c = 0x20 then fmt_flags fmt (spec\<lparr>fl_SPACE := True\<rparr>)
      else if c = 0x23 then fmt_flags fmt (spec\<lparr>fl_SPECIAL := True\<rparr>)
      else if c = 0x30 then fmt_flags fmt (spec\<lparr>fl_ZEROPAD := True\<rparr>)
      else if c = 0x27 then fmt_flags fmt (spec\<lparr>fl_THOUSAND_SEP := True\<rparr>)
      else if c = 0x49 then fmt_flags fmt (spec\<lparr>fl_ALT_DIGITS := True\<rparr>)
      else (c # fmt, spec))"

text \<open>The number of the parameter behind a \<^verbatim>\<open>*\<close>, and the number of parameters counted so far.\<close>

definition fmt_star :: "byte list \<Rightarrow> nat \<Rightarrow> byte list \<times> nat \<times> nat" where
  "fmt_star fmt params =
     (let (num, fmt1) = (if VSTR__ADD_FMT_ISDIGIT (fmt_hd fmt) then VSTR__ADD_FMT_STRTOL fmt else (0, fmt)) in
      if fmt_hd fmt1 \<noteq> 0x24 then (fmt, params + 1, params + 1) else (drop 1 fmt1, unat num, params))"

definition fmt_width :: "byte list \<Rightarrow> fmt_spec \<Rightarrow> nat \<Rightarrow> byte list \<times> fmt_spec \<times> nat" where
  "fmt_width fmt spec params =
     (if VSTR__ADD_FMT_ISDIGIT (fmt_hd fmt) then
        (case VSTR__ADD_FMT_STRTOL fmt of (num, fmt1) \<Rightarrow> (fmt1, spec\<lparr>field_width_usr := True, field_width := unat num\<rparr>, params))
      else if fmt_hd fmt = 0x2A then
        (case fmt_star (drop 1 fmt) params of (fmt1, p, params1) \<Rightarrow> (fmt1, spec\<lparr>field_width_usr := True, field_width_param := p\<rparr>, params1))
      else (fmt, spec, params))"

definition fmt_precision :: "byte list \<Rightarrow> fmt_spec \<Rightarrow> nat \<Rightarrow> byte list \<times> fmt_spec \<times> nat" where
  "fmt_precision fmt spec params =
     (if fmt_hd fmt = 0x2E then
        let fmt1 = drop 1 fmt; spec1 = spec\<lparr>fl_PREC_USR := True\<rparr> in
        if VSTR__ADD_FMT_ISDIGIT (fmt_hd fmt1) then
          (case VSTR__ADD_FMT_STRTOL fmt1 of (num, fmt2) \<Rightarrow> (fmt2, spec1\<lparr>precision := unat num\<rparr>, params))
        else if fmt_hd fmt1 = 0x2A then
          (case fmt_star (drop 1 fmt1) params of (fmt2, p, params1) \<Rightarrow> (fmt2, spec1\<lparr>precision_param := p\<rparr>, params1))
        else (fmt1, spec1, params)
      else (fmt, spec, params))"

text \<open>The number of the parameter, the flags and the field width; a number that is not followed by \<^verbatim>\<open>$\<close> is the field width.\<close>

definition fmt_param :: "byte list \<Rightarrow> fmt_spec \<Rightarrow> nat \<Rightarrow> bool \<Rightarrow> (byte list \<times> fmt_spec \<times> nat) \<times> bool" where
  "fmt_param fmt spec params have_dollars =
     (let flags_width = (\<lambda>fmt1 spec1. case fmt_flags fmt1 spec1 of (fmt2, spec2) \<Rightarrow> fmt_width fmt2 spec2 params) in
      if VSTR__ADD_FMT_ISDIGIT (fmt_hd fmt) \<and> fmt_hd fmt \<noteq> 0x30 then
        (case VSTR__ADD_FMT_STRTOL fmt of (num, fmt1) \<Rightarrow>
           if fmt_hd fmt1 \<noteq> 0x24 then ((fmt1, spec\<lparr>field_width_usr := True, field_width := unat num\<rparr>, params), have_dollars)
           else (flags_width (drop 1 fmt1) (spec\<lparr>main_param := unat num\<rparr>), True))
      else (flags_width fmt spec, have_dollars))"

definition vstr__add_fmt_spec :: "byte list \<Rightarrow> fmt_spec \<Rightarrow> nat \<Rightarrow> bool \<Rightarrow> byte list \<times> fmt_spec \<times> nat \<times> bool" where
  "vstr__add_fmt_spec fmt spec params have_dollars =
     (case fmt_param fmt spec params have_dollars of ((fmt1, spec1, params1), dollars) \<Rightarrow>
      case fmt_precision fmt1 spec1 params1 of (fmt2, spec2, params2) \<Rightarrow> (fmt2, spec2, params2, dollars))"

text \<open>The width of the type, then the conversion; \<^const>\<open>None\<close> for a character that is no conversion.\<close>

definition fmt_int_type :: "byte list \<Rightarrow> fmt_spec \<Rightarrow> byte list \<times> fmt_spec" where
  "fmt_int_type fmt spec =
     (let c = fmt_hd fmt; rest = drop 1 fmt; set = (\<lambda>t. spec\<lparr>int_type := t\<rparr>) in
      if c = 0x68 then if fmt_hd rest = 0x68 then (drop 1 rest, set FMT_UCHAR) else (rest, set FMT_USHORT)
      else if c = 0x6C then if fmt_hd rest = 0x6C then (drop 1 rest, set FMT_ULONG_LONG) else (rest, set FMT_ULONG)
      else if c = 0x4C then (rest, set FMT_ULONG_LONG)
      else if c = 0x7A then (rest, set FMT_SIZE_T)
      else if c = 0x74 then (rest, set FMT_PTRDIFF_T)
      else if c = 0x6A then (rest, set FMT_UINTMAX_T)
      else (fmt, spec))"

definition fmt_conversion :: "byte \<Rightarrow> fmt_spec \<Rightarrow> fmt_spec option" where
  "fmt_conversion c spec0 =
     (let spec = spec0\<lparr>fmt_code := c\<rparr> in
      if c = 0x63 then Some (if int_type spec = FMT_ULONG then spec\<lparr>fmt_code := 0x43\<rparr> else spec)
      else if c = 0x43 then Some spec
      else if c = 0x6D then Some (spec\<lparr>main_param := 0\<rparr>)
      else if c = 0x73 then Some (if int_type spec = FMT_ULONG then spec\<lparr>fmt_code := 0x53\<rparr> else spec)
      else if c = 0x53 then Some spec
      else if c = 0x64 \<or> c = 0x69 then Some (spec\<lparr>fl_SIGN := True\<rparr>)
      else if c = 0x75 then Some spec
      else if c = 0x58 then Some (spec\<lparr>fl_LARGE := True, sp_num_base := 16\<rparr>)
      else if c = 0x78 then Some (spec\<lparr>sp_num_base := 16\<rparr>)
      else if c = 0x6F then Some (spec\<lparr>sp_num_base := 8\<rparr>)
      else if c = 0x70 then Some (spec\<lparr>sp_num_base := 16, int_type := FMT_PTR_VOID, fl_SPECIAL := True\<rparr>)
      else if c = 0x6E then Some spec
      else if c = 0x41 \<or> c = 0x45 \<or> c = 0x46 \<or> c = 0x47 then Some (spec\<lparr>fl_LARGE := True\<rparr>)
      else if c = 0x61 \<or> c = 0x65 \<or> c = 0x66 \<or> c = 0x67 then Some spec
      else None)"

section \<open>Reading a format\<close>

lemma fmt_flags_le: "length (fst (fmt_flags fmt spec)) \<le> length fmt"
  by (induction fmt spec rule: fmt_flags.induct) (auto intro: le_SucI)

lemma strtol_le: "length (snd (VSTR__ADD_FMT_STRTOL fmt)) \<le> length fmt"
  by (simp add: VSTR__ADD_FMT_STRTOL_def length_dropWhile_le)

lemma fmt_star_le: "length (fst (fmt_star fmt params)) \<le> length fmt"
  using strtol_le [of fmt] by (auto simp: fmt_star_def Let_def split: prod.splits if_splits)

lemma fmt_width_le: "length (fst (fmt_width fmt spec params)) \<le> length fmt"
  using strtol_le [of fmt] fmt_star_le [of "drop 1 fmt" params] by (auto simp: fmt_width_def split: prod.splits)

lemma fmt_precision_le: "length (fst (fmt_precision fmt spec params)) \<le> length fmt"
  using strtol_le [of "drop 1 fmt"] fmt_star_le [of "drop 1 (drop 1 fmt)" params]
  by (auto simp: fmt_precision_def Let_def split: prod.splits)

lemma fmt_param_le: "length (fst (fst (fmt_param fmt spec params d))) \<le> length fmt"
proof -
  have fw: "length (fst (case fmt_flags f s of (f2, s2) \<Rightarrow> fmt_width f2 s2 params)) \<le> length f" for f s
    unfolding case_prod_beta by (rule le_trans [OF fmt_width_le fmt_flags_le])
  have dr: "length (drop 1 f) \<le> length f" for f :: "byte list" by simp
  show ?thesis
    using fw [of fmt spec] strtol_le [of fmt] le_trans [OF fw le_trans [OF dr strtol_le]]
    unfolding fmt_param_def Let_def case_prod_beta by (simp only: fst_conv if_distrib [of fst] if_distrib [of length] split: if_split) simp
qed

lemma add_fmt_spec_le: "length (fst (vstr__add_fmt_spec fmt spec params d)) \<le> length fmt"
  unfolding vstr__add_fmt_spec_def case_prod_beta fst_conv by (rule le_trans [OF fmt_precision_le fmt_param_le])

lemma fmt_int_type_le: "length (fst (fmt_int_type fmt spec)) \<le> length fmt"
  by (simp add: fmt_int_type_def Let_def)

lemma conversion_le:
  "vstr__add_fmt_spec fmt spec params d = (fmt1, spec1, res) \<Longrightarrow> fmt_int_type fmt1 spec1 = (fmt2, spec2) \<Longrightarrow> length fmt2 \<le> length fmt"
  using add_fmt_spec_le [of fmt spec params d] fmt_int_type_le [of fmt1 spec1] by simp

definition vstr__fmt_add_spec :: "vstr_conf \<Rightarrow> bool \<times> vstr_conf" where
  "vstr__fmt_add_spec conf = (case VSTR_MK (heap conf) of (p, h) \<Rightarrow> (p \<noteq> None, conf\<lparr>heap := h\<rparr>))"

text \<open>
  One round of the loop of \<^verbatim>\<open>vstr__add_vfmt()\<close> at a format that is not empty: the conversion (\<^const>\<open>None\<close> at a character that is no conversion, which
  ends the loop), the rest of the format, the number of parameters and whether there was a \<^verbatim>\<open>$\<close>.
\<close>

definition fmt_step :: "byte list \<Rightarrow> nat \<Rightarrow> bool \<Rightarrow> fmt_spec option \<times> byte list \<times> nat \<times> bool" where
  "fmt_step fmt params dollars =
     (if fmt_hd fmt \<noteq> 0x25 then
        let len = length (takeWhile (\<lambda>x. x \<noteq> 0x25) fmt);
            spec = vstr__fmt_init_spec\<lparr>fmt_code := 0x73, sp_u := Data_str (Some fmt)\<rparr>;
            spec1 = (if len < length fmt then spec\<lparr>precision := len mod (UINT_MAX + 1), fl_PREC_USR := True\<rparr> else spec)
        in (Some spec1, drop len fmt, params, dollars)
      else if fmt_hd (drop 1 fmt) = fmt_hd fmt then
        (Some (vstr__fmt_init_spec\<lparr>sp_u := Data_chr (fmt_hd fmt), fmt_code := 0x63\<rparr>), drop 2 fmt, params, dollars)
      else
        (case vstr__add_fmt_spec (drop 1 fmt) vstr__fmt_init_spec params dollars of (fmt1, spec1, params1, dollars1) \<Rightarrow>
         case fmt_int_type fmt1 spec1 of (fmt2, spec2) \<Rightarrow>
           (case fmt_conversion (fmt_hd fmt2) spec2 of
              None \<Rightarrow> (None, [], params1, dollars1)
            | Some spec3 \<Rightarrow>
                if main_param spec3 = 0 then (Some (spec3\<lparr>main_param := params1 + 1\<rparr>), drop 1 fmt2, params1 + 1, dollars1)
                else (Some spec3, drop 1 fmt2, params1, dollars1))))"

lemma fmt_step_less:
  assumes "fmt_step fmt params dollars = (Some spec, fmt1, res)" "fmt \<noteq> []"
  shows "length fmt1 < length fmt"
proof -
  obtain c rest where fmt: "fmt = c # rest" using assms(2) by (cases fmt) auto
  show ?thesis
    using assms(1) unfolding fmt
    by (auto simp: fmt_step_def fmt_hd_def Let_def le_imp_less_Suc dest!: conversion_le split: if_splits prod.splits option.splits list.splits)
qed

text \<open>
  The loop: whether no allocation failed, the list of conversions, whether there was a \<^verbatim>\<open>$\<close> and the number of spare specifications. A
  specification is made when there is no spare one, and put into the list when its conversion is known.
\<close>

function fmt_parse :: "byte list \<Rightarrow> nat \<Rightarrow> bool \<Rightarrow> nat \<Rightarrow> vstr_conf \<Rightarrow> bool \<times> fmt_spec list \<times> bool \<times> nat \<times> vstr_conf" where
  "fmt_parse fmt params dollars spare conf =
     (if fmt = [] then (True, [], dollars, spare, conf)
      else
        (case (if spare = 0 then vstr__fmt_add_spec conf else (True, conf)) of
           (False, conf1) \<Rightarrow> (False, [], dollars, spare, conf1)
         | (True, conf1) \<Rightarrow>
             (case fmt_step fmt params dollars of
                (None, _, _, dollars1) \<Rightarrow> (True, [], dollars1, Suc (spare - 1), conf1)
              | (Some spec, fmt1, params1, dollars1) \<Rightarrow>
                  (case fmt_parse fmt1 params1 dollars1 (spare - 1) conf1 of (ok, specs, res) \<Rightarrow> (ok, spec # specs, res)))))"
  by pat_completeness auto
termination
  by (relation "measure (\<lambda>(fmt, _). length fmt)") (auto dest: fmt_step_less [OF sym])

declare fmt_parse.simps [simp del]

section \<open>Taking the arguments\<close>

text \<open>
  The arguments behind the format. \<^verbatim>\<open>va_arg()\<close> with no argument left or with one of another type is undefined: \<^const>\<open>None\<close>.
\<close>

datatype fmt_arg = Arg_num int | Arg_str "byte list option" | Arg_ptr nat | Arg_out nat | Arg_dbl nat

definition fmt_bits :: "fmt_type \<Rightarrow> nat" where
  "fmt_bits t = (case t of FMT_UCHAR \<Rightarrow> 8 | FMT_USHORT \<Rightarrow> 16 | FMT_UINT \<Rightarrow> 32 | _ \<Rightarrow> 64)"

text \<open>
  \<^verbatim>\<open>VSTR__FMT_ARG_NUM\<close> and the case of \<^verbatim>\<open>ptrdiff_t\<close>, which is always taken as signed.
\<close>

definition VSTR__FMT_ARG_NUM :: "fmt_spec \<Rightarrow> int \<Rightarrow> fmt_spec \<times> nat" where
  "VSTR__FMT_ARG_NUM spec v =
     (let w = fmt_bits (int_type spec); tmp = signed_take_bit (w - 1) v;
          (spec1, u) = (if fl_SIGN spec \<or> int_type spec = FMT_PTRDIFF_T then
                          if tmp < 0 then (spec\<lparr>fl_NUM_IS_NEGATIVE := True\<rparr>, nat ((- tmp) mod 2 ^ w)) else (spec, nat tmp)
                        else (spec, nat (v mod 2 ^ w)));
          spec2 = (if u = 0 then spec1\<lparr>fl_NUM_IS_ZERO := True\<rparr> else spec1)
      in (if int_type spec = FMT_PTRDIFF_T then spec2\<lparr>int_type := FMT_UINTMAX_T\<rparr> else spec2, u))"

definition fmt_is_num :: "byte \<Rightarrow> bool" where
  "fmt_is_num c \<longleftrightarrow> c = 0x64 \<or> c = 0x69 \<or> c = 0x75 \<or> c = 0x58 \<or> c = 0x78 \<or> c = 0x6F"

definition fmt_is_dbl :: "byte \<Rightarrow> bool" where
  "fmt_is_dbl c \<longleftrightarrow> c = 0x61 \<or> c = 0x41 \<or> c = 0x65 \<or> c = 0x45 \<or> c = 0x66 \<or> c = 0x46 \<or> c = 0x67 \<or> c = 0x47"

definition fmt_take :: "fmt_spec \<Rightarrow> fmt_arg list \<Rightarrow> (fmt_spec \<times> fmt_data \<times> fmt_arg list) option" where
  "fmt_take spec args =
     (let c = fmt_code spec in
      if c = 0x6D then Some (spec, Data_undef, args)
      else (case args of [] \<Rightarrow> None
            | a # rest \<Rightarrow>
                (case a of
                   Arg_num v \<Rightarrow>
                     if c = 0x63 then Some (spec, Data_chr (of_int v), rest)
                     else if c = 0x43 then Some (spec, Data_num (nat (v mod 2 ^ 32)), rest)
                     else if fmt_is_num c then (case VSTR__FMT_ARG_NUM spec v of (spec1, u) \<Rightarrow> Some (spec1, Data_num u, rest))
                     else None
                 | Arg_str s \<Rightarrow> if c = 0x73 \<or> c = 0x53 then Some (spec, Data_str s, rest) else None
                 | Arg_ptr p \<Rightarrow> if c = 0x70 then Some (spec, Data_num p, rest) else None
                 | Arg_out i \<Rightarrow> if c = 0x6E then Some (spec, Data_out i, rest) else None
                 | Arg_dbl d \<Rightarrow> if fmt_is_dbl c then Some (spec, Data_dbl d, rest) else None)))"

text \<open>
  The argument of a number is taken once, into a local union, and copied to every conversion with that number; \<open>fmt_member\<close> is the member it was
  stored in. Reading another member is outside of the model.
\<close>

definition fmt_member :: "fmt_spec \<Rightarrow> fmt_type" where
  "fmt_member spec =
     (let c = fmt_code spec; t = int_type spec in
      if fmt_is_num c then if t = FMT_PTRDIFF_T then FMT_UINTMAX_T else t
      else if c = 0x70 then FMT_PTR_VOID
      else if fmt_is_dbl c \<and> t = FMT_ULONG_LONG then FMT_ULONG_LONG
      else FMT_UINT)"

definition fmt_reads :: "byte \<Rightarrow> fmt_data \<Rightarrow> bool" where
  "fmt_reads c u =
     (case u of Data_num _ \<Rightarrow> fmt_is_num c \<or> c = 0x70 \<or> c = 0x43
      | Data_chr _ \<Rightarrow> c = 0x63 | Data_str _ \<Rightarrow> c = 0x73 \<or> c = 0x53 | Data_out _ \<Rightarrow> c = 0x6E | Data_dbl _ \<Rightarrow> fmt_is_dbl c
      | Data_undef \<Rightarrow> c = 0x6D)"

text \<open>
  A field width or a precision: an \<^verbatim>\<open>int\<close>, taken from the arguments or from that union.
\<close>

definition fmt_take_int :: "bool \<Rightarrow> fmt_type \<times> fmt_data \<Rightarrow> fmt_arg list \<Rightarrow> (int \<times> (fmt_type \<times> fmt_data) \<times> fmt_arg list) option" where
  "fmt_take_int done u args =
     (if done then (case u of (FMT_UINT, Data_num n) \<Rightarrow> Some (signed_take_bit 31 (int n), u, args) | _ \<Rightarrow> None)
      else (case args of Arg_num v # rest \<Rightarrow> Some (signed_take_bit 31 v, (FMT_UINT, Data_num (nat (v mod 2 ^ 32))), rest) | _ \<Rightarrow> None))"

text \<open>
  The three things a conversion can want of the argument number \<open>cnt\<close>. Each gives the conversion, the union, the arguments left, whether the
  argument was taken and whether the loop ends here.
\<close>

type_synonym fill_state = "fmt_spec \<times> (fmt_type \<times> fmt_data) \<times> fmt_arg list \<times> bool \<times> bool"

definition fill_width :: "bool \<Rightarrow> nat \<Rightarrow> fill_state \<Rightarrow> fill_state option" where
  "fill_width have_dollars cnt st =
     (case st of (spec, u, args, done, stop) \<Rightarrow>
        if cnt = field_width_param spec then
          map_option (\<lambda>(n, u1, args1).
            ((if n < 0 then spec\<lparr>fl_LEFT := True, field_width := nat ((- n) mod 2 ^ 32)\<rparr> else spec\<lparr>field_width := nat n\<rparr>)\<lparr>field_width_param := 0\<rparr>,
             u1, args1, True, \<not> have_dollars)) (fmt_take_int done u args)
        else Some st)"

definition fill_precision :: "bool \<Rightarrow> nat \<Rightarrow> fill_state \<Rightarrow> fill_state option" where
  "fill_precision have_dollars cnt st =
     (case st of (spec, u, args, done, stop) \<Rightarrow>
        if \<not> stop \<and> cnt = precision_param spec then
          map_option (\<lambda>(n, u1, args1).
            ((if n < 0 then spec\<lparr>fl_PREC_USR := False\<rparr> else spec\<lparr>precision := nat n\<rparr>)\<lparr>precision_param := 0\<rparr>, u1, args1, True, \<not> have_dollars))
            (fmt_take_int done u args)
        else Some st)"

definition fill_main :: "bool \<Rightarrow> nat \<Rightarrow> fill_state \<Rightarrow> fill_state option" where
  "fill_main have_dollars cnt st =
     (case st of (spec, u, args, done, stop) \<Rightarrow>
        if \<not> stop \<and> cnt = main_param spec then
          map_option (\<lambda>(spec1, u1, args1). (spec1\<lparr>sp_u := u1, main_param := 0\<rparr>, (fmt_member spec, u1), args1, True, \<not> have_dollars))
            (if done then if fst u = fmt_member spec \<and> fmt_reads (fmt_code spec) (snd u) then Some (spec, snd u, args) else None
             else fmt_take spec args)
        else Some st)"

fun fill_loop :: "bool \<Rightarrow> nat \<Rightarrow> fmt_spec list \<Rightarrow> fmt_type \<times> fmt_data \<Rightarrow> fmt_arg list \<Rightarrow> bool \<Rightarrow> (fmt_spec list \<times> fmt_arg list \<times> bool) option" where
  "fill_loop have_dollars cnt [] u args done = Some ([], args, done)"
| "fill_loop have_dollars cnt (spec # specs) u args done =
     (case Option.bind (Option.bind (fill_width have_dollars cnt (spec, u, args, done, False)) (fill_precision have_dollars cnt))
             (fill_main have_dollars cnt) of
        None \<Rightarrow> None
      | Some (spec1, u1, args1, done1, stop) \<Rightarrow>
          if stop then Some (spec1 # specs, args1, done1)
          else map_option (\<lambda>(specs1, res). (spec1 # specs1, res)) (fill_loop have_dollars cnt specs u1 args1 done1))"

definition fmt_filled :: "fmt_spec \<Rightarrow> bool" where
  "fmt_filled spec \<longleftrightarrow> field_width_param spec = 0 \<and> precision_param spec = 0 \<and> main_param spec = 0"

definition params_left :: "fmt_spec list \<Rightarrow> nat" where
  "params_left specs = (\<Sum>s \<leftarrow> specs. of_bool (field_width_param s \<noteq> 0) + of_bool (precision_param s \<noteq> 0) + of_bool (main_param s \<noteq> 0))"

lemma params_left_1: "params_left [s] = of_bool (field_width_param s \<noteq> 0) + of_bool (precision_param s \<noteq> 0) + of_bool (main_param s \<noteq> 0)"
  by (simp add: params_left_def)

lemma fill_width_left:
  assumes "fill_width d cnt (spec, u, args, done, stop) = Some (spec1, u1, args1, done1, stop1)" "0 < cnt"
  shows "params_left [spec1] + of_bool (done1 \<and> \<not> done) \<le> params_left [spec] \<and> (done \<longrightarrow> done1)"
proof (cases "cnt = field_width_param spec")
  case True
  then obtain n v a where "fmt_take_int done u args = Some (n, v, a)" using assms(1) by (auto simp: fill_width_def)
  then show ?thesis using assms True by (cases "n < 0") (auto simp: fill_width_def params_left_1)
qed (use assms in \<open>simp add: fill_width_def\<close>)

lemma fill_precision_left:
  assumes "fill_precision d cnt (spec, u, args, done, stop) = Some (spec1, u1, args1, done1, stop1)" "0 < cnt"
  shows "params_left [spec1] + of_bool (done1 \<and> \<not> done) \<le> params_left [spec] \<and> (done \<longrightarrow> done1)"
proof (cases "\<not> stop \<and> cnt = precision_param spec")
  case True
  then obtain n v a where "fmt_take_int done u args = Some (n, v, a)" using assms(1) by (auto simp: fill_precision_def)
  then show ?thesis using assms True by (cases "n < 0") (auto simp: fill_precision_def params_left_1)
qed (use assms in \<open>auto simp: fill_precision_def\<close>)

lemma fmt_take_params:
  assumes "fmt_take spec args = Some (spec1, u, args1)"
  shows "field_width_param spec1 = field_width_param spec" "precision_param spec1 = precision_param spec" "main_param spec1 = main_param spec"
  using assms by (auto simp: fmt_take_def VSTR__FMT_ARG_NUM_def Let_def split: if_splits list.splits fmt_arg.splits prod.splits)

lemma fill_main_left:
  assumes "fill_main d cnt (spec, u, args, done, stop) = Some (spec1, u1, args1, done1, stop1)" "0 < cnt"
  shows "params_left [spec1] + of_bool (done1 \<and> \<not> done) \<le> params_left [spec] \<and> (done \<longrightarrow> done1)"
proof (cases "\<not> stop \<and> cnt = main_param spec")
  case True
  then obtain s2 u2 a2 where r: "(if done then if fst u = fmt_member spec \<and> fmt_reads (fmt_code spec) (snd u) then Some (spec, snd u, args) else None
      else fmt_take spec args) = Some (s2, u2, a2)" using assms(1) by (auto simp: fill_main_def)
  then have "field_width_param s2 = field_width_param spec" "precision_param s2 = precision_param spec"
    using fmt_take_params by (auto split: if_splits)
  then show ?thesis using assms True r by (auto simp: fill_main_def params_left_1)
qed (use assms in \<open>auto simp: fill_main_def\<close>)

lemma params_left_Cons: "params_left (s # ss) = params_left [s] + params_left ss"
  by (simp add: params_left_def)

lemma fill_loop_left:
  assumes "fill_loop d cnt specs u args done = Some (specs1, args1, done1)" "0 < cnt"
  shows "params_left specs1 + of_bool (done1 \<and> \<not> done) \<le> params_left specs \<and> (done \<longrightarrow> done1) \<and> length specs1 = length specs"
  using assms(1)
proof (induction specs arbitrary: u args "done" specs1)
  case (Cons spec specs)
  obtain st1 where st1: "fill_width d cnt (spec, u, args, done, False) = Some st1" using Cons.prems by (auto split: option.splits bind_splits)
  obtain st2 where st2: "fill_precision d cnt st1 = Some st2" using Cons.prems st1 by (auto split: option.splits bind_splits)
  obtain st3 where st3: "fill_main d cnt st2 = Some st3" using Cons.prems st1 st2 by (auto split: option.splits bind_splits)
  obtain s1 v1 a1 d1 p1 where 1: "st1 = (s1, v1, a1, d1, p1)" by (metis surj_pair)
  obtain s2 v2 a2 d2 p2 where 2: "st2 = (s2, v2, a2, d2, p2)" by (metis surj_pair)
  obtain s3 v3 a3 d3 p3 where 3: "st3 = (s3, v3, a3, d3, p3)" by (metis surj_pair)
  have one: "params_left [s3] + of_bool (d3 \<and> \<not> done) \<le> params_left [spec] \<and> (done \<longrightarrow> d3)"
    using fill_width_left [OF st1 [unfolded 1] assms(2)] fill_precision_left [OF st2 [unfolded 1 2] assms(2)]
      fill_main_left [OF st3 [unfolded 2 3] assms(2)] by (cases d1; cases d2) auto
  show ?case
  proof (cases p3)
    case True
    then show ?thesis using Cons.prems st1 st2 st3 3 one by (auto simp: params_left_Cons [of _ specs])
  next
    case False
    then obtain specs2 where r: "fill_loop d cnt specs v3 a3 d3 = Some (specs2, args1, done1)" "specs1 = s3 # specs2"
      using Cons.prems st1 st2 st3 3 by auto
    then show ?thesis
      using Cons.IH [OF r(1)] one unfolding r(2) params_left_Cons [of spec specs] params_left_Cons [of s3 specs2]
      by (cases "done"; cases d3; cases done1) auto
  qed
qed (auto simp: params_left_def)

lemma params_left_dropWhile: "params_left (dropWhile fmt_filled specs) = params_left specs"
  by (induction specs) (auto simp: params_left_def fmt_filled_def)

function vstr__fmt_fillin_spec :: "bool \<Rightarrow> nat \<Rightarrow> bool \<Rightarrow> fmt_spec list \<Rightarrow> fmt_arg list \<Rightarrow> (bool \<times> fmt_spec list) option" where
  "vstr__fmt_fillin_spec have_dollars cnt need_to_fin_now specs args =
     (if specs = [] then Some (True, [])
      else
        let filled = takeWhile fmt_filled specs; beg = dropWhile fmt_filled specs in
        if beg \<noteq> [] \<and> need_to_fin_now then Some (False, specs)
        else (case fill_loop have_dollars (Suc cnt) beg (FMT_UINT, Data_undef) args False of
                None \<Rightarrow> None
              | Some (beg1, args1, done) \<Rightarrow>
                  map_option (\<lambda>(ok, specs1). (ok, filled @ specs1))
                    (vstr__fmt_fillin_spec have_dollars (Suc cnt) (need_to_fin_now \<or> \<not> done) beg1 args1)))"
  by pat_completeness auto
termination
proof (relation "measure (\<lambda>(_, _, need, specs, _). 2 * params_left specs + of_bool (\<not> need) + of_bool (specs \<noteq> []))", goal_cases)
  case (2 d cnt need specs args filled beg res beg1 x args1 dn)
  have l: "params_left beg1 + of_bool (dn \<and> \<not> False) \<le> params_left beg" "length beg1 = length beg"
    using fill_loop_left [of d "Suc cnt" beg _ args False beg1 args1 dn] 2(4-) by auto
  moreover have "params_left beg = params_left specs" using 2(3) params_left_dropWhile by simp
  ultimately show ?case using 2 by (cases "beg = []"; cases dn; cases need) (auto simp: params_left_def)
qed simp

declare vstr__fmt_fillin_spec.simps [simp del]

section \<open>Writing all conversions\<close>

text \<open>The part of \<^verbatim>\<open>struct Vstr_conf\<close> that only formatting uses: the locale and the number of spare specifications.\<close>

record fmt_conf =
  fc_loc :: vstr_locale
  fmt_spec_make :: nat

type_synonym dbl_func = "nat \<Rightarrow> fmt_spec \<Rightarrow> vstr_base \<Rightarrow> bool \<times> vstr_base"

text \<open>One round of the loop of \<^verbatim>\<open>vstr__fmt_write_spec()\<close>; \<open>err\<close> is the text of the error number for \<^verbatim>\<open>%m\<close>.\<close>

definition fmt_write_one :: "dbl_func \<Rightarrow> vstr_locale \<Rightarrow> byte list \<Rightarrow> nat \<Rightarrow> fmt_spec \<Rightarrow> vstr_base \<Rightarrow> bool \<times> vstr_base" where
  "fmt_write_one dbl loc err pos_diff spec base =
     (let c = fmt_code spec in
      if c = 0x63 then vstr__add_fmt_char pos_diff spec base
      else if c = 0x43 then vstr__add_fmt_wide_char base
      else if c = 0x6D then vstr__add_fmt_cstr loc pos_diff (spec\<lparr>sp_u := Data_str (Some err)\<rparr>) base
      else if c = 0x73 then vstr__add_fmt_cstr loc pos_diff spec base
      else if c = 0x53 then vstr__add_fmt_wide_cstr loc pos_diff spec base
      else if c = 0x70 \<or> fmt_is_num c then vstr__add_fmt_number loc pos_diff spec base
      else if fmt_is_dbl c then dbl pos_diff spec base
      else (True, base))"

text \<open>What \<^verbatim>\<open>%n\<close> stores: the variable and the length so far in the type of the variable.\<close>

definition fmt_out :: "nat \<Rightarrow> fmt_spec \<Rightarrow> vstr_base \<Rightarrow> (nat \<times> int) list" where
  "fmt_out orig_len spec base =
     (case sp_u spec of
        Data_out i \<Rightarrow> if fmt_code spec = 0x6E then [(i, signed_take_bit (fmt_bits (int_type spec) - 1) (int (size_sub (b_len base) orig_len)))] else []
      | _ \<Rightarrow> [])"

fun vstr__fmt_write_spec ::
    "dbl_func \<Rightarrow> vstr_locale \<Rightarrow> byte list \<Rightarrow> nat \<Rightarrow> nat \<Rightarrow> fmt_spec list \<Rightarrow> vstr_base \<Rightarrow> bool \<times> (nat \<times> int) list \<times> vstr_base" where
  "vstr__fmt_write_spec dbl loc err pos_diff orig_len [] base = (True, [], base)"
| "vstr__fmt_write_spec dbl loc err pos_diff orig_len (spec # specs) base =
     (case fmt_write_one dbl loc err pos_diff spec base of
        (False, b1) \<Rightarrow> (False, [], b1)
      | (True, b1) \<Rightarrow>
          (case vstr__fmt_write_spec dbl loc err pos_diff orig_len specs b1 of
             (ok, outs, b2) \<Rightarrow> (ok, fmt_out orig_len spec base @ outs, b2)))"

text \<open>
  \<^verbatim>\<open>vstr__add_vfmt()\<close> as \<^verbatim>\<open>vstr_add_sysfmt()\<close> calls it: the length of the text, what \<^verbatim>\<open>%n\<close> stored, the configuration and the string.
\<close>

definition fmt_malloc_bad :: "bool \<Rightarrow> vstr_base \<Rightarrow> vstr_base" where
  "fmt_malloc_bad m base = base\<lparr>b_conf := (b_conf base)\<lparr>malloc_bad := m\<rparr>\<rparr>"

definition vstr_add_sysfmt ::
    "dbl_func \<Rightarrow> byte list \<Rightarrow> fmt_conf \<Rightarrow> vstr_base \<Rightarrow> nat \<Rightarrow> byte list \<Rightarrow> fmt_arg list \<Rightarrow> (nat \<times> (nat \<times> int) list \<times> fmt_conf \<times> vstr_base) option" where
  "vstr_add_sysfmt dbl err fc base pos fmt args =
     (if pos > b_len base then Some (0, [], fc, base)
      else
        let orig_len = b_len base;
            orig_malloc_bad = malloc_bad (b_conf base);
            pos_diff = size_sub (b_len base) pos;
            b0 = fmt_malloc_bad False base;
            failed = (\<lambda>b. fmt_malloc_bad (malloc_bad (b_conf b) \<or> orig_malloc_bad) b)
        in case fmt_parse fmt 0 False (fmt_spec_make fc) (b_conf b0) of (ok, specs, dollars, spare, conf) \<Rightarrow>
             let b1 = b0\<lparr>b_conf := conf\<rparr>; fc1 = fc\<lparr>fmt_spec_make := length specs + spare\<rparr> in
             if \<not> ok then Some (0, [], fc1, failed b1)
             else (case vstr__fmt_fillin_spec dollars 0 False specs args of
                     None \<Rightarrow> None
                   | Some (False, _) \<Rightarrow> Some (0, [], fc1, failed b1)
                   | Some (True, specs1) \<Rightarrow>
                       (case vstr__fmt_write_spec dbl (fc_loc fc) err pos_diff orig_len specs1 b1 of
                          (True, outs, b2) \<Rightarrow> Some (size_sub (b_len b2) orig_len, outs, fc1, fmt_malloc_bad orig_malloc_bad b2)
                        | (False, outs, b2) \<Rightarrow>
                            let n = size_sub (b_len b2) orig_len in
                            Some (0, outs, fc1, failed (if n \<noteq> 0 then snd (vstr_del b2 (pos + 1) n) else b2)))))"

section \<open>Conversions as writers\<close>

text \<open>
  What the loop over the conversions relies on: writing a conversion that is in order adds its text in front of the last bytes of the string.
\<close>

locale fmt_writer =
  fixes put :: "nat \<Rightarrow> fmt_spec \<Rightarrow> vstr_base \<Rightarrow> bool \<times> vstr_base"
    and text_of :: "fmt_spec \<Rightarrow> byte list"
    and spec_ok :: "fmt_spec \<Rightarrow> bool"
  assumes writes_text: "spec_ok spec \<Longrightarrow> writes pos_diff (text_of spec) (put pos_diff spec)"
begin

primrec write_all :: "nat \<Rightarrow> fmt_spec list \<Rightarrow> vstr_base \<Rightarrow> bool \<times> vstr_base" where
  "write_all pos_diff [] = Pair True"
| "write_all pos_diff (spec # specs) = (\<lambda>b. fmt_then (put pos_diff spec b) (write_all pos_diff specs))"

lemma write_all_writes: "\<forall>spec \<in> set specs. spec_ok spec \<Longrightarrow> writes pos_diff (concat (map text_of specs)) (write_all pos_diff specs)"
  by (induction specs) (auto intro: writes_none writes_then [OF writes_text])

end

interpretation num: fmt_writer "vstr__add_fmt_number loc" "fmt_number_text loc" "num_spec_ok loc" for loc
  by unfold_locales (rule writes_number)

interpretation chr: fmt_writer vstr__add_fmt_char fmt_char_text "\<lambda>spec. field_width spec < 2 ^ 31"
  by unfold_locales (rule writes_char)

interpretation cstr: fmt_writer "vstr__add_fmt_cstr loc" "fmt_cstr_text loc" "\<lambda>spec. field_width spec < 2 ^ 31 \<and> length (cstr_chars loc spec) \<le> UINT_MAX" for loc
  by unfold_locales (rule writes_cstr, auto)

text \<open>The text of a conversion, and which conversions have one: not those with floating point numbers or wide characters.\<close>

definition fmt_text :: "vstr_locale \<Rightarrow> byte list \<Rightarrow> fmt_spec \<Rightarrow> byte list" where
  "fmt_text loc err spec =
     (let c = fmt_code spec in
      if c = 0x63 then fmt_char_text spec
      else if c = 0x6D then fmt_cstr_text loc (spec\<lparr>sp_u := Data_str (Some err)\<rparr>)
      else if c = 0x73 then fmt_cstr_text loc spec
      else if c = 0x6E then []
      else fmt_number_text loc spec)"

definition fmt_spec_ok :: "vstr_locale \<Rightarrow> byte list \<Rightarrow> fmt_spec \<Rightarrow> bool" where
  "fmt_spec_ok loc err spec \<longleftrightarrow>
     (let c = fmt_code spec in
      if c = 0x63 then field_width spec < 2 ^ 31
      else if c = 0x6D then field_width spec < 2 ^ 31 \<and> length (cstr_chars loc (spec\<lparr>sp_u := Data_str (Some err)\<rparr>)) \<le> UINT_MAX
      else if c = 0x73 then field_width spec < 2 ^ 31 \<and> length (cstr_chars loc spec) \<le> UINT_MAX
      else if c = 0x6E then True
      else (c = 0x70 \<or> fmt_is_num c) \<and> num_spec_ok loc spec)"

interpretation conv: fmt_writer "fmt_write_one dbl loc err" "fmt_text loc err" "fmt_spec_ok loc err" for dbl loc err
proof
  fix spec :: fmt_spec and pos_diff
  let ?m = "spec\<lparr>sp_u := Data_str (Some err)\<rparr>"
  assume ok: "fmt_spec_ok loc err spec"
  consider (chr) "fmt_code spec = 0x63" | (err) "fmt_code spec = 0x6D" | (str) "fmt_code spec = 0x73" | (out) "fmt_code spec = 0x6E"
    | (num) "fmt_code spec = 0x70 \<or> fmt_is_num (fmt_code spec)"
    using ok by (auto simp: fmt_spec_ok_def Let_def split: if_splits)
  then show "writes pos_diff (fmt_text loc err spec) (fmt_write_one dbl loc err pos_diff spec)"
  proof cases
    case chr
    then show ?thesis using ok chr.writes_text [of spec pos_diff] by (simp add: fmt_spec_ok_def fmt_text_def fmt_write_one_def [abs_def])
  next
    case err
    then show ?thesis using ok cstr.writes_text [of ?m loc pos_diff] by (simp add: fmt_spec_ok_def fmt_text_def fmt_write_one_def [abs_def])
  next
    case str
    then show ?thesis using ok cstr.writes_text [of spec loc pos_diff] by (simp add: fmt_spec_ok_def fmt_text_def fmt_write_one_def [abs_def])
  next
    case out
    then show ?thesis
      using writes_none by (simp add: fmt_text_def fmt_write_one_def [abs_def] fmt_is_num_def fmt_is_dbl_def)
  next
    case num
    then have c: "fmt_code spec \<noteq> 0x63" "fmt_code spec \<noteq> 0x43" "fmt_code spec \<noteq> 0x6D" "fmt_code spec \<noteq> 0x73" "fmt_code spec \<noteq> 0x53" "fmt_code spec \<noteq> 0x6E"
      by (auto simp: fmt_is_num_def)
    then have "num_spec_ok loc spec" using ok by (simp add: fmt_spec_ok_def Let_def)
    then show ?thesis using num c num.writes_text [of loc spec pos_diff] by (simp add: fmt_text_def fmt_write_one_def [abs_def])
  qed
qed

lemma write_spec_all:
  "\<exists>outs. vstr__fmt_write_spec dbl loc err pos_diff orig_len specs base =
     (fst (conv.write_all dbl loc err pos_diff specs base), outs, snd (conv.write_all dbl loc err pos_diff specs base))"
proof (induction specs arbitrary: base)
  case (Cons spec specs)
  obtain ok b1 where b1: "fmt_write_one dbl loc err pos_diff spec base = (ok, b1)" by fastforce
  then show ?case using Cons [of b1] by (cases ok) (auto simp: fmt_then_def)
qed simp

section \<open>Whole formats\<close>

text \<open>The conversions of a format when no allocation fails, with their arguments.\<close>

function fmt_specs :: "byte list \<Rightarrow> nat \<Rightarrow> bool \<Rightarrow> fmt_spec list \<times> bool" where
  "fmt_specs fmt params dollars =
     (if fmt = [] then ([], dollars)
      else (case fmt_step fmt params dollars of
              (None, _, _, dollars1) \<Rightarrow> ([], dollars1)
            | (Some spec, fmt1, params1, dollars1) \<Rightarrow> apfst (Cons spec) (fmt_specs fmt1 params1 dollars1)))"
  by pat_completeness auto
termination
  by (relation "measure (\<lambda>(fmt, _). length fmt)") (auto dest: fmt_step_less [OF sym])

declare fmt_specs.simps [simp del]

definition fmt_with_args :: "byte list \<Rightarrow> fmt_arg list \<Rightarrow> fmt_spec list option" where
  "fmt_with_args fmt args =
     (case fmt_specs fmt 0 False of (specs, dollars) \<Rightarrow>
        (case vstr__fmt_fillin_spec dollars 0 False specs args of Some (True, specs1) \<Rightarrow> Some specs1 | _ \<Rightarrow> None))"

text \<open>Making specifications only counts allocations.\<close>

definition made :: "nat \<Rightarrow> vstr_conf \<Rightarrow> vstr_conf" where
  "made n conf = conf\<lparr>heap := (heap conf)\<lparr>mk_cnt := mk_cnt (heap conf) + n\<rparr>\<rparr>"

lemma made_simps [simp]: "made 0 conf = conf" "made n (made m conf) = made (m + n) conf" "mk_never_fails (made n conf) = mk_never_fails conf"
  "heap (made n conf) = (heap conf)\<lparr>mk_cnt := mk_cnt (heap conf) + n\<rparr>"
  by (simp_all add: made_def mk_never_fails_def add.assoc)

lemma fmt_add_spec_succeeds: "mk_never_fails conf \<Longrightarrow> vstr__fmt_add_spec conf = (True, made 1 conf)"
  by (simp add: vstr__fmt_add_spec_def VSTR_MK_def mk_never_fails_def made_def)

lemma fmt_parse_specs:
  assumes "mk_never_fails conf"
  shows "\<exists>spare1 n. fmt_parse fmt params dollars spare conf = (True, fst (fmt_specs fmt params dollars), snd (fmt_specs fmt params dollars), spare1, made n conf)"
  using assms
proof (induction fmt params dollars arbitrary: spare conf rule: fmt_specs.induct)
  case (1 fmt params dollars)
  show ?case
  proof (cases "fmt = []")
    case True
    have "(True, [], dollars, spare, conf) = (True, [], dollars, spare, made 0 conf)" by simp
    then show ?thesis using True by (subst fmt_parse.simps, subst (1 2) fmt_specs.simps) (simp del: made_simps(1), blast)
  next
    case False
    obtain k where k: "(if spare = 0 then vstr__fmt_add_spec conf else (True, conf)) = (True, made k conf)"
      using fmt_add_spec_succeeds [OF 1(2)] made_simps(1) [of conf] by (metis (full_types))
    obtain so fmt1 params1 dollars1 where st: "fmt_step fmt params dollars = (so, fmt1, params1, dollars1)" by (metis surj_pair)
    show ?thesis
    proof (cases so)
      case None
      then show ?thesis using False k st by (subst fmt_parse.simps, subst (1 2) fmt_specs.simps) auto
    next
      case (Some spec)
      obtain spare1 n where "fmt_parse fmt1 params1 dollars1 (spare - 1) (made k conf) =
          (True, fst (fmt_specs fmt1 params1 dollars1), snd (fmt_specs fmt1 params1 dollars1), spare1, made n (made k conf))"
        using 1(1) [OF False st [symmetric] Some refl refl, of "made k conf" "spare - 1"] 1(2) by auto
      then show ?thesis using False k st Some by (subst fmt_parse.simps, subst (1 2) fmt_specs.simps) auto
    qed
  qed
qed

lemma inv_conf_heap:
  assumes "vstr_inv b" "mk_cnt (heap (b_conf b)) \<le> mk_cnt h"
  shows "vstr_inv (b\<lparr>b_conf := (b_conf b)\<lparr>malloc_bad := m, heap := h\<rparr>\<rparr>)"
proof -
  let ?c = "(b_conf b)\<lparr>malloc_bad := m, heap := h\<rparr>"
  have "wf_base (b\<lparr>b_conf := ?c\<rparr>)"
    using assms(1) by (intro conf_same_wf) (auto simp: vstr_inv_def wf_base_iff conf_same_def vstr__check_spare_nodes_def)
  moreover have "ids_of ?c (b_nodes b) = ids_of (b_conf b) (b_nodes b)" by (simp add: ids_of_def pool_ids_def)
  then have "ids_ok ?c (b_nodes b)" using assms by (fastforce simp: vstr_inv_def ids_ok_def)
  ultimately show ?thesis using assms(1) by (simp add: vstr_inv_def)
qed

lemma vstr_data_conf [simp]: "vstr_data (b\<lparr>b_conf := c\<rparr>) = vstr_data b"
  by (simp add: vstr_data_def)

lemma sysfmt_spec:
  assumes base: "vstr_inv base" "mk_never_fails (b_conf base)" "pos \<le> b_len base" and specs: "fmt_with_args fmt args = Some specs"
    and ok: "\<forall>s \<in> set specs. fmt_spec_ok (fc_loc fc) err s" and t: "t = concat (map (fmt_text (fc_loc fc) err) specs)"
    and len: "b_len base + length t < 2 ^ 63"
  shows "\<exists>outs n b. vstr_add_sysfmt dbl err fc base pos fmt args = Some (length t, outs, fc\<lparr>fmt_spec_make := n\<rparr>, b) \<and> vstr_inv b \<and> stays base b \<and>
    b_len b = b_len base + length t \<and> vstr_data b = ins_at pos (map Some t) (vstr_data base)"
proof -
  let ?b0 = "fmt_malloc_bad False base" and ?S = "fmt_specs fmt 0 False"
  have sp: "vstr__fmt_fillin_spec (snd ?S) 0 False (fst ?S) args = Some (True, specs)"
    using specs by (auto simp: fmt_with_args_def split: prod.splits option.splits bool.splits)
  have mk0: "mk_never_fails (b_conf ?b0)" using base(2) by (simp add: fmt_malloc_bad_def mk_never_fails_def)
  obtain spare n where parse: "fmt_parse fmt 0 False (fmt_spec_make fc) (b_conf ?b0) = (True, fst ?S, snd ?S, spare, made n (b_conf ?b0))"
    using fmt_parse_specs [OF mk0] by blast
  define b1 where "b1 = ?b0\<lparr>b_conf := made n (b_conf ?b0)\<rparr>"
  have b1: "vstr_inv b1" "b_len b1 = b_len base" "vstr_data b1 = vstr_data base" "mk_never_fails (b_conf b1)" "stays base b1"
    using inv_conf_heap [OF base(1), of "heap (made n (b_conf base))" False] base(2)
    by (simp_all add: b1_def fmt_malloc_bad_def made_def mk_never_fails_def stays_def conf_stays_def)
  let ?d = "b_len base - pos"
  have d: "size_sub (b_len base) pos = ?d" using base(3) len by (intro size_sub_le) auto
  have "fmt_ready ?d (length t + 0) b1" using b1 len by (simp add: fmt_ready_def)
  then obtain b2 where b2: "conv.write_all dbl (fc_loc fc) err ?d specs b1 = (True, b2)" "fmt_ready ?d 0 b2" "b_len b2 = b_len b1 + length t" "stays b1 b2"
      "vstr_data b2 = ins_at (b_len b1 - ?d) (map Some t) (vstr_data b1)"
    using conv.write_all_writes [OF ok, of ?d dbl] unfolding t writes_def by blast
  then obtain outs where w: "vstr__fmt_write_spec dbl (fc_loc fc) err ?d (b_len base) specs b1 = (True, outs, b2)"
    using write_spec_all [of dbl "fc_loc fc" err ?d "b_len base" specs b1] by auto
  have n: "size_sub (b_len b2) (b_len base) = length t" using b2(3) b1(2) len size_sub_le [of "b_len base" "b_len b2"] by simp
  let ?b3 = "fmt_malloc_bad (malloc_bad (b_conf base)) b2"
  have "vstr_add_sysfmt dbl err fc base pos fmt args = Some (length t, outs, fc\<lparr>fmt_spec_make := length (fst ?S) + spare\<rparr>, ?b3)"
    using base(3) parse sp w n d by (simp add: vstr_add_sysfmt_def Let_def b1_def)
  moreover have "(b_conf b2)\<lparr>malloc_bad := m\<rparr> = (b_conf b2)\<lparr>malloc_bad := m, heap := heap (b_conf b2)\<rparr>" for m
    by (cases "b_conf b2") simp
  then have "vstr_inv ?b3"
    using inv_conf_heap [of b2 "heap (b_conf b2)" "malloc_bad (b_conf base)"] b2(2) by (simp add: fmt_ready_def fmt_malloc_bad_def)
  moreover have "stays base ?b3"
    using stays_trans [OF b1(5) b2(4)] by (simp add: fmt_malloc_bad_def stays_def conf_stays_def)
  moreover have "b_len b1 - ?d = pos" using b1(2) base(3) by simp
  ultimately show ?thesis using b2(3,5) b1(2,3) by (auto simp: fmt_malloc_bad_def)
qed

text \<open>
  A failed allocation of a specification is not recorded: \<^verbatim>\<open>vstr_add_sysfmt()\<close> returns 0 and \<^verbatim>\<open>malloc_bad\<close> stays as it was.
\<close>

lemma sysfmt_alloc_not_recorded:
  assumes "pos \<le> b_len base" "fmt \<noteq> []" "fmt_spec_make fc = 0" "mk_fail (heap (b_conf base)) (mk_cnt (heap (b_conf base)))"
  shows "\<exists>b. vstr_add_sysfmt dbl err fc base pos fmt args = Some (0, [], fc, b) \<and> malloc_bad (b_conf b) = malloc_bad (b_conf base)"
proof -
  have "vstr__fmt_add_spec (b_conf (fmt_malloc_bad False base)) =
      (False, (b_conf (fmt_malloc_bad False base))\<lparr>heap := (heap (b_conf base))\<lparr>mk_cnt := Suc (mk_cnt (heap (b_conf base)))\<rparr>\<rparr>)"
    using assms(4) by (simp add: vstr__fmt_add_spec_def VSTR_MK_def fmt_malloc_bad_def)
  moreover have "fc\<lparr>fmt_spec_make := 0\<rparr> = fc" using assms(3) by (cases fc) simp
  ultimately show ?thesis
    using assms(1-3) by (subst vstr_add_sysfmt_def, subst fmt_parse.simps) (simp add: Let_def fmt_malloc_bad_def)
qed

section \<open>Properties\<close>

text \<open>
  C10. Numbers. On a string that satisfies the invariant, with memory available, \<^verbatim>\<open>vstr__add_fmt_number()\<close> returns TRUE, keeps the invariant and
  puts the text of the number in front of the last \<open>pos_diff\<close> bytes: the digits of the number in its base, in the groups of the locale if asked
  for, filled up with zeros to the precision, with the sign, the prefix 0x or one 0 more for octal numbers, and filled up to the field width on
  the right, with zeros behind the prefix or on the left.
\<close>

theorem fmt_number_correct:
  assumes "vstr_inv base" "mk_never_fails (b_conf base)" "pos_diff \<le> b_len base" "num_spec_ok loc spec"
    and "b_len base + length (fmt_number_text loc spec) < 2 ^ 63"
  shows "\<exists>b. vstr__add_fmt_number loc pos_diff spec base = (True, b) \<and> vstr_inv b \<and>
    vstr_data b = ins_at (b_len base - pos_diff) (map Some (fmt_number_text loc spec)) (vstr_data base)"
proof -
  have "fmt_ready pos_diff (length (fmt_number_text loc spec) + 0) base" using assms by (simp add: fmt_ready_def)
  then show ?thesis using num.writes_text [OF assms(4), of pos_diff] unfolding writes_def by (meson fmt_ready_def)
qed

text \<open>A locale with groups of three digits.\<close>

definition ex_loc :: vstr_locale where
  "ex_loc = \<lparr>num_beg = [], num_def = \<lparr>ln_num_base = 0, ln_grouping = [3], ln_thousands_sep = [0x2C]\<rparr>, null_ref = [0x28, 0x6E, 0x75, 0x6C, 0x6C, 0x29]\<rparr>"

theorem fmt_number_correct_witness:
  "vstr_data (snd (vstr__add_fmt_number ex_loc 5
     (vstr__fmt_init_spec\<lparr>sp_u := Data_num 1234, fmt_code := 0x64, fl_SIGN := True, fl_NUM_IS_NEGATIVE := True, fl_THOUSAND_SEP := True,
        fl_ZEROPAD := True, field_width_usr := True, field_width := 8\<rparr>) ex_abc)) =
   map Some ([97] @ [0x2D, 0x30, 0x30, 0x31, 0x2C, 0x32, 0x33, 0x34] @ [98, 99, 100, 101, 102])"
proof -
  let ?spec = "vstr__fmt_init_spec\<lparr>sp_u := Data_num 1234, fmt_code := 0x64, fl_SIGN := True, fl_NUM_IS_NEGATIVE := True, fl_THOUSAND_SEP := True,
        fl_ZEROPAD := True, field_width_usr := True, field_width := 8\<rparr>"
  have ds: "digits_of (chrs_base False) 10 1234 = [0x31, 0x32, 0x33, 0x34]" by (simp add: digits_of.simps chrs_base_def upt_rec nth_append)
  have "fmt_body ex_loc ?spec = [0x31, 0x2C, 0x32, 0x33, 0x34]"
    using ds by (simp add: fmt_body_def fmt_value_def vstr__fmt_init_spec_def fmt_uses_sep_def vstr__loc_num_srch_def ex_loc_def grouped.simps
        vstr__add_fmt_grouping_mod_def grouping_loop.simps)
  moreover from this have "fmt_number_text ex_loc ?spec = [0x2D, 0x30, 0x30, 0x31, 0x2C, 0x32, 0x33, 0x34]"
    by (simp add: fmt_number_text_def fmt_prefix_def fmt_core_def vstr__fmt_init_spec_def numeral_2_eq_2)
  ultimately show ?thesis
    using fmt_number_correct [of ex_abc 5 ex_loc ?spec]
    by (auto simp: num_spec_ok_def vstr__fmt_init_spec_def vstr__loc_num_srch_def ex_loc_def UINT_MAX_def ins_at_def)
qed


lemmas fmt_eval = fmt_with_args_def fmt_specs.simps fmt_step_def fmt_hd_def vstr__add_fmt_spec_def fmt_param_def fmt_width_def fmt_precision_def
  VSTR__ADD_FMT_ISDIGIT_def VSTR__ADD_FMT_STRTOL_def dec_digits_def fmt_int_type_def fmt_conversion_def vstr__fmt_init_spec_def
  vstr__fmt_fillin_spec.simps fmt_filled_def fill_width_def fill_precision_def fill_main_def fmt_take_def fmt_is_num_def fmt_member_def
  VSTR__FMT_ARG_NUM_def fmt_bits_def fmt_reads_def Let_def

lemmas text_eval = fmt_text_def fmt_is_num_def fmt_number_text_def fmt_prefix_def fmt_core_def fmt_body_def fmt_uses_sep_def fmt_value_def digits_of.simps
  chrs_base_def fmt_cstr_text_def cstr_chars_def padded_def fmt_char_text_def Let_def


section \<open>Where the formats differ from C\<close>

text \<open>
  An argument that is used twice is taken once, and only the conversion that takes it learns that the number is negative: \<^verbatim>\<open>%1$d%1$d\<close> of -5
  gives -55.
\<close>

lemma fmt_argument_twice:
  "map_option (\<lambda>specs. concat (map (fmt_text ex_loc []) specs)) (fmt_with_args [0x25, 0x31, 0x24, 0x64, 0x25, 0x31, 0x24, 0x64] [Arg_num (- 5)]) =
   Some [0x2D, 0x35, 0x35]"
  by (simp add: fmt_eval text_eval upt_rec nth_append)

text \<open>A field width larger than the precision of a string is cut: \<^verbatim>\<open>%6.3s\<close> of abcdef gives abc without spaces.\<close>

lemma fmt_width_cut:
  "map_option (\<lambda>specs. concat (map (fmt_text ex_loc []) specs))
     (fmt_with_args [0x25, 0x36, 0x2E, 0x33, 0x73] [Arg_str (Some [97, 98, 99, 100, 101, 102])]) = Some [97, 98, 99]"
  by (simp add: fmt_eval text_eval upt_rec nth_append)

text \<open>A \<^verbatim>\<open>ptrdiff_t\<close> is always taken as signed: \<^verbatim>\<open>%tx\<close> of -1 gives 1.\<close>

lemma fmt_ptrdiff_unsigned:
  "map_option (\<lambda>specs. concat (map (fmt_text ex_loc []) specs)) (fmt_with_args [0x25, 0x74, 0x78] [Arg_num (- 1)]) = Some [0x31]"
  by (simp add: fmt_eval text_eval upt_rec nth_append)

end
