(* ===== verification/Vstr_Netstr.thy ===== *)
theory Vstr_Netstr
  imports Vstr_Uri Vstr_Fmt
begin

text \<open>
  Netstrings: \<^verbatim>\<open>src/vstr_add_netstr.c\<close> and \<^verbatim>\<open>src/vstr_parse_netstr.c\<close>. A netstring is the length of its data in decimal digits, a
  colon, the data and a comma; the second form may have zeros in front of the length. It is added in two steps: the first writes a length of
  the largest size and the colon, the application then adds the data, and the second step puts in the length and the comma. \<^verbatim>\<open>long\<close> and
  \<^verbatim>\<open>size_t\<close> have 64 bits.
\<close>

section \<open>Adding\<close>

text \<open>The number of digits of \<^verbatim>\<open>ULONG_MAX\<close>.\<close>

definition VSTR__ULONG_MAX_LEN :: nat where "VSTR__ULONG_MAX_LEN = 20"

text \<open>The format is \<^verbatim>\<open>%lu%c\<close>; its arguments are \<^verbatim>\<open>ULONG_MAX\<close> and the colon.\<close>

definition vstr_add_netstr2_beg :: "dbl_func \<Rightarrow> byte list \<Rightarrow> fmt_conf \<Rightarrow> vstr_base \<Rightarrow> nat \<Rightarrow> (nat \<times> fmt_conf \<times> vstr_base) option" where
  "vstr_add_netstr2_beg dbl err fc base pos =
     (if pos > b_len base then Some (0, fc, base)
      else (case vstr_add_sysfmt dbl err fc base pos [0x25, 0x6C, 0x75, 0x25, 0x63] [Arg_num (2 ^ 64 - 1), Arg_num 0x3A] of
              None \<Rightarrow> None
            | Some (tmp, _, fc1, b1) \<Rightarrow> Some (if tmp = 0 then 0 else pos + 1, fc1, b1)))"

text \<open>The digits of the length are written from the end of a buffer to its front: \<open>ds\<close> are the bytes of the buffer behind \<^verbatim>\<open>*count\<close>.\<close>

fun netstr_digits :: "nat \<Rightarrow> byte list \<Rightarrow> byte list" where
  "netstr_digits len ds = (if len = 0 then ds else netstr_digits (len div 10) (of_nat (0x30 + len mod 10) # ds))"

declare netstr_digits.simps [simp del]

definition vstr__netstr_end_start :: "vstr_base \<Rightarrow> nat \<Rightarrow> nat \<Rightarrow> byte list option \<times> vstr_base" where
  "vstr__netstr_end_start base beg_pos end_pos =
     (if \<not> beg_pos < end_pos then (None, base)
      else if \<not> end_pos \<le> b_len base then (None, base)
      else if \<not> vstr_sc_posdiff beg_pos end_pos > VSTR__ULONG_MAX_LEN then (None, base)
      else
        let len = end_pos - (beg_pos + VSTR__ULONG_MAX_LEN) in
        (case vstr_add_rep_chr base end_pos 0x2C 1 of
           (False, b1) \<Rightarrow> (None, b1)
         | (True, b1) \<Rightarrow> (Some (netstr_digits len []), b1)))"

definition vstr_add_netstr2_end :: "vstr_base \<Rightarrow> nat \<Rightarrow> nat \<Rightarrow> bool \<times> vstr_base" where
  "vstr_add_netstr2_end base netstr_beg_pos netstr_end_pos =
     (case vstr__netstr_end_start base netstr_beg_pos netstr_end_pos of
        (None, b1) \<Rightarrow> (False, b1)
      | (Some buf, b1) \<Rightarrow>
          let count = VSTR__ULONG_MAX_LEN - length buf;
              b2 = snd (vstr_sub_buf b1 netstr_beg_pos count (replicate count 0x30));
              b3 = snd (vstr_sub_buf b2 (netstr_beg_pos + count) (VSTR__ULONG_MAX_LEN - count) buf)
          in (True, b3))"

definition vstr_add_netstr_beg :: "dbl_func \<Rightarrow> byte list \<Rightarrow> fmt_conf \<Rightarrow> vstr_base \<Rightarrow> nat \<Rightarrow> (nat \<times> fmt_conf \<times> vstr_base) option" where
  "vstr_add_netstr_beg dbl err fc base pos = vstr_add_netstr2_beg dbl err fc base pos"

definition vstr_add_netstr_end :: "vstr_base \<Rightarrow> nat \<Rightarrow> nat \<Rightarrow> bool \<times> vstr_base" where
  "vstr_add_netstr_end base netstr_beg_pos netstr_end_pos =
     (case vstr__netstr_end_start base netstr_beg_pos netstr_end_pos of
        (None, b1) \<Rightarrow> (False, b1)
      | (Some buf0, b1) \<Rightarrow>
          let buf = (if VSTR__ULONG_MAX_LEN - length buf0 = VSTR__ULONG_MAX_LEN then [0x30] else buf0);
              count = VSTR__ULONG_MAX_LEN - length buf;
              (ok, b2) = (if count \<noteq> 0 then vstr_del b1 netstr_beg_pos count else (True, b1))
          in if \<not> ok then (False, snd (vstr_del b2 (netstr_end_pos + 1) 1))
             else (True, snd (vstr_sub_buf b2 netstr_beg_pos (VSTR__ULONG_MAX_LEN - count) buf)))"

section \<open>Parsing\<close>

text \<open>The value is the length of the netstring, and the position and the length of its data.\<close>

definition vstr__parse_netstr :: "vstr_base \<Rightarrow> nat \<Rightarrow> nat \<Rightarrow> bool \<Rightarrow> (nat \<times> nat \<times> nat) \<times> vstr_base" where
  "vstr__parse_netstr base pos len netstr2 =
     (case vstr_parse_ulong base pos len (if netstr2 then 10 + 0x100 else 10 + 0x100 + 0x400) of
        ((ret_len, num_len, _), b1) \<Rightarrow>
          if num_len = 0 \<or> num_len = len then ((0, 0, 0), b1)
          else (case vstr_export_chr b1 (pos + num_len) of
                  (c, b2) \<Rightarrow>
                    if c \<noteq> 0x3A then ((0, 0, 0), b2)
                    else
                      let ret_pos = pos + num_len + 1;
                          ret_data_len = unat ret_len;
                          ret = unat (ret_len + of_nat (num_len + 2))
                      in if ret > len then ((0, ret_pos, ret_data_len), b2)
                         else (case vstr_export_chr b2 ((size_sub pos 1 + ret) mod 2 ^ 64) of
                                 (c2, b3) \<Rightarrow> ((if c2 \<noteq> 0x2C then 0 else ret, ret_pos, ret_data_len), b3))))"

definition vstr_parse_netstr2 :: "vstr_base \<Rightarrow> nat \<Rightarrow> nat \<Rightarrow> (nat \<times> nat \<times> nat) \<times> vstr_base" where
  "vstr_parse_netstr2 base pos len = vstr__parse_netstr base pos len True"

definition vstr_parse_netstr :: "vstr_base \<Rightarrow> nat \<Rightarrow> nat \<Rightarrow> (nat \<times> nat \<times> nat) \<times> vstr_base" where
  "vstr_parse_netstr base pos len = vstr__parse_netstr base pos len False"

section \<open>Numbers in front of other text\<close>

context digit_calc
begin

text \<open>The word is the number of the digits with wrap-around, whether or not an overflow is noticed.\<close>

lemma run_word: "fst (digits_run flags b ds ret err) = of_nat (foldl (\<lambda>v c. v * b + the (num_digit flags b c)) (unat ret) ds)"
proof -
  have "fst (digits_run flags b ds (of_nat v) err) = of_nat (foldl (\<lambda>v c. v * b + the (num_digit flags b c)) v ds)" for v
  proof (induction ds arbitrary: v err)
    case (Cons c cs)
    show ?case using Cons [of "v * b + the (num_digit flags b c)"] by (simp add: Let_def)
  qed simp
  from this [of "unat ret"] show ?thesis by simp
qed

lemma loop_stop:
  assumes "iter_inv it" "iter_rest it = map Some (ds @ c # rest)" "\<forall>c \<in> set ds. num_digit flags b c \<noteq> None" "2 \<le> b" "b \<le> 36"
    and "num_digit flags b c = None" "c \<noteq> 0x5F"
  shows "num_loop (calc flags) flags b it (length (ds @ c # rest)) done ret err =
    (fst (digits_run flags b ds ret err), Suc (length rest), snd (digits_run flags b ds ret err), False)"
  using assms(1-3)
proof (induction ds arbitrary: it "done" ret err)
  case Nil
  obtain x t j where j: "vstr_iter_fwd_chr it = (x, t, j)" by (cases "vstr_iter_fwd_chr it")
  have "x = c" using iter_fwd_chr_spec [OF Nil(1)] Nil(2) j by simp
  then show ?case using j assms(6,7) by simp
next
  case (Cons d cs)
  obtain x t j where j: "vstr_iter_fwd_chr it = (x, t, j)" by (cases "vstr_iter_fwd_chr it")
  have x: "x = d" "iter_inv j" "iter_rest j = map Some (cs @ c # rest)" using iter_fwd_chr_spec [OF Cons.prems(1)] Cons.prems(2) j by simp_all
  obtain a where a: "num_digit flags b d = Some a" using Cons.prems(3) by auto
  define n where "n = length (cs @ c # rest)"
  have "a < b" "d \<noteq> 0x5F" "length ((d # cs) @ c # rest) = Suc n" using num_digit_char [OF a assms(4,5)] by (simp_all add: n_def)
  then show ?case
    using x j a Cons.IH [OF x(2,3), folded n_def] Cons.prems(3) by (simp add: calc_step [OF assms(4,5)])
qed

text \<open>A number with zeros in front that ends before the range does.\<close>

lemma parse_upto:
  assumes beg: "vstr__parse_num_beg base pos len flags =
      (\<lparr>nb_base = b, nb_pos = pos + z, nb_len = length (ds @ c # rest), nb_neg = False, nb_zeroed = zd, nb_err = e\<rparr>, b1)"
      "same_but_cache base b1" "vstr_inv b1"
    and rng: "in_range base pos len" "range_data base pos len = map Some (zs @ ds @ c # rest)" "length zs = z"
    and dig: "\<forall>c \<in> set ds. num_digit flags b c \<noteq> None" "2 \<le> b" "b \<le> 36" "num_digit flags b c = None" "c \<noteq> 0x5F"
  shows "\<exists>e b2. parse_unsigned calc base pos len flags = ((of_nat (num_value flags b ds), z + length ds, e), b2) \<and> same_but_cache base b2 \<and> vstr_inv b2"
proof -
  let ?n = "length (ds @ c # rest)"
  have len: "len = z + ?n" using range_data_length [OF rng(1)] rng(3) unfolding rng(2) by simp
  note fr = reads_frame(1,2) [OF beg(2,3)]
  have "in_range b1 (pos + z) ?n" using fr(1) [OF rng(1)] len by (simp add: in_range_def)
  moreover have "range_data b1 (pos + z) ?n = map Some (ds @ c # rest)"
  proof -
    have "pos + z - 1 = pos - 1 + length zs" using rng(1,3) by (simp add: in_range_def)
    then have "range_data b1 (pos + z) ?n = range_data base (pos + length zs) ?n" using fr(2) [of ?n "pos + z"] rng(3) by simp
    then show ?thesis
      using range_rest [of len "pos - 1" "vstr_data base" "map Some zs" "map Some (ds @ c # rest)"] rng(1-3) len by (simp add: in_range_def)
  qed
  ultimately obtain it b2 where it: "vstr_iter_fwd_beg b1 (pos + z) ?n = (Some it, b2)" "iter_inv it" "iter_rest it = map Some (ds @ c # rest)"
      "same_but_cache b1 b2" "vstr_inv b2"
    using fwd_beg_range [of b1 "pos + z" ?n] by (metis Nil_is_append_conv length_0_conv list.distinct(1))
  have "num_loop (calc flags) flags b it ?n zd 0 e = (of_nat (num_value flags b ds), Suc (length rest), snd (digits_run flags b ds 0 e), False)"
    using loop_stop [OF it(2,3) dig, of zd 0 e] run_word [of flags b ds 0 e] by (simp add: num_value_def)
  then show ?thesis
    using beg(1) it(1,5) dig(2) len same_but_cache_trans [OF beg(2) it(4)] by (simp add: parse_unsigned_def)
qed

end

section \<open>Decimal numbers\<close>

text \<open>The flags of both forms: base 10 and a check for overflows, whose outcome is not looked at.\<close>

lemma netstr_flags:
  assumes "flags = (if two then 10 + 0x100 else 10 + 0x100 + 0x400)"
  shows "unat (and flags MASK_PARSE_NUM_BASE) = 10" "bit flags NUM_NO_BEG_ZERO \<longleftrightarrow> \<not> two"
  using assms by (auto simp: MASK_PARSE_NUM_BASE_def)

lemma spn_zeros:
  assumes "in_range base pos len" "range_data base pos len = map Some (replicate z 0x30 @ ts)" "ts = [] \<or> hd ts \<noteq> 0x30"
  obtains b1 where "vstr_spn_chrs_fwd base pos len (Some [0x30]) 1 = (z, b1)" "same_but_cache base b1" "vstr_inv b1"
proof -
  have "fst (vstr_spn_chrs_fwd base pos len (Some [0x30]) 1) = z"
    using spn_chrs_fwd_eq(1) [OF assms(1), of "Some [0x30]" 1] assms(2,3)
    by (cases ts) (simp_all add: buf_holds_def chr_set_def takeWhile_append)
  then show thesis using spn_chrs_fwd_frame [OF assms(1), of "Some [0x30]" 1] that by (metis prod.collapse)
qed

text \<open>The start of a decimal number with \<open>z\<close> zeros in front.\<close>

lemma num_beg_10:
  assumes rng: "in_range base pos len" and tx: "range_data base pos len = map Some (replicate z 0x30 @ ts)"
      "ts = [] \<or> hd ts \<noteq> 0x30 \<and> 0x30 \<le> sint (hd ts)" "len \<noteq> 0"
    and b: "unat (and flags MASK_PARSE_NUM_BASE) = 10"
  obtains b1 where "vstr__parse_num_beg base pos len flags =
      (num_zeros \<lparr>nb_base = 10, nb_pos = pos, nb_len = len, nb_neg = False, nb_zeroed = z \<noteq> 0, nb_err = NUM_ERR_NONE\<rparr> z flags, b1)"
    "same_but_cache base b1" "vstr_inv b1"
proof -
  have ne: "replicate z 0x30 @ ts \<noteq> []" using range_data_length [OF rng] tx(1,3) by auto
  then have hd: "0x30 \<le> sint (hd (replicate z 0x30 @ ts))" using tx(2) by (cases z) auto
  obtain c1 c2 where c: "num_space base pos len flags = (Inr (pos, len), c1)" "num_sign c1 pos len flags = (Inr (False, pos, len), c2)"
      "same_but_cache base c2" "vstr_inv c2" "len \<noteq> 0"
    using num_start [OF rng tx(1) ne hd] by blast
  note fr = reads_frame(1,2) [OF c(3,4)]
  obtain c3 where c3: "vstr_spn_chrs_fwd c2 pos len (Some [0x30]) 1 = (z, c3)" "same_but_cache c2 c3" "vstr_inv c3"
    using spn_zeros [OF fr(1) [OF rng], of z ts] tx(1,2) fr(2) by metis
  then show thesis
    using that [of c3] c b same_but_cache_trans [OF c(3) c3(2)] by (simp add: vstr__parse_num_beg_def num_prefix_def Let_def)
qed

lemma digit_char:
  assumes "n < 10"
  shows "num_digit flags 10 (of_nat (0x30 + n)) = Some n"
proof -
  have "\<forall>n \<in> set [0..<10]. num_digit flags 10 (of_nat (0x30 + n)) = Some n" by (simp add: upt_rec digit_10)
  then show ?thesis using assms by simp
qed

text \<open>The digits of a length: a number without zeros in front that has this value.\<close>

lemma netstr_digits_append: "netstr_digits n ds = netstr_digits n [] @ ds"
proof (induction n arbitrary: ds rule: less_induct)
  case (less n)
  show ?case
  proof (cases "n = 0")
    case False
    then show ?thesis
      using less [of "n div 10" "of_nat (0x30 + n mod 10) # ds"] less [of "n div 10" "[of_nat (0x30 + n mod 10)]"]
      by (simp add: netstr_digits.simps [of n])
  qed (simp add: netstr_digits.simps)
qed

lemma netstr_digits_step: "n \<noteq> 0 \<Longrightarrow> netstr_digits n [] = netstr_digits (n div 10) [] @ [of_nat (0x30 + n mod 10)]"
  using netstr_digits_append [of "n div 10" "[of_nat (0x30 + n mod 10)]"] by (simp add: netstr_digits.simps [of n])

lemma netstr_digits_value:
  "num_value flags 10 (netstr_digits n []) = n \<and> (\<forall>c \<in> set (netstr_digits n []). num_digit flags 10 c \<noteq> None) \<and>
   (n \<noteq> 0 \<longrightarrow> netstr_digits n [] \<noteq> [] \<and> hd (netstr_digits n []) \<noteq> 0x30)"
proof (induction n rule: less_induct)
  case (less n)
  show ?case
  proof (cases "n = 0")
    case False
    have "num_digit flags 10 (of_nat (0x30 + n mod 10)) = Some (n mod 10)" by (rule digit_char) simp
    moreover have "num_digit flags 10 0x30 = Some 0" by (simp add: digit_10)
    ultimately have "n div 10 = 0 \<Longrightarrow> (of_nat (0x30 + n mod 10) :: byte) \<noteq> 0x30" using False by (metis mod_div_trivial option.inject div_mult_mod_eq mult_zero_left add_0)
    then show ?thesis
      using less [of "n div 10"] False \<open>num_digit flags 10 (of_nat (0x30 + n mod 10)) = Some (n mod 10)\<close>
      by (cases "n div 10 = 0") (simp_all add: netstr_digits_step [OF False] num_value_def netstr_digits.simps [of 0])
  qed (simp add: netstr_digits.simps num_value_def)
qed

lemma netstr_digits_length: "n < 10 ^ k \<Longrightarrow> length (netstr_digits n []) \<le> k"
proof (induction k arbitrary: n)
  case (Suc k)
  show ?case
  proof (cases "n = 0")
    case False
    have "n div 10 < 10 ^ k" using Suc.prems by (simp add: div_less_iff_less_mult mult.commute)
    then show ?thesis using Suc.IH [of "n div 10"] by (simp add: netstr_digits_step [OF False])
  qed (simp add: netstr_digits.simps)
qed (simp add: netstr_digits.simps)

section \<open>The text of a netstring\<close>

definition netstr_num :: "bool \<Rightarrow> nat \<Rightarrow> byte list" where
  "netstr_num two n =
     (let ds = netstr_digits n [] in
      if two then replicate (VSTR__ULONG_MAX_LEN - length ds) 0x30 @ ds else if n = 0 then [0x30] else ds)"

definition netstr_text :: "bool \<Rightarrow> byte list \<Rightarrow> byte list" where
  "netstr_text two bs = netstr_num two (length bs) @ 0x3A # bs @ [0x2C]"

lemma number_parsed:
  assumes rng: "in_range base pos len" and tx: "range_data base pos len = map Some (replicate z 0x30 @ ds @ 0x3A # rest)"
    and ds: "ds = netstr_digits n []" and fl: "unat (and flags MASK_PARSE_NUM_BASE) = 10" "z \<noteq> 0 \<longrightarrow> \<not> bit flags NUM_NO_BEG_ZERO"
  shows "\<exists>e b2. vstr_parse_ulong base pos len flags = ((of_nat n, z + length ds, e), b2) \<and> same_but_cache base b2 \<and> vstr_inv b2"
proof -
  note v = netstr_digits_value [of flags n, folded ds]
  obtain c t where c: "ds @ 0x3A # rest = c # t" "c \<noteq> 0x30" "0x30 \<le> sint c"
  proof (cases "n = 0")
    case True
    then show thesis using that [of "0x3A" rest] by (simp add: ds netstr_digits.simps)
  next
    case False
    then obtain d es where "ds = d # es" "d \<noteq> 0x30" "num_digit flags 10 d \<noteq> None" using v by (cases ds) auto
    then show thesis using that [of d "es @ 0x3A # rest"] num_digit_char(2) [of flags 10 d] by auto
  qed
  have len: "len = z + length (ds @ 0x3A # rest)" using range_data_length [OF rng] unfolding tx by simp
  have nd: "num_digit flags 10 0x3A = None" by (simp add: digit_10)
  obtain b1 where b1: "vstr__parse_num_beg base pos len flags =
      (num_zeros \<lparr>nb_base = 10, nb_pos = pos, nb_len = len, nb_neg = False, nb_zeroed = z \<noteq> 0, nb_err = NUM_ERR_NONE\<rparr> z flags, b1)"
      "same_but_cache base b1" "vstr_inv b1"
    using num_beg_10 [OF rng tx _ _ fl(1)] c len by auto
  then have "vstr__parse_num_beg base pos len flags =
      (\<lparr>nb_base = 10, nb_pos = pos + z, nb_len = length (ds @ 0x3A # rest), nb_neg = False, nb_zeroed = z \<noteq> 0, nb_err = NUM_ERR_NONE\<rparr>, b1)"
    using fl(2) len by (auto simp: num_zeros_def)
  from ulong.parse_upto [OF this b1(2,3) rng tx _ _ _ _ nd] show ?thesis using v by (simp add: vstr_parse_ulong_def)
qed

lemma netstr_num_parsed:
  assumes rng: "in_range base pos len" and tx: "range_data base pos len = map Some (netstr_num two n @ 0x3A # rest)"
    and fl: "flags = (if two then 10 + 0x100 else 10 + 0x100 + 0x400)"
  shows "\<exists>e b2. vstr_parse_ulong base pos len flags = ((of_nat n, length (netstr_num two n), e), b2) \<and> same_but_cache base b2 \<and> vstr_inv b2"
proof (cases "two \<or> n \<noteq> 0")
  case True
  let ?z = "if two then VSTR__ULONG_MAX_LEN - length (netstr_digits n []) else 0"
  have "netstr_num two n = replicate ?z 0x30 @ netstr_digits n []" using True by (auto simp: netstr_num_def Let_def)
  then show ?thesis
    using number_parsed [OF rng _ refl netstr_flags(1) [OF fl], of ?z n rest] tx netstr_flags(2) [OF fl] by auto
next
  case False
  then have num: "netstr_num two n = [0x30]" by (simp add: netstr_num_def)
  have len: "len = Suc (Suc (length rest))" using range_data_length [OF rng] unfolding tx num by simp
  have tx': "range_data base pos len = map Some (replicate 1 0x30 @ 0x3A # rest)" using tx num by simp
  obtain b1 where "vstr__parse_num_beg base pos len flags =
      (num_zeros \<lparr>nb_base = 10, nb_pos = pos, nb_len = len, nb_neg = False, nb_zeroed = True, nb_err = NUM_ERR_NONE\<rparr> 1 flags, b1)"
      "same_but_cache base b1" "vstr_inv b1"
    using num_beg_10 [OF rng tx' _ _ netstr_flags(1) [OF fl]] len by auto
  then show ?thesis
    using netstr_flags(2) [OF fl] False len num by (auto simp: vstr_parse_ulong_def parse_unsigned_def num_zeros_def)
qed

lemma unat_add_of_nat: "a + b < 2 ^ 64 \<Longrightarrow> unat (of_nat a + of_nat b :: 64 word) = a + b"
  unfolding of_nat_add [symmetric] by (simp add: unat_of_nat del: of_nat_add)

text \<open>
  A range that starts with a netstring: its length, and where its data is. The number \<open>m\<close> in front need not be the length of the data, but only
  equal it as a word.
\<close>

lemma export_chr_range:
  assumes "in_range base pos len" "range_data base pos len = map Some cs" "k < len"
  obtains b1 where "vstr_export_chr base (pos + k) = (cs ! k, b1)" "same_but_cache base b1" "vstr_inv b1"
proof -
  have "length cs = len" using range_data_length [OF assms(1)] unfolding assms(2) by simp
  moreover have "drop (pos - 1) (vstr_data base) ! k = vstr_data base ! (pos - 1 + k)"
    using assms(1,3) data_len [of base] by (intro nth_drop) (auto simp: in_range_def)
  moreover have "pos + k - 1 = pos - 1 + k" using assms(1) by (simp add: in_range_def)
  ultimately have "vstr_data base ! (pos + k - 1) = Some (cs ! k)"
    using arg_cong [OF assms(2), of "\<lambda>l. l ! k"] assms(3) by (simp del: nth_drop)
  then show thesis
    using export_chr_spec [of base "pos + k"] assms(1,3) that by (auto simp: in_range_def chr_of_def)
qed

lemma parse_netstr_spec:
  assumes rng: "in_range base pos len" "b_len base < 2 ^ 63" and tx: "range_data base pos len = map Some (netstr_num two m @ 0x3A # bs @ 0x2C # rest)"
    and m: "(of_nat m :: 64 word) = of_nat (length bs)"
  shows "\<exists>b1. vstr__parse_netstr base pos len two =
    ((length (netstr_num two m) + length bs + 2, pos + length (netstr_num two m) + 1, length bs), b1) \<and> same_but_cache base b1 \<and> vstr_inv b1"
proof -
  let ?n = "length bs" and ?k = "length (netstr_num two m)" and ?t = "netstr_num two m @ 0x3A # bs @ 0x2C # rest"
  have len: "len = ?k + ?n + 2 + length rest" using range_data_length [OF rng(1)] unfolding tx by simp
  have k: "?k \<noteq> 0"
    using netstr_digits_value [of 0 m] by (auto simp: netstr_num_def Let_def VSTR__ULONG_MAX_LEN_def)
  obtain e b1 where b1: "vstr_parse_ulong base pos len (if two then 10 + 0x100 else 10 + 0x100 + 0x400) = ((of_nat ?n, ?k, e), b1)"
      "same_but_cache base b1" "vstr_inv b1"
    using netstr_num_parsed [OF rng(1) tx refl] m by auto
  note fr1 = reads_frame(1,2) [OF b1(2,3)]
  obtain b2 where b2: "vstr_export_chr b1 (pos + ?k) = (?t ! ?k, b2)" "same_but_cache b1 b2" "vstr_inv b2"
    using export_chr_range [OF fr1(1) [OF rng(1)], of ?t ?k] fr1(2) tx len by auto
  note fr2 = reads_frame(1,2) [OF b2(2,3)]
  obtain b3 where b3: "vstr_export_chr b2 (pos + (?k + ?n + 1)) = (?t ! (?k + ?n + 1), b3)" "same_but_cache b2 b3" "vstr_inv b3"
    using export_chr_range [OF fr2(1) [OF fr1(1) [OF rng(1)]], of ?t "?k + ?n + 1"] fr1(2) fr2(2) tx len by auto
  have t: "?t ! ?k = 0x3A" "?t ! (?k + ?n + 1) = 0x2C" by (simp_all add: nth_append)
  have lt: "?n + (?k + 2) < 2 ^ 64" "pos + len < 2 ^ 64" using rng len by (auto simp: in_range_def)
  have ret: "unat (of_nat ?n + of_nat (?k + 2) :: 64 word) = ?k + ?n + 2" using unat_add_of_nat [OF lt(1)] by linarith
  have n: "unat (of_nat ?n :: 64 word) = ?n" using lt(1) by (simp add: unat_of_nat)
  have p: "(size_sub pos 1 + (?k + ?n + 2)) mod 2 ^ 64 = pos + (?k + ?n + 1)"
    using rng(1) lt(2) len by (simp add: in_range_def size_sub_le)
  show ?thesis
    using b1(1) b2(1) b3 k len t ret n p same_but_cache_trans [OF b1(2) same_but_cache_trans [OF b2(2) b3(2)]]
    by (simp add: vstr__parse_netstr_def Let_def)
qed

section \<open>Adding a netstring\<close>

text \<open>The conversion \<^verbatim>\<open>%lu\<close> of a number.\<close>

definition lu_spec :: "nat \<Rightarrow> fmt_spec" where
  "lu_spec n = vstr__fmt_init_spec\<lparr>fmt_code := 0x75, int_type := FMT_ULONG, sp_u := Data_num n, fl_NUM_IS_ZERO := (n = 0)\<rparr>"

lemma digits_of_10: "digits_of (chrs_base l) 10 n = netstr_digits n []"
proof (induction n rule: less_induct)
  case (less n)
  show ?case
  proof (cases "n = 0")
    case False
    have "chrs_base l ! (n mod 10) = of_nat (0x30 + n mod 10)" by (simp add: chrs_base_def nth_append)
    then show ?thesis using less [of "n div 10"] False by (subst digits_of.simps) (simp add: netstr_digits_step [OF False])
  qed (simp add: digits_of.simps netstr_digits.simps)
qed

lemma lu_body: "fmt_body loc (lu_spec n) = netstr_digits n []"
  by (simp add: fmt_body_def lu_spec_def fmt_uses_sep_def fmt_value_def vstr__fmt_init_spec_def digits_of_10)

lemma lu_text: "fmt_text loc err (lu_spec n) = netstr_num False n"
proof -
  have "n \<noteq> 0 \<Longrightarrow> netstr_digits n [] \<noteq> []" using netstr_digits_value [of 0 n] by simp
  then have "replicate (1 - length (netstr_digits n [])) 0x30 @ netstr_digits n [] = netstr_num False n"
    by (cases "netstr_digits n []") (auto simp: netstr_num_def netstr_digits.simps [of 0])
  then show ?thesis
    using lu_body [of loc n] by (simp add: fmt_text_def fmt_number_text_def fmt_prefix_def fmt_core_def lu_spec_def vstr__fmt_init_spec_def)
qed

lemma digits_length_64: "n < 2 ^ 64 \<Longrightarrow> length (netstr_digits n []) \<le> VSTR__ULONG_MAX_LEN"
  unfolding VSTR__ULONG_MAX_LEN_def by (rule netstr_digits_length) simp

lemma lu_ok: "n < 2 ^ 64 \<Longrightarrow> fmt_spec_ok loc err (lu_spec n)"
  using lu_body [of loc n] digits_length_64 [of n]
  by (simp add: fmt_spec_ok_def num_spec_ok_def fmt_is_num_def lu_spec_def vstr__fmt_init_spec_def fmt_uses_sep_def VSTR__ULONG_MAX_LEN_def)

text \<open>What the parts of adding a netstring do to a string that has room for more.\<close>

lemma ready_step:
  assumes "conv_ready n a" "stays a b" "vstr_inv b" "length (vstr_data b) + m \<le> length (vstr_data a) + n"
  shows "conv_ready m b"
  using ready_stays [OF assms(1-3)] data_len [OF assms(3)] data_len [of a] assms(1,4) by (simp add: conv_ready_def)

lemma rep_ready:
  assumes "conv_ready (Suc n) b" "pos \<le> b_len b"
  obtains b1 where "vstr_add_rep_chr b pos c 1 = (True, b1)" "conv_ready n b1" "vstr_data b1 = ins_at pos [Some c] (vstr_data b)"
proof -
  have inv: "vstr_inv b" and mk: "mk_never_fails (b_conf b)" using assms(1) by (simp_all add: conv_ready_def)
  obtain r b1 where b1: "vstr_add_rep_chr b pos c 1 = (r, b1)" by fastforce
  then have "r" using add_rep_chr_succeeds [OF mk assms(2), of c 1] by simp
  then have 1: "vstr_inv b1" "vstr_data b1 = ins_at pos [Some c] (vstr_data b)"
    using add_rep_chr_result [OF inv assms(2), of 1 c] b1 by (simp_all add: add_result_def UINT_MAX_def)
  then have "conv_ready n b1" by (intro ready_step [OF assms(1) add_rep_chr_stays [OF b1]]) simp_all
  then show thesis using that b1 \<open>r\<close> 1(2) by simp
qed

lemma add_ready:
  assumes "conv_ready (n + length bs) b" "pos \<le> b_len b" "length bs \<le> UINT_MAX"
  obtains b1 where "vstr_add_buf b pos bs = (True, b1)" "conv_ready n b1" "vstr_data b1 = ins_at pos (map Some bs) (vstr_data b)"
proof -
  have inv: "vstr_inv b" and mk: "mk_never_fails (b_conf b)" using assms(1) by (simp_all add: conv_ready_def)
  obtain r b1 where b1: "vstr_add_buf b pos bs = (r, b1)" by fastforce
  then have "r" using add_buf_succeeds [OF mk assms(2), of bs] by simp
  then have 1: "vstr_inv b1" "vstr_data b1 = ins_at pos (map Some bs) (vstr_data b)"
    using add_buf_result [OF inv assms(2,3)] b1 by (simp_all add: add_result_def)
  then have "conv_ready n b1" by (intro ready_step [OF assms(1) add_buf_stays [OF b1]]) simp_all
  then show thesis using that b1 \<open>r\<close> 1(2) by simp
qed

lemma del_ready:
  assumes "conv_ready n b" "1 \<le> pos" "pos + len \<le> Suc (b_len b)"
  obtains b1 where "vstr_del b pos len = (True, b1)" "conv_ready (n + len) b1" "vstr_data b1 = del_at (pos - 1) len (vstr_data b)"
proof -
  have inv: "vstr_inv b" and mk: "mk_never_fails (b_conf b)" using assms(1) by (simp_all add: conv_ready_def)
  obtain r b1 where b1: "vstr_del b pos len = (r, b1)" by fastforce
  then have "r" using del_succeeds [OF mk assms(2,3)] by simp
  then have 1: "vstr_inv b1" "vstr_data b1 = del_at (pos - 1) len (vstr_data b)"
    using vstr_del_spec [OF inv ready_mem [OF assms(1)] assms(2,3)] b1 by (simp_all add: del_result_def)
  then have "conv_ready (n + len) b1"
    using data_len [OF inv] assms(2,3) by (intro ready_step [OF assms(1) del_stays [OF b1]]) simp_all
  then show thesis using that b1 \<open>r\<close> 1(2) by simp
qed

lemma netstr2_beg_spec:
  assumes "conv_ready (n + 21) base" "pos \<le> b_len base"
  obtains ds fc1 b1 where "vstr_add_netstr2_beg dbl err fc base pos = Some (pos + 1, fc1, b1)" "conv_ready n b1" "length ds = VSTR__ULONG_MAX_LEN"
    "vstr_data b1 = ins_at pos (map Some (ds @ [0x3A])) (vstr_data base)" "b_len b1 = b_len base + 21"
proof -
  let ?N = "18446744073709551615 :: nat" and ?c = "vstr__fmt_init_spec\<lparr>fmt_code := 0x63, sp_u := Data_chr 0x3A\<rparr>"
  let ?ds = "netstr_num False ?N"
  have specs: "fmt_with_args [0x25, 0x6C, 0x75, 0x25, 0x63] [Arg_num (2 ^ 64 - 1), Arg_num 0x3A] = Some [lu_spec ?N, ?c]"
    by (simp add: fmt_eval lu_spec_def)
  have c: "fmt_text (fc_loc fc) err ?c = [0x3A]" "fmt_spec_ok (fc_loc fc) err ?c"
    by (simp_all add: fmt_text_def fmt_char_text_def padded_def fmt_spec_ok_def vstr__fmt_init_spec_def)
  have len: "length ?ds = 20" by (simp add: netstr_num_def netstr_digits.simps)
  have t: "?ds @ [0x3A] = concat (map (fmt_text (fc_loc fc) err) [lu_spec ?N, ?c])" using c(1) by (simp add: lu_text)
  obtain outs k b1 where b1: "vstr_add_sysfmt dbl err fc base pos [0x25, 0x6C, 0x75, 0x25, 0x63] [Arg_num (2 ^ 64 - 1), Arg_num 0x3A] =
      Some (21, outs, fc\<lparr>fmt_spec_make := k\<rparr>, b1)" "vstr_inv b1" "stays base b1" "b_len b1 = b_len base + 21"
      "vstr_data b1 = ins_at pos (map Some (?ds @ [0x3A])) (vstr_data base)"
    using sysfmt_spec [OF _ _ assms(2) specs _ t, of dbl] assms(1) len c(2) by (auto simp: conv_ready_def lu_ok)
  have "conv_ready n b1" using ready_stays [OF assms(1) b1(3,2)] b1(4) by simp
  then show thesis
    using that [of "fc\<lparr>fmt_spec_make := k\<rparr>" b1 ?ds] assms(2) b1 len by (simp add: vstr_add_netstr2_beg_def VSTR__ULONG_MAX_LEN_def)
qed

text \<open>The string between the two steps: \<open>ds\<close> is the place for the length.\<close>

lemma end_start_spec:
  assumes rdy: "conv_ready (Suc n) b" and dat: "vstr_data b = pre @ map Some (ds @ 0x3A # bs) @ post" "length ds = VSTR__ULONG_MAX_LEN"
    and pos: "beg = Suc (length pre)" "fin = length pre + 21 + length bs"
  obtains b1 where "vstr__netstr_end_start b beg fin = (Some (netstr_digits (length bs) []), b1)" "conv_ready n b1"
    "vstr_data b1 = pre @ map Some (ds @ 0x3A # bs @ [0x2C]) @ post" "b_len b1 = Suc (b_len b)"
proof -
  have inv: "vstr_inv b" using rdy by (simp add: conv_ready_def)
  have len: "fin \<le> b_len b" using data_len [OF inv] dat pos by (simp add: VSTR__ULONG_MAX_LEN_def)
  obtain b1 where b1: "vstr_add_rep_chr b fin 0x2C 1 = (True, b1)" "conv_ready n b1" "vstr_data b1 = ins_at fin [Some 0x2C] (vstr_data b)"
    using rep_ready [OF rdy len] .
  have "vstr_data b1 = pre @ map Some (ds @ 0x3A # bs @ [0x2C]) @ post"
    using ins_at_append_mid [of fin "pre @ map Some (ds @ 0x3A # bs)" "[Some 0x2C]" post] b1(3) dat pos by (simp add: VSTR__ULONG_MAX_LEN_def)
  moreover have "fin - (beg + VSTR__ULONG_MAX_LEN) = length bs" using pos by (simp add: VSTR__ULONG_MAX_LEN_def)
  moreover have "b_len b1 = Suc (b_len b)" using b1(2,3) data_len [of b1] data_len [OF inv] by (simp add: conv_ready_def)
  ultimately show thesis
    using that [of b1] b1(1,2) len pos by (simp add: vstr__netstr_end_start_def vstr_sc_posdiff_def VSTR__ULONG_MAX_LEN_def)
qed

lemma sub_part:
  assumes "conv_ready (n + length buf) b" "vstr_data b = pre @ mid @ post" "pos = Suc (length pre)" "length mid = len" "length buf \<le> 1000"
  obtains b1 where "vstr_sub_buf b pos len buf = (True, b1)" "conv_ready (n + len) b1" "vstr_data b1 = pre @ map Some buf @ post"
proof -
  have "pos + len \<le> Suc (b_len b)" using assms(1-4) data_len [of b] by (simp add: conv_ready_def)
  from sub_ready [OF assms(1) _ this assms(5)] that assms(2-4) show thesis by auto
qed

lemma netstr2_end_spec:
  assumes rdy: "conv_ready (Suc (n + VSTR__ULONG_MAX_LEN)) b" and dat: "vstr_data b = pre @ map Some (ds @ 0x3A # bs) @ post" "length ds = VSTR__ULONG_MAX_LEN"
    and pos: "beg = Suc (length pre)" "fin = length pre + 21 + length bs" and bs: "length bs < 2 ^ 64"
  shows "\<exists>b1. vstr_add_netstr2_end b beg fin = (True, b1) \<and> conv_ready n b1 \<and> vstr_data b1 = pre @ map Some (netstr_text True bs) @ post"
proof -
  let ?d = "netstr_digits (length bs) []" and ?k = "VSTR__ULONG_MAX_LEN"
  let ?z = "?k - length ?d" and ?t = "map Some (0x3A # bs @ [0x2C]) @ post"
  have d: "length ?d \<le> ?k" by (rule digits_length_64 [OF bs])
  have z: "?z \<le> 1000" "?k \<le> 1000" by (simp_all add: VSTR__ULONG_MAX_LEN_def)
  obtain b1 where b1: "vstr__netstr_end_start b beg fin = (Some ?d, b1)" "conv_ready (n + ?k) b1"
      "vstr_data b1 = pre @ map Some (ds @ 0x3A # bs @ [0x2C]) @ post"
    using end_start_spec [OF rdy dat pos] by blast
  have "map Some ds = map Some (take ?z ds) @ map Some (drop ?z ds)" by (simp flip: map_append)
  then have "vstr_data b1 = pre @ map Some (take ?z ds) @ map Some (drop ?z ds) @ ?t" using b1(3) by simp
  moreover have "conv_ready (n + length ?d + length (replicate ?z 0x30)) b1" using b1(2) d by simp
  ultimately obtain b2 where b2: "vstr_sub_buf b1 beg ?z (replicate ?z 0x30) = (True, b2)" "conv_ready (n + length ?d + ?z) b2"
      "vstr_data b2 = (pre @ map Some (replicate ?z 0x30)) @ map Some (drop ?z ds) @ ?t"
    using sub_part [of "n + length ?d" "replicate ?z 0x30" b1 pre "map Some (take ?z ds)" "map Some (drop ?z ds) @ ?t" beg ?z] pos(1) dat(2) z by auto
  have "conv_ready (n + ?z + length ?d) b2" using b2(2) by (simp add: ac_simps)
  then obtain b3 where "vstr_sub_buf b2 (beg + ?z) (length ?d) ?d = (True, b3)" "conv_ready (n + ?z + length ?d) b3"
      "vstr_data b3 = (pre @ map Some (replicate ?z 0x30)) @ map Some ?d @ ?t"
    using sub_part [OF _ b2(3), of "n + ?z" ?d "beg + ?z" "length ?d"] pos(1) dat(2) d z by auto
  moreover have "?k - ?z = length ?d" using d by simp
  ultimately show ?thesis
    using b1(1) b2(1) ready_mono [of "n + ?z + length ?d" b3 n]
    by (simp add: vstr_add_netstr2_end_def Let_def netstr_text_def netstr_num_def)
qed

lemma netstr_end_spec:
  assumes rdy: "conv_ready (Suc (n + VSTR__ULONG_MAX_LEN)) b" and dat: "vstr_data b = pre @ map Some (ds @ 0x3A # bs) @ post" "length ds = VSTR__ULONG_MAX_LEN"
    and pos: "beg = Suc (length pre)" "fin = length pre + 21 + length bs" and bs: "length bs < 2 ^ 64"
  shows "\<exists>b1. vstr_add_netstr_end b beg fin = (True, b1) \<and> conv_ready n b1 \<and> vstr_data b1 = pre @ map Some (netstr_text False bs) @ post"
proof -
  let ?raw = "netstr_digits (length bs) []" and ?k = "VSTR__ULONG_MAX_LEN" and ?d = "netstr_num False (length bs)"
  let ?z = "?k - length ?d" and ?t = "map Some (0x3A # bs @ [0x2C]) @ post"
  have d: "length ?d \<le> ?k" "?d \<noteq> []"
    using digits_length_64 [OF bs] netstr_digits_value [of 0 "length bs"] 
    by (auto simp: netstr_num_def Let_def VSTR__ULONG_MAX_LEN_def split: if_splits)
  have buf: "(if ?k - length ?raw = ?k then [0x30] else ?raw) = ?d"
    using netstr_digits_value [of 0 "length bs"]
    by (cases "bs = []"; cases ?raw) (simp_all add: netstr_num_def Let_def VSTR__ULONG_MAX_LEN_def netstr_digits.simps [of 0])
  obtain b1 where b1: "vstr__netstr_end_start b beg fin = (Some ?raw, b1)" "conv_ready (n + ?k) b1"
      "vstr_data b1 = pre @ map Some (ds @ 0x3A # bs @ [0x2C]) @ post"
    using end_start_spec [OF rdy dat pos] by blast
  have "map Some ds = map Some (take ?z ds) @ map Some (drop ?z ds)" by (simp flip: map_append)
  then have split: "vstr_data b1 = pre @ map Some (take ?z ds) @ map Some (drop ?z ds) @ ?t" using b1(3) by simp
  have "beg + ?z \<le> Suc (b_len b1)"
    using b1(2,3) data_len [of b1] pos(1) dat(2) by (simp add: conv_ready_def)
  then obtain b2 where b2: "vstr_del b1 beg ?z = (True, b2)" "conv_ready (n + ?k + ?z) b2" "vstr_data b2 = del_at (beg - 1) ?z (vstr_data b1)"
    using del_ready [OF b1(2), of beg ?z] pos(1) by auto
  have "vstr_data b2 = pre @ map Some (drop ?z ds) @ ?t"
    using del_at_append_mid [of "beg - 1" pre ?z "map Some (take ?z ds)" "map Some (drop ?z ds) @ ?t"] b2(3) split pos(1) dat(2) by simp
  moreover have "conv_ready (n + ?z + length ?d) b2" using ready_mono [OF b2(2)] d by simp
  ultimately obtain b3 where b3: "vstr_sub_buf b2 beg (length ?d) ?d = (True, b3)" "conv_ready (n + ?z + length ?d) b3"
      "vstr_data b3 = pre @ map Some ?d @ ?t"
    using sub_part [of "n + ?z" ?d b2 pre "map Some (drop ?z ds)" ?t beg "length ?d"] pos(1) dat(2) d by (auto simp: VSTR__ULONG_MAX_LEN_def)
  have "vstr_del b1 beg 0 = (True, b1)" by (simp add: vstr_del_def)
  then have "?z = 0 \<Longrightarrow> b2 = b1" using b2(1) by simp
  moreover have "?k - ?z = length ?d" using d by simp
  ultimately have "vstr_add_netstr_end b beg fin = (True, b3)"
    using b1(1) b2(1) b3(1) unfolding vstr_add_netstr_end_def by (cases "?z = 0") (auto simp: Let_def buf)
  then show ?thesis
    using b3(2,3) ready_mono [of "n + ?z + length ?d" b3 n] by (simp add: netstr_text_def)
qed

section \<open>Properties\<close>

text \<open>
  C11. Round trip of netstrings. On a string of \<^verbatim>\<open>BUF\<close> nodes with room and memory, starting a netstring, adding any bytes as its data and ending it
  gives the netstring of the bytes and nothing else changes; parsing at its position, whatever follows, gives its length and the position and
  length of the data. This holds for both forms.
\<close>

theorem netstr_roundtrip:
  assumes "conv_ready (42 + length bs) base" "pos \<le> b_len base" "length bs \<le> UINT_MAX"
  shows "\<exists>fc1 b1 b2 b3. vstr_add_netstr_beg dbl err fc base pos = Some (pos + 1, fc1, b1) \<and>
    vstr_add_buf b1 (pos + 21) bs = (True, b2) \<and>
    (if two then vstr_add_netstr2_end else vstr_add_netstr_end) b2 (pos + 1) (pos + 21 + length bs) = (True, b3) \<and>
    vstr_inv b3 \<and> vstr_data b3 = ins_at pos (map Some (netstr_text two bs)) (vstr_data base) \<and>
    fst ((if two then vstr_parse_netstr2 else vstr_parse_netstr) b3 (pos + 1) (b_len b3 - pos)) =
      (length (netstr_text two bs), pos + length (netstr_num two (length bs)) + 2, length bs)"
proof -
  let ?pre = "take pos (vstr_data base)" and ?post = "drop pos (vstr_data base)"
  have pre: "length ?pre = pos" using assms(1,2) data_len [of base] by (simp add: conv_ready_def)
  have inv: "vstr_inv base" and bs: "length bs < 2 ^ 64" "length bs + 21 = 21 + length bs" using assms(1) by (simp_all add: conv_ready_def)
  have rdy0: "conv_ready (21 + length bs + 21) base" using assms(1) by (simp add: ac_simps)
  obtain ds fc1 b1 where b1: "vstr_add_netstr2_beg dbl err fc base pos = Some (pos + 1, fc1, b1)" "conv_ready (21 + length bs) b1"
      "length ds = VSTR__ULONG_MAX_LEN" "vstr_data b1 = ins_at pos (map Some (ds @ [0x3A])) (vstr_data base)" "b_len b1 = b_len base + 21"
    using netstr2_beg_spec [OF rdy0 assms(2)] by metis
  obtain b2 where b2: "vstr_add_buf b1 (pos + 21) bs = (True, b2)" "conv_ready 21 b2" "vstr_data b2 = ins_at (pos + 21) (map Some bs) (vstr_data b1)"
    using add_ready [OF b1(2) _ assms(3), of "pos + 21"] b1(5) assms(2) by auto
  have d2: "vstr_data b2 = ?pre @ map Some (ds @ 0x3A # bs) @ ?post"
    using ins_at_append_mid [of "pos + 21" "?pre @ map Some (ds @ [0x3A])" "map Some bs" ?post] b2(3) b1(3,4) pre
    by (simp add: ins_at_def [of pos] VSTR__ULONG_MAX_LEN_def)
  have rdy: "conv_ready (Suc (0 + VSTR__ULONG_MAX_LEN)) b2" using b2(2) by (simp add: VSTR__ULONG_MAX_LEN_def)
  have at: "pos + 1 = Suc (length ?pre)" "pos + 21 + length bs = length ?pre + 21 + length bs" using pre by simp_all
  obtain b3 where b3: "(if two then vstr_add_netstr2_end else vstr_add_netstr_end) b2 (pos + 1) (pos + 21 + length bs) = (True, b3)"
      "conv_ready 0 b3" "vstr_data b3 = ?pre @ map Some (netstr_text two bs) @ ?post"
    using netstr2_end_spec [OF rdy d2 b1(3) at bs(1)] netstr_end_spec [OF rdy d2 b1(3) at bs(1)] by (cases two) auto
  have inv3: "vstr_inv b3" and fit: "b_len b3 < 2 ^ 63" using b3(2) by (simp_all add: conv_ready_def)
  have "None \<notin> set (vstr_data b3)" by (rule only_buf_bytes [OF b3(2)])
  then obtain rest where "?post = map Some rest" using b3(3) by (metis ex_map_conv Un_iff not_None_eq set_append)
  moreover have "length (vstr_data b3) = b_len b3" by (rule data_len [OF inv3])
  ultimately have rng: "in_range b3 (pos + 1) (b_len b3 - pos)" "range_data b3 (pos + 1) (b_len b3 - pos) = map Some (netstr_text two bs @ rest)"
    using b3(3) pre inv3 by (simp_all add: in_range_def)
  have "fst (vstr__parse_netstr b3 (pos + 1) (b_len b3 - pos) two) =
      (length (netstr_text two bs), pos + length (netstr_num two (length bs)) + 2, length bs)"
    using parse_netstr_spec [OF rng(1) fit, of two "length bs" bs rest] rng(2) by (auto simp: netstr_text_def)
  then show ?thesis
    using b1(1) b2(1) b3(1,3) inv3 by (cases two) (simp_all add: vstr_add_netstr_beg_def ins_at_def vstr_parse_netstr2_def vstr_parse_netstr_def)
qed

theorem netstr_roundtrip_witness:
  "\<exists>fc1 b1 b2 b3. vstr_add_netstr_beg (\<lambda>_ _ b. (False, b)) [] \<lparr>fc_loc = ex_loc, fmt_spec_make = 0\<rparr> ex_buf 6 = Some (7, fc1, b1) \<and>
     vstr_add_buf b1 27 [1, 2, 3] = (True, b2) \<and> vstr_add_netstr_end b2 7 30 = (True, b3) \<and>
     vstr_data b3 = vstr_data ex_buf @ map Some [0x33, 0x3A, 1, 2, 3, 0x2C] \<and> fst (vstr_parse_netstr b3 7 (b_len b3 - 6)) = (6, 9, 3)"
proof -
  let ?bs = "[1, 2, 3] :: byte list"
  have len: "length ?bs = 3" by simp
  have num: "netstr_num False 3 = [0x33]" by (simp add: netstr_num_def netstr_digits.simps)
  have tx: "netstr_text False ?bs = [0x33, 0x3A, 1, 2, 3, 0x2C]" unfolding netstr_text_def len num by simp
  have six: "length (netstr_text False ?bs) = 6" unfolding tx by simp
  have r: "conv_ready (42 + length ?bs) ex_buf" "length ?bs \<le> UINT_MAX" "6 \<le> b_len ex_buf"
    unfolding len by (rule ex_buf_ready, simp, simp_all add: UINT_MAX_def)
  show ?thesis
    using netstr_roundtrip [OF r(1,3,2), of "\<lambda>_ _ b. (False, b)" "[]" "\<lparr>fc_loc = ex_loc, fmt_spec_make = 0\<rparr>" False]
    unfolding six unfolding len tx num by (simp add: ins_at_def) blast
qed

text \<open>
  C12. Round trip of numbers. A number that is written with \<^verbatim>\<open>%lu\<close> is read back by \<^verbatim>\<open>vstr_parse_ulong()\<close> with base 10: the whole text is
  used, there is no error, and the value is the number.
\<close>

theorem fmt_parse_roundtrip:
  assumes "vstr_inv base" "mk_never_fails (b_conf base)" "pos \<le> b_len base" "b_len base + 20 < 2 ^ 63" "n < 2 ^ 64"
  shows "\<exists>k outs fc1 b. vstr_add_sysfmt dbl err fc base pos [0x25, 0x6C, 0x75] [Arg_num (int n)] = Some (k, outs, fc1, b) \<and> k \<noteq> 0 \<and>
    fst (vstr_parse_ulong b (pos + 1) k 10) = (of_nat n, k, NUM_ERR_NONE)"
proof -
  let ?t = "netstr_num False n"
  have specs: "fmt_with_args [0x25, 0x6C, 0x75] [Arg_num (int n)] = Some [lu_spec n]"
    using assms(5) by (simp add: fmt_eval lu_spec_def)
  have t: "?t = concat (map (fmt_text (fc_loc fc) err) [lu_spec n])" by (simp add: lu_text)
  have "length ?t \<le> 20" "?t \<noteq> []"
    using digits_length_64 [OF assms(5)] netstr_digits_value [of 0 n] by (auto simp: netstr_num_def Let_def VSTR__ULONG_MAX_LEN_def split: if_splits)
  then obtain outs m b where b: "vstr_add_sysfmt dbl err fc base pos [0x25, 0x6C, 0x75] [Arg_num (int n)] =
      Some (length ?t, outs, fc\<lparr>fmt_spec_make := m\<rparr>, b)" "vstr_inv b" "b_len b = b_len base + length ?t" "?t \<noteq> []"
      "vstr_data b = ins_at pos (map Some ?t) (vstr_data base)"
    using sysfmt_spec [OF assms(1-3) specs _ t, of dbl] assms(4) lu_ok [OF assms(5)] by auto
  have rng: "in_range b (pos + 1) (length ?t)" using b(2,3) assms(3) by (simp add: in_range_def)
  have tx: "range_data b (pos + 1) (length ?t) = map Some ?t" using b(5) assms(3) data_len [OF assms(1)] by (simp add: ins_at_def)
  have fl: "unat (and (10 :: flags) MASK_PARSE_NUM_BASE) = 10" by (simp add: MASK_PARSE_NUM_BASE_def)
  have "fst (vstr_parse_ulong b (pos + 1) (length ?t) 10) = (of_nat n, length ?t, NUM_ERR_NONE)"
  proof (cases "n = 0")
    case False
    then have "?t = netstr_digits n []" by (simp add: netstr_num_def)
    then show ?thesis
      using ulong.parse_exact [OF rng tx _ fl] netstr_digits_value [of 10 n] False assms(5) by (simp add: num_text_def vstr_parse_ulong_def)
  next
    case True
    then have z: "?t = replicate 1 0x30 @ []" "length ?t = 1" by (simp_all add: netstr_num_def)
    have tx0: "range_data b (pos + 1) 1 = map Some (replicate 1 0x30 @ [])" "in_range b (pos + 1) 1" using tx rng unfolding z(2) by (simp_all add: z(1))
    obtain b1 where "vstr__parse_num_beg b (pos + 1) 1 10 =
        (num_zeros \<lparr>nb_base = 10, nb_pos = pos + 1, nb_len = 1, nb_neg = False, nb_zeroed = True, nb_err = NUM_ERR_NONE\<rparr> 1 10, b1)"
      using num_beg_10 [OF tx0(2,1) _ _ fl] by auto
    then show ?thesis using True z(2) by (simp add: num_zeros_def vstr_parse_ulong_def parse_unsigned_def)
  qed
  then show ?thesis using b(1,4) by auto
qed

theorem fmt_parse_roundtrip_witness:
  "\<exists>k outs fc1 b. vstr_add_sysfmt (\<lambda>_ _ b. (False, b)) [] \<lparr>fc_loc = ex_loc, fmt_spec_make = 0\<rparr> ex_abc 6 [0x25, 0x6C, 0x75] [Arg_num 65535] =
     Some (k, outs, fc1, b) \<and> k \<noteq> 0 \<and> fst (vstr_parse_ulong b 7 k 10) = (65535, k, NUM_ERR_NONE)"
  using fmt_parse_roundtrip [of ex_abc 6 65535 "\<lambda>_ _ b. (False, b)" "[]" "\<lparr>fc_loc = ex_loc, fmt_spec_make = 0\<rparr>"] by simp

section \<open>Where parsing is too lenient\<close>

text \<open>The parser asks for a check for overflows and then does not look at the error: 18446744073709551621 is taken as 5.\<close>

lemma netstr_overflow_accepted:
  assumes "in_range base pos len" "b_len base < 2 ^ 63"
    and "range_data base pos len = map Some (netstr_digits 18446744073709551621 [] @ 0x3A # bs @ [0x2C])" "length bs = 5"
  shows "fst (vstr_parse_netstr base pos len) = (27, pos + 21, 5)"
proof -
  let ?m = "18446744073709551621"
  have m: "netstr_num False ?m = netstr_digits ?m []" "length (netstr_digits ?m []) = 20" by (simp_all add: netstr_num_def netstr_digits.simps)
  have "(of_nat ?m :: 64 word) = of_nat (length bs)" using assms(4) by simp
  from parse_netstr_spec [OF assms(1,2) _ this, of False "[]"] m assms(3,4) show ?thesis by (auto simp: vstr_parse_netstr_def)
qed

end
