(* ===== verification/Vstr_Ref_Grp.thy ===== *)
theory Vstr_Ref_Grp
  imports Vstr_Types
begin

text \<open>
  Groups of references: the second half of \<^verbatim>\<open>src/vstr_ref.c\<close>. A configuration hands out references from blocks of 42 of them. A block that is
  full is let go and frees itself with its last reference; the configuration starts another one. A \<^verbatim>\<open>NULL\<close> in \<^verbatim>\<open>func\<close> marks a reference of a
  block that is not in use. A reference is the number of its block and its index there.
\<close>

section \<open>State\<close>

definition VSTR__REF_GRP_MAKE_SZ :: nat where "VSTR__REF_GRP_MAKE_SZ = 42"

record grp_ref =
  gr_ref :: nat
  gr_ptr :: nat
  gr_func :: bool

text \<open>\<open>grp_func\<close> names the function that is called for a reference with no holder left; \<open>grp_kept\<close> is \<^verbatim>\<open>VSTR__FLAG_REF_GRP_REF\<close>.\<close>

record ref_grp =
  make_num :: nat
  free_num :: nat
  grp_kept :: bool
  grp_func :: nat
  grp_refs :: "grp_ref list"

text \<open>
  The part of a configuration that deals with one kind of group: the current block (\<^verbatim>\<open>conf->ref_grp_ptr\<close> or \<^verbatim>\<open>conf->ref_grp_buf2ref\<close>), the
  allocator, the blocks that are allocated, what fresh memory holds, and the calls of \<^verbatim>\<open>func\<close> with their pointers, the last one first.
\<close>

record grp_conf =
  gc_parent :: "nat option"
  gc_heap :: vstr_heap
  gc_grps :: "nat \<Rightarrow> ref_grp option"
  gc_junk :: "nat \<Rightarrow> grp_ref"
  gc_calls :: "(nat \<times> nat) list"

definition grp_upd :: "nat \<Rightarrow> ref_grp option \<Rightarrow> grp_conf \<Rightarrow> grp_conf" where
  "grp_upd p g s = s\<lparr>gc_grps := (gc_grps s)(p := g)\<rparr>"

section \<open>Operations\<close>

text \<open>The value \<^const>\<open>None\<close> stands for an access to memory that is not allocated or a call through a null pointer.\<close>

definition grp_new :: "nat \<Rightarrow> grp_conf \<Rightarrow> ref_grp" where
  "grp_new func s = \<lparr>make_num = 0, free_num = 0, grp_kept = True, grp_func = func, grp_refs = map (gc_junk s) [0..<VSTR__REF_GRP_MAKE_SZ]\<rparr>"

definition vstr__ref_grp_make :: "nat \<Rightarrow> grp_conf \<Rightarrow> nat option \<times> grp_conf" where
  "vstr__ref_grp_make func s =
     (case VSTR_MK (gc_heap s) of
        (None, h) \<Rightarrow> (None, s\<lparr>gc_heap := h\<rparr>)
      | (Some p, h) \<Rightarrow>
          (Some p, grp_upd p (Some (grp_new func s)) (s\<lparr>gc_heap := h\<rparr>)))"

definition vstr__ref_grp_free :: "nat option \<Rightarrow> grp_conf \<Rightarrow> grp_conf option" where
  "vstr__ref_grp_free parent s =
     (case parent of
        None \<Rightarrow> Some s
      | Some p \<Rightarrow>
          (case gc_grps s p of
             None \<Rightarrow> None
           | Some g \<Rightarrow> Some (grp_upd p (if make_num g = 0 then None else Some (g\<lparr>grp_kept := False\<rparr>)) s)))"

definition grp_place :: "nat \<Rightarrow> nat \<Rightarrow> grp_conf \<Rightarrow> ((nat \<times> nat) option \<times> grp_conf) option" where
  "grp_place p ptr s =
     (case gc_grps s p of
        None \<Rightarrow> None
      | Some g \<Rightarrow>
          let i = make_num g in
          if i \<ge> length (grp_refs g) then None
          else Some (Some (p, i), grp_upd p (Some (g\<lparr>grp_refs := (grp_refs g)[i := \<lparr>gr_ref = 1, gr_ptr = ptr, gr_func = True\<rparr>],
                 make_num := i + 1\<rparr>)) s))"

definition vstr__ref_grp_add :: "nat \<Rightarrow> grp_conf \<Rightarrow> ((nat \<times> nat) option \<times> grp_conf) option" where
  "vstr__ref_grp_add ptr s =
     (case gc_parent s of
        None \<Rightarrow> None
      | Some p \<Rightarrow>
          (case gc_grps s p of
             None \<Rightarrow> None
           | Some g \<Rightarrow>
               if make_num g = VSTR__REF_GRP_MAKE_SZ then
                 (case vstr__ref_grp_make (grp_func g) s of
                    (None, s1) \<Rightarrow> Some (None, s1)
                  | (Some tmp, s1) \<Rightarrow>
                      (case vstr__ref_grp_free (Some p) s1 of
                         None \<Rightarrow> None
                       | Some s2 \<Rightarrow> grp_place tmp ptr (s2\<lparr>gc_parent := Some tmp\<rparr>)))
               else grp_place p ptr s))"

text \<open>The loop that takes free references off the end of a block: \<^verbatim>\<open>make_num\<close> and \<^verbatim>\<open>free_num\<close> behind it.\<close>

fun grp_shrink :: "grp_ref list \<Rightarrow> nat \<Rightarrow> nat \<Rightarrow> (nat \<times> nat) option" where
  "grp_shrink refs 0 free = None"
| "grp_shrink refs (Suc scan) free = (if gr_func (refs ! scan) then Some (Suc scan, free) else grp_shrink refs scan (free - 1))"

definition vstr__ref_cb_free_grp_main :: "nat \<Rightarrow> nat \<Rightarrow> grp_conf \<Rightarrow> grp_conf option" where
  "vstr__ref_cb_free_grp_main p off s =
     (case gc_grps s p of
        None \<Rightarrow> None
      | Some g \<Rightarrow>
          let ref = grp_refs g ! off;
              s1 = s\<lparr>gc_calls := (grp_func g, gr_ptr ref) # gc_calls s\<rparr>;
              refs = (grp_refs g)[off := ref\<lparr>gr_func := False\<rparr>];
              free = free_num g + 1
          in if free = make_num g then
               Some (grp_upd p (if \<not> grp_kept g then None else Some (g\<lparr>grp_refs := refs, free_num := 0, make_num := 0\<rparr>)) s1)
             else (case grp_shrink refs (make_num g) free of
                     None \<Rightarrow> None
                   | Some (m, f) \<Rightarrow> Some (grp_upd p (Some (g\<lparr>grp_refs := refs, free_num := f, make_num := m\<rparr>)) s1)))"

text \<open>\<^verbatim>\<open>vstr_ref_add()\<close> and \<^verbatim>\<open>vstr_ref_del()\<close> on a reference of a group, with the function in \<^verbatim>\<open>ref->func\<close> being the callback of its index.\<close>

definition grp_ref_add :: "nat \<times> nat \<Rightarrow> grp_conf \<Rightarrow> grp_conf option" where
  "grp_ref_add r s =
     (case r of (p, i) \<Rightarrow>
        (case gc_grps s p of
           None \<Rightarrow> None
         | Some g \<Rightarrow> if i \<ge> length (grp_refs g) then None
             else Some (grp_upd p (Some (g\<lparr>grp_refs := (grp_refs g)[i := (grp_refs g ! i)\<lparr>gr_ref := gr_ref (grp_refs g ! i) + 1\<rparr>]\<rparr>)) s)))"

definition grp_ref_del :: "nat \<times> nat \<Rightarrow> grp_conf \<Rightarrow> grp_conf option" where
  "grp_ref_del r s =
     (case r of (p, i) \<Rightarrow>
        (case gc_grps s p of
           None \<Rightarrow> None
         | Some g \<Rightarrow> if i \<ge> length (grp_refs g) then None
             else
               let ref = grp_refs g ! i;
                   s1 = grp_upd p (Some (g\<lparr>grp_refs := (grp_refs g)[i := ref\<lparr>gr_ref := gr_ref ref - 1\<rparr>]\<rparr>)) s
               in if gr_ref ref - 1 \<noteq> 0 then Some s1
                  else if gr_func ref then vstr__ref_cb_free_grp_main p i s1 else None))"

text \<open>
  What a configuration and the holders of references do, in any order: the first block is made when it is needed, a holder makes and drops
  references it holds, and the configuration lets its block go when it is freed.
\<close>

definition grp_holds :: "grp_conf \<Rightarrow> nat \<times> nat \<Rightarrow> (nat \<times> nat) option" where
  "grp_holds s r =
     (case r of (p, i) \<Rightarrow>
        (case gc_grps s p of
           None \<Rightarrow> None
         | Some g \<Rightarrow> if i < make_num g \<and> gr_func (grp_refs g ! i) then Some (gr_ref (grp_refs g ! i), gr_ptr (grp_refs g ! i)) else None))"

inductive grp_step :: "grp_conf \<Rightarrow> grp_conf \<Rightarrow> bool" where
  make: "gc_parent s = None \<Longrightarrow> vstr__ref_grp_make func s = (p, s1) \<Longrightarrow> grp_step s (s1\<lparr>gc_parent := p\<rparr>)"
| add: "gc_parent s = Some p \<Longrightarrow> vstr__ref_grp_add ptr s = Some (r, s1) \<Longrightarrow> grp_step s s1"
| ref_add: "grp_holds s r = Some v \<Longrightarrow> grp_ref_add r s = Some s1 \<Longrightarrow> grp_step s s1"
| ref_del: "grp_holds s r = Some v \<Longrightarrow> grp_ref_del r s = Some s1 \<Longrightarrow> grp_step s s1"
| del_conf: "vstr__ref_grp_free (gc_parent s) s = Some s1 \<Longrightarrow> grp_step s (s1\<lparr>gc_parent := None\<rparr>)"

section \<open>The invariant\<close>

definition grp_wf :: "ref_grp \<Rightarrow> bool" where
  "grp_wf g \<longleftrightarrow> length (grp_refs g) = VSTR__REF_GRP_MAKE_SZ \<and> make_num g \<le> VSTR__REF_GRP_MAKE_SZ \<and>
     free_num g = length (filter (\<lambda>r. \<not> gr_func r) (take (make_num g) (grp_refs g))) \<and>
     (make_num g \<noteq> 0 \<longrightarrow> gr_func (grp_refs g ! (make_num g - 1))) \<and>
     (\<forall>i < make_num g. gr_func (grp_refs g ! i) \<longrightarrow> gr_ref (grp_refs g ! i) \<noteq> 0)"

text \<open>Only the current block is kept when it has no reference in use.\<close>

definition grp_ok :: "grp_conf \<Rightarrow> bool" where
  "grp_ok s \<longleftrightarrow>
     (\<forall>p g. gc_grps s p = Some g \<longrightarrow> p < mk_cnt (gc_heap s) \<and> grp_wf g \<and>
        (if gc_parent s = Some p then grp_kept g else \<not> grp_kept g \<and> make_num g \<noteq> 0)) \<and>
     (\<forall>p. gc_parent s = Some p \<longrightarrow> gc_grps s p \<noteq> None)"

lemma shrink_spec:
  assumes "f = length (filter (\<lambda>r. \<not> gr_func r) (take m refs))" "m \<le> length refs" "\<exists>i < m. gr_func (refs ! i)"
  shows "\<exists>m' f'. grp_shrink refs m f = Some (m', f') \<and> m' \<noteq> 0 \<and> m' \<le> m \<and> gr_func (refs ! (m' - 1)) \<and>
    f' = length (filter (\<lambda>r. \<not> gr_func r) (take m' refs)) \<and> (\<forall>i. m' \<le> i \<and> i < m \<longrightarrow> \<not> gr_func (refs ! i))"
  using assms
proof (induction m arbitrary: f)
  case (Suc m)
  show ?case
  proof (cases "gr_func (refs ! m)")
    case True
    then show ?thesis using Suc.prems(1) by auto
  next
    case False
    have ex: "\<exists>i < m. gr_func (refs ! i)" using Suc.prems(3) False less_Suc_eq by auto
    have f: "f - 1 = length (filter (\<lambda>r. \<not> gr_func r) (take m refs))" using Suc.prems(1,2) False by (simp add: take_Suc_conv_app_nth)
    from Suc.IH [OF f _ ex] Suc.prems(2) obtain m' f' where m': "grp_shrink refs m (f - 1) = Some (m', f')" "m' \<noteq> 0" "m' \<le> m"
        "gr_func (refs ! (m' - 1))" "f' = length (filter (\<lambda>r. \<not> gr_func r) (take m' refs))" "\<forall>i. m' \<le> i \<and> i < m \<longrightarrow> \<not> gr_func (refs ! i)"
      by auto
    have "\<not> gr_func (refs ! i)" if "m' \<le> i" "i < Suc m" for i using that m'(6) False by (cases "i = m") auto
    then show ?thesis using m' False by auto
  qed
qed simp

text \<open>The number of references in use, and counting them when one is freed.\<close>

lemma filter_kill:
  assumes "i < n" "n \<le> length xs" "gr_func (xs ! i)" "\<not> gr_func v"
  shows "length (filter (\<lambda>r. \<not> gr_func r) (take n (xs[i := v]))) = Suc (length (filter (\<lambda>r. \<not> gr_func r) (take n xs)))"
proof -
  let ?ys = "take n xs"
  have "?ys = take i ?ys @ xs ! i # drop (Suc i) ?ys" using id_take_nth_drop [of i ?ys] assms by simp
  moreover have "take n (xs[i := v]) = take i ?ys @ v # drop (Suc i) ?ys"
    unfolding take_update_swap using assms(1,2) by (subst upd_conv_take_nth_drop) simp_all
  moreover have "length (filter (\<lambda>r. \<not> gr_func r) (as @ v # bs)) = Suc (length (filter (\<lambda>r. \<not> gr_func r) (as @ xs ! i # bs)))" for as bs
    using assms(3,4) by simp
  ultimately show ?thesis by metis
qed

lemma all_dead:
  assumes "length (filter P (take m xs)) = m" "j < m" "m \<le> length xs"
  shows "P (xs ! j)"
proof -
  have "xs ! j \<in> set (take m xs)" using assms(2,3) by (auto simp: in_set_conv_nth)
  then show ?thesis using length_filter_less [of "xs ! j" "take m xs" P] assms(1,3) by auto
qed

lemma some_live:
  assumes "n = length (filter (\<lambda>r. \<not> gr_func r) (take m xs))" "n \<noteq> m" "m \<le> length xs"
  shows "\<exists>j < m. gr_func (xs ! j)"
proof (rule ccontr)
  assume no: "\<not> ?thesis"
  have "filter (\<lambda>r. \<not> gr_func r) (take m xs) = take m xs" using no assms(3) by (auto simp: filter_id_conv in_set_conv_nth)
  then show False using assms by simp
qed

lemma filter_same: "map gr_func xs = map gr_func ys \<Longrightarrow> length (filter (\<lambda>r. \<not> gr_func r) (take n xs)) = length (filter (\<lambda>r. \<not> gr_func r) (take n ys))"
proof -
  assume "map gr_func xs = map gr_func ys"
  then have "map gr_func (take n xs) = map gr_func (take n ys)" by (simp flip: take_map)
  moreover have "length (filter (\<lambda>r. \<not> gr_func r) zs) = length (filter Not (map gr_func zs))" for zs by (simp add: filter_map comp_def)
  ultimately show ?thesis by metis
qed

section \<open>The operations keep the invariant\<close>

lemma grp_upd_simps [simp]:
  "gc_grps (grp_upd p g s) = (gc_grps s)(p := g)" "gc_parent (grp_upd p g s) = gc_parent s" "gc_heap (grp_upd p g s) = gc_heap s"
  "gc_calls (grp_upd p g s) = gc_calls s" "gc_junk (grp_upd p g s) = gc_junk s"
  by (simp_all add: grp_upd_def)

text \<open>Writing one well-formed block keeps the invariant, and references of other blocks.\<close>

lemma ok_upd:
  assumes "grp_ok s" "gc_grps s p = Some g" "grp_wf g'" "grp_kept g' = grp_kept g" "gc_parent s = Some p \<or> make_num g' \<noteq> 0"
  shows "grp_ok (grp_upd p (Some g') s)"
  using assms by (auto simp: grp_ok_def)

lemma ok_drop: "grp_ok s \<Longrightarrow> gc_parent s \<noteq> Some p \<Longrightarrow> grp_ok (grp_upd p None s)"
  by (auto simp: grp_ok_def)

lemma holds_upd:
  "grp_holds (grp_upd p (Some g) s) (q, i) =
     (if q = p then if i < make_num g \<and> gr_func (grp_refs g ! i) then Some (gr_ref (grp_refs g ! i), gr_ptr (grp_refs g ! i)) else None
      else grp_holds s (q, i))"
  by (simp add: grp_holds_def)

lemma holdsE:
  assumes "grp_ok s" "grp_holds s r = Some v"
  obtains p i g where "r = (p, i)" "gc_grps s p = Some g" "grp_wf g" "i < make_num g" "i < length (grp_refs g)" "gr_func (grp_refs g ! i)"
    "v = (gr_ref (grp_refs g ! i), gr_ptr (grp_refs g ! i))" "gr_ref (grp_refs g ! i) \<noteq> 0"
proof -
  obtain p i where r: "r = (p, i)" by (cases r)
  then obtain g where g: "gc_grps s p = Some g" using assms(2) by (auto simp: grp_holds_def split: option.splits)
  then have "grp_wf g" using assms(1) by (simp add: grp_ok_def)
  with that [OF r g] r g assms(2) show thesis by (auto simp: grp_holds_def grp_wf_def split: if_splits)
qed

lemma okD:
  assumes "grp_ok s" "gc_grps s p = Some g"
  shows "p < mk_cnt (gc_heap s)" "grp_wf g" "if gc_parent s = Some p then grp_kept g else \<not> grp_kept g \<and> make_num g \<noteq> 0"
  using assms unfolding grp_ok_def by simp_all

lemma ok_fresh: "grp_ok s \<Longrightarrow> gc_grps s (mk_cnt (gc_heap s)) = None"
  by (metis grp_ok_def less_irrefl option.exhaust)

lemma new_wf: "grp_wf (grp_new func s)" "grp_kept (grp_new func s)" "make_num (grp_new func s) = 0"
  by (simp_all add: grp_wf_def grp_new_def)

lemma make_spec:
  assumes "grp_ok s" "vstr__ref_grp_make func s = (r, s1)"
  shows "case r of None \<Rightarrow> gc_grps s1 = gc_grps s
    | Some p \<Rightarrow> gc_grps s p = None \<and> gc_grps s1 = (gc_grps s)(p \<mapsto> grp_new func s)"
    "mk_cnt (gc_heap s1) = Suc (mk_cnt (gc_heap s))" "gc_parent s1 = gc_parent s" "gc_calls s1 = gc_calls s"
    "r = Some p \<Longrightarrow> p < mk_cnt (gc_heap s1)"
  using assms(2) ok_fresh [OF assms(1)]
  by (auto simp: vstr__ref_grp_make_def VSTR_MK_def split: if_splits)

lemma place_spec:
  assumes "grp_ok s" "gc_parent s = Some p" "gc_grps s p = Some g" "make_num g < VSTR__REF_GRP_MAKE_SZ"
  shows "\<exists>r s1. grp_place p ptr s = Some (r, s1) \<and> grp_ok s1 \<and> gc_calls s1 = gc_calls s \<and>
    (case r of None \<Rightarrow> grp_holds s1 = grp_holds s | Some k \<Rightarrow> grp_holds s k = None \<and> grp_holds s1 = (grp_holds s)(k \<mapsto> (1, ptr)))"
proof -
  let ?i = "make_num g" and ?r = "\<lparr>gr_ref = 1, gr_ptr = ptr, gr_func = True\<rparr>"
  let ?g = "g\<lparr>grp_refs := (grp_refs g)[?i := ?r], make_num := ?i + 1\<rparr>"
  have wf: "grp_wf g" using assms(1,3) by (simp add: grp_ok_def)
  then have i: "?i < length (grp_refs g)" using assms(4) by (simp add: grp_wf_def)
  have "take (Suc ?i) ((grp_refs g)[?i := ?r]) = take ?i (grp_refs g) @ [?r]" using i by (simp add: take_Suc_conv_app_nth)
  then have "grp_wf ?g" using wf i assms(4) by (auto simp: grp_wf_def nth_list_update less_Suc_eq)
  then have ok: "grp_ok (grp_upd p (Some ?g) s)" by (intro ok_upd [OF assms(1,3)]) simp_all
  have "grp_holds (grp_upd p (Some ?g) s) = (grp_holds s)((p, ?i) \<mapsto> (1, ptr))"
  proof
    fix r
    show "grp_holds (grp_upd p (Some ?g) s) r = ((grp_holds s)((p, ?i) \<mapsto> (1, ptr))) r"
      using i assms(3) by (cases r) (auto simp: holds_upd grp_holds_def nth_list_update less_Suc_eq)
  qed
  moreover have "grp_holds s (p, ?i) = None" using assms(3) by (simp add: grp_holds_def)
  moreover have "grp_place p ptr s = Some (Some (p, ?i), grp_upd p (Some ?g) s)" using i assms(3) by (simp add: grp_place_def Let_def)
  ultimately show ?thesis using ok by simp
qed

lemma free_spec:
  assumes g: "gc_grps s p = Some g" and wf: "grp_wf g" "p < mk_cnt (gc_heap s)"
  obtains s1 where "vstr__ref_grp_free (Some p) s = Some s1" "gc_parent s1 = gc_parent s" "grp_holds s1 = grp_holds s" "gc_calls s1 = gc_calls s"
    "\<forall>q. q \<noteq> p \<longrightarrow> gc_grps s1 q = gc_grps s q" "gc_heap s1 = gc_heap s"
    "\<forall>g. gc_grps s1 p = Some g \<longrightarrow> grp_wf g \<and> \<not> grp_kept g \<and> make_num g \<noteq> 0 \<and> p < mk_cnt (gc_heap s)"
proof -
  have "grp_wf (g\<lparr>grp_kept := False\<rparr>)" using wf(1) by (simp add: grp_wf_def)
  define s1 where "s1 = grp_upd p (if make_num g = 0 then None else Some (g\<lparr>grp_kept := False\<rparr>)) s"
  have "grp_holds s1 r = grp_holds s r" for r using g by (cases r) (auto simp: grp_holds_def s1_def)
  then have h: "grp_holds s1 = grp_holds s" by blast
  have f: "vstr__ref_grp_free (Some p) s = Some s1" using g by (simp add: vstr__ref_grp_free_def s1_def)
  have w: "grp_wf h \<and> \<not> grp_kept h \<and> make_num h \<noteq> 0 \<and> p < mk_cnt (gc_heap s)" if "gc_grps s1 p = Some h" for h
    using that wf(2) \<open>grp_wf (g\<lparr>grp_kept := False\<rparr>)\<close> by (cases "make_num g = 0") (auto simp: s1_def)
  show thesis using w by (intro that [OF f _ h]) (auto simp: s1_def)
qed

text \<open>A full block is replaced by a new one.\<close>

lemma switch_spec:
  assumes ok: "grp_ok s" and p: "gc_parent s = Some p" "gc_grps s p = Some g" and mk: "vstr__ref_grp_make func s = (Some tmp, s1)"
  obtains s2 where "vstr__ref_grp_free (Some p) s1 = Some s2" "grp_ok (s2\<lparr>gc_parent := Some tmp\<rparr>)" "gc_calls s2 = gc_calls s"
    "gc_grps s2 tmp = Some (grp_new func s)" "grp_holds (s2\<lparr>gc_parent := Some tmp\<rparr>) = grp_holds s"
proof -
  note m = make_spec [OF ok mk]
  have new: "gc_grps s tmp = None" "gc_grps s1 = (gc_grps s)(tmp \<mapsto> grp_new func s)" "tmp < mk_cnt (gc_heap s1)" using m(1,5) by auto
  then have tp: "tmp \<noteq> p" using p(2) by auto
  have g1: "gc_grps s1 p = Some g" and lt: "p < mk_cnt (gc_heap s1)" using okD(1) [OF ok p(2)] p(2) new(2) tp m(2) by auto
  obtain s2 where s2: "vstr__ref_grp_free (Some p) s1 = Some s2" "gc_parent s2 = gc_parent s1" "grp_holds s2 = grp_holds s1" "gc_calls s2 = gc_calls s1"
      "\<forall>q. q \<noteq> p \<longrightarrow> gc_grps s2 q = gc_grps s1 q" "gc_heap s2 = gc_heap s1"
      "\<forall>g. gc_grps s2 p = Some g \<longrightarrow> grp_wf g \<and> \<not> grp_kept g \<and> make_num g \<noteq> 0 \<and> p < mk_cnt (gc_heap s1)"
    using free_spec [OF g1 okD(2) [OF ok p(2)] lt] .
  have at: "gc_grps s2 tmp = Some (grp_new func s)" using s2(5) tp new(2) by simp
  have "q < mk_cnt (gc_heap s2) \<and> grp_wf h \<and> (if Some tmp = Some q then grp_kept h else \<not> grp_kept h \<and> make_num h \<noteq> 0)"
    if q: "gc_grps s2 q = Some h" for q h
  proof -
    consider (old) "q = p" | (cur) "q = tmp" "h = grp_new func s" | (other) "q \<noteq> p" "q \<noteq> tmp" "gc_grps s q = Some h"
      using q at s2(5) new(2) by (cases "q = p"; cases "q = tmp") auto
    then show ?thesis
    proof cases
      case old
      then show ?thesis using q s2(6,7) tp by simp
    next
      case cur
      then show ?thesis using new_wf [of func s] new(3) s2(6) by simp
    next
      case other
      then show ?thesis using okD [OF ok other(3)] p(1) m(2) s2(6) by simp
    qed
  qed
  then have "grp_ok (s2\<lparr>gc_parent := Some tmp\<rparr>)" using at by (simp add: grp_ok_def)
  moreover have "grp_holds (s2\<lparr>gc_parent := Some tmp\<rparr>) k = grp_holds s k" for k
    using s2(3) new(1,2) new_wf(3) [of func s] by (cases k) (auto simp: grp_holds_def fun_eq_iff)
  then have "grp_holds (s2\<lparr>gc_parent := Some tmp\<rparr>) = grp_holds s" by blast
  ultimately show thesis using that s2(1,4) m(4) at by simp
qed

lemma grp_add_spec:
  assumes ok: "grp_ok s" and p: "gc_parent s = Some p"
  shows "\<exists>r s1. vstr__ref_grp_add ptr s = Some (r, s1) \<and> grp_ok s1 \<and> gc_calls s1 = gc_calls s \<and>
    (case r of None \<Rightarrow> grp_holds s1 = grp_holds s | Some k \<Rightarrow> grp_holds s k = None \<and> grp_holds s1 = (grp_holds s)(k \<mapsto> (1, ptr)))"
proof -
  obtain g where g: "gc_grps s p = Some g" using ok p by (auto simp: grp_ok_def)
  have "make_num g \<le> VSTR__REF_GRP_MAKE_SZ" using okD(2) [OF ok g] by (simp add: grp_wf_def)
  then consider (room) "make_num g < VSTR__REF_GRP_MAKE_SZ" | (full) "make_num g = VSTR__REF_GRP_MAKE_SZ" by linarith
  then show ?thesis
  proof cases
    case room
    then show ?thesis using place_spec [OF ok p g room, of ptr] p g by (simp add: vstr__ref_grp_add_def)
  next
    case full
    obtain r s1 where mk: "vstr__ref_grp_make (grp_func g) s = (r, s1)" by fastforce
    note m = make_spec [OF ok mk]
    show ?thesis
    proof (cases r)
      case None
      then have "grp_ok s1" "grp_holds s1 = grp_holds s" using ok m by (auto simp: grp_ok_def grp_holds_def less_Suc_eq fun_eq_iff)
      then show ?thesis using None mk full p g m(4) by (simp add: vstr__ref_grp_add_def)
    next
      case (Some tmp)
      then obtain s2 where s2: "vstr__ref_grp_free (Some p) s1 = Some s2" "grp_ok (s2\<lparr>gc_parent := Some tmp\<rparr>)" "gc_calls s2 = gc_calls s"
          "gc_grps s2 tmp = Some (grp_new (grp_func g) s)" "grp_holds (s2\<lparr>gc_parent := Some tmp\<rparr>) = grp_holds s"
        using switch_spec [OF ok p g] mk by metis
      show ?thesis
        using place_spec [OF s2(2), of tmp "grp_new (grp_func g) s" ptr, unfolded s2(5)] new_wf(3) [of "grp_func g" s] s2(1,3,4) mk Some full p g
        by (simp add: vstr__ref_grp_add_def VSTR__REF_GRP_MAKE_SZ_def)
    qed
  qed
qed

lemma ref_add_spec:
  assumes ok: "grp_ok s" and h: "grp_holds s r = Some (n, ptr)"
  shows "\<exists>s1. grp_ref_add r s = Some s1 \<and> grp_ok s1 \<and> grp_holds s1 = (grp_holds s)(r \<mapsto> (Suc n, ptr)) \<and> gc_calls s1 = gc_calls s"
proof -
  obtain p i g where g: "r = (p, i)" "gc_grps s p = Some g" "grp_wf g" "i < make_num g" "i < length (grp_refs g)" "gr_func (grp_refs g ! i)"
    "(n, ptr) = (gr_ref (grp_refs g ! i), gr_ptr (grp_refs g ! i))"
    using holdsE [OF ok h] by metis
  let ?v = "(grp_refs g ! i)\<lparr>gr_ref := gr_ref (grp_refs g ! i) + 1\<rparr>"
  let ?g = "g\<lparr>grp_refs := (grp_refs g)[i := ?v]\<rparr>"
  have "map gr_func ((grp_refs g)[i := ?v]) = map gr_func (grp_refs g)" using g(5) by (simp add: map_update list_update_same_conv)
  then have "grp_wf ?g"
    using g(3,5,6) filter_same [of "(grp_refs g)[i := ?v]" "grp_refs g" "make_num g"] by (auto simp: grp_wf_def nth_list_update)
  moreover have "gc_parent s = Some p \<or> make_num g \<noteq> 0" using g(4) by simp
  ultimately have "grp_ok (grp_upd p (Some ?g) s)" by (intro ok_upd [OF ok g(2)]) simp_all
  moreover have "grp_holds (grp_upd p (Some ?g) s) k = ((grp_holds s)(r \<mapsto> (Suc n, ptr))) k" for k
    using g by (cases k) (auto simp: holds_upd grp_holds_def nth_list_update)
  then have "grp_holds (grp_upd p (Some ?g) s) = (grp_holds s)(r \<mapsto> (Suc n, ptr))" by blast
  ultimately show ?thesis using g(1,2,5) by (auto simp: grp_ref_add_def)
qed

text \<open>Freeing the last holder's reference: the block shrinks, is emptied or is freed.\<close>

lemma calls_simps [simp]:
  "grp_ok (s\<lparr>gc_calls := c\<rparr>) = grp_ok s" "grp_holds (s\<lparr>gc_calls := c\<rparr>) = grp_holds s"
  "grp_upd p x ((grp_upd p y s)\<lparr>gc_calls := c\<rparr>) = (grp_upd p x s)\<lparr>gc_calls := c\<rparr>"
  by (simp_all add: grp_ok_def grp_holds_def grp_upd_def fun_eq_iff)

lemma holds_kill:
  assumes "gc_grps s p = Some g" "i < length (grp_refs g)"
    and "\<And>j. j < make_num g' \<and> gr_func (grp_refs g' ! j) \<longleftrightarrow> j < make_num g \<and> j \<noteq> i \<and> gr_func (grp_refs g ! j)"
    and "\<And>j. j \<noteq> i \<Longrightarrow> grp_refs g' ! j = grp_refs g ! j"
  shows "grp_holds (grp_upd p (Some g') s) = (grp_holds s)((p, i) := None)"
proof
  fix r :: "nat \<times> nat"
  obtain q j where r: "r = (q, j)" by (cases r)
  show "grp_holds (grp_upd p (Some g') s) r = ((grp_holds s)((p, i) := None)) r"
    using assms(1) assms(3,4) [of j] unfolding r by (cases "j = i") (auto simp: holds_upd grp_holds_def)
qed

lemma holds_drop:
  assumes "gc_grps s p = Some g" "\<And>j. j < make_num g \<Longrightarrow> j \<noteq> i \<Longrightarrow> \<not> gr_func (grp_refs g ! j)"
  shows "grp_holds (grp_upd p None s) = (grp_holds s)((p, i) := None)"
proof
  fix r
  show "grp_holds (grp_upd p None s) r = ((grp_holds s)((p, i) := None)) r"
    using assms by (cases r) (auto simp: grp_holds_def)
qed

lemma free_main_spec:
  assumes ok: "grp_ok s" and g: "gc_grps s p = Some g" "i < make_num g" "gr_func (grp_refs g ! i)" and ref: "ref = (grp_refs g ! i)\<lparr>gr_ref := 0\<rparr>"
  shows "\<exists>s1. vstr__ref_cb_free_grp_main p i (grp_upd p (Some (g\<lparr>grp_refs := (grp_refs g)[i := ref]\<rparr>)) s) = Some s1 \<and>
    grp_ok s1 \<and> grp_holds s1 = (grp_holds s)((p, i) := None) \<and> gc_calls s1 = (grp_func g, gr_ptr (grp_refs g ! i)) # gc_calls s"
proof -
  note wf = okD(2) [OF ok g(1)]
  let ?refs = "(grp_refs g)[i := ref\<lparr>gr_func := False\<rparr>]" and ?m = "make_num g" and ?f = "free_num g + 1"
  let ?s = "grp_upd p (Some (g\<lparr>grp_refs := (grp_refs g)[i := ref]\<rparr>)) s" and ?c = "(grp_func g, gr_ptr (grp_refs g ! i)) # gc_calls s"
  have len: "i < length (grp_refs g)" "?m \<le> length (grp_refs g)" "length (grp_refs g) = VSTR__REF_GRP_MAKE_SZ" using wf g(2) by (simp_all add: grp_wf_def)
  have cnt: "?f = length (filter (\<lambda>r. \<not> gr_func r) (take ?m ?refs))"
    using filter_kill [OF g(2) len(2) g(3), of "ref\<lparr>gr_func := False\<rparr>"] wf by (simp add: grp_wf_def)
  have nth: "gr_func (?refs ! j) \<longleftrightarrow> j \<noteq> i \<and> gr_func (grp_refs g ! j)" "j \<noteq> i \<Longrightarrow> ?refs ! j = grp_refs g ! j" for j
    using len(1) by (simp_all add: nth_list_update)
  have pos: "gr_ref (?refs ! j) \<noteq> 0" if "j < ?m" "gr_func (?refs ! j)" for j
    using that nth wf by (auto simp: grp_wf_def)
  have main: "vstr__ref_cb_free_grp_main p i ?s =
      (if ?f = ?m then Some ((grp_upd p (if \<not> grp_kept g then None else Some (g\<lparr>grp_refs := ?refs, free_num := 0, make_num := 0\<rparr>)) s)\<lparr>gc_calls := ?c\<rparr>)
       else (case grp_shrink ?refs ?m ?f of None \<Rightarrow> None
         | Some (m, f) \<Rightarrow> Some ((grp_upd p (Some (g\<lparr>grp_refs := ?refs, free_num := f, make_num := m\<rparr>)) s)\<lparr>gc_calls := ?c\<rparr>)))"
    using len(1) ref by (simp add: vstr__ref_cb_free_grp_main_def Let_def split: option.split)
  show ?thesis
  proof (cases "?f = ?m")
    case True
    have dead: "\<not> gr_func (?refs ! j)" if "j < ?m" for j using all_dead [of _ ?m ?refs j] cnt True that len(2) by simp
    let ?g = "g\<lparr>grp_refs := ?refs, free_num := 0, make_num := 0\<rparr>"
    show ?thesis
    proof (cases "grp_kept g")
      case True
      have "grp_ok (grp_upd p (Some ?g) s)"
        using okD(3) [OF ok g(1)] True len by (intro ok_upd [OF ok g(1)]) (auto simp: grp_wf_def split: if_splits)
      moreover have "grp_holds (grp_upd p (Some ?g) s) = (grp_holds s)((p, i) := None)"
        using dead nth by (intro holds_kill [OF g(1) len(1)]) auto
      ultimately show ?thesis using main \<open>?f = ?m\<close> True by simp
    next
      case False
      have "grp_ok (grp_upd p None s)" using okD(3) [OF ok g(1)] False by (intro ok_drop [OF ok]) (auto split: if_splits)
      moreover have "grp_holds (grp_upd p None s) = (grp_holds s)((p, i) := None)" using dead nth by (intro holds_drop [OF g(1)]) auto
      ultimately show ?thesis using main \<open>?f = ?m\<close> False by simp
    qed
  next
    case False
    have "\<exists>j < ?m. gr_func (?refs ! j)" by (rule some_live [OF cnt]) (use False len(2) in simp_all)
    then obtain m f where m: "grp_shrink ?refs ?m ?f = Some (m, f)" "m \<noteq> 0" "m \<le> ?m" "gr_func (?refs ! (m - 1))"
        "f = length (filter (\<lambda>r. \<not> gr_func r) (take m ?refs))" "\<forall>j. m \<le> j \<and> j < ?m \<longrightarrow> \<not> gr_func (?refs ! j)"
      using shrink_spec [OF cnt] len(2) by auto
    let ?g = "g\<lparr>grp_refs := ?refs, free_num := f, make_num := m\<rparr>"
    have "grp_wf ?g" using m len pos by (auto simp: grp_wf_def)
    then have "grp_ok (grp_upd p (Some ?g) s)" using m(2) by (intro ok_upd [OF ok g(1)]) simp_all
    moreover have "j < m \<and> gr_func (?refs ! j) \<longleftrightarrow> j < ?m \<and> j \<noteq> i \<and> gr_func (grp_refs g ! j)" for j
      using m(3) m(6) [rule_format, of j] nth(1) [of j] by (cases "j < m") auto
    then have "grp_holds (grp_upd p (Some ?g) s) = (grp_holds s)((p, i) := None)"
      using nth(2) by (intro holds_kill [OF g(1) len(1)]) auto
    ultimately show ?thesis using main False m(1) by simp
  qed
qed

lemma ref_del_spec:
  assumes ok: "grp_ok s" and h: "grp_holds s r = Some (n, ptr)"
  shows "\<exists>s1. grp_ref_del r s = Some s1 \<and> grp_ok s1 \<and> grp_holds s1 = (grp_holds s)(r := (if n = 1 then None else Some (n - 1, ptr))) \<and>
    (if n = 1 then \<exists>func. gc_calls s1 = (func, ptr) # gc_calls s else gc_calls s1 = gc_calls s)"
proof -
  obtain p i g where g: "r = (p, i)" "gc_grps s p = Some g" "grp_wf g" "i < make_num g" "i < length (grp_refs g)" "gr_func (grp_refs g ! i)"
    "(n, ptr) = (gr_ref (grp_refs g ! i), gr_ptr (grp_refs g ! i))" "gr_ref (grp_refs g ! i) \<noteq> 0"
    using holdsE [OF ok h] by metis
  let ?v = "(grp_refs g ! i)\<lparr>gr_ref := gr_ref (grp_refs g ! i) - 1\<rparr>"
  let ?g = "g\<lparr>grp_refs := (grp_refs g)[i := ?v]\<rparr>"
  show ?thesis
  proof (cases "n = 1")
    case True
    then show ?thesis using free_main_spec [OF ok g(2,4,6) refl] g by (auto simp: grp_ref_del_def Let_def)
  next
    case False
    have "map gr_func ((grp_refs g)[i := ?v]) = map gr_func (grp_refs g)" using g(5) by (simp add: map_update list_update_same_conv)
    then have "grp_wf ?g"
      using g(3,5-8) False filter_same [of "(grp_refs g)[i := ?v]" "grp_refs g" "make_num g"] by (auto simp: grp_wf_def nth_list_update)
    then have "grp_ok (grp_upd p (Some ?g) s)" using g(4) by (intro ok_upd [OF ok g(2)]) simp_all
    moreover have "grp_holds (grp_upd p (Some ?g) s) k = ((grp_holds s)(r \<mapsto> (n - 1, ptr))) k" for k
      using g by (cases k) (auto simp: holds_upd grp_holds_def nth_list_update)
    then have "grp_holds (grp_upd p (Some ?g) s) = (grp_holds s)(r \<mapsto> (n - 1, ptr))" by blast
    ultimately show ?thesis using g False by (auto simp: grp_ref_del_def Let_def)
  qed
qed

lemma del_conf_spec:
  assumes ok: "grp_ok s"
  shows "\<exists>s1. vstr__ref_grp_free (gc_parent s) s = Some s1 \<and> grp_ok (s1\<lparr>gc_parent := None\<rparr>) \<and> grp_holds s1 = grp_holds s \<and> gc_calls s1 = gc_calls s"
proof (cases "gc_parent s")
  case None
  then show ?thesis using ok by (simp add: vstr__ref_grp_free_def grp_ok_def)
next
  case (Some p)
  then obtain g where g: "gc_grps s p = Some g" using ok by (auto simp: grp_ok_def)
  obtain s1 where s1: "vstr__ref_grp_free (Some p) s = Some s1" "gc_parent s1 = gc_parent s" "grp_holds s1 = grp_holds s" "gc_calls s1 = gc_calls s"
      "\<forall>q. q \<noteq> p \<longrightarrow> gc_grps s1 q = gc_grps s q" "gc_heap s1 = gc_heap s"
      "\<forall>g. gc_grps s1 p = Some g \<longrightarrow> grp_wf g \<and> \<not> grp_kept g \<and> make_num g \<noteq> 0 \<and> p < mk_cnt (gc_heap s)"
    using free_spec [OF g okD(2,1) [OF ok g]] .
  have "q < mk_cnt (gc_heap s1) \<and> grp_wf h \<and> \<not> grp_kept h \<and> make_num h \<noteq> 0" if "gc_grps s1 q = Some h" for q h
    using that s1(5-7) okD [OF ok, of q h] Some by (cases "q = p") auto
  then show ?thesis using s1(1,3,4) Some by (simp add: grp_ok_def)
qed

section \<open>Counted references\<close>

text \<open>What the holders of references rely on.\<close>

locale ref_counts =
  fixes ok :: "'s \<Rightarrow> bool" and holds :: "'s \<Rightarrow> 'r \<Rightarrow> (nat \<times> 'p) option"
    and incr :: "'r \<Rightarrow> 's \<Rightarrow> 's option" and decr :: "'r \<Rightarrow> 's \<Rightarrow> 's option"
  assumes incr_law: "ok s \<Longrightarrow> holds s r = Some (n, p) \<Longrightarrow> \<exists>s1. incr r s = Some s1 \<and> ok s1 \<and> holds s1 = (holds s)(r \<mapsto> (Suc n, p))"
    and decr_law: "ok s \<Longrightarrow> holds s r = Some (n, p) \<Longrightarrow>
      \<exists>s1. decr r s = Some s1 \<and> ok s1 \<and> holds s1 = (holds s)(r := (if n = 1 then None else Some (n - 1, p)))"
    and count_pos: "ok s \<Longrightarrow> holds s r = Some (n, p) \<Longrightarrow> n \<noteq> 0"
begin

fun decrs :: "nat \<Rightarrow> 'r \<Rightarrow> 's \<Rightarrow> 's option" where
  "decrs 0 r s = Some s"
| "decrs (Suc k) r s = (case decr r s of None \<Rightarrow> None | Some s1 \<Rightarrow> decrs k r s1)"

lemma incr_decr:
  assumes "ok s" "holds s r = Some (n, p)"
  shows "\<exists>s1 s2. incr r s = Some s1 \<and> decr r s1 = Some s2 \<and> ok s2 \<and> holds s2 = holds s"
proof -
  obtain s1 where s1: "incr r s = Some s1" "ok s1" "holds s1 = (holds s)(r \<mapsto> (Suc n, p))" using incr_law [OF assms] by blast
  obtain s2 where "decr r s1 = Some s2" "ok s2" "holds s2 = (holds s1)(r := (if Suc n = 1 then None else Some (Suc n - 1, p)))"
    using decr_law [OF s1(2), of r "Suc n" p] s1(3) by auto
  moreover have "(holds s)(r \<mapsto> (n, p)) = holds s" using assms(2) by (simp add: fun_upd_idem)
  ultimately show ?thesis using s1(1,3) count_pos [OF assms] by simp
qed

text \<open>The reference is gone when each of its holders has dropped it.\<close>

lemma all_decrs:
  assumes "ok s" "holds s r = Some (n, p)"
  shows "\<exists>s1. decrs n r s = Some s1 \<and> ok s1 \<and> holds s1 = (holds s)(r := None)"
  using assms
proof (induction n arbitrary: s)
  case 0
  then show ?case using count_pos by blast
next
  case (Suc n)
  obtain s1 where s1: "decr r s = Some s1" "ok s1" "holds s1 = (holds s)(r := (if Suc n = 1 then None else Some (n, p)))"
    using decr_law [OF Suc.prems] by auto
  show ?case
  proof (cases n)
    case 0
    then show ?thesis using s1 by (simp add: fun_eq_iff)
  next
    case (Suc k)
    then have "holds s1 r = Some (n, p)" using s1(3) by simp
    from Suc.IH [OF s1(2) this] show ?thesis using s1(1,3) Suc by (auto simp: fun_eq_iff)
  qed
qed

end

interpretation grp: ref_counts grp_ok grp_holds grp_ref_add grp_ref_del
proof
  fix s r n ptr
  assume s: "grp_ok s" "grp_holds s r = Some (n, ptr)"
  show "\<exists>s1. grp_ref_add r s = Some s1 \<and> grp_ok s1 \<and> grp_holds s1 = (grp_holds s)(r \<mapsto> (Suc n, ptr))" using ref_add_spec [OF s] by blast
  show "\<exists>s1. grp_ref_del r s = Some s1 \<and> grp_ok s1 \<and> grp_holds s1 = (grp_holds s)(r := (if n = 1 then None else Some (n - 1, ptr)))"
    using ref_del_spec [OF s] by blast
  show "n \<noteq> 0" using holdsE [OF s] by blast
qed

section \<open>Reachable states\<close>

lemma make_ok:
  assumes "grp_ok s" "gc_parent s = None" "vstr__ref_grp_make func s = (p, s1)"
  shows "grp_ok (s1\<lparr>gc_parent := p\<rparr>)"
proof -
  note m = make_spec [OF assms(1,3)]
  have "q < mk_cnt (gc_heap s1) \<and> grp_wf h \<and> (if p = Some q then grp_kept h else \<not> grp_kept h \<and> make_num h \<noteq> 0)" if "gc_grps s1 q = Some h" for q h
    using that m(1,2) m(5) [of q] okD [OF assms(1), of q h] new_wf [of func s] assms(2) by (cases p) (auto split: if_splits)
  then show ?thesis using m(1) by (auto simp: grp_ok_def split: option.splits)
qed

lemma step_ok: "grp_step s s1 \<Longrightarrow> grp_ok s \<Longrightarrow> grp_ok s1"
proof (induction rule: grp_step.induct)
  case (make s func p s1)
  then show ?case using make_ok by blast
next
  case (add s p ptr r s1)
  then show ?case using grp_add_spec [of s p ptr] by auto
next
  case (ref_add s r v s1)
  then show ?case using grp.incr_law [of s r] by (cases v) auto
next
  case (ref_del s r v s1)
  then show ?case using grp.decr_law [of s r] by (cases v) auto
next
  case (del_conf s s1)
  then show ?case using del_conf_spec [of s] by auto
qed

lemma reachable_ok:
  assumes "grp_step\<^sup>*\<^sup>* s0 s" "gc_grps s0 = (\<lambda>_. None)" "gc_parent s0 = None"
  shows "grp_ok s"
  using assms(1)
proof (induction rule: rtranclp_induct)
  case base
  then show ?case using assms(2,3) by (simp add: grp_ok_def)
next
  case (step s1 s2)
  then show ?case using step_ok by blast
qed

section \<open>Properties\<close>


text \<open>A configuration without blocks, and its state behind making a block and one reference.\<close>

definition ex_grp :: grp_conf where
  "ex_grp = \<lparr>gc_parent = None, gc_heap = \<lparr>mk_fail = (\<lambda>_. False), mk_cnt = 0, ref_cnt = (\<lambda>_. 0), ref_freed = []\<rparr>, gc_grps = (\<lambda>_. None),
     gc_junk = (\<lambda>_. \<lparr>gr_ref = 9, gr_ptr = 9, gr_func = True\<rparr>), gc_calls = []\<rparr>"

lemma ex_grp_run:
  obtains s where "grp_step\<^sup>*\<^sup>* ex_grp s" "gc_parent s = Some 0" "grp_holds s = (\<lambda>_. None)((0, 0) \<mapsto> (1, 7))" "gc_calls s = []"
proof -
  obtain s1 where s1: "vstr__ref_grp_make 5 ex_grp = (Some 0, s1)" "gc_grps s1 = (\<lambda>_. None)(0 \<mapsto> grp_new 5 ex_grp)" "gc_calls s1 = []"
    by (simp add: vstr__ref_grp_make_def VSTR_MK_def ex_grp_def)
  let ?s1 = "s1\<lparr>gc_parent := Some 0\<rparr>"
  have st1: "grp_step ex_grp ?s1" by (rule grp_step.make [OF _ s1(1)]) (simp add: ex_grp_def)
  then have ok: "grp_ok ?s1" by (rule step_ok) (simp add: ex_grp_def grp_ok_def)
  have new: "length (grp_refs (grp_new 5 ex_grp)) = 42" "make_num (grp_new 5 ex_grp) = 0" by (simp_all add: grp_new_def VSTR__REF_GRP_MAKE_SZ_def)
  have none: "grp_holds ?s1 = (\<lambda>_. None)" using s1(2) new(2) by (auto simp: grp_holds_def fun_eq_iff split: option.split)
  obtain s2 where s2: "vstr__ref_grp_add 7 ?s1 = Some (Some (0, 0), s2)" "gc_parent s2 = Some 0"
    using s1(2) new by (simp add: vstr__ref_grp_add_def grp_place_def Let_def VSTR__REF_GRP_MAKE_SZ_def)
  have "grp_holds s2 = (\<lambda>_. None)((0, 0) \<mapsto> (1, 7))" "gc_calls s2 = []" using grp_add_spec [OF ok, of 0 7] s2(1) s1(3) none by auto
  moreover have "grp_step ?s1 s2" by (rule grp_step.add [OF _ s2(1)]) simp
  ultimately show thesis using that s2(2) st1 by (meson converse_rtranclp_into_rtranclp r_into_rtranclp)
qed




end
