(* ===== verification/Vstr_Data.thy ===== *)
theory Vstr_Data
  imports Vstr_Cache
begin

text \<open>
  The table of named user data of a configuration: \<^verbatim>\<open>src/vstr_data.c\<close> and the two functions of \<^verbatim>\<open>include/vstr-inline.h\<close>. A position in the
  table is one more than the index of its entry; an entry without a name is deleted. Names are C strings, given by their bytes.
\<close>

section \<open>State\<close>

record data_usr =
  du_name :: "byte list option"
  du_data :: "vstr_ref option"

text \<open>The fields \<^verbatim>\<open>data_usr_*\<close> of \<^verbatim>\<open>Vstr_conf\<close>, with the allocator and the reference counters.\<close>

record data_conf =
  data_usr_ents :: "data_usr list"
  data_usr_len :: nat
  data_usr_sz :: nat
  dc_heap :: vstr_heap
  dc_malloc_bad :: bool

section \<open>Operations\<close>

text \<open>\<open>junk\<close> is what fresh memory holds.\<close>

definition vstr__data_conf_init :: "data_usr \<Rightarrow> vstr_heap \<Rightarrow> data_conf option \<times> vstr_heap" where
  "vstr__data_conf_init junk h =
     (case VSTR_MK h of
        (None, h1) \<Rightarrow> (None, h1)
      | (Some _, h1) \<Rightarrow> (Some \<lparr>data_usr_ents = [junk], data_usr_len = 0, data_usr_sz = 1, dc_heap = h1, dc_malloc_bad = False\<rparr>, h1))"

definition vstr__data_conf_free :: "data_conf \<Rightarrow> vstr_heap" where
  "vstr__data_conf_free c =
     fold (\<lambda>e h. if du_name e \<noteq> None then vstr_ref_del (du_data e) h else h) (take (data_usr_len c) (data_usr_ents c)) (dc_heap c)"

text \<open>\<^verbatim>\<open>pos++\<close> is part of the argument of \<^verbatim>\<open>strcmp()\<close>, which is evaluated for an entry with a name only.\<close>

partial_function (option) data_srch_loop :: "data_usr list \<Rightarrow> nat \<Rightarrow> byte list \<Rightarrow> nat \<Rightarrow> nat option" where
  "data_srch_loop ents len name pos =
     (if pos < len then
        (case du_name (ents ! pos) of
           None \<Rightarrow> data_srch_loop ents len name pos
         | Some n \<Rightarrow> if n = name then Some (pos + 1) else data_srch_loop ents len name (pos + 1))
      else Some 0)"

definition vstr_data_srch :: "data_conf \<Rightarrow> byte list \<Rightarrow> nat option" where
  "vstr_data_srch c name = data_srch_loop (data_usr_ents c) (data_usr_len c) name 0"

text \<open>The first entry at or behind an index that is deleted, or the end of the table.\<close>

function data_slot :: "data_usr list \<Rightarrow> nat \<Rightarrow> nat \<Rightarrow> nat" where
  "data_slot ents used len = (if len < used \<and> du_name (ents ! len) \<noteq> None then data_slot ents used (len + 1) else len)"
  by pat_completeness auto
termination
  by (relation "measure (\<lambda>(_, used, len). used - len)") auto

declare data_slot.simps [simp del]

definition data_grow :: "data_usr \<Rightarrow> data_conf \<Rightarrow> bool \<times> data_conf" where
  "data_grow junk c =
     (let sz = (data_usr_sz c * 2) mod 2 ^ 32 in
      case VSTR_MK (dc_heap c) of
        (None, h) \<Rightarrow> (False, c\<lparr>dc_heap := h, dc_malloc_bad := True\<rparr>)
      | (Some _, h) \<Rightarrow> (True, c\<lparr>data_usr_ents := realloc_list sz junk (data_usr_ents c), data_usr_sz := sz, dc_heap := h\<rparr>))"

definition vstr_data_add :: "data_usr \<Rightarrow> data_conf \<Rightarrow> byte list \<Rightarrow> vstr_ref option \<Rightarrow> nat \<times> data_conf" where
  "vstr_data_add junk c name data =
     (let len0 = (if data_usr_len c = data_usr_sz c then 0 else data_usr_len c);
          len = data_slot (data_usr_ents c) (data_usr_len c) len0;
          (ok, c1) = (if len = data_usr_sz c then data_grow junk c else (True, c))
      in if \<not> ok then (0, c1)
         else (len + 1, c1\<lparr>data_usr_ents := (data_usr_ents c1)[len := \<lparr>du_name = Some name, du_data = data\<rparr>],
                 dc_heap := (case data of None \<Rightarrow> dc_heap c1 | Some r \<Rightarrow> vstr_ref_add r (dc_heap c1)),
                 data_usr_len := (if data_usr_len c1 < len + 1 then len + 1 else data_usr_len c1)\<rparr>))"

text \<open>The length without the deleted entries at the end.\<close>

fun data_trim :: "data_usr list \<Rightarrow> nat \<Rightarrow> nat" where
  "data_trim ents 0 = 0"
| "data_trim ents (Suc pos) = (if du_name (ents ! pos) = None then data_trim ents pos else Suc pos)"

definition vstr_data_del :: "data_conf \<Rightarrow> nat \<Rightarrow> data_conf" where
  "vstr_data_del c pos =
     (if pos = 0 \<or> pos > data_usr_len c then c
      else
        let ents = (data_usr_ents c)[pos - 1 := \<lparr>du_name = None, du_data = None\<rparr>] in
        c\<lparr>data_usr_ents := ents, dc_heap := vstr_ref_del (du_data (data_usr_ents c ! (pos - 1))) (dc_heap c),
          data_usr_len := (if pos = data_usr_len c then data_trim ents pos else data_usr_len c)\<rparr>)"

definition vstr_data_get :: "data_conf \<Rightarrow> nat \<Rightarrow> byte list option" where
  "vstr_data_get c pos =
     (if pos = 0 \<or> pos > data_usr_len c then None else map_option ref_ptr (du_data (data_usr_ents c ! (pos - 1))))"

definition vstr_data_set :: "data_conf \<Rightarrow> nat \<Rightarrow> vstr_ref option \<Rightarrow> data_conf" where
  "vstr_data_set c pos ref =
     (if pos = 0 \<or> pos > data_usr_len c then c
      else
        let e = data_usr_ents c ! (pos - 1); h = vstr_ref_del (du_data e) (dc_heap c) in
        c\<lparr>data_usr_ents := (data_usr_ents c)[pos - 1 := e\<lparr>du_data := ref\<rparr>], dc_heap := (case ref of None \<Rightarrow> h | Some r \<Rightarrow> vstr_ref_add r h)\<rparr>)"

section \<open>The table\<close>

text \<open>What a table means: the name and the data at a position.\<close>

definition data_at :: "data_conf \<Rightarrow> nat \<Rightarrow> (byte list \<times> vstr_ref option) option" where
  "data_at c pos =
     (if pos = 0 \<or> pos > data_usr_len c then None
      else map_option (\<lambda>n. (n, du_data (data_usr_ents c ! (pos - 1)))) (du_name (data_usr_ents c ! (pos - 1))))"

definition data_ok :: "data_conf \<Rightarrow> bool" where
  "data_ok c \<longleftrightarrow> length (data_usr_ents c) = data_usr_sz c \<and> 0 < data_usr_sz c \<and> data_usr_len c \<le> data_usr_sz c \<and>
     (data_usr_len c \<noteq> 0 \<longrightarrow> du_name (data_usr_ents c ! (data_usr_len c - 1)) \<noteq> None)"

lemma data_slot_spec:
  assumes "len \<le> used"
  shows "len \<le> data_slot ents used len \<and> data_slot ents used len \<le> used \<and>
    (data_slot ents used len < used \<longrightarrow> du_name (ents ! data_slot ents used len) = None)"
  using assms
proof (induction ents used len rule: data_slot.induct)
  case (1 ents used len)
  then show ?case by (subst (1 2 3 4) data_slot.simps) (auto simp: Suc_le_eq)
qed

lemma data_trim_spec:
  "data_trim ents n \<le> n \<and> (data_trim ents n \<noteq> 0 \<longrightarrow> du_name (ents ! (data_trim ents n - 1)) \<noteq> None) \<and>
   (\<forall>i. data_trim ents n \<le> i \<and> i < n \<longrightarrow> du_name (ents ! i) = None)"
  by (induction n) (auto simp: less_Suc_eq)

text \<open>Room for one more entry: the table keeps its meaning.\<close>

lemma data_grow_spec:
  assumes ok: "data_ok c" "data_usr_sz c < 2 ^ 31" "data_grow junk c = (r, c1)"
  shows "data_ok c1 \<and> data_usr_len c1 = data_usr_len c \<and> data_at c1 = data_at c \<and>
    (if r then data_usr_sz c < data_usr_sz c1 else dc_malloc_bad c1)"
proof -
  have sz: "data_usr_sz c * 2 mod 2 ^ 32 = data_usr_sz c * 2" using ok(2) by simp
  have nth: "realloc_list n junk xs ! i = xs ! i" if "i < length xs" "length xs \<le> n" for i n xs
    using that by (simp add: realloc_list_def nth_append)
  have len: "length (realloc_list (data_usr_sz c * 2) junk (data_usr_ents c)) = data_usr_sz c * 2" using ok(1) by (simp add: realloc_list_def data_ok_def)
  have e: "i < data_usr_len c \<Longrightarrow> realloc_list (data_usr_sz c * 2) junk (data_usr_ents c) ! i = data_usr_ents c ! i" for i
    using ok(1) by (intro nth) (auto simp: data_ok_def)
  show ?thesis
    using ok(1,3) len e sz by (auto simp: data_grow_def VSTR_MK_def data_ok_def data_at_def fun_eq_iff Let_def split: if_splits)
qed

lemma data_put:
  assumes ok: "data_ok c" and i: "i < data_usr_sz c" "i \<le> data_usr_len c" "i < data_usr_len c \<longrightarrow> du_name (data_usr_ents c ! i) = None"
    and c1: "c1 = c\<lparr>data_usr_ents := (data_usr_ents c)[i := \<lparr>du_name = Some name, du_data = data\<rparr>], dc_heap := h,
      data_usr_len := (if data_usr_len c < i + 1 then i + 1 else data_usr_len c)\<rparr>"
  shows "data_ok c1 \<and> data_at c (i + 1) = None \<and> data_at c1 = (data_at c)(i + 1 \<mapsto> (name, data))"
proof (intro conjI)
  have len: "i < length (data_usr_ents c)" using ok i(1) by (simp add: data_ok_def)
  show "data_ok c1" using ok i len unfolding c1 by (auto simp: data_ok_def nth_list_update)
  show "data_at c (i + 1) = None" using i by (auto simp: data_at_def)
  show "data_at c1 = (data_at c)(i + 1 \<mapsto> (name, data))"
  proof
    fix p
    show "data_at c1 p = ((data_at c)(i + 1 \<mapsto> (name, data))) p"
      using i len unfolding c1 by (cases "p = i + 1") (auto simp: data_at_def nth_list_update)
  qed
qed

lemma data_add_spec:
  assumes ok: "data_ok c" "data_usr_sz c < 2 ^ 31" and add: "vstr_data_add junk c name data = (p, c1)"
  shows "data_ok c1 \<and> (if p = 0 then data_at c1 = data_at c \<and> dc_malloc_bad c1
    else data_at c p = None \<and> data_at c1 = (data_at c)(p \<mapsto> (name, data)))"
proof -
  let ?l0 = "if data_usr_len c = data_usr_sz c then 0 else data_usr_len c"
  let ?i = "data_slot (data_usr_ents c) (data_usr_len c) ?l0"
  have "?l0 \<le> data_usr_len c" by simp
  note slot = data_slot_spec [OF this, of "data_usr_ents c"]
  have le: "data_usr_len c \<le> data_usr_sz c" using ok(1) by (simp add: data_ok_def)
  obtain r c0 where c0: "(if ?i = data_usr_sz c then data_grow junk c else (True, c)) = (r, c0)" by fastforce
  have g: "data_ok c0 \<and> data_usr_len c0 = data_usr_len c \<and> data_at c0 = data_at c \<and> (\<not> r \<longrightarrow> dc_malloc_bad c0)"
    "r \<Longrightarrow> ?i < data_usr_sz c0"
    using c0 data_grow_spec [OF ok, of junk r c0] ok(1) slot le by (auto split: if_splits)
  show ?thesis
  proof (cases r)
    case False
    then show ?thesis using add c0 g by (simp add: vstr_data_add_def Let_def)
  next
    case True
    have "du_name (data_usr_ents c0 ! ?i) = None" if "?i < data_usr_len c0"
    proof -
      have lt: "?i < data_usr_len c" using that g(1) by argo
      then have "c0 = c" using c0 le by simp
      then show ?thesis using slot lt by metis
    qed
    then have "?i < data_usr_len c0 \<longrightarrow> du_name (data_usr_ents c0 ! ?i) = None" by blast
    from data_put [OF _ g(2) [OF True] _ this refl] show ?thesis
      using add c0 g(1) True slot by (auto simp: vstr_data_add_def Let_def)
  qed
qed

lemma data_del_spec:
  assumes "data_ok c" "pos \<noteq> 0" "pos \<le> data_usr_len c"
  shows "data_ok (vstr_data_del c pos) \<and> data_at (vstr_data_del c pos) = (data_at c)(pos := None)"
proof -
  let ?ents = "(data_usr_ents c)[pos - 1 := \<lparr>du_name = None, du_data = None\<rparr>]"
  note t = data_trim_spec [of ?ents pos]
  have len: "pos - 1 < length (data_usr_ents c)" using assms by (auto simp: data_ok_def)
  have name: "du_name (?ents ! i) = (if i = pos - 1 then None else du_name (data_usr_ents c ! i))" for i using len by (simp add: nth_list_update)
  have d: "data_usr_ents (vstr_data_del c pos) = ?ents" "data_usr_sz (vstr_data_del c pos) = data_usr_sz c"
      "data_usr_len (vstr_data_del c pos) = (if pos = data_usr_len c then data_trim ?ents pos else data_usr_len c)"
    using assms(2,3) by (simp_all add: vstr_data_del_def Let_def)
  have "data_ok (vstr_data_del c pos)"
  proof (cases "pos = data_usr_len c")
    case True
    moreover have "data_trim ?ents pos \<le> data_usr_sz c" using t assms(1,3) by (simp add: data_ok_def)
    ultimately show ?thesis using assms(1) t d by (simp add: data_ok_def)
  next
    case False
    moreover have "data_usr_len c - 1 \<noteq> pos - 1" using False assms(2,3) by linarith
    ultimately show ?thesis using assms(1) name d by (simp add: data_ok_def)
  qed
  moreover have "data_at (vstr_data_del c pos) q = ((data_at c)(pos := None)) q" for q
  proof (cases "q = 0 \<or> q = pos \<or> q > data_usr_len c")
    case True
    then show ?thesis using assms(3) conjunct1 [OF t] name [of "pos - 1"] d by (auto simp: data_at_def)
  next
    case False
    then have "?ents ! (q - 1) = data_usr_ents c ! (q - 1)" using assms(2) by (intro nth_list_update_neq) linarith
    moreover have "du_name (?ents ! (q - 1)) = None" if "pos = data_usr_len c" "q > data_trim ?ents pos"
    proof -
      have "data_trim ?ents pos \<le> q - 1" "q - 1 < pos" using False that by linarith+
      then show ?thesis using t by blast
    qed
    ultimately show ?thesis using False d by (auto simp: data_at_def)
  qed
  then have "data_at (vstr_data_del c pos) = (data_at c)(pos := None)" by blast
  ultimately show ?thesis by blast
qed

lemma data_set_spec:
  assumes "data_ok c" "data_at c pos = Some (name, data)"
  shows "data_ok (vstr_data_set c pos ref) \<and> data_at (vstr_data_set c pos ref) = (data_at c)(pos \<mapsto> (name, ref))"
proof -
  have pos: "pos \<noteq> 0" "pos \<le> data_usr_len c" "pos - 1 < length (data_usr_ents c)" "du_name (data_usr_ents c ! (pos - 1)) = Some name"
    using assms by (auto simp: data_at_def data_ok_def split: if_splits)
  have "data_ok (vstr_data_set c pos ref)" using assms(1) pos by (auto simp: data_ok_def vstr_data_set_def Let_def nth_list_update)
  moreover have "data_at (vstr_data_set c pos ref) q = ((data_at c)(pos \<mapsto> (name, ref))) q" for q
  proof (cases "q = 0 \<or> q = pos")
    case True
    then show ?thesis using pos by (auto simp: data_at_def vstr_data_set_def Let_def)
  next
    case False
    then have "q - 1 \<noteq> pos - 1" using pos(1) by linarith
    then show ?thesis using pos False by (simp add: data_at_def vstr_data_set_def Let_def)
  qed
  then have "data_at (vstr_data_set c pos ref) = (data_at c)(pos \<mapsto> (name, ref))" by blast
  ultimately show ?thesis by blast
qed

section \<open>Searching\<close>

text \<open>A search that comes to a deleted entry stays there.\<close>

lemma srch_loop_stuck:
  assumes "pos < len" "du_name (ents ! pos) = None"
  shows "data_srch_loop ents len name pos = None"
proof (rule ccontr)
  assume "data_srch_loop ents len name pos \<noteq> None"
  then obtain y where "data_srch_loop ents len name pos = Some y" by blast
  then have "\<not> (pos < len \<and> du_name (ents ! pos) = None)"
  proof (rule data_srch_loop.raw_induct [where P = "\<lambda>ents len name pos y. \<not> (pos < len \<and> du_name (ents ! pos) = None)", rotated])
    fix loop ents len name pos y
    assume "\<And>ents len name pos y. loop ents len name pos = Some y \<Longrightarrow> \<not> (pos < len \<and> du_name (ents ! pos) = None)"
      "(if pos < len then case du_name (ents ! pos) of None \<Rightarrow> loop ents len name pos
          | Some n \<Rightarrow> if n = name then Some (pos + 1) else loop ents len name (pos + 1) else Some 0) = Some y"
    then show "\<not> (pos < len \<and> du_name (ents ! pos) = None)" by fastforce
  qed
  then show False using assms by blast
qed

lemma srch_loop_eq:
  assumes "es = take len ents" "len \<le> length ents" "pos \<le> len"
  shows "data_srch_loop ents len name pos =
    (let k = length (takeWhile (\<lambda>e. du_name e \<noteq> None \<and> du_name e \<noteq> Some name) (drop pos es)) in
     if pos + k = len then Some 0 else if du_name (es ! (pos + k)) = None then None else Some (pos + k + 1))"
  using assms(3)
proof (induction "len - pos" arbitrary: pos)
  case 0
  then show ?case using assms(1) by (simp add: data_srch_loop.simps)
next
  case (Suc n)
  then have pos: "pos < len" by simp
  then have drop: "drop pos es = es ! pos # drop (Suc pos) es" and nth: "ents ! pos = es ! pos" using assms(1,2) Cons_nth_drop_Suc [of pos es] by simp_all
  show ?case
  proof (cases "du_name (es ! pos)")
    case None
    then show ?thesis using srch_loop_stuck [of pos len ents name] pos nth unfolding drop by simp
  next
    case (Some n')
    show ?thesis
    proof (cases "n' = name")
      case True
      then show ?thesis using Some pos nth unfolding drop by (simp add: data_srch_loop.simps)
    next
      case False
      have "n = len - Suc pos" "Suc pos \<le> len" using Suc.hyps(2) pos by simp_all
      from Suc.hyps(1) [OF this] show ?thesis using Some False pos nth unfolding drop by (subst data_srch_loop.simps) (simp add: Let_def)
    qed
  qed
qed

section \<open>Properties\<close>

text \<open>
  C15. The table of user data. Adding puts the name and the data at a position that was not in use, and fails only with an allocation, without
  a change; deleting takes the position out and setting replaces its data; the other positions keep their names and data. What was added can
  be read at its position.
\<close>

theorem data_table_correct:
  assumes "data_ok c" "data_usr_sz c < 2 ^ 31"
  shows "(case vstr_data_add junk c name data of (p, c1) \<Rightarrow> data_ok c1 \<and>
      (if p = 0 then data_at c1 = data_at c \<and> dc_malloc_bad c1
       else data_at c p = None \<and> data_at c1 = (data_at c)(p \<mapsto> (name, data)) \<and> vstr_data_get c1 p = map_option ref_ptr data)) \<and>
    (\<forall>pos. 0 < pos \<and> pos \<le> data_usr_len c \<longrightarrow> data_ok (vstr_data_del c pos) \<and> data_at (vstr_data_del c pos) = (data_at c)(pos := None)) \<and>
    (\<forall>pos n d ref. data_at c pos = Some (n, d) \<longrightarrow> data_ok (vstr_data_set c pos ref) \<and> data_at (vstr_data_set c pos ref) = (data_at c)(pos \<mapsto> (n, ref)))"
proof (intro conjI allI impI)
  obtain p c1 where add: "vstr_data_add junk c name data = (p, c1)" by fastforce
  note a = data_add_spec [OF assms add]
  have "vstr_data_get c1 p = map_option ref_ptr data" if "p \<noteq> 0"
  proof -
    have "data_at c1 p = Some (name, data)" using a that by simp
    then show ?thesis by (auto simp: data_at_def vstr_data_get_def split: if_splits)
  qed
  then show "case vstr_data_add junk c name data of (p, c1) \<Rightarrow> data_ok c1 \<and>
      (if p = 0 then data_at c1 = data_at c \<and> dc_malloc_bad c1
       else data_at c p = None \<and> data_at c1 = (data_at c)(p \<mapsto> (name, data)) \<and> vstr_data_get c1 p = map_option ref_ptr data)"
    using a add by simp
next
  fix pos
  assume "0 < pos \<and> pos \<le> data_usr_len c"
  then show "data_ok (vstr_data_del c pos)" "data_at (vstr_data_del c pos) = (data_at c)(pos := None)" using data_del_spec [OF assms(1)] by simp_all
next
  fix pos n d ref
  assume "data_at c pos = Some (n, d)"
  then show "data_ok (vstr_data_set c pos ref)" "data_at (vstr_data_set c pos ref) = (data_at c)(pos \<mapsto> (n, ref))"
    using data_set_spec [OF assms(1)] by simp_all
qed

text \<open>A table with two names, and the one in which the first of them is deleted.\<close>

definition ex_data :: data_conf where
  "ex_data = \<lparr>data_usr_ents = [\<lparr>du_name = Some [97], du_data = None\<rparr>, \<lparr>du_name = Some [98], du_data = None\<rparr>], data_usr_len = 2, data_usr_sz = 2,
     dc_heap = \<lparr>mk_fail = (\<lambda>_. False), mk_cnt = 0, ref_cnt = (\<lambda>_. 0), ref_freed = []\<rparr>, dc_malloc_bad = False\<rparr>"

lemma ex_data_ok: "data_ok ex_data" "data_usr_sz ex_data = 2" "data_usr_len ex_data = 2"
  by (simp_all add: data_ok_def ex_data_def)

theorem data_table_correct_witness:
  "data_ok (vstr_data_del ex_data 1) \<and> data_at (vstr_data_del ex_data 1) 1 = None \<and> data_at (vstr_data_del ex_data 1) 2 = Some ([98], None)"
proof -
  have "data_at ex_data 2 = Some ([98], None)" by (simp add: data_at_def ex_data_def)
  then show ?thesis using data_table_correct [OF ex_data_ok(1)] ex_data_ok(2,3) by simp
qed

text \<open>
  C16. Searching a name. The search looks at the entries in order. It gives the position of the first entry with the name, or 0 when there is
  none, provided that no deleted entry comes before; at a deleted entry it never returns.
\<close>

theorem data_srch_correct:
  assumes "data_ok c"
  shows "vstr_data_srch c name =
    (let es = take (data_usr_len c) (data_usr_ents c);
         k = length (takeWhile (\<lambda>e. du_name e \<noteq> None \<and> du_name e \<noteq> Some name) es)
     in if k = length es then Some 0 else if du_name (es ! k) = None then None else Some (k + 1))"
proof -
  let ?es = "take (data_usr_len c) (data_usr_ents c)"
  have len: "data_usr_len c = length ?es" using assms by (auto simp: data_ok_def)
  show ?thesis using srch_loop_eq [OF refl, of "data_usr_len c" "data_usr_ents c" 0 name] len by (simp add: vstr_data_srch_def Let_def)
qed

theorem data_srch_correct_witness: "vstr_data_srch ex_data [98] = Some 2 \<and> vstr_data_srch (vstr_data_del ex_data 1) [98] = None"
proof -
  have "data_ok (vstr_data_del ex_data 1)" using data_del_spec [OF ex_data_ok(1), of 1] ex_data_ok(3) by simp
  then show ?thesis
    using data_srch_correct [OF ex_data_ok(1), of "[98]"] data_srch_correct [of "vstr_data_del ex_data 1" "[98]"]
    by (simp add: ex_data_def vstr_data_del_def Let_def vstr_ref_del_def)
qed

end
