(* ===== verification/Vstr_Fmt_Usr.thy ===== *)
theory Vstr_Fmt_Usr
  imports Vstr_Srch_Case "HOL-Library.Sublist"
begin

text \<open>
  The table of format specifiers an application registers: \<^verbatim>\<open>src/vstr_fmt.c\<close>. As long as all names are in brackets, the nodes are in 37 lists
  by their second character; with the first other name they are moved to one list. Every list is ordered by the lengths of the names. Names and
  formats are C strings, given by their bytes without the null byte at the end.
\<close>

section \<open>State\<close>

text \<open>\<^verbatim>\<open>name_len\<close> is the length of the name and \<^verbatim>\<open>sz\<close> that of the types with the 0 at their end; \<open>fu_func\<close> names the function.\<close>

record fmt_usr =
  fu_name :: "byte list"
  fu_func :: nat
  fu_types :: "nat list"

record fmt_usr_conf =
  fmt_usr_names :: "fmt_usr list"
  fmt_usr_name_hash :: "fmt_usr list list"
  fmt_usr_curly_braces :: bool
  fmt_name_max :: nat
  fu_heap :: vstr_heap
  fu_malloc_bad :: bool

text \<open>The start of a configuration; \<^verbatim>\<open>fmt_name_max\<close> is not set there, so \<open>m\<close> is what the allocated memory holds.\<close>

definition fmt_usr_init :: "nat \<Rightarrow> vstr_heap \<Rightarrow> fmt_usr_conf" where
  "fmt_usr_init m h = \<lparr>fmt_usr_names = [], fmt_usr_name_hash = replicate 37 [], fmt_usr_curly_braces = True, fmt_name_max = m, fu_heap = h,
     fu_malloc_bad = False\<rparr>"

section \<open>Operations\<close>

definition vstr__fmt_beg :: "byte \<Rightarrow> nat" where
  "vstr__fmt_beg val =
     (if IS_ASCII_DIGIT val then unat val - 0x30
      else if \<not> IS_ASCII_ALPHA val then 36
      else 10 + unat (if IS_ASCII_UPPER val then TO_ASCII_LOWER val else val) - 0x61)"

definition VSTR__FMT_ADD_Q :: "byte list \<Rightarrow> byte \<Rightarrow> byte \<Rightarrow> bool" where
  "VSTR__FMT_ADD_Q name b1 b2 =
     (case name of
        [] \<Rightarrow> False
      | c # _ \<Rightarrow>
          c = b1 \<and> name ! (length name - 1) = b2 \<and>
          (length name = 2 \<or> length name > 2 \<and> b1 \<notin> set (take (length name - 2) (drop 1 name)) \<and>
             b2 \<notin> set (take (length name - 2) (drop 1 name))))"

definition fmt_add_quoted :: "byte list \<Rightarrow> bool" where
  "fmt_add_quoted name \<longleftrightarrow>
     VSTR__FMT_ADD_Q name 0x7B 0x7D \<or> VSTR__FMT_ADD_Q name 0x5B 0x5D \<or> VSTR__FMT_ADD_Q name 0x3C 0x3E \<or> VSTR__FMT_ADD_Q name 0x28 0x29"

text \<open>The list a name belongs to (\<^const>\<open>None\<close> for \<^verbatim>\<open>fmt_usr_names\<close>), and lists by this.\<close>

definition fmt_list :: "fmt_usr_conf \<Rightarrow> nat option \<Rightarrow> fmt_usr list" where
  "fmt_list c l = (case l of None \<Rightarrow> fmt_usr_names c | Some i \<Rightarrow> fmt_usr_name_hash c ! i)"

definition fmt_list_set :: "nat option \<Rightarrow> fmt_usr list \<Rightarrow> fmt_usr_conf \<Rightarrow> fmt_usr_conf" where
  "fmt_list_set l ns c =
     (case l of None \<Rightarrow> c\<lparr>fmt_usr_names := ns\<rparr> | Some i \<Rightarrow> c\<lparr>fmt_usr_name_hash := (fmt_usr_name_hash c)[i := ns]\<rparr>)"

fun fmt_srch_loop :: "byte list \<Rightarrow> fmt_usr list \<Rightarrow> nat option" where
  "fmt_srch_loop name [] = None"
| "fmt_srch_loop name (n # ns) = (if fu_name n = name then Some 0 else map_option Suc (fmt_srch_loop name ns))"

text \<open>The place of a name: its list and its index there.\<close>

definition vstr__fmt_usr_srch :: "fmt_usr_conf \<Rightarrow> byte list \<Rightarrow> (nat option \<times> nat) option" where
  "vstr__fmt_usr_srch c name =
     (if fmt_usr_curly_braces c then
        if \<not> fmt_add_quoted name then None
        else let l = Some (vstr__fmt_beg (name ! 1)) in map_option (Pair l) (fmt_srch_loop name (fmt_list c l))
      else map_option (Pair None) (fmt_srch_loop name (fmt_list c None)))"

fun vstr__fmt_insert :: "fmt_usr list \<Rightarrow> fmt_usr \<Rightarrow> fmt_usr list" where
  "vstr__fmt_insert [] node = [node]"
| "vstr__fmt_insert (n # ns) node = (if length (fu_name n) \<ge> length (fu_name node) then node # n # ns else n # vstr__fmt_insert ns node)"

definition vstr__fmt_flatten_hash :: "fmt_usr_conf \<Rightarrow> fmt_usr_conf" where
  "vstr__fmt_flatten_hash c =
     c\<lparr>fmt_usr_names := foldl vstr__fmt_insert (fmt_usr_names c) (concat (fmt_usr_name_hash c)),
       fmt_usr_name_hash := map (\<lambda>_. []) (fmt_usr_name_hash c)\<rparr>"

text \<open>The character that closes a bracket, and the place of a character in a string.\<close>

definition fmt_close :: "byte \<Rightarrow> byte option" where
  "fmt_close c = (if c = 0x7B then Some 0x7D else if c = 0x5B then Some 0x5D else if c = 0x3C then Some 0x3E else if c = 0x28 then Some 0x29 else None)"

definition strchr :: "byte list \<Rightarrow> byte \<Rightarrow> nat option" where
  "strchr s c = (let k = length (takeWhile (\<lambda>x. x \<noteq> c) s) in if k < length s then Some k else None)"

fun fmt_match_curly :: "byte list \<Rightarrow> nat \<Rightarrow> fmt_usr list \<Rightarrow> fmt_usr option" where
  "fmt_match_curly fmt len [] = None"
| "fmt_match_curly fmt len (n # ns) =
     (if length (fu_name n) = len \<and> fu_name n = take len fmt then Some n
      else if \<not> length (fu_name n) \<le> len then None
      else fmt_match_curly fmt len ns)"

fun fmt_match_flat :: "byte list \<Rightarrow> nat \<Rightarrow> fmt_usr list \<Rightarrow> fmt_usr option" where
  "fmt_match_flat fmt max_len [] = None"
| "fmt_match_flat fmt max_len (n # ns) =
     (if max_len \<ge> length (fu_name n) then
        if take (length (fu_name n)) fmt = fu_name n then Some n else fmt_match_flat fmt max_len ns
      else None)"

definition vstr__fmt_usr_match :: "fmt_usr_conf \<Rightarrow> byte list \<Rightarrow> fmt_usr option \<times> fmt_usr_conf" where
  "vstr__fmt_usr_match c fmt =
     (if fmt_usr_curly_braces c then
        (case fmt of
           [] \<Rightarrow> (None, c)
         | f # _ \<Rightarrow>
             (case fmt_close f of
                None \<Rightarrow> (None, c)
              | Some b \<Rightarrow>
                  (case strchr fmt b of
                     None \<Rightarrow> (None, c)
                   | Some ptr \<Rightarrow> (fmt_match_curly fmt (ptr + 1) (fmt_list c (Some (vstr__fmt_beg (fmt ! 1)))), c))))
      else
        let m = (if fmt_name_max c = 0 then fold (\<lambda>n m. if m < length (fu_name n) then length (fu_name n) else m) (fmt_usr_names c) 0
                 else fmt_name_max c)
        in (fmt_match_flat fmt (min (length fmt) m) (fmt_usr_names c), c\<lparr>fmt_name_max := m\<rparr>))"

text \<open>The node is allocated first and made larger for every type; \<open>types\<close> are the types up to the 0.\<close>

fun fmt_mv_types :: "vstr_heap \<Rightarrow> nat list \<Rightarrow> bool \<times> vstr_heap" where
  "fmt_mv_types h [] = (True, h)"
| "fmt_mv_types h (t # ts) = (case VSTR_MK h of (None, h1) \<Rightarrow> (False, h1) | (Some _, h1) \<Rightarrow> fmt_mv_types h1 ts)"

definition vstr_fmt_add :: "fmt_usr_conf \<Rightarrow> byte list \<Rightarrow> nat \<Rightarrow> nat list \<Rightarrow> bool \<times> fmt_usr_conf" where
  "vstr_fmt_add c name func types =
     (if vstr__fmt_usr_srch c name \<noteq> None then (False, c)
      else (case VSTR_MK (fu_heap c) of
              (None, h) \<Rightarrow> (False, c\<lparr>fu_heap := h, fu_malloc_bad := True\<rparr>)
            | (Some _, h) \<Rightarrow>
                let c0 = c\<lparr>fu_heap := h\<rparr>;
                    c1 = (if fmt_usr_curly_braces c0 \<and> \<not> fmt_add_quoted name then vstr__fmt_flatten_hash (c0\<lparr>fmt_usr_curly_braces := False\<rparr>)
                          else c0);
                    l = (if fmt_usr_curly_braces c1 then Some (vstr__fmt_beg (name ! 1)) else None)
                in (case fmt_mv_types (fu_heap c1) types of
                      (False, h1) \<Rightarrow> (False, c1\<lparr>fu_heap := h1, fu_malloc_bad := True\<rparr>)
                    | (True, h1) \<Rightarrow>
                        let node = \<lparr>fu_name = name, fu_func = func, fu_types = types\<rparr>;
                            m = (if fmt_list c1 l = [] \<or> fmt_name_max c1 \<noteq> 0 \<and> fmt_name_max c1 < length name then length name else fmt_name_max c1)
                        in (True, fmt_list_set l (vstr__fmt_insert (fmt_list c1 l) node) (c1\<lparr>fu_heap := h1, fmt_name_max := m\<rparr>)))))"

definition vstr_fmt_del :: "fmt_usr_conf \<Rightarrow> byte list \<Rightarrow> fmt_usr_conf" where
  "vstr_fmt_del c name =
     (let c1 = (case vstr__fmt_usr_srch c name of
                  None \<Rightarrow> c
                | Some (l, i) \<Rightarrow>
                    let ns = fmt_list c l; tmp = ns ! i
                    in (fmt_list_set l (take i ns @ drop (Suc i) ns) c)
                         \<lparr>fmt_name_max := (if length (fu_name tmp) = fmt_name_max c then 0 else fmt_name_max c)\<rparr>)
      in if \<not> fmt_usr_curly_braces c1 \<and> fmt_usr_names c1 = [] then c1\<lparr>fmt_usr_curly_braces := True\<rparr> else c1)"

definition vstr_fmt_srch :: "fmt_usr_conf \<Rightarrow> byte list \<Rightarrow> bool" where
  "vstr_fmt_srch c name \<longleftrightarrow> vstr__fmt_usr_srch c name \<noteq> None"

section \<open>The table\<close>

text \<open>All nodes; and the invariant: every list is ordered by length, has no name twice, and holds only names that belong there.\<close>

definition fmt_regs :: "fmt_usr_conf \<Rightarrow> fmt_usr set" where
  "fmt_regs c = set (fmt_usr_names c) \<union> set (concat (fmt_usr_name_hash c))"

definition fmt_list_ok :: "fmt_usr list \<Rightarrow> bool" where
  "fmt_list_ok ns \<longleftrightarrow> sorted (map (\<lambda>n. length (fu_name n)) ns) \<and> distinct (map fu_name ns)"

definition fmt_usr_ok :: "fmt_usr_conf \<Rightarrow> bool" where
  "fmt_usr_ok c \<longleftrightarrow> length (fmt_usr_name_hash c) = 37 \<and> fmt_list_ok (fmt_usr_names c) \<and>
     (\<forall>i < 37. fmt_list_ok (fmt_usr_name_hash c ! i) \<and>
        (\<forall>n \<in> set (fmt_usr_name_hash c ! i). fmt_add_quoted (fu_name n) \<and> vstr__fmt_beg (fu_name n ! 1) = i)) \<and>
     (if fmt_usr_curly_braces c then fmt_usr_names c = [] else \<forall>i < 37. fmt_usr_name_hash c ! i = [])"

definition fmt_home :: "fmt_usr_conf \<Rightarrow> byte list \<Rightarrow> nat option" where
  "fmt_home c name = (if fmt_usr_curly_braces c then Some (vstr__fmt_beg (name ! 1)) else None)"

lemma beg_lt: "vstr__fmt_beg v < 37"
proof -
  have "unat v < 256" using unsigned_less [of v] by simp
  moreover have "unat (v + 0x20) = unat v + 0x20" if "v \<le> 0x5A" using that by (simp add: word_le_nat_alt unat_word_ariths(1))
  ultimately show ?thesis by (auto simp: vstr__fmt_beg_def case_defs IS_ASCII_DIGIT_def word_le_nat_alt)
qed

lemma srch_loop_spec:
  "case fmt_srch_loop name ns of None \<Rightarrow> name \<notin> fu_name ` set ns | Some i \<Rightarrow> i < length ns \<and> fu_name (ns ! i) = name"
  by (induction ns) (auto split: option.splits)

lemma insert_spec:
  "set (vstr__fmt_insert ns n) = insert n (set ns)"
  "fmt_list_ok ns \<Longrightarrow> fu_name n \<notin> fu_name ` set ns \<Longrightarrow> fmt_list_ok (vstr__fmt_insert ns n)"
proof -
  show s: "set (vstr__fmt_insert ns n) = insert n (set ns)" for ns by (induction ns) auto
  show "fmt_list_ok ns \<Longrightarrow> fu_name n \<notin> fu_name ` set ns \<Longrightarrow> fmt_list_ok (vstr__fmt_insert ns n)"
    by (induction ns) (auto simp: fmt_list_ok_def s)
qed

lemma ok_hash:
  assumes "fmt_usr_ok c" "i < 37" "n \<in> set (fmt_usr_name_hash c ! i)"
  shows "fmt_add_quoted (fu_name n)" "vstr__fmt_beg (fu_name n ! 1) = i"
  using assms unfolding fmt_usr_ok_def by blast+

lemma regs_home:
  assumes "fmt_usr_ok c"
  shows "n \<in> fmt_regs c \<longleftrightarrow> n \<in> set (fmt_list c (fmt_home c (fu_name n)))"
proof (cases "fmt_usr_curly_braces c")
  case True
  have "n \<in> set (concat (fmt_usr_name_hash c)) \<longleftrightarrow> (\<exists>i < 37. n \<in> set (fmt_usr_name_hash c ! i))"
    using assms by (auto simp: fmt_usr_ok_def in_set_conv_nth [of _ "fmt_usr_name_hash c"]) (metis nth_mem)
  then show ?thesis
    using assms True beg_lt [of "fu_name n ! 1"] by (auto simp: fmt_regs_def fmt_home_def fmt_list_def fmt_usr_ok_def)
next
  case False
  have "concat (fmt_usr_name_hash c) = []" using assms False by (auto simp: fmt_usr_ok_def in_set_conv_nth)
  then have "fmt_regs c = set (fmt_usr_names c)" unfolding fmt_regs_def by (metis Un_empty_right list.set(1))
  then show ?thesis using False by (simp add: fmt_home_def fmt_list_def)
qed

lemma list_ok:
  assumes "fmt_usr_ok c"
  shows "fmt_list_ok (fmt_list c (fmt_home c name))"
  using assms beg_lt [of "name ! 1"] by (auto simp: fmt_usr_ok_def fmt_home_def fmt_list_def)

text \<open>The search finds a name that is registered, in its list.\<close>

lemma usr_srch_spec:
  assumes "fmt_usr_ok c"
  shows "case vstr__fmt_usr_srch c name of
      None \<Rightarrow> name \<notin> fu_name ` fmt_regs c
    | Some (l, i) \<Rightarrow> l = fmt_home c name \<and> i < length (fmt_list c l) \<and> fu_name (fmt_list c l ! i) = name"
proof (cases "fmt_usr_curly_braces c \<and> \<not> fmt_add_quoted name")
  case True
  have "fmt_add_quoted (fu_name n)" if "n \<in> fmt_regs c" for n
    using that True ok_hash(1) [OF assms beg_lt] unfolding regs_home [OF assms] by (simp add: fmt_home_def fmt_list_def)
  then have "name \<notin> fu_name ` fmt_regs c" using True by blast
  then show ?thesis using True by (simp add: vstr__fmt_usr_srch_def)
next
  case False
  let ?l = "fmt_home c name"
  have srch: "vstr__fmt_usr_srch c name = map_option (Pair ?l) (fmt_srch_loop name (fmt_list c ?l))"
    using False by (auto simp: vstr__fmt_usr_srch_def fmt_home_def Let_def)
  have "name \<notin> fu_name ` fmt_regs c" if "name \<notin> fu_name ` set (fmt_list c ?l)"
    using that regs_home [OF assms] by fastforce
  then show ?thesis using srch_loop_spec [of name "fmt_list c ?l"] unfolding srch by (auto split: option.splits)
qed

text \<open>Changing one list.\<close>

lemma list_set_spec:
  assumes ok: "fmt_usr_ok c" and l: "l = fmt_home c name"
    and ns: "fmt_list_ok ns" "\<And>n. n \<in> set ns \<Longrightarrow> n \<in> set (fmt_list c l) \<or> fu_name n = name" "fmt_usr_curly_braces c \<longrightarrow> fmt_add_quoted name"
  shows "fmt_usr_ok (fmt_list_set l ns c) \<and> fmt_regs (fmt_list_set l ns c) = (fmt_regs c - set (fmt_list c l)) \<union> set ns"
proof -
  let ?c = "fmt_list_set l ns c"
  have curly: "fmt_usr_curly_braces ?c = fmt_usr_curly_braces c" by (simp add: fmt_list_set_def split: option.split)
  have lists: "fmt_list ?c k = (if k = l then ns else fmt_list c k)" if "k = None \<or> (\<exists>i < 37. k = Some i)" for k
    using that ok by (auto simp: fmt_list_def fmt_list_set_def fmt_usr_ok_def split: option.split)
  have ok1: "fmt_usr_ok ?c"
  proof (cases "fmt_usr_curly_braces c")
    case True
    then have i: "l = Some (vstr__fmt_beg (name ! 1))" by (simp add: l fmt_home_def)
    show ?thesis
      using ok ns True beg_lt [of "name ! 1"] unfolding i by (auto simp: fmt_usr_ok_def fmt_list_set_def fmt_list_def nth_list_update)
  next
    case False
    then show ?thesis using ok ns l by (auto simp: fmt_usr_ok_def fmt_list_set_def fmt_home_def)
  qed
  have home: "fmt_home ?c m = fmt_home c m" for m by (simp add: fmt_home_def curly)
  have val: "fmt_home c m = None \<or> (\<exists>i < 37. fmt_home c m = Some i)" for m by (simp add: fmt_home_def beg_lt)
  have mem: "fmt_home c (fu_name n) = l" if "n \<in> set (fmt_list c l)" for n
    using that ok_hash(2) [OF ok beg_lt] unfolding l by (auto simp: fmt_home_def fmt_list_def split: if_splits)
  have "n \<in> fmt_regs ?c \<longleftrightarrow> n \<in> (fmt_regs c - set (fmt_list c l)) \<union> set ns" for n
    using regs_home [OF ok1, of n] regs_home [OF ok, of n] lists [OF val [of "fu_name n"]] home [of "fu_name n"] mem [of n] ns(2) [of n] l
    by (cases "fmt_home c (fu_name n) = l") auto
  then show ?thesis using ok1 by blast
qed

lemma frame_simps [simp]:
  "fmt_usr_ok (c\<lparr>fu_heap := h\<rparr>) = fmt_usr_ok c" "fmt_usr_ok (c\<lparr>fmt_name_max := m\<rparr>) = fmt_usr_ok c" "fmt_usr_ok (c\<lparr>fu_malloc_bad := b\<rparr>) = fmt_usr_ok c"
  "fmt_regs (c\<lparr>fu_heap := h\<rparr>) = fmt_regs c" "fmt_regs (c\<lparr>fmt_name_max := m\<rparr>) = fmt_regs c" "fmt_regs (c\<lparr>fu_malloc_bad := b\<rparr>) = fmt_regs c"
  "fmt_list (c\<lparr>fu_heap := h\<rparr>) l = fmt_list c l" "fmt_list (c\<lparr>fmt_name_max := m\<rparr>) l = fmt_list c l"
  "fmt_home (c\<lparr>fu_heap := h\<rparr>) n = fmt_home c n" "fmt_home (c\<lparr>fmt_name_max := m\<rparr>) n = fmt_home c n"
  by (simp_all add: fmt_usr_ok_def fmt_regs_def fmt_list_def fmt_home_def split: option.split)

text \<open>Moving all nodes to one list.\<close>

lemma foldl_insert:
  assumes "fmt_list_ok acc" "distinct (map fu_name (acc @ xs))"
  shows "fmt_list_ok (foldl vstr__fmt_insert acc xs) \<and> set (foldl vstr__fmt_insert acc xs) = set acc \<union> set xs"
  using assms
proof (induction xs arbitrary: acc)
  case (Cons x xs)
  have "fmt_list_ok (vstr__fmt_insert acc x)" using Cons.prems by (intro insert_spec(2)) auto
  moreover have "distinct (map fu_name (vstr__fmt_insert acc x @ xs))"
    using Cons.prems(2) \<open>fmt_list_ok (vstr__fmt_insert acc x)\<close> by (auto simp: fmt_list_ok_def insert_spec(1))
  ultimately show ?case using Cons.IH [of "vstr__fmt_insert acc x"] by (simp add: insert_spec(1))
qed simp

lemma hash_distinct:
  assumes "fmt_usr_ok c" "k \<le> 37"
  shows "distinct (map fu_name (concat (take k (fmt_usr_name_hash c))))"
  using assms(2)
proof (induction k)
  case (Suc k)
  let ?h = "fmt_usr_name_hash c"
  have k: "k < length ?h" "k < 37" "distinct (map fu_name (?h ! k))" using assms(1) Suc.prems by (simp_all add: fmt_usr_ok_def fmt_list_ok_def)
  have "vstr__fmt_beg (fu_name n ! 1) < k" if n: "n \<in> set (concat (take k ?h))" for n
  proof -
    obtain ys where ys: "ys \<in> set (take k ?h)" "n \<in> set ys" using n unfolding set_concat by blast
    obtain i where "i < length (take k ?h)" "take k ?h ! i = ys" using ys(1) unfolding in_set_conv_nth by blast
    then have "i < k" "n \<in> set (?h ! i)" using ys(2) by auto
    then show ?thesis using ok_hash(2) [OF assms(1), of i n] k(2) by simp
  qed
  moreover have "vstr__fmt_beg (fu_name n ! 1) = k" if "n \<in> set (?h ! k)" for n using ok_hash(2) [OF assms(1) k(2) that] .
  ultimately have "fu_name m \<noteq> fu_name n" if "m \<in> set (concat (take k ?h))" "n \<in> set (?h ! k)" for m n using that by fastforce
  then have "fu_name ` set (concat (take k ?h)) \<inter> fu_name ` set (?h ! k) = {}" by blast
  then show ?case using Suc k by (simp add: take_Suc_conv_app_nth)
qed simp

lemma flatten_spec:
  assumes ok: "fmt_usr_ok c" and curly: "fmt_usr_curly_braces c"
  shows "fmt_usr_ok (vstr__fmt_flatten_hash (c\<lparr>fmt_usr_curly_braces := False\<rparr>)) \<and>
    fmt_regs (vstr__fmt_flatten_hash (c\<lparr>fmt_usr_curly_braces := False\<rparr>)) = fmt_regs c"
proof -
  let ?h = "fmt_usr_name_hash c"
  have len: "length ?h = 37" "fmt_usr_names c = []" using ok curly by (simp_all add: fmt_usr_ok_def)
  have "distinct (map fu_name ([] @ concat ?h))" using hash_distinct [OF ok, of 37] len(1) by simp
  from foldl_insert [OF _ this] have f: "fmt_list_ok (foldl vstr__fmt_insert [] (concat ?h))" "set (foldl vstr__fmt_insert [] (concat ?h)) = set (concat ?h)"
    by (simp_all add: fmt_list_ok_def)
  have e: "fmt_list_ok []" by (simp add: fmt_list_ok_def)
  have "map (\<lambda>_. []) ?h ! i = []" if "i < 37" for i using that len(1) by simp
  then have "fmt_usr_ok (vstr__fmt_flatten_hash (c\<lparr>fmt_usr_curly_braces := False\<rparr>))"
    using f(1) len e by (simp add: fmt_usr_ok_def vstr__fmt_flatten_hash_def)
  moreover have "set (concat (map (\<lambda>_. []) ?h)) = {}" by simp
  ultimately show ?thesis using f(2) len(2) by (simp add: fmt_regs_def vstr__fmt_flatten_hash_def)
qed

lemma usr_srch_node:
  assumes ok: "fmt_usr_ok c" and srch: "vstr__fmt_usr_srch c name = Some (l, i)"
  shows "l = fmt_home c name" "i < length (fmt_list c l)" "fu_name (fmt_list c l ! i) = name" "fmt_list c l ! i \<in> fmt_regs c"
proof -
  have s: "l = fmt_home c name \<and> i < length (fmt_list c l) \<and> fu_name (fmt_list c l ! i) = name"
    using usr_srch_spec [OF ok, of name] unfolding srch option.case prod.case .
  then show s1: "l = fmt_home c name" "i < length (fmt_list c l)" "fu_name (fmt_list c l ! i) = name" by blast+
  have "fmt_list c l ! i \<in> set (fmt_list c l)" using s1(2) by (rule nth_mem)
  then show "fmt_list c l ! i \<in> fmt_regs c" using regs_home [OF ok] s1(1,3) by metis
qed

text \<open>The node goes to the list of its name.\<close>

lemma fmt_put:
  assumes ok: "fmt_usr_ok c" and new: "fu_name n \<notin> fu_name ` fmt_regs c" and q: "fmt_usr_curly_braces c \<longrightarrow> fmt_add_quoted (fu_name n)"
    and l: "l = fmt_home c (fu_name n)"
  shows "fmt_usr_ok (fmt_list_set l (vstr__fmt_insert (fmt_list c l) n) c) \<and>
    fmt_regs (fmt_list_set l (vstr__fmt_insert (fmt_list c l) n) c) = insert n (fmt_regs c)"
proof -
  have sub: "fu_name m \<noteq> fu_name n" if "m \<in> set (fmt_list c l)" for m
  proof
    assume e: "fu_name m = fu_name n"
    then have "m \<in> fmt_regs c" using that regs_home [OF ok, of m] by (simp add: l)
    then show False using new e by (metis imageI)
  qed
  then have "fu_name n \<notin> fu_name ` set (fmt_list c l)" by (metis imageE)
  then have "fmt_list_ok (vstr__fmt_insert (fmt_list c l) n)" using insert_spec(2) list_ok [OF ok] unfolding l by blast
  from list_set_spec [OF ok l this _ q] have s: "fmt_usr_ok (fmt_list_set l (vstr__fmt_insert (fmt_list c l) n) c)"
      "fmt_regs (fmt_list_set l (vstr__fmt_insert (fmt_list c l) n) c) = (fmt_regs c - set (fmt_list c l)) \<union> insert n (set (fmt_list c l))"
    by (auto simp: insert_spec(1))
  have "set (fmt_list c l) \<subseteq> fmt_regs c"
  proof
    fix m
    assume m: "m \<in> set (fmt_list c l)"
    show "m \<in> fmt_regs c"
    proof (cases "fmt_usr_curly_braces c")
      case True
      then have "vstr__fmt_beg (fu_name m ! 1) = vstr__fmt_beg (fu_name n ! 1)"
        using m ok_hash(2) [OF ok beg_lt] by (simp add: l fmt_home_def fmt_list_def)
      then show ?thesis using m regs_home [OF ok, of m] True by (simp add: l fmt_home_def)
    next
      case False
      then show ?thesis using m regs_home [OF ok, of m] by (simp add: l fmt_home_def)
    qed
  qed
  then show ?thesis using s by blast
qed

lemma fmt_add_spec:
  assumes ok: "fmt_usr_ok c" and add: "vstr_fmt_add c name func types = (r, c1)"
  shows "fmt_usr_ok c1 \<and>
    (if r then name \<notin> fu_name ` fmt_regs c \<and> fmt_regs c1 = insert \<lparr>fu_name = name, fu_func = func, fu_types = types\<rparr> (fmt_regs c)
     else fmt_regs c1 = fmt_regs c \<and> (name \<in> fu_name ` fmt_regs c \<and> c1 = c \<or> fu_malloc_bad c1))"
proof (cases "vstr__fmt_usr_srch c name")
  case (Some li)
  obtain l i where li: "li = (l, i)" by (cases li)
  have "name \<in> fu_name ` fmt_regs c" using usr_srch_node(3,4) [OF ok, of name l i] Some li by (metis imageI)
  then show ?thesis using add Some ok by (auto simp: vstr_fmt_add_def)
next
  case None
  then have new: "name \<notin> fu_name ` fmt_regs c" using usr_srch_spec [OF ok, of name] by simp
  obtain mk h where mk: "VSTR_MK (fu_heap c) = (mk, h)" by fastforce
  show ?thesis
  proof (cases mk)
    case None
    then show ?thesis using add mk \<open>vstr__fmt_usr_srch c name = None\<close> ok by (auto simp: vstr_fmt_add_def)
  next
    case (Some a)
    define c0 where "c0 = (if fmt_usr_curly_braces (c\<lparr>fu_heap := h\<rparr>) \<and> \<not> fmt_add_quoted name
      then vstr__fmt_flatten_hash (c\<lparr>fu_heap := h\<rparr>\<lparr>fmt_usr_curly_braces := False\<rparr>) else c\<lparr>fu_heap := h\<rparr>)"
    have c0: "fmt_usr_ok c0" "fmt_regs c0 = fmt_regs c" "fmt_usr_curly_braces c0 \<longrightarrow> fmt_add_quoted name"
      using flatten_spec [of "c\<lparr>fu_heap := h\<rparr>"] ok by (auto simp: c0_def vstr__fmt_flatten_hash_def)
    define l where "l = fmt_home c0 name"
    have l: "(if fmt_usr_curly_braces c0 then Some (vstr__fmt_beg (name ! 1)) else None) = l" by (simp add: l_def fmt_home_def)
    obtain t h1 where t: "fmt_mv_types (fu_heap c0) types = (t, h1)" by fastforce
    let ?n = "\<lparr>fu_name = name, fu_func = func, fu_types = types\<rparr>"
    define c2 where "c2 = c0\<lparr>fu_heap := h1, fmt_name_max := (if fmt_list c0 l = [] \<or> fmt_name_max c0 \<noteq> 0 \<and> fmt_name_max c0 < length name
      then length name else fmt_name_max c0)\<rparr>"
    have c2: "fmt_usr_ok c2" "fmt_regs c2 = fmt_regs c" "fmt_usr_curly_braces c2 = fmt_usr_curly_braces c0" "fmt_list c2 l = fmt_list c0 l"
        "fmt_home c2 name = l"
      using c0(1,2) by (simp_all add: c2_def l_def)
    have run: "vstr_fmt_add c name func types =
        (if t then (True, fmt_list_set l (vstr__fmt_insert (fmt_list c0 l) ?n) c2) else (False, c0\<lparr>fu_heap := h1, fu_malloc_bad := True\<rparr>))"
      unfolding vstr_fmt_add_def Let_def None mk Some option.case prod.case c0_def [symmetric] l t c2_def by (simp split: bool.split)
    show ?thesis
    proof (cases t)
      case True
      then have c1: "r" "c1 = fmt_list_set l (vstr__fmt_insert (fmt_list c2 l) ?n) c2" using add unfolding run c2(4) by simp_all
      have "fmt_usr_ok c1 \<and> fmt_regs c1 = insert ?n (fmt_regs c2)" unfolding c1(2) using new c0(3) c2 by (intro fmt_put) simp_all
      then show ?thesis using c1(1) new c2(2) by simp
    next
      case False
      then have "\<not> r" "c1 = c0\<lparr>fu_heap := h1, fu_malloc_bad := True\<rparr>" using add unfolding run by simp_all
      then show ?thesis using c0(1,2) by simp
    qed
  qed
qed

text \<open>A node is cut out of its list.\<close>

lemma list_cut:
  assumes "fmt_list_ok ns" "i < length ns"
  shows "fmt_list_ok (take i ns @ drop (Suc i) ns)" "set (take i ns @ drop (Suc i) ns) = {n \<in> set ns. fu_name n \<noteq> fu_name (ns ! i)}"
proof -
  have ns: "ns = take i ns @ ns ! i # drop (Suc i) ns" using assms(2) by (rule id_take_nth_drop)
  define a x b where "a = take i ns" and "x = ns ! i" and "b = drop (Suc i) ns"
  have e: "ns = a @ x # b" using ns unfolding a_def x_def b_def .
  have ok: "fmt_list_ok (a @ x # b)" using assms(1) unfolding e .
  show "fmt_list_ok (take i ns @ drop (Suc i) ns)"
    using ok unfolding a_def [symmetric] b_def [symmetric] by (auto simp: fmt_list_ok_def sorted_append)
  have "set (a @ b) = {n \<in> set (a @ x # b). fu_name n \<noteq> fu_name x}" using ok by (auto simp: fmt_list_ok_def image_iff)
  then show "set (take i ns @ drop (Suc i) ns) = {n \<in> set ns. fu_name n \<noteq> fu_name (ns ! i)}"
    unfolding e [symmetric] unfolding a_def b_def x_def .
qed

lemma list_regs:
  assumes ok: "fmt_usr_ok c" and n: "n \<in> set (fmt_list c (fmt_home c name))"
  shows "fmt_home c (fu_name n) = fmt_home c name" "n \<in> fmt_regs c"
proof -
  show h: "fmt_home c (fu_name n) = fmt_home c name"
    using n ok_hash(2) [OF ok beg_lt] by (auto simp: fmt_home_def fmt_list_def split: if_splits)
  show "n \<in> fmt_regs c" unfolding regs_home [OF ok] h by (rule n)
qed

lemma fmt_del_spec:
  assumes ok: "fmt_usr_ok c"
  shows "fmt_usr_ok (vstr_fmt_del c name) \<and> fmt_regs (vstr_fmt_del c name) = {n \<in> fmt_regs c. fu_name n \<noteq> name}"
proof -
  have reset: "fmt_usr_ok (c\<lparr>fmt_usr_curly_braces := True\<rparr>) \<and> fmt_regs (c\<lparr>fmt_usr_curly_braces := True\<rparr>) = fmt_regs c"
    if "fmt_usr_ok c" "fmt_usr_names c = []" for c
    using that by (auto simp: fmt_usr_ok_def fmt_regs_def)
  have fin: "fmt_usr_ok d \<and> fmt_regs d = R"
    if "fmt_usr_ok c1 \<and> fmt_regs c1 = R" "d = (if \<not> fmt_usr_curly_braces c1 \<and> fmt_usr_names c1 = [] then c1\<lparr>fmt_usr_curly_braces := True\<rparr> else c1)"
    for c1 R d using that reset [of c1] by simp
  show ?thesis
  proof (cases "vstr__fmt_usr_srch c name")
    case None
    then have "name \<notin> fu_name ` fmt_regs c" using usr_srch_spec [OF ok, of name] by simp
    then have "fmt_usr_ok c \<and> fmt_regs c = {n \<in> fmt_regs c. fu_name n \<noteq> name}" using ok by blast
    then show ?thesis by (rule fin) (simp add: vstr_fmt_del_def None)
  next
    case (Some li)
    obtain l i where li: "li = (l, i)" by (cases li)
    note node = usr_srch_node [OF ok Some [unfolded li]]
    let ?ns = "take i (fmt_list c l) @ drop (Suc i) (fmt_list c l)"
    have "fmt_list_ok (fmt_list c l)" unfolding node(1) by (rule list_ok [OF ok])
    note cut = list_cut [OF this node(2), unfolded node(3)]
    have q: "fmt_usr_curly_braces c \<longrightarrow> fmt_add_quoted name" using Some by (auto simp: vstr__fmt_usr_srch_def split: if_splits)
    have "fmt_usr_ok (fmt_list_set l ?ns c) \<and> fmt_regs (fmt_list_set l ?ns c) = (fmt_regs c - set (fmt_list c l)) \<union> set ?ns"
      using cut(2) by (intro list_set_spec [OF ok node(1) cut(1) _ q]) blast
    moreover have "n \<in> set (fmt_list c l)" if "n \<in> fmt_regs c" "fu_name n = name" for n
      using that regs_home [OF ok, of n] by (simp add: node(1))
    moreover have "set (fmt_list c l) \<subseteq> fmt_regs c" using list_regs(2) [OF ok] unfolding node(1) by blast
    ultimately have "fmt_usr_ok (fmt_list_set l ?ns c) \<and> fmt_regs (fmt_list_set l ?ns c) = {n \<in> fmt_regs c. fu_name n \<noteq> name}"
      unfolding cut(2) by blast
    then have "fmt_usr_ok (fmt_list_set l ?ns c\<lparr>fmt_name_max := m\<rparr>) \<and>
        fmt_regs (fmt_list_set l ?ns c\<lparr>fmt_name_max := m\<rparr>) = {n \<in> fmt_regs c. fu_name n \<noteq> name}" for m by simp
    then show ?thesis by (rule fin) (simp add: vstr_fmt_del_def Some li Let_def)
  qed
qed

lemma regs_inj:
  assumes ok: "fmt_usr_ok c"
  shows "inj_on fu_name (fmt_regs c)"
proof (rule inj_onI)
  fix m n
  assume mn: "m \<in> fmt_regs c" "n \<in> fmt_regs c" "fu_name m = fu_name n"
  have "inj_on fu_name (set (fmt_list c (fmt_home c (fu_name n))))" using list_ok [OF ok] by (simp add: fmt_list_ok_def distinct_map)
  then show "m = n" using mn regs_home [OF ok, of m] regs_home [OF ok, of n] unfolding inj_on_def by simp
qed

section \<open>Matching\<close>

lemma match_curly_spec:
  "fmt_list_ok ns \<Longrightarrow> fmt_match_curly fmt len ns = Some n \<longleftrightarrow> n \<in> set ns \<and> fu_name n = take len fmt \<and> length (fu_name n) = len"
  by (induction ns) (auto simp: fmt_list_ok_def image_iff split: if_splits)

lemma match_flat_spec:
  "sorted (map (\<lambda>n. length (fu_name n)) ns) \<Longrightarrow>
    case fmt_match_flat fmt m ns of
      None \<Rightarrow> \<forall>n \<in> set ns. length (fu_name n) \<le> m \<longrightarrow> \<not> prefix (fu_name n) fmt
    | Some n \<Rightarrow> n \<in> set ns \<and> prefix (fu_name n) fmt \<and> (\<forall>k \<in> set ns. prefix (fu_name k) fmt \<longrightarrow> length (fu_name n) \<le> length (fu_name k))"
proof (induction ns)
  case (Cons x ns)
  have p: "take (length (fu_name x)) fmt = fu_name x \<longleftrightarrow> prefix (fu_name x) fmt" by (metis prefix_def append_eq_conv_conj take_is_prefix)
  show ?case using Cons by (auto simp: p split: option.splits)
qed simp

lemma quoted_prefix:
  assumes "fmt_add_quoted name" "prefix name fmt"
  shows "\<exists>b. fmt \<noteq> [] \<and> fmt_close (hd fmt) = Some b \<and> strchr fmt b = Some (length name - 1) \<and> length name \<ge> 2"
proof -
  obtain b1 b2 where q: "VSTR__FMT_ADD_Q name b1 b2" "fmt_close b1 = Some b2" "b1 \<noteq> b2"
    using assms(1) unfolding fmt_add_quoted_def by (auto simp: fmt_close_def)
  then obtain t where t: "name = b1 # t" "t \<noteq> []" "last t = b2" "b2 \<notin> set (butlast t)"
    by (auto simp: VSTR__FMT_ADD_Q_def last_conv_nth butlast_conv_take nth_Cons' split: list.splits if_splits)
  then have name: "name = b1 # butlast t @ [b2]" by (metis append_butlast_last_id)
  then obtain r where "fmt = b1 # butlast t @ b2 # r" using assms(2) by (auto simp: prefix_def)
  moreover have "takeWhile (\<lambda>x. x \<noteq> b2) (butlast t @ b2 # r) = butlast t" using t(4) by (subst takeWhile_append2) auto
  ultimately show ?thesis using q(2,3) name by (auto simp: strchr_def Let_def)
qed

lemma fold_max:
  fixes ns :: "fmt_usr list"
  shows "m \<le> fold (\<lambda>n m. if m < length (fu_name n) then length (fu_name n) else m) ns m \<and>
    (\<forall>n \<in> set ns. length (fu_name n) \<le> fold (\<lambda>n m. if m < length (fu_name n) then length (fu_name n) else m) ns m)"
proof (induction ns arbitrary: m)
  case (Cons x ns)
  show ?case using Cons [of "if m < length (fu_name x) then length (fu_name x) else m"] by (auto split: if_splits)
qed simp

text \<open>With all names in brackets, the length of the only name that can match is known from the format.\<close>

lemma match_brackets:
  assumes ok: "fmt_usr_ok c" and curly: "fmt_usr_curly_braces c"
  shows "fst (vstr__fmt_usr_match c fmt) = Some n \<longleftrightarrow> n \<in> fmt_regs c \<and> prefix (fu_name n) fmt"
proof
  assume "n \<in> fmt_regs c \<and> prefix (fu_name n) fmt"
  then have n: "n \<in> set (fmt_list c (Some (vstr__fmt_beg (fu_name n ! 1))))" and p: "prefix (fu_name n) fmt"
    using regs_home [OF ok, of n] curly by (simp_all add: fmt_home_def)
  have "fmt_add_quoted (fu_name n)" using ok_hash(1) [OF ok beg_lt] n by (simp add: fmt_list_def)
  from quoted_prefix [OF this p] obtain b where b: "fmt \<noteq> []" "fmt_close (hd fmt) = Some b" "strchr fmt b = Some (length (fu_name n) - 1)" "length (fu_name n) \<ge> 2"
    by blast
  have t: "take (length (fu_name n)) fmt = fu_name n" "fmt ! 1 = fu_name n ! 1" using p b(4) by (auto simp: prefix_def nth_append)
  have len: "Suc (length (fu_name n) - Suc 0) = length (fu_name n)" using b(4) by simp
  obtain f fs where f: "fmt = f # fs" using b(1) by (cases fmt) auto
  have "fmt_list_ok (fmt_list c (Some (vstr__fmt_beg (fu_name n ! 1))))" using list_ok [OF ok, of "fu_name n"] curly by (simp add: fmt_home_def)
  from match_curly_spec [OF this, of fmt "length (fu_name n)" n] show "fst (vstr__fmt_usr_match c fmt) = Some n"
    using curly b f t n len by (simp add: vstr__fmt_usr_match_def)
next
  assume m: "fst (vstr__fmt_usr_match c fmt) = Some n"
  then obtain b ptr where m1: "fmt_match_curly fmt (ptr + 1) (fmt_list c (Some (vstr__fmt_beg (fmt ! 1)))) = Some n"
    using curly by (auto simp: vstr__fmt_usr_match_def split: list.splits option.splits)
  have h: "fmt_home c fmt = Some (vstr__fmt_beg (fmt ! 1))" using curly by (simp add: fmt_home_def)
  have "n \<in> set (fmt_list c (fmt_home c fmt))" "fu_name n = take (ptr + 1) fmt"
    using m1 match_curly_spec [OF list_ok [OF ok, of fmt, unfolded h]] unfolding h by blast+
  then show "n \<in> fmt_regs c \<and> prefix (fu_name n) fmt" using list_regs(2) [OF ok] take_is_prefix by metis
qed

section \<open>Properties\<close>

lemma fmt_srch_spec:
  assumes ok: "fmt_usr_ok c"
  shows "vstr_fmt_srch c name \<longleftrightarrow> name \<in> fu_name ` fmt_regs c"
proof (cases "vstr__fmt_usr_srch c name")
  case None
  then show ?thesis using usr_srch_spec [OF ok, of name] by (simp add: vstr_fmt_srch_def)
next
  case (Some li)
  obtain l i where "li = (l, i)" by (cases li)
  then have "name \<in> fu_name ` fmt_regs c" using usr_srch_node(3,4) [OF ok, of name l i] Some by (metis imageI)
  then show ?thesis using Some by (simp add: vstr_fmt_srch_def)
qed

lemma init_ok: "fmt_usr_ok (fmt_usr_init m h)" "fmt_regs (fmt_usr_init m h) = {}"
  by (simp_all add: fmt_usr_ok_def fmt_usr_init_def fmt_list_ok_def fmt_regs_def)

text \<open>A heap on which every allocation succeeds, and three names: \<^verbatim>\<open>{ab}\<close> and \<^verbatim>\<open>{b}\<close> in brackets and \<^verbatim>\<open>x\<close> without.\<close>

definition fmt_ex_heap :: vstr_heap where
  "fmt_ex_heap = \<lparr>mk_fail = \<lambda>_. False, mk_cnt = 0, ref_cnt = \<lambda>_. 0, ref_freed = []\<rparr>"

definition fmt_ex_conf :: fmt_usr_conf where
  "fmt_ex_conf = snd (vstr_fmt_add (snd (vstr_fmt_add (snd (vstr_fmt_add (fmt_usr_init 0 fmt_ex_heap)
     [0x7B, 0x61, 0x62, 0x7D] 1 [])) [0x7B, 0x62, 0x7D] 2 [])) [0x78] 3 [])"

text \<open>
  The length of the longest name is lost when a node is the first of its list: after the three names are added it is 3, so that
  \<^verbatim>\<open>{ab}\<close> is registered but not found in a format.
\<close>

lemma fmt_name_max_short:
  "vstr_fmt_srch fmt_ex_conf [0x7B, 0x61, 0x62, 0x7D] \<and> fst (vstr__fmt_usr_match fmt_ex_conf [0x7B, 0x61, 0x62, 0x7D]) = None \<and>
    fmt_name_max fmt_ex_conf = 3"
  by code_simp

text \<open>
  C17. The table behaves as a finite set of formatters with unique names, in both of its forms (37 lists by the second character as long as all names
  are in brackets, one list afterwards): searching tells if a name is registered; adding succeeds with exactly the new formatter added, or reports
  failure with the set unchanged, either for a name that was there or after an allocation failed; deleting removes exactly the given name. All
  keep the invariant (lists ordered by length, each node in the list of its name).
\<close>

theorem fmt_usr_table:
  assumes ok: "fmt_usr_ok c" and add: "vstr_fmt_add c name func types = (r, c1)"
  shows "inj_on fu_name (fmt_regs c) \<and> (vstr_fmt_srch c name \<longleftrightarrow> name \<in> fu_name ` fmt_regs c) \<and>
    fmt_usr_ok c1 \<and>
    (if r then name \<notin> fu_name ` fmt_regs c \<and> fmt_regs c1 = insert \<lparr>fu_name = name, fu_func = func, fu_types = types\<rparr> (fmt_regs c)
     else fmt_regs c1 = fmt_regs c \<and> (name \<in> fu_name ` fmt_regs c \<and> c1 = c \<or> fu_malloc_bad c1)) \<and>
    fmt_usr_ok (vstr_fmt_del c name) \<and> fmt_regs (vstr_fmt_del c name) = {n \<in> fmt_regs c. fu_name n \<noteq> name}"
  using regs_inj [OF ok] fmt_srch_spec [OF ok, of name] fmt_add_spec [OF ok add] fmt_del_spec [OF ok, of name] by blast

theorem fmt_usr_table_witness:
  "fst (vstr_fmt_add (fmt_usr_init 0 fmt_ex_heap) [0x7B, 0x61, 0x7D] 7 [3]) \<and>
    fmt_regs (snd (vstr_fmt_add (fmt_usr_init 0 fmt_ex_heap) [0x7B, 0x61, 0x7D] 7 [3])) = {\<lparr>fu_name = [0x7B, 0x61, 0x7D], fu_func = 7, fu_types = [3]\<rparr>}"
proof -
  have r: "fst (vstr_fmt_add (fmt_usr_init 0 fmt_ex_heap) [0x7B, 0x61, 0x7D] 7 [3])" by code_simp
  then show ?thesis
    using fmt_usr_table [OF init_ok(1) prod.collapse [symmetric], of 0 fmt_ex_heap "[0x7B, 0x61, 0x7D]" 7 "[3]"] unfolding init_ok(2) by simp
qed

text \<open>
  C18. Reading a format finds the shortest registered name the text at the current place starts with, and finds one exactly when there is one. This
  needs the length kept for the longest name to be right (or 0, not known) when names without brackets are registered.
\<close>

theorem fmt_usr_match_correct:
  assumes ok: "fmt_usr_ok c" and mx: "fmt_usr_curly_braces c \<or> fmt_name_max c = 0 \<or> (\<forall>n \<in> fmt_regs c. length (fu_name n) \<le> fmt_name_max c)"
  shows "case fst (vstr__fmt_usr_match c fmt) of
      None \<Rightarrow> \<forall>n \<in> fmt_regs c. \<not> prefix (fu_name n) fmt
    | Some n \<Rightarrow> n \<in> fmt_regs c \<and> prefix (fu_name n) fmt \<and> (\<forall>k \<in> fmt_regs c. prefix (fu_name k) fmt \<longrightarrow> length (fu_name n) \<le> length (fu_name k))"
proof (cases "fmt_usr_curly_braces c")
  case True
  note m = match_brackets [OF ok True, of fmt]
  show ?thesis
  proof (cases "fst (vstr__fmt_usr_match c fmt)")
    case None
    then show ?thesis using m by simp
  next
    case (Some n)
    then have "k = n" if "k \<in> fmt_regs c" "prefix (fu_name k) fmt" for k using m [of k] that by simp
    then show ?thesis using Some m by fastforce
  qed
next
  case False
  have regs: "fmt_regs c = set (fmt_usr_names c)" using regs_home [OF ok] False by (auto simp: fmt_home_def fmt_list_def)
  obtain m where m: "fst (vstr__fmt_usr_match c fmt) = fmt_match_flat fmt (min (length fmt) m) (fmt_usr_names c)" "\<forall>n \<in> fmt_regs c. length (fu_name n) \<le> m"
    using False mx fold_max [of 0 "fmt_usr_names c"] unfolding vstr__fmt_usr_match_def regs
    by (cases "fmt_name_max c = 0") (auto simp: Let_def)
  define l where "l = min (length fmt) m"
  have le: "length (fu_name n) \<le> l" if "n \<in> fmt_regs c" "prefix (fu_name n) fmt" for n
    using m(2) that prefix_length_le [of "fu_name n" fmt] by (simp add: l_def)
  have "sorted (map (\<lambda>n. length (fu_name n)) (fmt_usr_names c))" using ok by (simp add: fmt_usr_ok_def fmt_list_ok_def)
  note spec = match_flat_spec [OF this, of l fmt, folded regs]
  show ?thesis
  proof (cases "fmt_match_flat fmt l (fmt_usr_names c)")
    case None
    then have "\<forall>n \<in> fmt_regs c. length (fu_name n) \<le> l \<longrightarrow> \<not> prefix (fu_name n) fmt" using spec by simp
    then show ?thesis using le unfolding m(1) l_def [symmetric] None by auto
  next
    case (Some n)
    then show ?thesis using spec unfolding m(1) l_def [symmetric] by simp
  qed
qed

theorem fmt_usr_match_correct_witness:
  "case fst (vstr__fmt_usr_match (snd (vstr_fmt_add (fmt_usr_init 0 fmt_ex_heap) [0x78] 3 [])) [0x78, 0x79]) of
     None \<Rightarrow> False | Some n \<Rightarrow> prefix (fu_name n) [0x78, 0x79]"
proof -
  let ?c = "snd (vstr_fmt_add (fmt_usr_init 0 fmt_ex_heap) [0x78] 3 [])"
  have a: "vstr_fmt_add (fmt_usr_init 0 fmt_ex_heap) [0x78] 3 [] = (True, ?c)"
    by (rule prod_eqI) (simp_all, code_simp)
  have ok: "fmt_usr_ok ?c" using fmt_add_spec [OF init_ok(1) a] by blast
  have regs: "fmt_regs ?c = {\<lparr>fu_name = [0x78], fu_func = 3, fu_types = []\<rparr>}" using fmt_add_spec [OF init_ok(1) a] init_ok(2) by simp
  have "fmt_name_max ?c = 1" by code_simp
  then show ?thesis using fmt_usr_match_correct [OF ok, of "[0x78, 0x79]"] unfolding regs by (auto split: option.splits)
qed

end
