(* ===== verification/Spec2Isabelle.thy ===== *)
theory Spec2Isabelle
  imports Vstr_Del Vstr_Iter Vstr_Export Vstr_Parse_Ip Vstr_Uri Vstr_Fmt Vstr_Netstr Vstr_Ref_Grp Vstr_Data Vstr_Fmt_Usr
begin

text \<open>
  A verification development for the Vstr string library.

  \<^bold>\<open>The program.\<close> A string is a list of nodes: \<^verbatim>\<open>BUF\<close> nodes hold bytes of their own, \<^verbatim>\<open>PTR\<close> and \<^verbatim>\<open>REF\<close> nodes point to memory of the
  application, \<^verbatim>\<open>NON\<close> nodes have a length and no data. The first node may have bytes at its start that are deleted already (\<^verbatim>\<open>base->used\<close>).
  Strings share configurations, which own pools of spare nodes; every operation that needs nodes reserves them in the pools first. A string
  caches the node of the last position looked up, an array of iovecs that describes its nodes, and a C string; every change runs callbacks
  that keep the caches in step. On top of positions, additions and deletions the library has iteration, comparison, searches, parsing,
  sections, substitution, conversions, formatted output and netstrings.

  \<^bold>\<open>How it is modelled.\<close> Every function is a HOL function on the record of the string, named as in the source; it returns the result and the
  new string. \<^verbatim>\<open>size_t\<close> values are natural numbers, with the wrap-around of a subtraction written out (\<open>size_sub\<close>) where the source can run into
  it; 32 bit counters are reduced where they can wrap; numbers that are parsed are words of their width. A pointer to a node is its index in
  the list, and a node keeps the identity of its allocation. Allocation failures are decided by the allocator in the heap record, so that
  theorems can speak about every pattern of failures; \<^verbatim>\<open>ASSERT()\<close> and \<^verbatim>\<open>assert()\<close> are off, as in a release build.

  The theories, in the order they build on each other:

  \<^item> \<^emph>\<open>Vstr_Prelude\<close>: bytes, positions, the content of a string as a list of optional bytes (no byte inside a \<^verbatim>\<open>NON\<close> node), insertion and deletion in lists, subtraction of \<^verbatim>\<open>size_t\<close>.
  \<^item> \<^emph>\<open>Vstr_Types\<close>: the data of \<^verbatim>\<open>include/vstr-def.h\<close>: nodes of the four types, references with their counters, configurations with their pools of spare nodes, caches, the string record \<^verbatim>\<open>Vstr_base\<close>; the allocator as a function that tells which allocations fail; the checks \<^verbatim>\<open>vstr__check_real_nodes()\<close> and \<^verbatim>\<open>vstr__check_spare_nodes()\<close> as the well-formedness of a string, and its content.
  \<^item> \<^emph>\<open>Vstr_Spare\<close>: making, freeing, reserving and giving back spare nodes (\<^verbatim>\<open>src/vstr.c\<close>, \<^verbatim>\<open>src/vstr_cntl.c\<close>). No node is ever in two places: a step relation on the identities of nodes is kept by every operation.
  \<^item> \<^emph>\<open>Vstr_Cache\<close>: the position cache, the iovec array and the cached C string with their callbacks (\<^verbatim>\<open>src/vstr_cache.c\<close> and parts of \<^verbatim>\<open>src/vstr_add.c\<close>, \<^verbatim>\<open>src/vstr_del.c\<close>).
  \<^item> \<^emph>\<open>Vstr_Base\<close>: looking up a position through the cache, splitting a node, the invariant of a string. The lookup with its short cuts equals the plain walk.
  \<^item> \<^emph>\<open>Vstr_Add\<close>: the five functions that add data (\<^verbatim>\<open>src/vstr_add.c\<close> and the inline fast paths): what they do on every path, failed allocations included, and that the fast path equals the general one.
  \<^item> \<^emph>\<open>Vstr_Iovec\<close>: the iovec array describes the nodes in order: allocation, growth, appending; and the two ways in which prepending breaks it.
  \<^item> \<^emph>\<open>Vstr_Del\<close>: deletions with both fast paths (\<^verbatim>\<open>src/vstr_del.c\<close>).
  \<^item> \<^emph>\<open>Vstr_Iter, Vstr_Range, Vstr_Scan\<close>: iteration over the pieces of a range forwards (\<^verbatim>\<open>include/vstr-inline.h\<close>) and backwards (\<^verbatim>\<open>include/vstr-nx-inline.h\<close>). The locale \<open>chunk_iter\<close> states what the loops of the other components rely on and is interpreted for both directions.
  \<^item> \<^emph>\<open>Vstr_Export\<close>: copying a range to a buffer or an array of buffers, and iovecs that point into the nodes (\<^verbatim>\<open>src/vstr_export.c\<close>).
  \<^item> \<^emph>\<open>Vstr_Cmp, Vstr_Vers\<close>: comparison byte by byte, without regard to case, and as versions (\<^verbatim>\<open>src/vstr_cmp.c\<close>). The locale \<open>mem_compare\<close> is interpreted for the exact and the folding comparison; the comparison of versions refines a definition that reads one character at a time.
  \<^item> \<^emph>\<open>Vstr_Spn, Vstr_Srch, Vstr_Srch_Rev, Vstr_Srch_Case\<close>: spans and searches for characters, buffers and ranges from both ends (\<^verbatim>\<open>src/vstr_spn.c\<close>, \<^verbatim>\<open>src/vstr_srch.c\<close>, \<^verbatim>\<open>src/vstr_srch_case.c\<close>). The locales \<open>pattern_scan\<close>, \<open>fwd_search\<close> and \<open>range_search\<close> carry the loops, each interpreted for the exact searches and for those without regard to case.
  \<^item> \<^emph>\<open>Vstr_Parse, Vstr_Parse_Ip\<close>: numbers at 16, 32 and 64 bits and IPv4 addresses (\<^verbatim>\<open>src/vstr_parse.c\<close>). The locale \<open>digit_calc\<close> is interpreted for the arithmetic of the three widths; wrap-around is that of the words.
  \<^item> \<^emph>\<open>Vstr_Sects, Vstr_Split\<close>: the growing array of sections, the callback that keeps sections in step with a string, and splitting at a buffer or at characters (\<^verbatim>\<open>src/vstr_sect.c\<close>, \<^verbatim>\<open>src/vstr_split.c\<close>). The locale \<open>splitter\<close> is interpreted for both split functions.
  \<^item> \<^emph>\<open>Vstr_Frame\<close>: what additions and deletions leave alone, for reasoning about sequences of changes.
  \<^item> \<^emph>\<open>Vstr_Sub\<close>: substitution of a range by a buffer, by positions without data or by a repeated character (\<^verbatim>\<open>src/vstr_sub.c\<close>).
  \<^item> \<^emph>\<open>Vstr_Conv, Vstr_Uri\<close>: conversions in place: case, characters that cannot be printed, URIs (\<^verbatim>\<open>src/vstr_conv.c\<close>).
  \<^item> \<^emph>\<open>Vstr_Fmt_Num, Vstr_Fmt\<close>: formatted output (\<^verbatim>\<open>src/vstr_add_fmt.c\<close>, \<^verbatim>\<open>src/vstr_cntl.c\<close>, \<^verbatim>\<open>include/vstr-def.h\<close>): locales and the grouping of digits, the output of numbers, characters and strings with width, precision and flags, the parser of formats, the assignment of arguments to specifiers and the writing of them one after the other. The locale \<open>fmt_writer\<close> states that an output function adds one text behind a position and is interpreted for every function that writes.
  \<^item> \<^emph>\<open>Vstr_Netstr\<close>: netstrings in both forms (\<^verbatim>\<open>src/vstr_add_netstr.c\<close>, \<^verbatim>\<open>src/vstr_parse_netstr.c\<close>), and that formatted numbers are parsed back.
  \<^item> \<^emph>\<open>Vstr_Ref_Grp\<close>: the blocks from which a configuration hands out references (\<^verbatim>\<open>src/vstr_ref.c\<close>) as a step relation: in every reachable state they refine a table of counters, and no block leaks. The locale \<open>ref_counts\<close> states what holders of references rely on.
  \<^item> \<^emph>\<open>Vstr_Data\<close>: the table of named user data of a configuration (\<^verbatim>\<open>src/vstr_data.c\<close>).
  \<^item> \<^emph>\<open>Vstr_Fmt_Usr\<close>: the table of format specifiers an application registers (\<^verbatim>\<open>src/vstr_fmt.c\<close>): it behaves as a set of formatters with unique names, and which of them a format selects.

  \<^bold>\<open>What is shown.\<close> Additions, deletions and substitutions do to the content exactly what inserting, deleting and replacing does to a list, keep the
  invariant \<open>vstr_inv\<close> (well-formed nodes, pools and flags, no node in two places, a valid position cache), and report failed allocations. Reading
  functions leave the string unchanged but for the position cache, and their results are functions of the content of the range: comparison is
  the lexicographic order, searches find the first or last match, spans count, parsing gives the value. Optimised paths equal the general
  ones. Splitting gives the fields of the range. Encoding and decoding of URIs are inverse but for one character. Formatted output adds
  the text that a definition on lists gives for the format and its arguments; numbers and netstrings are read back.

  \<^bold>\<open>Loops.\<close> Loops over nodes or bytes recur on the length of a list or the length left, with a measure where it is not structural. The loops that move by the
  length of an argument of the application (the slow backward searches, the search for a range, the split functions) are partial
  functions into the option type, for which \<open>None\<close> means that the loop does not end; theorems about them state that a value is returned. No
  definition uses fuel.

  \<^bold>\<open>Bounds.\<close> Lengths of added data are at most \<^verbatim>\<open>UINT_MAX\<close> where the source computes the number of nodes in 32 bits, and a string with its used bytes is
  shorter than \<open>2 ^ 63\<close> bytes, which every address space guarantees. Substitution and the conversions are proved for strings of \<^verbatim>\<open>BUF\<close> nodes: with other
  nodes in the range the general routine of \<^verbatim>\<open>vstr_sub_buf()\<close> is wrong (\<open>sub_remove_mixed\<close>).

  \<^bold>\<open>Not modelled.\<close> Of formatted output, the digits of floating point numbers (code of the C library: a parameter), wide characters and the
  calls of functions an application registers (their table is modelled); set up of the library and most control options; reading and writing of files (\<^verbatim>\<open>src/vstr_sc_posix.c\<close>);
  slots of caches the application registers; substitution by pointers, references and ranges, adding, moving and duplicating ranges
  (\<^verbatim>\<open>src/vstr_add.c\<close>, \<^verbatim>\<open>src/vstr_mov.c\<close>, \<^verbatim>\<open>src/vstr_dup.c\<close>), which share references between strings and need a store of
  strings; IPv6 addresses, and the export of C strings and references.
\<close>

section \<open>Properties that span components\<close>

text \<open>
  C4. Round trip. Adding a buffer to a string and deleting as many bytes from behind the same position
  gives back the content the string had, if both succeed.
\<close>

theorem add_then_del:
  assumes "vstr_inv base" "pos \<le> b_len base" "length buf \<le> UINT_MAX" "b_len base + length buf + b_used base1 < 2 ^ 63"
    and "vstr_add_buf base pos buf = (True, base1)" "vstr_del base1 (pos + 1) (length buf) = (True, base2)"
  shows "vstr_inv base2 \<and> vstr_data base2 = vstr_data base"
proof -
  have wf: "wf_base base" using assms(1) by (simp add: vstr_inv_def)
  have 1: "vstr_inv base1" "vstr_data base1 = ins_at pos (map Some buf) (vstr_data base)"
    using add_buf_result [OF assms(1-3)] assms(5) by (simp_all add: add_result_def)
  then have wf1: "wf_base base1" by (simp add: vstr_inv_def)
  have len: "b_len base1 = length buf + b_len base"
    using vstr_data_length [OF wf1] vstr_data_length [OF wf] 1(2) by simp
  have "fits_mem base1" using assms(4) len by (simp add: fits_mem_def)
  then have "del_result base1 (pos + 1) (length buf) (True, base2)"
    using vstr_del_spec [OF 1(1), of "pos + 1" "length buf"] assms(2,6) len by simp
  then show ?thesis
    using 1(2) assms(2) vstr_data_length [OF wf] del_at_ins_at [of pos "vstr_data base" "map Some buf"]
    by (simp add: del_result_def)
qed

theorem add_then_del_witness:
  "case vstr_add_buf ex_abc 6 [1, 2] of (r, b1) \<Rightarrow>
     r \<and> vstr_data (snd (vstr_del b1 7 2)) = vstr_data ex_abc"
proof -
  have f: "vstr_add_buf ex_abc 6 [1, 2] = (True, add_fast ex_abc (Src_buf [1, 2]))"
    by (simp add: vstr_add_buf_def add_fast_ok_def ex_conf_def) (simp add: ex_abc_def ex_base_def)
  have b: "b_len (add_fast ex_abc (Src_buf [1, 2])) = 8" "b_used (add_fast ex_abc (Src_buf [1, 2])) = 0"
    "fst (vstr_del (add_fast ex_abc (Src_buf [1, 2])) 7 2)"
    by (simp_all add: vstr_del_def add_fast_def Let_def ex_abc_def ex_base_def vec_map_def del_end_len_def size_sub_def
        SIZE_MOD_def vstr_sc_posdiff_def)
  then have "vstr_del (add_fast ex_abc (Src_buf [1, 2])) 7 2 =
      (True, snd (vstr_del (add_fast ex_abc (Src_buf [1, 2])) 7 2))"
    by (metis prod.collapse)
  then show ?thesis
    using add_then_del [of ex_abc 6 "[1, 2]", OF _ _ _ _ f] b f by (simp add: UINT_MAX_def flip: numeral_2_eq_2)
qed

end
